(* ===== verification/Prelude.thy ===== *)
theory Prelude
  imports Main "HOL-Library.Word" "HOL-Library.AList" "HOL-Library.Multiset" "HOL-Library.List_Lexorder"
begin

text \<open>
  Shared vocabulary of the development: the machine types of the Go sources
  (\<open>byte\<close>, \<open>uint64\<close>, byte slices), the three ways a Go function can end
  (a result, an error value, a panic), the big-endian encodings of
  \<^verbatim>\<open>encoding/binary\<close> and \<^verbatim>\<open>math/big\<close>, and generic facts on association lists.

  A Go map that is iterated with \<^verbatim>\<open>range\<close> is an association list: its entries in
  the order in which the iteration happens to visit them, with distinct keys.
  A Go map that is only read and written by key is a map \<open>'k \<rightharpoonup> 'v\<close>.
\<close>

section \<open>Machine types and results\<close>

type_synonym byte = "8 word"
type_synonym u64 = "64 word"
type_synonym bytes = "byte list"

text \<open>A call returns a value, returns a non-nil error, or panics.\<close>

datatype (dead 'e, 'a) res = Ok 'a | Err 'e | Panic

fun res_bind :: "('e, 'a) res \<Rightarrow> ('a \<Rightarrow> ('e, 'b) res) \<Rightarrow> ('e, 'b) res" where
  "res_bind (Ok a) f = f a"
| "res_bind (Err e) f = Err e"
| "res_bind Panic f = Panic"

named_theorems res_elims \<open>inversion of computations that returned a value\<close>

lemma res_bind_Ok [simp]: "res_bind r f = Ok b \<longleftrightarrow> (\<exists>a. r = Ok a \<and> f a = Ok b)"
  by (cases r) auto

lemma res_bind_cong [fundef_cong]:
  "r = r' \<Longrightarrow> (\<And>a. r' = Ok a \<Longrightarrow> f a = g a) \<Longrightarrow> res_bind r f = res_bind r' g"
  by (cases r') auto

text \<open>A loop that may not end has the type \<open>('e, 'a) res option\<close>: \<open>None\<close> is a run that does
  not return. \<open>run_bind\<close> sequences such runs.\<close>

fun run_bind :: "('e, 'a) res option \<Rightarrow> ('a \<Rightarrow> ('e, 'b) res option) \<Rightarrow> ('e, 'b) res option" where
  "run_bind None f = None"
| "run_bind (Some (Ok a)) f = f a"
| "run_bind (Some (Err e)) f = Some (Err e)"
| "run_bind (Some Panic) f = Some Panic"

text \<open>A caller that panics on an error.\<close>

definition err_panic :: "('e, 'a) res option \<Rightarrow> ('e, 'a) res option" where
  "err_panic r = (case r of Some (Err e) \<Rightarrow> Some Panic | _ \<Rightarrow> r)"

lemma run_bind_bind: "run_bind r f = Option.bind r (\<lambda>x. case x of Ok a \<Rightarrow> f a | Err e \<Rightarrow> Some (Err e) | Panic \<Rightarrow> Some Panic)"
  by (cases "(r, f)" rule: run_bind.cases) auto

lemma run_bind_mono [partial_function_mono]:
  assumes "mono_option B" "\<And>y. mono_option (\<lambda>f. C y f)"
  shows "mono_option (\<lambda>f. run_bind (B f) (\<lambda>y. C y f))"
  unfolding run_bind_bind
proof (rule bind_mono [OF assms(1)])
  fix x
  show "mono_option (\<lambda>f. case x of Ok a \<Rightarrow> C a f | Err e \<Rightarrow> Some (Err e) | Panic \<Rightarrow> Some Panic)"
    using assms(2) by (cases x) (simp_all add: option.const_mono)
qed

lemma run_bind_Ok: "run_bind r f = Some (Ok b) \<longleftrightarrow> (\<exists>a. r = Some (Ok a) \<and> f a = Some (Ok b))"
  by (cases "(r, f)" rule: run_bind.cases) auto

lemma run_bind_cong [fundef_cong]:
  "r = r' \<Longrightarrow> (\<And>a. r' = Some (Ok a) \<Longrightarrow> f a = g a) \<Longrightarrow> run_bind r f = run_bind r' g"
  by (cases "(r', f)" rule: run_bind.cases) auto

section \<open>Big-endian integers\<close>

text \<open>
  \<open>be_nat\<close> is \<^verbatim>\<open>new(big.Int).SetBytes\<close>: a byte slice of any length read as an
  unsigned big-endian number. \<open>be_bytes n\<close> writes the low \<open>n\<close> bytes of a number.
\<close>

definition be_nat :: "bytes \<Rightarrow> nat" where
  "be_nat bs = foldl (\<lambda>a b. a * 256 + unat b) 0 bs"

primrec be_bytes :: "nat \<Rightarrow> nat \<Rightarrow> bytes" where
  "be_bytes 0 n = []"
| "be_bytes (Suc k) n = be_bytes k (n div 256) @ [word_of_nat n]"

text \<open>\<^verbatim>\<open>binary.BigEndian.PutUint64\<close> into a fresh 8-byte slice, and \<^verbatim>\<open>binary.BigEndian.Uint64\<close>,
  which reads the first eight bytes of its argument and panics when there are fewer.\<close>

definition put_uint64 :: "u64 \<Rightarrow> bytes" where
  "put_uint64 v = be_bytes 8 (unat v)"

definition u64_of :: "bytes \<Rightarrow> u64" where
  "u64_of bs = word_of_nat (be_nat (take 8 bs))"

definition get_uint64 :: "bytes \<Rightarrow> ('e, u64) res" where
  "get_uint64 bs = (if length bs < 8 then Panic else Ok (u64_of bs))"

text \<open>The same number in little-endian order.\<close>

definition le_uint64 :: "u64 \<Rightarrow> bytes" where
  "le_uint64 v = rev (put_uint64 v)"

text \<open>\<^verbatim>\<open>PutUint64(b, v)\<close> on an existing slice overwrites its first eight bytes.\<close>

definition set_uint64 :: "bytes \<Rightarrow> u64 \<Rightarrow> bytes" where
  "set_uint64 bs v = put_uint64 v @ drop 8 bs"

text \<open>The bytes of a Go string constant, and the length of a slice that may be nil.\<close>

definition str_bytes :: "string \<Rightarrow> bytes" where
  "str_bytes s = map of_char s"

definition olen :: "bytes option \<Rightarrow> nat" where
  "olen b = (case b of None \<Rightarrow> 0 | Some bs \<Rightarrow> length bs)"

lemma be_nat_Nil [simp]: "be_nat [] = 0"
  by (simp add: be_nat_def)

lemma be_nat_snoc [simp]: "be_nat (bs @ [b]) = be_nat bs * 256 + unat b"
  by (simp add: be_nat_def)

lemma length_be_bytes [simp]: "length (be_bytes k n) = k"
  by (induction k arbitrary: n) auto

lemma unat_byte_of_nat [simp]: "unat (word_of_nat n :: byte) = n mod 256"
  by (simp add: unat_of_nat)

lemma unat_byte_less [simp]: "unat (b :: byte) < 256"
  using unsigned_less [of b, where ?'a = nat] by simp

lemma unat_u64_less [simp]: "unat (v :: u64) < 18446744073709551616"
  using unsigned_less [of v, where ?'a = nat] by simp

lemma be_nat_be_bytes: "be_nat (be_bytes k n) = n mod 256 ^ k"
proof (induction k arbitrary: n)
  case 0
  then show ?case by simp
next
  case (Suc k)
  have "n mod 256 ^ Suc k = 256 * (n div 256 mod 256 ^ k) + n mod 256"
    by (simp add: mod_mult2_eq)
  with Suc show ?case by simp
qed

lemma be_nat_less: "be_nat bs < 256 ^ length bs"
proof (induction bs rule: rev_induct)
  case Nil
  then show ?case by simp
next
  case (snoc b bs)
  have "unat b < 256" by simp
  with snoc have "be_nat bs * 256 + unat b < (be_nat bs + 1) * 256" by simp
  also have "\<dots> \<le> 256 ^ length bs * 256" using snoc by (intro mult_right_mono) auto
  finally show ?case by simp
qed

lemma length_put_uint64 [simp]: "length (put_uint64 v) = 8"
  by (simp add: put_uint64_def)

lemma length_le_uint64 [simp]: "length (le_uint64 v) = 8"
  by (simp add: le_uint64_def)

lemma be_nat_put_uint64 [simp]: "be_nat (put_uint64 v) = unat v"
  by (simp add: put_uint64_def be_nat_be_bytes)

lemma u64_of_set [simp]: "u64_of (set_uint64 bs v) = v"
  by (simp add: u64_of_def set_uint64_def)

lemma u64_of_put [simp]: "u64_of (put_uint64 v) = v"
  by (simp add: u64_of_def)

lemma get_put_uint64 [simp]: "get_uint64 (put_uint64 v) = Ok v"
  by (simp add: get_uint64_def)

lemma length_set_uint64 [simp]: "length (set_uint64 bs v) = max 8 (length bs)"
  by (simp add: set_uint64_def)

lemma length_str_bytes [simp]: "length (str_bytes s) = length s"
  by (simp add: str_bytes_def)

lemma put_uint64_inject [simp]: "put_uint64 v = put_uint64 w \<longleftrightarrow> v = w"
  by (metis be_nat_put_uint64 word_unat_eq_iff)

lemma digit_inject:
  assumes "(a :: nat) * 256 + x = c * 256 + y" "x < 256" "y < 256"
  shows "a = c \<and> x = y"
proof -
  have "(a * 256 + x) div 256 = a" using assms(2) by simp
  moreover have "(c * 256 + y) div 256 = c" using assms(3) by simp
  ultimately have "a = c" using assms(1) by simp
  with assms(1) show ?thesis by simp
qed

lemma be_nat_inj:
  "length xs = length ys \<Longrightarrow> be_nat xs = be_nat ys \<Longrightarrow> xs = ys"
proof (induction xs arbitrary: ys rule: rev_induct)
  case Nil
  then show ?case by simp
next
  case (snoc x xs)
  then obtain y zs where ys: "ys = zs @ [y]" by (cases ys rule: rev_cases) auto
  have "be_nat xs * 256 + unat x = be_nat zs * 256 + unat y" using snoc.prems ys by simp
  then have "be_nat xs = be_nat zs \<and> unat x = unat y" by (rule digit_inject) simp_all
  with snoc ys show ?case by (simp add: word_unat_eq_iff)
qed

lemma olen_simps [simp]: "olen None = 0" "olen (Some b) = length b"
  by (simp_all add: olen_def)

section \<open>Unsigned 64-bit arithmetic\<close>

lemma unat_Suc_u64: "t \<noteq> - 1 \<Longrightarrow> unat (t + 1 :: u64) = unat t + 1"
  by (metis Suc_eq_plus1 add.commute add_eq_0_iff unatSuc)

lemma less_Suc_u64: "t \<noteq> - 1 \<Longrightarrow> (a :: u64) \<le> t \<Longrightarrow> a < t + 1"
  by (simp add: word_less_nat_alt word_le_nat_alt unat_Suc_u64)

lemma unat_compl: "unat (- 1 - a :: u64) = unat (- 1 :: u64) - unat a"
  by (rule unat_sub) simp

lemma compl_antimono: "(a :: u64) \<le> b \<Longrightarrow> - 1 - b \<le> - 1 - a"
  unfolding word_le_nat_alt unat_compl by (rule diff_le_mono2)

section \<open>Maps and association lists\<close>

text \<open>Reading a missing key of a Go map of numbers yields the zero value.\<close>

definition get0 :: "('k \<rightharpoonup> 'v::zero) \<Rightarrow> 'k \<Rightarrow> 'v" where
  "get0 m k = (case m k of None \<Rightarrow> 0 | Some v \<Rightarrow> v)"

lemma get0_empty [simp]: "get0 Map.empty k = 0"
  by (simp add: get0_def)

lemma get0_upd [simp]: "get0 (m(k \<mapsto> v)) k' = (if k' = k then v else get0 m k')"
  by (simp add: get0_def)

text \<open>Iteration orders of one and the same map: permutations with distinct keys.\<close>

definition wf_amap :: "('k \<times> 'v) list \<Rightarrow> bool" where
  "wf_amap m \<longleftrightarrow> distinct (map fst m)"

lemma wf_amap_update [intro]: "wf_amap m \<Longrightarrow> wf_amap (AList.update k v m)"
  by (simp add: wf_amap_def distinct_update)

lemma set_update_subset: "set (AList.update k v m) \<subseteq> insert (k, v) (set m)"
  by (induction m) auto

lemma set_alist_update:
  "wf_amap m \<Longrightarrow> set (AList.update k v m) = insert (k, v) {p \<in> set m. fst p \<noteq> k}"
proof (induction m)
  case Nil
  then show ?case by simp
next
  case (Cons p m)
  then show ?case by (cases p) (force simp: wf_amap_def)
qed

lemma map_of_perm:
  "wf_amap m \<Longrightarrow> mset m = mset m' \<Longrightarrow> map_of m = map_of m'"
  by (metis wf_amap_def map_of_inject_set mset_eq_imp_distinct_iff mset_map set_mset_mset)

lemma sort_perm: "mset xs = mset ys \<Longrightarrow> sort xs = sort ys"
  by (rule properties_for_sort) simp_all

section \<open>Byte strings in lexicographic order\<close>

text \<open>An ordered scan that starts at a prefix and stops at the first key without it visits exactly
  the keys with that prefix.\<close>

abbreviation has_prefix :: "'a list \<Rightarrow> 'a list \<Rightarrow> bool" where
  "has_prefix p k \<equiv> take (length p) k = p"

lemma prefix_before_others:
  "has_prefix p (k' :: 'a::linorder list) \<Longrightarrow> \<not> has_prefix p k \<Longrightarrow> p \<le> k \<Longrightarrow> k' < k"
proof (induction p arbitrary: k k')
  case Nil
  then show ?case by simp
next
  case (Cons a p)
  then obtain xs where k': "k' = a # xs" "has_prefix p xs" by (cases k') auto
  show ?case
  proof (cases k)
    case Nil
    with Cons.prems(3) show ?thesis by simp
  next
    case (Cons b ys)
    with Cons.prems k' show ?thesis using Cons.IH [of xs ys] by auto
  qed
qed

lemma takeWhile_prefix:
  assumes "sorted_wrt (\<lambda>x y. fst x < fst y) ps" "\<forall>x \<in> set ps. p \<le> fst x"
  shows "takeWhile (\<lambda>x. has_prefix p (fst x)) ps = filter (\<lambda>x. has_prefix (p :: 'a::linorder list) (fst x)) ps"
  using assms
proof (induction ps)
  case Nil
  then show ?case by simp
next
  case (Cons x ps)
  show ?case
  proof (cases "has_prefix p (fst x)")
    case True
    with Cons show ?thesis by simp
  next
    case False
    have "\<not> has_prefix p (fst y)" if "y \<in> set ps" for y
      using prefix_before_others [of p "fst y" "fst x"] False Cons.prems that by force
    with False show ?thesis by (simp add: filter_empty_conv)
  qed
qed

lemma take_mono_lex: "(xs :: 'a::linorder list) \<le> ys \<Longrightarrow> take n xs \<le> take n ys"
proof (induction n arbitrary: xs ys)
  case (Suc n)
  then show ?case by (cases xs; cases ys) auto
qed simp

lemma be_nat_Cons: "be_nat (b # bs) = unat b * 256 ^ length bs + be_nat bs"
proof (induction bs rule: rev_induct)
  case Nil
  then show ?case by (simp add: be_nat_def)
next
  case (snoc x xs)
  have "be_nat (b # xs @ [x]) = be_nat ((b # xs) @ [x])" by simp
  also have "\<dots> = be_nat (b # xs) * 256 + unat x" by (rule be_nat_snoc)
  finally show ?case using snoc by (simp add: algebra_simps)
qed

lemma be_nat_mono: "length xs = length ys \<Longrightarrow> xs \<le> ys \<Longrightarrow> be_nat xs \<le> be_nat ys"
proof (induction xs ys rule: list_induct2)
  case Nil
  then show ?case by simp
next
  case (Cons x xs y ys)
  show ?case
  proof (cases "x = y")
    case True
    with Cons show ?thesis by (simp add: be_nat_Cons)
  next
    case False
    with Cons.prems have "unat x + 1 \<le> unat y" by (simp add: word_less_nat_alt)
    then have "(unat x + 1) * 256 ^ length ys \<le> unat y * 256 ^ length ys" by (rule mult_right_mono) simp
    then show ?thesis using be_nat_less [of xs] Cons.hyps by (simp add: be_nat_Cons algebra_simps)
  qed
qed

section \<open>Maps whose entries refer to each other\<close>

text \<open>Blocks by id, each referring to an earlier one until the id \<open>nil\<close>: no references dangle and none are cyclic.\<close>

definition linked_map :: "'i \<Rightarrow> ('b \<Rightarrow> 'i) \<Rightarrow> ('i \<rightharpoonup> 'b) \<Rightarrow> bool" where
  "linked_map nil prev m \<longleftrightarrow> (\<exists>d :: 'i \<Rightarrow> nat. \<forall>i b. m i = Some b \<longrightarrow>
     prev b = nil \<or> (m (prev b) \<noteq> None \<and> d (prev b) < d i))"

lemma linked_empty: "linked_map nil prev Map.empty"
  by (simp add: linked_map_def)

lemma linked_map_prev: "linked_map nil prev m \<Longrightarrow> m i = Some b \<Longrightarrow> prev b = nil \<or> m (prev b) \<noteq> None"
  by (auto simp: linked_map_def)

lemma linked_induct:
  assumes "linked_map nil prev m" "m i = Some b"
    and step: "\<And>i b. m i = Some b \<Longrightarrow> (\<And>b'. prev b \<noteq> nil \<Longrightarrow> m (prev b) = Some b' \<Longrightarrow> P (prev b)) \<Longrightarrow> P i"
  shows "P i"
proof -
  obtain d :: "'a \<Rightarrow> nat" where d: "\<And>i b. m i = Some b \<Longrightarrow> prev b = nil \<or> (m (prev b) \<noteq> None \<and> d (prev b) < d i)"
    using assms(1) by (auto simp: linked_map_def)
  show ?thesis using assms(2)
  proof (induction "d i" arbitrary: i b rule: less_induct)
    case less
    show ?case
    proof (rule step [OF less.prems])
      fix b' assume "prev b \<noteq> nil" "m (prev b) = Some b'"
      with d [OF less.prems] show "P (prev b)" by (intro less.hyps) auto
    qed
  qed
qed

lemma linked_upd:
  assumes "linked_map nil prev m" "prev b = nil \<or> m (prev b) \<noteq> None" "m i = None \<or> m i = Some b"
  shows "linked_map nil prev (m(i \<mapsto> b))"
proof (cases "m i = Some b")
  case True
  then have "m(i \<mapsto> b) = m" by auto
  with assms(1) show ?thesis by simp
next
  case False
  with assms(3) have new: "m i = None" by blast
  obtain d :: "'a \<Rightarrow> nat" where d: "\<And>i b. m i = Some b \<Longrightarrow> prev b = nil \<or> (m (prev b) \<noteq> None \<and> d (prev b) < d i)"
    using assms(1) by (auto simp: linked_map_def)
  let ?d = "d(i := Suc (d (prev b)))" and ?m = "m(i \<mapsto> b)"
  have "prev x = nil \<or> (?m (prev x) \<noteq> None \<and> ?d (prev x) < ?d j)" if x: "?m j = Some x" for j x
  proof (cases "j = i")
    case True
    with x have "x = b" by simp
    with assms(2) new show ?thesis by (auto simp: True)
  next
    case False
    with x have "m j = Some x" by simp
    from d [OF this] new False show ?thesis by auto
  qed
  then show ?thesis unfolding linked_map_def by blast
qed

end
