(* ===== verification/Ssi.thy ===== *)
theory Ssi
  imports Prelude
begin

text \<open>
  Serializable snapshot isolation: \<^verbatim>\<open>src/exp/onl/ssi\<close> (keys, oracle, transactions and the
  database loop). The database goroutine answers one request at a time, so each request is
  one atomic operation on the record \<open>DB\<close>; concurrency between transactions is the
  interleaving of these requests, the step relation \<open>db_step\<close>.

  Parameters: \<open>sha\<close> stands for SHA-256, \<open>rx\<close> for the immutable radix tree package
  (\<open>iradix_ok\<close> is its documented contract). The theorems hold for every \<open>sha\<close>: hash
  collisions can only cause additional conflicts.
\<close>

section \<open>Keys and change sets (keys.go)\<close>

type_synonym KH = bytes
type_synonym KeySet = "KH list"

record Change =
  change_K :: bytes
  change_V :: bytes

type_synonym KeyChangeSet = "(KH \<times> Change) list"

definition keyHash :: "(bytes \<Rightarrow> bytes) \<Rightarrow> bytes \<Rightarrow> KH" where
  "keyHash sha k = sha k"

definition KeyChangeSet_KeySet :: "KeyChangeSet \<Rightarrow> KeySet" where
  "KeyChangeSet_KeySet kvs = map fst kvs"

definition KeyChangeSet_Add :: "(bytes \<Rightarrow> bytes) \<Rightarrow> KeyChangeSet \<Rightarrow> bytes \<Rightarrow> bytes \<Rightarrow> KeyChangeSet" where
  "KeyChangeSet_Add sha kvs k v = AList.update (keyHash sha k) \<lparr>change_K = k, change_V = v\<rparr> kvs"

definition KeySet_Add :: "(bytes \<Rightarrow> bytes) \<Rightarrow> KeySet \<Rightarrow> bytes \<Rightarrow> KeySet" where
  "KeySet_Add sha ks k = List.insert (keyHash sha k) ks"

section \<open>The status oracle (oracle.go)\<close>

record Oracle =
  oracle_time :: u64
  oracle_commits :: "KH \<rightharpoonup> u64"

definition NewOracle :: Oracle where
  "NewOracle = \<lparr>oracle_time = 1, oracle_commits = Map.empty\<rparr>"

definition Oracle_Curr :: "Oracle \<Rightarrow> u64" where
  "Oracle_Curr orc = oracle_time orc"

text \<open>The two loops of \<open>Commit\<close>: looking for a conflicting read, stamping the written rows.\<close>

primrec read_conflict :: "Oracle \<Rightarrow> KeySet \<Rightarrow> u64 \<Rightarrow> bool" where
  "read_conflict orc [] ts = False"
| "read_conflict orc (r # rr) ts =
     (if get0 (oracle_commits orc) r > ts then True else read_conflict orc rr ts)"

primrec mark_commits :: "u64 \<Rightarrow> KeySet \<Rightarrow> (KH \<rightharpoonup> u64) \<Rightarrow> (KH \<rightharpoonup> u64)" where
  "mark_commits t [] m = m"
| "mark_commits t (r # rw) m = mark_commits t rw (m(r \<mapsto> t))"

definition Oracle_Commit :: "Oracle \<Rightarrow> KeySet \<Rightarrow> KeySet \<Rightarrow> u64 \<Rightarrow> u64 \<times> Oracle" where
  "Oracle_Commit orc rr rw ts =
     (if read_conflict orc rr ts then (0, orc)
      else let t = oracle_time orc + 1
           in (t, \<lparr>oracle_time = t, oracle_commits = mark_commits t rw (oracle_commits orc)\<rparr>))"

section \<open>Transactions and the database (tx.go, db.go)\<close>

text \<open>The radix tree package: an immutable tree, so a transaction's snapshot is a value.\<close>

record 's iradix =
  radix_New :: 's
  radix_Insert :: "'s \<Rightarrow> bytes \<Rightarrow> bytes \<Rightarrow> 's"
  radix_Get :: "'s \<Rightarrow> bytes \<Rightarrow> bytes option"

definition iradix_ok :: "'s iradix \<Rightarrow> bool" where
  "iradix_ok rx \<longleftrightarrow>
     (\<forall>k. radix_Get rx (radix_New rx) k = None) \<and>
     (\<forall>t k v k'. radix_Get rx (radix_Insert rx t k v) k' =
        (if k' = k then Some v else radix_Get rx t k'))"

text \<open>A concrete tree that meets the contract.\<close>

definition map_radix :: "(bytes \<rightharpoonup> bytes) iradix" where
  "map_radix = \<lparr>radix_New = Map.empty, radix_Insert = (\<lambda>m k v. m(k \<mapsto> v)), radix_Get = (\<lambda>m k. m k)\<rparr>"

lemma map_radix_ok [simp]: "iradix_ok map_radix"
  by (simp add: iradix_ok_def map_radix_def)

record TxData =
  td_TimeStart :: u64
  td_TimeCommit :: u64
  td_ReadRows :: KeySet
  td_WriteRows :: KeyChangeSet

record 's Tx =
  tx_snapshot :: 's
  tx_data :: TxData

record 's DB =
  db_oracle :: Oracle
  db_store :: 's

datatype ssi_error = ErrConflict

definition Tx_Set :: "(bytes \<Rightarrow> bytes) \<Rightarrow> 's iradix \<Rightarrow> 's Tx \<Rightarrow> bytes \<Rightarrow> bytes \<Rightarrow> 's Tx" where
  "Tx_Set sha rx tx k v =
     tx\<lparr>tx_data := (tx_data tx)\<lparr>td_WriteRows := KeyChangeSet_Add sha (td_WriteRows (tx_data tx)) k v\<rparr>,
        tx_snapshot := radix_Insert rx (tx_snapshot tx) k v\<rparr>"

definition Tx_Get :: "(bytes \<Rightarrow> bytes) \<Rightarrow> 's iradix \<Rightarrow> 's Tx \<Rightarrow> bytes \<Rightarrow> bytes option \<times> 's Tx" where
  "Tx_Get sha rx tx k =
     (radix_Get rx (tx_snapshot tx) k,
      tx\<lparr>tx_data := (tx_data tx)\<lparr>td_ReadRows := KeySet_Add sha (td_ReadRows (tx_data tx)) k\<rparr>\<rparr>)"

definition NewDB :: "'s iradix \<Rightarrow> 's DB" where
  "NewDB rx = \<lparr>db_oracle = NewOracle, db_store = radix_New rx\<rparr>"

definition DB_NewTx :: "'s DB \<Rightarrow> 's Tx" where
  "DB_NewTx db =
     \<lparr>tx_snapshot = db_store db,
      tx_data = \<lparr>td_TimeStart = Oracle_Curr (db_oracle db), td_TimeCommit = 0,
                 td_ReadRows = [], td_WriteRows = []\<rparr>\<rparr>"

primrec insert_changes :: "'s iradix \<Rightarrow> 's \<Rightarrow> KeyChangeSet \<Rightarrow> 's" where
  "insert_changes rx st [] = st"
| "insert_changes rx st (c # cs) =
     insert_changes rx (radix_Insert rx st (change_K (snd c)) (change_V (snd c))) cs"

text \<open>The commit branch of the database loop; it answers with the commit time, 0 on conflict.\<close>

definition DB_commitReq :: "'s iradix \<Rightarrow> 's DB \<Rightarrow> bool \<Rightarrow> KeyChangeSet \<Rightarrow> KeySet \<Rightarrow> u64 \<Rightarrow> u64 \<times> 's DB" where
  "DB_commitReq rx db dry rw rr ts =
     (case Oracle_Commit (db_oracle db) rr (KeyChangeSet_KeySet rw) ts of (tc, orc) \<Rightarrow>
        if tc = 0 then (tc, db\<lparr>db_oracle := orc\<rparr>)
        else if \<not> dry
          then (tc, db\<lparr>db_oracle := orc, db_store := insert_changes rx (db_store db) rw\<rparr>)
          else (tc, db\<lparr>db_oracle := orc\<rparr>))"

definition DB_Commit :: "'s iradix \<Rightarrow> 's DB \<Rightarrow> TxData \<Rightarrow> bool \<Rightarrow> ssi_error option \<times> TxData \<times> 's DB" where
  "DB_Commit rx db txd dry =
     (if length (td_WriteRows txd) < 1 then (None, txd, db)
      else case DB_commitReq rx db dry (td_WriteRows txd) (td_ReadRows txd) (td_TimeStart txd) of (tc, db') \<Rightarrow>
        let txd' = txd\<lparr>td_TimeCommit := tc\<rparr>
        in if tc = 0 then (Some ErrConflict, txd', db') else (None, txd', db'))"

definition Tx_Commit :: "'s iradix \<Rightarrow> 's DB \<Rightarrow> 's Tx \<Rightarrow> ssi_error option \<times> 's Tx \<times> 's DB" where
  "Tx_Commit rx db tx =
     (case DB_Commit rx db (tx_data tx) False of (e, txd, db') \<Rightarrow> (e, tx\<lparr>tx_data := txd\<rparr>, db'))"

text \<open>A write set built by \<open>Set\<close> calls is keyed by the hashes of its own keys.\<close>

definition wf_changes :: "(bytes \<Rightarrow> bytes) \<Rightarrow> KeyChangeSet \<Rightarrow> bool" where
  "wf_changes sha kvs \<longleftrightarrow> wf_amap kvs \<and> (\<forall>p \<in> set kvs. fst p = keyHash sha (change_K (snd p)))"

text \<open>Interleavings: any client may commit any well-formed transaction data, at any time. The
  side condition keeps the 64-bit commit counter below its wrap-around.\<close>

inductive db_step :: "(bytes \<Rightarrow> bytes) \<Rightarrow> 's iradix \<Rightarrow> 's DB \<Rightarrow> 's DB \<Rightarrow> bool"
  for sha :: "bytes \<Rightarrow> bytes" and rx :: "'s iradix" where
  commit: "wf_changes sha (td_WriteRows txd) \<Longrightarrow> oracle_time (db_oracle db) \<noteq> - 1 \<Longrightarrow>
     DB_Commit rx db txd dry = (e, txd', db') \<Longrightarrow> db_step sha rx db db'"

inductive_cases db_stepE [elim]: "db_step sha rx db db'"

text \<open>A client's use of one transaction: the sequence of its reads and writes.\<close>

datatype txop = OpGet bytes | OpSet bytes bytes

primrec run_ops :: "(bytes \<Rightarrow> bytes) \<Rightarrow> 's iradix \<Rightarrow> 's Tx \<Rightarrow> txop list \<Rightarrow> bytes option list \<times> 's Tx" where
  "run_ops sha rx tx [] = ([], tx)"
| "run_ops sha rx tx (p # ps) =
     (case p of
        OpGet k \<Rightarrow> (case Tx_Get sha rx tx k of (v, tx1) \<Rightarrow>
                      (case run_ops sha rx tx1 ps of (vs, tx2) \<Rightarrow> (v # vs, tx2)))
      | OpSet k v \<Rightarrow> run_ops sha rx (Tx_Set sha rx tx k v) ps)"

section \<open>Lemmas\<close>

lemmas radix_laws = iradix_ok_def
lemmas tx_defs = Tx_Set_def Tx_Get_def DB_NewTx_def KeyChangeSet_Add_def KeySet_Add_def

lemma radix_Get_Insert:
  "iradix_ok rx \<Longrightarrow> radix_Get rx (radix_Insert rx t k v) k' = (if k' = k then Some v else radix_Get rx t k')"
  by (simp add: iradix_ok_def)

lemma radix_Get_New: "iradix_ok rx \<Longrightarrow> radix_Get rx (radix_New rx) k = None"
  by (simp add: iradix_ok_def)

lemma read_conflict_iff:
  "read_conflict orc rr ts \<longleftrightarrow> (\<exists>r \<in> set rr. ts < get0 (oracle_commits orc) r)"
  by (induction rr) auto

lemma get0_mark_commits [simp]:
  "get0 (mark_commits t rw m) r = (if r \<in> set rw then t else get0 m r)"
  by (induction rw arbitrary: m) auto

lemma insert_changes_outside:
  assumes "iradix_ok rx" "\<forall>c \<in> set cs. change_K (snd c) \<noteq> k"
  shows "radix_Get rx (insert_changes rx st cs) k = radix_Get rx st k"
  using assms by (induction cs arbitrary: st) (auto simp: radix_Get_Insert)

definition change_keys_distinct :: "KeyChangeSet \<Rightarrow> bool" where
  "change_keys_distinct cs \<longleftrightarrow> distinct (map (\<lambda>c. change_K (snd c)) cs)"

lemma wf_changes_distinct: "wf_changes sha cs \<Longrightarrow> change_keys_distinct cs"
  unfolding wf_changes_def wf_amap_def change_keys_distinct_def
  by (induction cs) force+

lemma insert_changes_inside:
  assumes "iradix_ok rx" "change_keys_distinct cs" "c \<in> set cs"
  shows "radix_Get rx (insert_changes rx st cs) (change_K (snd c)) = Some (change_V (snd c))"
  using assms
proof (induction cs arbitrary: st)
  case Nil
  then show ?case by simp
next
  case (Cons d cs)
  show ?case
  proof (cases "c \<in> set cs")
    case True
    with Cons show ?thesis by (simp add: change_keys_distinct_def)
  next
    case False
    with Cons.prems have "c = d" "\<forall>c' \<in> set cs. change_K (snd c') \<noteq> change_K (snd d)"
      by (auto simp: change_keys_distinct_def image_iff)
    with Cons.prems(1) show ?thesis
      by (simp add: insert_changes_outside radix_Get_Insert)
  qed
qed

text \<open>The commit counter bounds every stamp and never returns to 0.\<close>

definition db_inv :: "'s DB \<Rightarrow> bool" where
  "db_inv db \<longleftrightarrow> 1 \<le> oracle_time (db_oracle db) \<and>
     (\<forall>r. get0 (oracle_commits (db_oracle db)) r \<le> oracle_time (db_oracle db))"

text \<open>\<open>tracked\<close>: every key whose value differs from an earlier state was stamped after it.\<close>

definition tracked :: "(bytes \<Rightarrow> bytes) \<Rightarrow> 's iradix \<Rightarrow> 's DB \<Rightarrow> 's DB \<Rightarrow> bool" where
  "tracked sha rx db0 db \<longleftrightarrow>
     oracle_time (db_oracle db0) \<le> oracle_time (db_oracle db) \<and>
     (\<forall>k. radix_Get rx (db_store db) k \<noteq> radix_Get rx (db_store db0) k \<longrightarrow>
        oracle_time (db_oracle db0) < get0 (oracle_commits (db_oracle db)) (keyHash sha k))"

lemma db_inv_NewDB: "db_inv (NewDB rx)"
  by (simp add: db_inv_def NewDB_def NewOracle_def)

lemma tracked_refl [simp]: "tracked sha rx db db"
  by (simp add: tracked_def)

lemma word_Suc_nonzero: "t \<noteq> - 1 \<Longrightarrow> t + 1 \<noteq> (0 :: u64)"
  by (metis add_diff_cancel_right' diff_0)

text \<open>Case analysis of a commit: nothing written, a conflict, a dry and a real commit.\<close>

lemma DB_Commit_cases:
  assumes "DB_Commit rx db txd dry = (e, txd', db')" "oracle_time (db_oracle db) \<noteq> - 1"
  obtains (ro) "td_WriteRows txd = []" "e = None" "txd' = txd" "db' = db"
  | (conflict) "td_WriteRows txd \<noteq> []" "e = Some ErrConflict" "db' = db"
      "read_conflict (db_oracle db) (td_ReadRows txd) (td_TimeStart txd)"
  | (ok) "td_WriteRows txd \<noteq> []" "e = None"
      "\<not> read_conflict (db_oracle db) (td_ReadRows txd) (td_TimeStart txd)"
      "td_TimeCommit txd' = oracle_time (db_oracle db) + 1"
      "oracle_time (db_oracle db') = oracle_time (db_oracle db) + 1"
      "oracle_commits (db_oracle db') = mark_commits (oracle_time (db_oracle db) + 1)
         (map fst (td_WriteRows txd)) (oracle_commits (db_oracle db))"
      "db_store db' = (if dry then db_store db else insert_changes rx (db_store db) (td_WriteRows txd))"
proof (cases "td_WriteRows txd = []")
  case True
  with assms(1) have "e = None \<and> txd' = txd \<and> db' = db" by (simp add: DB_Commit_def)
  with True show ?thesis by (intro ro) auto
next
  case False
  then have len: "\<not> length (td_WriteRows txd) < 1" by (simp add: leI Suc_le_eq)
  show ?thesis
  proof (cases "read_conflict (db_oracle db) (td_ReadRows txd) (td_TimeStart txd)")
    case True
    with assms(1) len have "e = Some ErrConflict \<and> db' = db"
      by (auto simp: DB_Commit_def DB_commitReq_def Oracle_Commit_def Let_def)
    with False True show ?thesis by (intro conflict) auto
  next
    case nc: False
    with assms len False show ?thesis
      by (intro ok)
         (auto simp: DB_Commit_def DB_commitReq_def Oracle_Commit_def Let_def KeyChangeSet_KeySet_def
           word_Suc_nonzero split: if_splits)
  qed
qed

lemma db_step_inv:
  assumes "db_step sha rx db db'" "db_inv db"
  shows "db_inv db' \<and> oracle_time (db_oracle db) \<le> oracle_time (db_oracle db')"
  using assms(1)
proof cases
  case (commit txd dry e txd')
  from commit(3,2) show ?thesis
  proof (cases rule: DB_Commit_cases)
    case ok
    let ?t = "oracle_time (db_oracle db)"
    have lt: "a \<le> ?t \<Longrightarrow> a < ?t + 1" for a using commit(2) by (rule less_Suc_u64)
    have "1 \<le> ?t + 1" using lt [of 1] assms(2) by (simp add: db_inv_def)
    with ok lt assms(2) show ?thesis by (auto simp: db_inv_def less_imp_le)
  qed (use assms(2) in auto)
qed

lemma db_step_tracked:
  assumes "db_step sha rx db db'" "db_inv db" "iradix_ok rx" "tracked sha rx db0 db"
  shows "tracked sha rx db0 db'"
  using assms(1)
proof cases
  case (commit txd dry e txd')
  from commit(3,2) show ?thesis
  proof (cases rule: DB_Commit_cases)
    case ok
    let ?t = "oracle_time (db_oracle db)"
    have t0: "oracle_time (db_oracle db0) < ?t + 1"
      using commit(2) assms(4) by (auto simp: tracked_def intro: less_Suc_u64)
    have stamped: "oracle_time (db_oracle db0) < get0 (oracle_commits (db_oracle db')) (keyHash sha k)"
      if ne: "radix_Get rx (db_store db') k \<noteq> radix_Get rx (db_store db0) k" for k
    proof (cases "keyHash sha k \<in> fst ` set (td_WriteRows txd)")
      case True
      with ok t0 show ?thesis by simp
    next
      case False
      then have "\<forall>c \<in> set (td_WriteRows txd). change_K (snd c) \<noteq> k"
        using commit(1) by (auto simp: wf_changes_def)
      with ok ne assms(3) have "radix_Get rx (db_store db) k \<noteq> radix_Get rx (db_store db0) k"
        by (simp add: insert_changes_outside split: if_splits)
      with False ok assms(4) show ?thesis by (simp add: tracked_def)
    qed
    from stamped t0 ok show ?thesis by (simp add: tracked_def less_imp_le)
  qed (use assms(4) in auto)
qed

lemma db_steps_tracked:
  assumes "(db_step sha rx)\<^sup>*\<^sup>* db0 db" "db_inv db0" "iradix_ok rx"
  shows "db_inv db \<and> tracked sha rx db0 db"
  using assms(1)
proof (induction rule: rtranclp_induct)
  case base
  then show ?case using assms(2) by simp
next
  case (step db db')
  then show ?case using db_step_inv db_step_tracked assms(3) by blast
qed

lemma run_ops_Get [simp]:
  "run_ops sha rx tx (OpGet k # ps) =
     (radix_Get rx (tx_snapshot tx) k # fst (run_ops sha rx (snd (Tx_Get sha rx tx k)) ps),
      snd (run_ops sha rx (snd (Tx_Get sha rx tx k)) ps))"
  by (simp add: Tx_Get_def split: prod.splits)

lemma run_ops_Set [simp]:
  "run_ops sha rx tx (OpSet k v # ps) = run_ops sha rx (Tx_Set sha rx tx k v) ps"
  by simp

declare run_ops.simps(2) [simp del]

lemma run_ops_reads_mono: "set (td_ReadRows (tx_data tx)) \<subseteq> set (td_ReadRows (tx_data (snd (run_ops sha rx tx ps))))"
proof (induction ps arbitrary: tx)
  case Nil
  then show ?case by simp
next
  case (Cons p ps)
  show ?case
  proof (cases p)
    case (OpGet k)
    have "set (td_ReadRows (tx_data tx)) \<subseteq> set (td_ReadRows (tx_data (snd (Tx_Get sha rx tx k))))"
      by (auto simp: tx_defs)
    with Cons [of "snd (Tx_Get sha rx tx k)"] OpGet show ?thesis by auto
  next
    case (OpSet k v)
    with Cons [of "Tx_Set sha rx tx k v"] show ?thesis by (simp add: tx_defs)
  qed
qed

lemma run_ops_TimeStart [simp]:
  "td_TimeStart (tx_data (snd (run_ops sha rx tx ps))) = td_TimeStart (tx_data tx)"
proof (induction ps arbitrary: tx)
  case (Cons p ps)
  then show ?case by (cases p) (auto simp: tx_defs)
qed simp

lemma wf_changes_Add [intro]:
  "wf_changes sha m \<Longrightarrow> wf_changes sha (KeyChangeSet_Add sha m k v)"
  by (auto simp: wf_changes_def KeyChangeSet_Add_def set_alist_update wf_amap_update)

lemma wf_changes_Nil [simp]: "wf_changes sha []"
  by (simp add: wf_changes_def wf_amap_def)

lemma run_ops_wf:
  "wf_changes sha (td_WriteRows (tx_data tx)) \<Longrightarrow>
   wf_changes sha (td_WriteRows (tx_data (snd (run_ops sha rx tx ps))))"
proof (induction ps arbitrary: tx)
  case (Cons p ps)
  then show ?case
    by (cases p) (simp_all add: Tx_Get_def Tx_Set_def wf_changes_Add)
qed simp

text \<open>Two transactions that agree on the rows the first one reads behave alike.\<close>

lemma run_ops_agree:
  assumes "iradix_ok rx"
    and "\<And>k. keyHash sha k \<in> set (td_ReadRows (tx_data (snd (run_ops sha rx tx ps)))) \<Longrightarrow>
           radix_Get rx (tx_snapshot tx') k = radix_Get rx (tx_snapshot tx) k"
    and "td_ReadRows (tx_data tx') = td_ReadRows (tx_data tx)"
    and "td_WriteRows (tx_data tx') = td_WriteRows (tx_data tx)"
  shows "fst (run_ops sha rx tx' ps) = fst (run_ops sha rx tx ps) \<and>
    td_ReadRows (tx_data (snd (run_ops sha rx tx' ps))) = td_ReadRows (tx_data (snd (run_ops sha rx tx ps))) \<and>
    td_WriteRows (tx_data (snd (run_ops sha rx tx' ps))) = td_WriteRows (tx_data (snd (run_ops sha rx tx ps)))"
  using assms(2-4)
proof (induction ps arbitrary: tx tx')
  case Nil
  then show ?case by simp
next
  case (Cons p ps)
  show ?case
  proof (cases p)
    case (OpGet k)
    let ?g = "snd (Tx_Get sha rx tx k)" and ?g' = "snd (Tx_Get sha rx tx' k)"
    have fin: "snd (run_ops sha rx tx (p # ps)) = snd (run_ops sha rx ?g ps)"
      by (simp add: OpGet)
    have "keyHash sha k \<in> set (td_ReadRows (tx_data ?g))" by (simp add: tx_defs)
    then have "radix_Get rx (tx_snapshot tx') k = radix_Get rx (tx_snapshot tx) k"
      using Cons.prems(1) [of k] run_ops_reads_mono [of ?g sha rx ps] fin by auto
    moreover have "fst (run_ops sha rx ?g' ps) = fst (run_ops sha rx ?g ps) \<and>
        td_ReadRows (tx_data (snd (run_ops sha rx ?g' ps))) = td_ReadRows (tx_data (snd (run_ops sha rx ?g ps))) \<and>
        td_WriteRows (tx_data (snd (run_ops sha rx ?g' ps))) = td_WriteRows (tx_data (snd (run_ops sha rx ?g ps)))"
      using Cons.prems fin by (intro Cons.IH) (auto simp: tx_defs)
    ultimately show ?thesis by (simp add: OpGet)
  next
    case (OpSet k v)
    with Cons.prems have "fst (run_ops sha rx (Tx_Set sha rx tx' k v) ps) = fst (run_ops sha rx (Tx_Set sha rx tx k v) ps) \<and>
        td_ReadRows (tx_data (snd (run_ops sha rx (Tx_Set sha rx tx' k v) ps))) =
          td_ReadRows (tx_data (snd (run_ops sha rx (Tx_Set sha rx tx k v) ps))) \<and>
        td_WriteRows (tx_data (snd (run_ops sha rx (Tx_Set sha rx tx' k v) ps))) =
          td_WriteRows (tx_data (snd (run_ops sha rx (Tx_Set sha rx tx k v) ps)))"
      by (intro Cons.IH) (auto simp: tx_defs radix_Get_Insert [OF assms(1)])
    with OpSet show ?thesis by simp
  qed
qed

lemma DB_NewTx_simps [simp]:
  "td_TimeStart (tx_data (DB_NewTx db)) = oracle_time (db_oracle db)"
  "td_ReadRows (tx_data (DB_NewTx db)) = []"
  "td_WriteRows (tx_data (DB_NewTx db)) = []"
  "tx_snapshot (DB_NewTx db) = db_store db"
  by (simp_all add: DB_NewTx_def Oracle_Curr_def)

text \<open>A commit that goes through proves that none of the rows it read has changed.\<close>

lemma commit_reads_current:
  assumes "tracked sha rx db0 db"
    and "DB_Commit rx db txd dry = (None, txd', db')" "oracle_time (db_oracle db) \<noteq> - 1"
    and "td_WriteRows txd \<noteq> []" "td_TimeStart txd = oracle_time (db_oracle db0)"
    and "keyHash sha k \<in> set (td_ReadRows txd)"
  shows "radix_Get rx (db_store db) k = radix_Get rx (db_store db0) k"
  using assms(2,3)
proof (cases rule: DB_Commit_cases)
  case ok
  with assms(5,6) have "\<not> oracle_time (db_oracle db0) < get0 (oracle_commits (db_oracle db)) (keyHash sha k)"
    by (auto simp: read_conflict_iff)
  with assms(1) show ?thesis by (auto simp: tracked_def)
qed (use assms(4) in auto)

lemma commit_effect_rows:
  assumes "iradix_ok rx" "wf_changes sha (td_WriteRows txd)" "oracle_time (db_oracle db) \<noteq> - 1"
    and "DB_Commit rx db txd dry = (e, txd', db')"
  shows "radix_Get rx (db_store db') k =
    (if e = None \<and> \<not> dry then
       (case map_of (map (\<lambda>c. (change_K (snd c), change_V (snd c))) (td_WriteRows txd)) k of
          Some v \<Rightarrow> Some v | None \<Rightarrow> radix_Get rx (db_store db) k)
     else radix_Get rx (db_store db) k)"
  using assms(4,3)
proof (cases rule: DB_Commit_cases)
  case ok
  let ?kv = "map (\<lambda>c. (change_K (snd c), change_V (snd c))) (td_WriteRows txd)"
  have "radix_Get rx (insert_changes rx (db_store db) (td_WriteRows txd)) k =
      (case map_of ?kv k of Some v \<Rightarrow> Some v | None \<Rightarrow> radix_Get rx (db_store db) k)"
  proof (cases "map_of ?kv k")
    case None
    then have "\<forall>c \<in> set (td_WriteRows txd). change_K (snd c) \<noteq> k"
      by (force simp: map_of_eq_None_iff)
    with None assms(1) show ?thesis by (simp add: insert_changes_outside)
  next
    case (Some v)
    then obtain c where "c \<in> set (td_WriteRows txd)" "change_K (snd c) = k" "change_V (snd c) = v"
      by (auto dest!: map_of_SomeD)
    with Some insert_changes_inside [OF assms(1) wf_changes_distinct [OF assms(2)]] show ?thesis
      by fastforce
  qed
  with ok show ?thesis by simp
qed (auto)

section \<open>Properties\<close>

text \<open>C1. Serializability. A transaction begun in one state of the database, with any sequence of
  reads and writes, that is committed successfully after any interleaving of other commits, would
  have read the same values and produced the same write set had it run alone on the state it is
  committed to. This holds for every hash function: collisions only add conflicts.\<close>

theorem commit_serializable:
  assumes "iradix_ok rx" "db_inv db0" "(db_step sha rx)\<^sup>*\<^sup>* db0 db"
    and "run_ops sha rx (DB_NewTx db0) ops = (vs, tx)"
    and "DB_Commit rx db (tx_data tx) dry = (None, txd', db')" "oracle_time (db_oracle db) \<noteq> - 1"
    and "td_WriteRows (tx_data tx) \<noteq> []"
  shows "fst (run_ops sha rx (DB_NewTx db) ops) = vs \<and>
    td_WriteRows (tx_data (snd (run_ops sha rx (DB_NewTx db) ops))) = td_WriteRows (tx_data tx)"
proof -
  have tr: "tracked sha rx db0 db" using db_steps_tracked assms(1-3) by blast
  have ts: "td_TimeStart (tx_data tx) = oracle_time (db_oracle db0)"
    using run_ops_TimeStart [of sha rx "DB_NewTx db0" ops] assms(4) by simp
  have "radix_Get rx (db_store db) k = radix_Get rx (db_store db0) k"
    if "keyHash sha k \<in> set (td_ReadRows (tx_data tx))" for k
    using tr assms(5-7) ts that by (rule commit_reads_current)
  then show ?thesis
    using run_ops_agree [OF assms(1), of sha "DB_NewTx db0" ops "DB_NewTx db"] assms(4) by simp
qed

text \<open>Two transactions begun together, touching different rows, both committed.\<close>

definition ex_sha :: "bytes \<Rightarrow> bytes" where
  "ex_sha k = k"

definition ex_db0 :: "(bytes \<rightharpoonup> bytes) DB" where
  "ex_db0 = NewDB map_radix"

definition ex_ops1 :: "txop list" where
  "ex_ops1 = [OpGet [1], OpSet [1] [7]]"

definition ex_ops2 :: "txop list" where
  "ex_ops2 = [OpGet [2], OpSet [3] [9]]"

definition ex_txd :: "txop list \<Rightarrow> TxData" where
  "ex_txd ps = tx_data (snd (run_ops ex_sha map_radix (DB_NewTx ex_db0) ps))"

definition ex_db1 :: "(bytes \<rightharpoonup> bytes) DB" where
  "ex_db1 = snd (snd (DB_Commit map_radix ex_db0 (ex_txd ex_ops1) False))"

lemmas ex_defs = ex_db1_def ex_txd_def ex_ops1_def ex_ops2_def ex_db0_def ex_sha_def NewDB_def NewOracle_def
  map_radix_def DB_Commit_def DB_commitReq_def Oracle_Commit_def Let_def KeyChangeSet_KeySet_def
  Tx_Get_def Tx_Set_def DB_NewTx_def Oracle_Curr_def KeyChangeSet_Add_def KeySet_Add_def keyHash_def get0_def

lemma ex_step: "db_step ex_sha map_radix ex_db0 ex_db1"
proof (rule db_step.commit)
  show "wf_changes ex_sha (td_WriteRows (ex_txd ex_ops1))"
    unfolding ex_txd_def by (rule run_ops_wf) simp
  show "oracle_time (db_oracle ex_db0) \<noteq> - 1" by (simp add: ex_defs)
  show "DB_Commit map_radix ex_db0 (ex_txd ex_ops1) False =
     (fst (DB_Commit map_radix ex_db0 (ex_txd ex_ops1) False),
      fst (snd (DB_Commit map_radix ex_db0 (ex_txd ex_ops1) False)), ex_db1)"
    by (simp add: ex_db1_def)
qed

theorem commit_serializable_witness:
  "fst (DB_Commit map_radix ex_db1 (ex_txd ex_ops2) False) = None \<and>
   fst (run_ops ex_sha map_radix (DB_NewTx ex_db1) ex_ops2) = [None]"
proof -
  have c: "DB_Commit map_radix ex_db1 (ex_txd ex_ops2) False =
     (None, fst (snd (DB_Commit map_radix ex_db1 (ex_txd ex_ops2) False)),
      snd (snd (DB_Commit map_radix ex_db1 (ex_txd ex_ops2) False)))"
    by (simp add: ex_defs)
  have r: "run_ops ex_sha map_radix (DB_NewTx ex_db0) ex_ops2 =
     ([None], snd (run_ops ex_sha map_radix (DB_NewTx ex_db0) ex_ops2))"
    by (simp add: ex_defs)
  have "db_inv ex_db0" unfolding ex_db0_def by (rule db_inv_NewDB)
  moreover have "oracle_time (db_oracle ex_db1) \<noteq> - 1" by (simp add: ex_defs)
  moreover have "td_WriteRows (tx_data (snd (run_ops ex_sha map_radix (DB_NewTx ex_db0) ex_ops2))) \<noteq> []"
    by (simp add: ex_defs)
  moreover have "(db_step ex_sha map_radix)\<^sup>*\<^sup>* ex_db0 ex_db1" using ex_step by blast
  moreover have "fst (DB_Commit map_radix ex_db1 (ex_txd ex_ops2) False) = None" by (subst c) simp
  ultimately show ?thesis
    using commit_serializable [OF map_radix_ok _ _ r c [unfolded ex_txd_def]] by simp
qed

text \<open>C2. What a commit does to the database: without a conflict a real commit makes exactly the
  written values visible to later transactions, in whatever order the change set is iterated, and
  a dry run or a conflict changes no value.\<close>

theorem commit_effect:
  assumes "iradix_ok rx" "wf_changes sha (td_WriteRows txd)" "oracle_time (db_oracle db) \<noteq> - 1"
    and "DB_Commit rx db txd dry = (e, txd', db')"
  shows "fst (run_ops sha rx (DB_NewTx db') [OpGet k]) =
    [if e = None \<and> \<not> dry then
       (case map_of (map (\<lambda>c. (change_K (snd c), change_V (snd c))) (td_WriteRows txd)) k of
          Some v \<Rightarrow> Some v | None \<Rightarrow> radix_Get rx (db_store db) k)
     else radix_Get rx (db_store db) k]"
  using commit_effect_rows [OF assms] by simp

theorem commit_effect_witness:
  "fst (run_ops ex_sha map_radix (DB_NewTx ex_db1) [OpGet [1]]) = [Some [7]]"
proof -
  have c: "DB_Commit map_radix ex_db0 (ex_txd ex_ops1) False =
     (None, fst (snd (DB_Commit map_radix ex_db0 (ex_txd ex_ops1) False)), ex_db1)"
    by (simp add: ex_defs)
  have wf: "wf_changes ex_sha (td_WriteRows (ex_txd ex_ops1))"
    unfolding ex_txd_def by (rule run_ops_wf) simp
  have "oracle_time (db_oracle ex_db0) \<noteq> - 1" by (simp add: ex_defs)
  from commit_effect [OF map_radix_ok wf this c, of "[1]"] show ?thesis
    by (simp add: ex_txd_def ex_ops1_def ex_sha_def tx_defs keyHash_def)
qed

text \<open>A dry run is not free of effects: it stamps the written rows in the oracle. A transaction
  that reads a row it also writes passes its dry run and then conflicts with it when it is
  committed for real.\<close>

theorem dry_run_then_commit_conflicts:
  assumes "oracle_time (db_oracle db) \<noteq> - 1" "oracle_time (db_oracle db) + 1 \<noteq> - 1"
    and "td_TimeStart txd \<le> oracle_time (db_oracle db)"
    and "DB_Commit rx db txd True = (None, txd', db')"
    and "r \<in> set (td_ReadRows txd)" "r \<in> fst ` set (td_WriteRows txd)"
  shows "fst (DB_Commit rx db' txd False) = Some ErrConflict"
proof -
  obtain e td2 db2 where c2: "DB_Commit rx db' txd False = (e, td2, db2)" by (metis prod_cases3)
  from assms(4,1) have 1: "oracle_time (db_oracle db') = oracle_time (db_oracle db) + 1"
    "get0 (oracle_commits (db_oracle db')) r = oracle_time (db_oracle db) + 1"
    using assms(6) by (cases rule: DB_Commit_cases; force)+
  have "td_TimeStart txd < oracle_time (db_oracle db) + 1" using assms(1,3) by (rule less_Suc_u64)
  with assms(5) 1(2) have rc: "read_conflict (db_oracle db') (td_ReadRows txd) (td_TimeStart txd)"
    by (auto simp: read_conflict_iff intro!: bexI [of _ r])
  have "oracle_time (db_oracle db') \<noteq> - 1" using assms(2) 1 by simp
  with c2 have "e = Some ErrConflict" using rc assms(6) by (cases rule: DB_Commit_cases) auto
  with c2 show ?thesis by simp
qed

theorem dry_run_then_commit_conflicts_witness:
  "fst (DB_Commit map_radix ex_db0 (ex_txd ex_ops1) True) = None \<and>
   fst (DB_Commit map_radix (snd (snd (DB_Commit map_radix ex_db0 (ex_txd ex_ops1) True)))
     (ex_txd ex_ops1) False) = Some ErrConflict"
proof -
  have c: "DB_Commit map_radix ex_db0 (ex_txd ex_ops1) True =
     (None, fst (snd (DB_Commit map_radix ex_db0 (ex_txd ex_ops1) True)),
      snd (snd (DB_Commit map_radix ex_db0 (ex_txd ex_ops1) True)))"
    by (simp add: ex_defs)
  have "[1] \<in> set (td_ReadRows (ex_txd ex_ops1))" "[1] \<in> fst ` set (td_WriteRows (ex_txd ex_ops1))"
    by (simp_all add: ex_defs)
  moreover have "oracle_time (db_oracle ex_db0) \<noteq> - 1" "oracle_time (db_oracle ex_db0) + 1 \<noteq> - 1"
    "td_TimeStart (ex_txd ex_ops1) \<le> oracle_time (db_oracle ex_db0)"
    by (simp_all add: ex_defs)
  moreover have "fst (DB_Commit map_radix ex_db0 (ex_txd ex_ops1) True) = None" by (subst c) simp
  ultimately show ?thesis
    using dry_run_then_commit_conflicts [OF _ _ _ c, of "[1]"] by simp
qed

text \<open>The commit path trusts the row hashes of the transaction data it is given: data whose
  change set is not keyed by the hashes of its keys slips past the conflict check, and a
  transaction commits although a value it read has changed.\<close>

definition forged_txd :: TxData where
  "forged_txd = \<lparr>td_TimeStart = 1, td_TimeCommit = 0, td_ReadRows = [],
     td_WriteRows = [([0], \<lparr>change_K = [2], change_V = [5]\<rparr>)]\<rparr>"

theorem forged_rows_break_isolation:
  "let db1 = snd (snd (DB_Commit map_radix ex_db0 forged_txd False))
   in fst (DB_Commit map_radix db1 (ex_txd ex_ops2) False) = None \<and>
      fst (run_ops ex_sha map_radix (DB_NewTx ex_db0) ex_ops2) = [None] \<and>
      fst (run_ops ex_sha map_radix (DB_NewTx db1) ex_ops2) = [Some [5]]"
  by (simp add: ex_defs forged_txd_def)

end
