(* ===== verification/Kv.thy ===== *)
theory Kv
  imports Ssi
begin

text \<open>
  The currency layer of \<^verbatim>\<open>src/exp/onl/kv.go\<close>: balances, stake deposits and transfers as
  key-value rows. \<open>KV\<close> embeds a transaction and only uses its \<open>Get\<close> and \<open>Set\<close>, so the
  operations are written over these two; the locale \<open>kv_store\<close> states what they rely on and
  is interpreted on the snapshot transactions of theory \<open>Ssi\<close>.
\<close>

type_synonym PK = bytes
type_synonym 't getter = "'t \<Rightarrow> bytes \<Rightarrow> bytes option \<times> 't"
type_synonym 't setter = "'t \<Rightarrow> bytes \<Rightarrow> bytes \<Rightarrow> 't"

definition balanceKey :: bytes where
  "balanceKey = str_bytes ''_balance''"

definition stakeKey :: bytes where
  "stakeKey = str_bytes ''_stake''"

definition tpkKey :: bytes where
  "tpkKey = str_bytes ''_tpk''"

definition skey :: "PK \<Rightarrow> bytes" where
  "skey owner = owner @ stakeKey"

definition tpkey :: "PK \<Rightarrow> bytes" where
  "tpkey owner = owner @ tpkKey"

definition DepositStake :: "'t getter \<Rightarrow> 't setter \<Rightarrow> 't \<Rightarrow> PK \<Rightarrow> u64 \<Rightarrow> bytes \<Rightarrow> 't" where
  "DepositStake get put kv owner amount tpk =
     (let balk = owner @ balanceKey; (balv, kv1) = get kv balk
      in if olen balv < 8 then kv1
         else let balance = u64_of (the balv)
         in if balance < amount then kv1
         else let stakek = skey owner; (stakev, kv2) = get kv1 stakek
         in if olen stakev \<ge> 8 then kv2
         else let kv3 = put kv2 balk (set_uint64 (the balv) (balance - amount));
                  kv4 = put kv3 stakek (put_uint64 amount)
              in put kv4 (tpkey owner) tpk)"

definition ReadStake :: "'t getter \<Rightarrow> 't \<Rightarrow> PK \<Rightarrow> (u64 \<times> bytes option) \<times> 't" where
  "ReadStake get kv owner =
     (let (v, kv1) = get kv (skey owner)
      in if olen v < 8 then ((0, None), kv1)
         else let (tpk, kv2) = get kv1 (tpkey owner) in ((u64_of (the v), tpk), kv2))"

definition CoinbaseTransfer :: "'t getter \<Rightarrow> 't setter \<Rightarrow> 't \<Rightarrow> PK \<Rightarrow> u64 \<Rightarrow> 't" where
  "CoinbaseTransfer get put kv receiver amount =
     (let k = receiver @ balanceKey; (v, kv1) = get kv k
      in if olen v \<ge> 8 then put kv1 k (set_uint64 (the v) (amount + u64_of (the v)))
         else put kv1 k (put_uint64 amount))"

definition TransferCurrency :: "'t getter \<Rightarrow> 't setter \<Rightarrow> 't \<Rightarrow> PK \<Rightarrow> PK \<Rightarrow> u64 \<Rightarrow> 't" where
  "TransferCurrency get put kv from to amount =
     (if from = to then kv
      else let balk = from @ balanceKey; (balv, kv1) = get kv balk
      in if olen balv < 8 then kv1
         else let balance = u64_of (the balv)
         in if balance < amount then kv1
         else let kv2 = CoinbaseTransfer get put kv1 to amount
              in put kv2 balk (set_uint64 (the balv) (balance - amount)))"

definition AccountBalance :: "'t getter \<Rightarrow> 't \<Rightarrow> PK \<Rightarrow> u64 \<times> 't" where
  "AccountBalance get kv pk =
     (let (v, kv1) = get kv (pk @ balanceKey)
      in if olen v < 8 then (0, kv1) else (u64_of (the v), kv1))"

text \<open>Row keys of different kinds, or of different identities, never collide.\<close>

lemma key_lengths [simp]:
  "length balanceKey = 8" "length stakeKey = 6" "length tpkKey = 4"
  by (simp_all add: balanceKey_def stakeKey_def tpkKey_def)

lemma balance_keys [simp]:
  "length p = 32 \<Longrightarrow> length q = 32 \<Longrightarrow> skey p \<noteq> q @ balanceKey"
  "length p = 32 \<Longrightarrow> length q = 32 \<Longrightarrow> q @ balanceKey \<noteq> skey p"
  "length p = 32 \<Longrightarrow> length q = 32 \<Longrightarrow> tpkey p \<noteq> q @ balanceKey"
  "length p = 32 \<Longrightarrow> length q = 32 \<Longrightarrow> q @ balanceKey \<noteq> tpkey p"
  by (auto simp: skey_def tpkey_def dest!: arg_cong [where f = length])

lemma stake_keys [simp]:
  "length p = 32 \<Longrightarrow> length q = 32 \<Longrightarrow> tpkey p \<noteq> skey q"
  "length p = 32 \<Longrightarrow> length q = 32 \<Longrightarrow> skey p \<noteq> tpkey q"
  "skey p = skey q \<longleftrightarrow> p = q" "tpkey p = tpkey q \<longleftrightarrow> p = q"
  by (auto simp: skey_def tpkey_def dest!: arg_cong [where f = length])

section \<open>The contract of the embedded transaction\<close>

locale kv_store =
  fixes get :: "'t getter" and put :: "'t setter"
    and lookup :: "'t \<Rightarrow> bytes \<Rightarrow> bytes option" and inv :: "'t \<Rightarrow> bool"
  assumes get_value: "inv t \<Longrightarrow> fst (get t k) = lookup t k"
    and get_frame: "inv t \<Longrightarrow> lookup (snd (get t k)) = lookup t"
    and set_lookup: "inv t \<Longrightarrow> lookup (put t k v) = (lookup t)(k \<mapsto> v)"
    and inv_get: "inv t \<Longrightarrow> inv (snd (get t k))"
    and inv_set: "inv t \<Longrightarrow> inv (put t k v)"
begin

lemmas laws = get_value get_frame set_lookup inv_get inv_set

definition balance :: "'t \<Rightarrow> PK \<Rightarrow> u64" where
  "balance t pk = (let v = lookup t (pk @ balanceKey) in if olen v < 8 then 0 else u64_of (the v))"

definition stake :: "'t \<Rightarrow> PK \<Rightarrow> u64" where
  "stake t pk = (let v = lookup t (skey pk) in if olen v < 8 then 0 else u64_of (the v))"

lemma balance_set:
  "inv t \<Longrightarrow> balance (put t k v) pk =
     (if k = pk @ balanceKey then (if length v < 8 then 0 else u64_of v) else balance t pk)"
  by (simp add: balance_def set_lookup)

lemma stake_set:
  "inv t \<Longrightarrow> stake (put t k v) pk =
     (if k = skey pk then (if length v < 8 then 0 else u64_of v) else stake t pk)"
  by (simp add: stake_def set_lookup)

lemma frame_get [simp]:
  "inv t \<Longrightarrow> balance (snd (get t k)) = balance t" "inv t \<Longrightarrow> stake (snd (get t k)) = stake t"
  by (simp_all add: balance_def stake_def get_frame fun_eq_iff)

lemma AccountBalance_value: "inv t \<Longrightarrow> fst (AccountBalance get t pk) = balance t pk"
  by (simp add: AccountBalance_def balance_def get_value split_beta Let_def)

lemma ReadStake_value: "inv t \<Longrightarrow> fst (fst (ReadStake get t pk)) = stake t pk"
  by (simp add: ReadStake_def stake_def get_value split_beta Let_def)

lemma balance_CoinbaseTransfer:
  assumes "inv t" "length pk = length q"
  shows "balance (CoinbaseTransfer get put t pk a) q = (if q = pk then a + balance t q else balance t q)"
  using assms
  by (auto simp: CoinbaseTransfer_def split_beta Let_def balance_set laws balance_def not_less not_le)

lemma inv_CoinbaseTransfer: "inv t \<Longrightarrow> inv (CoinbaseTransfer get put t pk a)"
  by (simp add: CoinbaseTransfer_def split_beta Let_def laws)

lemma balance_TransferCurrency:
  assumes "inv t" "length from = 32" "length to = 32" "length q = 32"
  shows "balance (TransferCurrency get put t from to a) q =
    (if from = to \<or> balance t from < a then balance t q
     else if q = from then balance t from - a
     else if q = to then a + balance t to else balance t q)"
proof (cases "from = to \<or> olen (lookup t (from @ balanceKey)) < 8")
  case True
  then have "TransferCurrency get put t from to a = t \<or>
      TransferCurrency get put t from to a = snd (get t (from @ balanceKey))"
    using assms by (auto simp: TransferCurrency_def split_beta Let_def laws)
  moreover have "from \<noteq> to \<Longrightarrow> balance t from = 0" using True by (auto simp: balance_def)
  ultimately show ?thesis using assms(1) by (auto simp: word_gt_0)
next
  case False
  then have b: "balance t from = u64_of (the (lookup t (from @ balanceKey)))" by (simp add: balance_def Let_def)
  show ?thesis
    using False assms
    by (auto simp: TransferCurrency_def split_beta Let_def laws b balance_set balance_CoinbaseTransfer
        inv_CoinbaseTransfer)
qed

lemma DepositStake_effect:
  assumes "inv t" "length p = 32" "length q = 32"
  shows "balance (DepositStake get put t p a tpk) q =
      (if q = p \<and> 8 \<le> olen (lookup t (p @ balanceKey)) \<and> a \<le> balance t p \<and> olen (lookup t (skey p)) < 8
       then balance t p - a else balance t q)"
    and "stake (DepositStake get put t p a tpk) q =
      (if q = p \<and> 8 \<le> olen (lookup t (p @ balanceKey)) \<and> a \<le> balance t p \<and> olen (lookup t (skey p)) < 8
       then a else stake t q)"
proof -
  have b: "8 \<le> olen (lookup t (p @ balanceKey)) \<Longrightarrow> balance t p = u64_of (the (lookup t (p @ balanceKey)))"
    by (simp add: balance_def Let_def)
  show "balance (DepositStake get put t p a tpk) q =
      (if q = p \<and> 8 \<le> olen (lookup t (p @ balanceKey)) \<and> a \<le> balance t p \<and> olen (lookup t (skey p)) < 8
       then balance t p - a else balance t q)"
    using assms by (auto simp: DepositStake_def split_beta Let_def laws b balance_set not_le not_less)
  show "stake (DepositStake get put t p a tpk) q =
      (if q = p \<and> 8 \<le> olen (lookup t (p @ balanceKey)) \<and> a \<le> balance t p \<and> olen (lookup t (skey p)) < 8
       then a else stake t q)"
    using assms by (auto simp: DepositStake_def split_beta Let_def laws b stake_set not_le not_less)
qed

end

section \<open>The provider: a snapshot transaction\<close>

text \<open>A \<open>KV\<close> is a transaction together with the hash function and the tree package it runs on.\<close>

record 's KV =
  kv_sha :: "bytes \<Rightarrow> bytes"
  kv_rx :: "'s iradix"
  kv_tx :: "'s Tx"

definition KV_Get :: "'s KV \<Rightarrow> bytes \<Rightarrow> bytes option \<times> 's KV" where
  "KV_Get kv k = (case Tx_Get (kv_sha kv) (kv_rx kv) (kv_tx kv) k of (v, tx) \<Rightarrow> (v, kv\<lparr>kv_tx := tx\<rparr>))"

definition KV_Set :: "'s KV \<Rightarrow> bytes \<Rightarrow> bytes \<Rightarrow> 's KV" where
  "KV_Set kv k v = kv\<lparr>kv_tx := Tx_Set (kv_sha kv) (kv_rx kv) (kv_tx kv) k v\<rparr>"

definition KV_lookup :: "'s KV \<Rightarrow> bytes \<Rightarrow> bytes option" where
  "KV_lookup kv = radix_Get (kv_rx kv) (tx_snapshot (kv_tx kv))"

definition KV_ok :: "'s KV \<Rightarrow> bool" where
  "KV_ok kv \<longleftrightarrow> iradix_ok (kv_rx kv)"

interpretation kv: kv_store KV_Get KV_Set KV_lookup KV_ok
  by unfold_locales
     (auto simp: KV_Get_def KV_Set_def KV_lookup_def KV_ok_def Tx_Get_def Tx_Set_def radix_Get_Insert)

text \<open>What the two readers report, as functions of the rows.\<close>

abbreviation (input) balance_of :: "'s KV \<Rightarrow> PK \<Rightarrow> u64" where
  "balance_of kv pk \<equiv> fst (AccountBalance KV_Get kv pk)"

abbreviation (input) stake_of :: "'s KV \<Rightarrow> PK \<Rightarrow> u64" where
  "stake_of kv pk \<equiv> fst (fst (ReadStake KV_Get kv pk))"

lemma KV_ok_TransferCurrency: "KV_ok kv \<Longrightarrow> KV_ok (TransferCurrency KV_Get KV_Set kv p q a)"
  by (simp add: TransferCurrency_def split_beta Let_def kv.laws kv.inv_CoinbaseTransfer)

lemma KV_ok_DepositStake: "KV_ok kv \<Longrightarrow> KV_ok (DepositStake KV_Get KV_Set kv p a tpk)"
  by (simp add: DepositStake_def split_beta Let_def kv.laws)

lemmas kv_reads = kv.AccountBalance_value kv.ReadStake_value KV_ok_TransferCurrency KV_ok_DepositStake
  kv.balance_TransferCurrency kv.DepositStake_effect

lemma unat_move:
  assumes "(a :: u64) \<le> b" "unat b + unat c < 2 ^ 64"
  shows "unat (b - a) + unat (a + c) = unat b + unat c"
proof -
  have "unat a \<le> unat b" using assms(1) by (simp add: word_le_nat_alt)
  moreover from this assms(2) have "unat (a + c) = unat a + unat c"
    by (subst unat_plus_if') simp
  ultimately show ?thesis using assms(1) by (simp add: unat_sub)
qed

section \<open>Properties\<close>

text \<open>C3. Transfers move currency and nothing else: a covered transfer takes exactly the amount from
  the sender and gives it to the receiver, an uncovered one changes no balance, nobody else is
  affected, and the sum of the two balances stays the same as long as it fits 64 bits.\<close>

theorem transfer_conserves:
  assumes "KV_ok kv" "length from = 32" "length to = 32" "from \<noteq> to"
    and "unat (balance_of kv from) + unat (balance_of kv to) < 2 ^ 64"
  shows "unat (balance_of (TransferCurrency KV_Get KV_Set kv from to a) from) +
      unat (balance_of (TransferCurrency KV_Get KV_Set kv from to a) to) =
      unat (balance_of kv from) + unat (balance_of kv to) \<and>
    balance_of (TransferCurrency KV_Get KV_Set kv from to a) from =
      (if balance_of kv from < a then balance_of kv from else balance_of kv from - a) \<and>
    (\<forall>q. length q = 32 \<longrightarrow> q \<noteq> from \<longrightarrow> q \<noteq> to \<longrightarrow>
      balance_of (TransferCurrency KV_Get KV_Set kv from to a) q = balance_of kv q)"
proof -
  have "unat (kv.balance kv from - a) + unat (a + kv.balance kv to) =
      unat (kv.balance kv from) + unat (kv.balance kv to)" if "\<not> kv.balance kv from < a"
    using that assms(1,5) by (intro unat_move) (simp_all add: kv_reads not_less)
  with assms(1-4) show ?thesis by (simp add: kv_reads)
qed

definition ex_pk :: "nat \<Rightarrow> PK" where
  "ex_pk n = replicate 32 (word_of_nat n)"

definition ex_kv0 :: "(bytes \<rightharpoonup> bytes) KV" where
  "ex_kv0 = \<lparr>kv_sha = ex_sha, kv_rx = map_radix, kv_tx = DB_NewTx ex_db0\<rparr>"

definition ex_kv :: "(bytes \<rightharpoonup> bytes) KV" where
  "ex_kv = CoinbaseTransfer KV_Get KV_Set ex_kv0 (ex_pk 3) 100"

lemma ex_kv_ok [simp]: "KV_ok ex_kv0" "KV_ok ex_kv"
proof -
  show "KV_ok ex_kv0" by (simp add: ex_kv0_def KV_ok_def)
  then show "KV_ok ex_kv" unfolding ex_kv_def by (rule kv.inv_CoinbaseTransfer)
qed

lemma ex_pk_length [simp]: "length (ex_pk n) = 32"
  by (simp add: ex_pk_def)

lemma ex_pk_32 [simp]: "ex_pk 3 \<noteq> ex_pk 2" "ex_pk 2 \<noteq> ex_pk 3"
  by (simp_all add: ex_pk_def)

lemma ex_kv_lookup0: "KV_lookup ex_kv0 k = None"
  by (simp add: KV_lookup_def ex_kv0_def DB_NewTx_def ex_db0_def NewDB_def map_radix_def)

lemma ex_kv_balance: "kv.balance ex_kv (ex_pk 3) = 100" "kv.balance ex_kv (ex_pk 2) = 0"
  using ex_pk_32
  by (simp_all add: ex_kv_def kv.balance_CoinbaseTransfer) (simp_all add: kv.balance_def ex_kv_lookup0)

theorem transfer_conserves_witness:
  "balance_of (TransferCurrency KV_Get KV_Set ex_kv (ex_pk 3) (ex_pk 2) 30) (ex_pk 3) = 70"
  using transfer_conserves [of ex_kv "ex_pk 3" "ex_pk 2" 30]
  by (simp add: kv_reads ex_kv_balance)

text \<open>Depositing stake locks exactly the amount: it needs a covering balance and no earlier
  stake, and then what leaves the balance is what \<open>ReadStake\<close> reports, with the committed token
  key; a second deposit changes nothing.\<close>

theorem deposit_locks_once:
  assumes "KV_ok kv" "length p = 32" "a \<le> balance_of kv p" "a \<noteq> 0" "KV_lookup kv (skey p) = None"
  shows "balance_of (DepositStake KV_Get KV_Set kv p a tpk) p = balance_of kv p - a \<and>
    fst (ReadStake KV_Get (DepositStake KV_Get KV_Set kv p a tpk) p) = (a, Some tpk) \<and>
    (\<forall>b t2. balance_of (DepositStake KV_Get KV_Set (DepositStake KV_Get KV_Set kv p a tpk) p b t2) p = balance_of kv p - a \<and>
      stake_of (DepositStake KV_Get KV_Set (DepositStake KV_Get KV_Set kv p a tpk) p b t2) p = a)"
proof -
  let ?d = "DepositStake KV_Get KV_Set kv p a tpk"
  have f: "8 \<le> olen (KV_lookup kv (p @ balanceKey))"
    using assms(1,3,4) by (auto simp: kv_reads kv.balance_def Let_def split: if_splits)
  then have b: "kv.balance kv p = u64_of (the (KV_lookup kv (p @ balanceKey)))"
    by (simp add: kv.balance_def Let_def)
  have nl: "\<not> u64_of (the (KV_lookup kv (p @ balanceKey))) < a"
    using assms(1,3) b by (simp add: kv_reads not_less)
  have rows: "KV_lookup ?d (skey p) = Some (put_uint64 a)" "KV_lookup ?d (tpkey p) = Some tpk"
    using assms(1,2,5) f nl by (simp_all add: DepositStake_def split_beta Let_def kv.laws)
  have ok: "KV_ok ?d" using assms(1) by (rule KV_ok_DepositStake)
  have one: "kv.balance ?d p = kv.balance kv p - a" "kv.stake ?d p = a"
    using assms f by (simp_all add: kv_reads)
  have "fst (ReadStake KV_Get ?d p) = (a, Some tpk)"
    using ok rows by (simp add: ReadStake_def split_beta Let_def kv.laws)
  moreover have "kv.balance (DepositStake KV_Get KV_Set ?d p b t2) p = kv.balance ?d p \<and>
      kv.stake (DepositStake KV_Get KV_Set ?d p b t2) p = kv.stake ?d p" for b t2
    using ok assms(2) rows by (simp add: kv.DepositStake_effect)
  ultimately show ?thesis using ok one assms(1) by (simp add: kv_reads)
qed

theorem deposit_locks_once_witness:
  "fst (ReadStake KV_Get (DepositStake KV_Get KV_Set ex_kv (ex_pk 3) 40 [9]) (ex_pk 3)) = (40, Some [9])"
proof -
  have "KV_lookup ex_kv (skey (ex_pk 3)) = None"
    by (simp add: ex_kv_def CoinbaseTransfer_def split_beta Let_def kv.laws ex_kv_lookup0)
  then show ?thesis
    using deposit_locks_once [of ex_kv "ex_pk 3" 40 "[9]"] by (simp add: kv_reads ex_kv_balance)
qed

end
