(* ===== verification/Onl_State.thy ===== *)
theory Onl_State
  imports Kv
begin

text \<open>
  Writes and the replicated state: \<^verbatim>\<open>src/exp/onl/write.go\<close>, \<^verbatim>\<open>src/exp/onl/state.go\<close> and the
  error values of \<^verbatim>\<open>src/exp/onl/errors.go\<close>. The state is an SSI database plus the set of nonces of
  the writes it holds; the mutex of \<open>State\<close> makes every operation atomic. Pointers that the
  code tests for nil are options; a write is changed in place by \<open>Apply\<close> (its commit time), so
  \<open>Apply\<close> returns the changed write.
\<close>

section \<open>Errors and writes\<close>

datatype onl_error =
    ErrInvalidSignature | ErrInvalidToken | ErrBlockExist | ErrBlockNotExist | ErrZeroRound
  | ErrStableNotInChain | ErrStateReconstruction | ErrApplyConflict | ErrNoTokenPK | ErrZeroRank
  | ErrRoundNrNotAfterPrev | ErrTimestampNotAfterPrev | ErrNotWeighted | ErrAppendConflict
  | ErrAlreadyApplied | ErrFmt string

type_synonym Nonce = bytes

record Write =
  w_TxData :: TxData
  w_PK :: PK
  w_Nonce :: Nonce
  w_Signature :: bytes

text \<open>\<open>StakeDeposits\<close> visits the write rows; a stake row with a value of fewer than eight bytes
  makes \<^verbatim>\<open>binary.BigEndian.Uint64\<close> panic.\<close>

fun stake_rows :: "KeyChangeSet \<Rightarrow> (PK \<times> u64) list \<Rightarrow> ('e, (PK \<times> u64) list) res" where
  "stake_rows [] deposits = Ok deposits"
| "stake_rows (wr # rows) deposits =
     (let k = change_K (snd wr)
      in if length k \<noteq> 32 + length stakeKey then stake_rows rows deposits
         else if drop 32 k = stakeKey
         then res_bind (get_uint64 (change_V (snd wr)))
                (\<lambda>d. stake_rows rows (AList.update (take 32 k) d deposits))
         else stake_rows rows deposits)"

definition StakeDeposits :: "Write \<Rightarrow> ('e, (PK \<times> u64) list) res" where
  "StakeDeposits w = stake_rows (td_WriteRows (w_TxData w)) []"

definition TotalDeposit :: "Write \<Rightarrow> ('e, u64) res" where
  "TotalDeposit w = res_bind (StakeDeposits w) (\<lambda>ds. Ok (sum_list (map snd ds)))"

definition HasDepositFor :: "Write \<Rightarrow> PK \<Rightarrow> ('e, bool) res" where
  "HasDepositFor w pk = res_bind (StakeDeposits w) (\<lambda>ds. Ok (0 < get0 (map_of ds) pk))"

text \<open>The bytes that are hashed: rows sorted by their key hash, so independent of map order.\<close>

definition write_row :: "KeyChangeSet \<Rightarrow> KH \<Rightarrow> bytes" where
  "write_row rows k = (case map_of rows k of None \<Rightarrow> k | Some c \<Rightarrow> k @ change_K c @ change_V c)"

definition Write_preimage :: "Write \<Rightarrow> bytes" where
  "Write_preimage w =
     (let d = w_TxData w
      in put_uint64 (td_TimeStart d) @ put_uint64 (td_TimeCommit d) @ w_Nonce w @ w_PK w @
         concat (sort (td_ReadRows d)) @
         concat (map (write_row (td_WriteRows d)) (sort (map fst (td_WriteRows d)))))"

definition Write_Hash :: "(bytes \<Rightarrow> bytes) \<Rightarrow> Write \<Rightarrow> bytes" where
  "Write_Hash sha w = sha (Write_preimage w)"

definition Write_VerifySignature :: "(bytes \<Rightarrow> bytes) \<Rightarrow> (PK \<Rightarrow> bytes \<Rightarrow> bytes \<Rightarrow> bool) \<Rightarrow> Write \<Rightarrow> bool" where
  "Write_VerifySignature sha ed_verify w = ed_verify (w_PK w) (Write_Hash sha w) (w_Signature w)"

section \<open>The state\<close>

record 's State =
  st_db :: "'s DB"
  st_writes :: "Nonce set"

definition State_Apply :: "'s iradix \<Rightarrow> 's State \<Rightarrow> Write option \<Rightarrow> bool \<Rightarrow>
    onl_error option \<times> Write option \<times> 's State" where
  "State_Apply rx s ow dry =
     (case ow of
        None \<Rightarrow> (None, None, s)
      | Some w \<Rightarrow>
          if w_Nonce w \<in> st_writes s then (Some ErrAlreadyApplied, Some w, s)
          else (case DB_Commit rx (st_db s) (w_TxData w) dry of (e, txd, db) \<Rightarrow>
            let w' = w\<lparr>w_TxData := txd\<rparr>; s' = s\<lparr>st_db := db\<rparr>
            in (case e of
                  Some ErrConflict \<Rightarrow> (Some ErrApplyConflict, Some w', s')
                | None \<Rightarrow> if \<not> dry then (None, Some w', s'\<lparr>st_writes := insert (w_Nonce w) (st_writes s)\<rparr>)
                          else (None, Some w', s'))))"

fun apply_all :: "'s iradix \<Rightarrow> 's State \<Rightarrow> Write list \<Rightarrow> onl_error option \<times> 's State" where
  "apply_all rx s [] = (None, s)"
| "apply_all rx s (w # ws) =
     (case State_Apply rx s (Some w) False of
        (None, _, s') \<Rightarrow> apply_all rx s' ws
      | (Some e, _, s') \<Rightarrow> (Some e, s'))"

definition empty_state :: "'s iradix \<Rightarrow> 's State" where
  "empty_state rx = \<lparr>st_db = NewDB rx, st_writes = {}\<rparr>"

definition NewState :: "'s iradix \<Rightarrow> Write list list \<Rightarrow> (onl_error, 's State) res" where
  "NewState rx log =
     (case apply_all rx (empty_state rx) (concat log) of
        (None, s) \<Rightarrow> Ok s
      | (Some e, s) \<Rightarrow> Err e)"

definition State_View :: "'s State \<Rightarrow> ('s Tx \<Rightarrow> 'a) \<Rightarrow> 'a" where
  "State_View s f = f (DB_NewTx (st_db s))"

definition State_Update :: "'s State \<Rightarrow> ('s Tx \<Rightarrow> 's Tx) \<Rightarrow> Write option" where
  "State_Update s f =
     (let w = \<lparr>w_TxData = tx_data (f (DB_NewTx (st_db s))), w_PK = replicate 32 0,
               w_Nonce = replicate 32 0, w_Signature = replicate 64 0\<rparr>
      in if length (td_WriteRows (w_TxData w)) < 1 then None else Some w)"

section \<open>Lemmas\<close>

lemma State_Apply_ok:
  assumes "State_Apply rx s (Some w) dry = (None, w', s')"
  shows "w_Nonce w \<notin> st_writes s \<and>
    st_writes s' = (if dry then st_writes s else insert (w_Nonce w) (st_writes s)) \<and>
    (\<exists>txd. DB_Commit rx (st_db s) (w_TxData w) dry = (None, txd, st_db s') \<and> w' = Some (w\<lparr>w_TxData := txd\<rparr>))"
  using assms
  by (auto simp: State_Apply_def Let_def split: if_splits prod.splits option.splits ssi_error.splits)

lemma apply_all_append:
  "apply_all rx s (xs @ ys) =
     (case apply_all rx s xs of (None, s') \<Rightarrow> apply_all rx s' ys | (Some e, s') \<Rightarrow> (Some e, s'))"
  by (induction rx s xs rule: apply_all.induct) (auto split: prod.splits option.splits)

lemma apply_all_nonces:
  assumes "apply_all rx s ws = (None, s')"
  shows "distinct (map w_Nonce ws) \<and> set (map w_Nonce ws) \<inter> st_writes s = {} \<and>
    st_writes s' = set (map w_Nonce ws) \<union> st_writes s"
  using assms
proof (induction rx s ws rule: apply_all.induct)
  case (1 rx s)
  then show ?case by simp
next
  case (2 rx s w ws)
  then obtain w' s1 where a: "State_Apply rx s (Some w) False = (None, w', s1)"
    by (auto split: prod.splits option.splits)
  with 2 have "distinct (map w_Nonce ws) \<and> set (map w_Nonce ws) \<inter> st_writes s1 = {} \<and>
    st_writes s' = set (map w_Nonce ws) \<union> st_writes s1" by simp
  with State_Apply_ok [OF a] show ?case by auto
qed

text \<open>What a transaction's snapshot holds: the base overridden by its own write rows.\<close>

definition row_map :: "KeyChangeSet \<Rightarrow> bytes \<rightharpoonup> bytes" where
  "row_map rows = map_of (map (\<lambda>c. (change_K (snd c), change_V (snd c))) rows)"

lemma row_map_Add:
  assumes "wf_changes sha rows" "inj sha"
  shows "row_map (KeyChangeSet_Add sha rows k v) = (row_map rows)(k \<mapsto> v)"
  using assms(1)
proof (induction rows)
  case Nil
  then show ?case by (simp add: row_map_def KeyChangeSet_Add_def)
next
  case (Cons p rows)
  then have wf: "wf_changes sha rows" and h: "fst p = sha (change_K (snd p))"
    by (auto simp: wf_changes_def wf_amap_def keyHash_def)
  show ?case
  proof (cases "change_K (snd p) = k")
    case True
    with h show ?thesis
      by (cases p) (simp add: row_map_def KeyChangeSet_Add_def keyHash_def fun_eq_iff)
  next
    case False
    with h assms(2) have "fst p \<noteq> sha k" by (simp add: inj_eq)
    with False Cons.IH [OF wf] show ?thesis
      by (cases p) (auto simp: row_map_def KeyChangeSet_Add_def keyHash_def fun_eq_iff)
  qed
qed

lemma run_ops_snapshot:
  assumes "iradix_ok rx" "inj sha"
    and "wf_changes sha (td_WriteRows (tx_data tx))"
    and "\<And>k. radix_Get rx (tx_snapshot tx) k =
          (case row_map (td_WriteRows (tx_data tx)) k of Some v \<Rightarrow> Some v | None \<Rightarrow> radix_Get rx base k)"
  shows "radix_Get rx (tx_snapshot (snd (run_ops sha rx tx ps))) k =
    (case row_map (td_WriteRows (tx_data (snd (run_ops sha rx tx ps)))) k of
       Some v \<Rightarrow> Some v | None \<Rightarrow> radix_Get rx base k)"
  using assms(3,4)
proof (induction ps arbitrary: tx)
  case Nil
  then show ?case by simp
next
  case (Cons p ps)
  show ?case
  proof (cases p)
    case (OpGet key)
    with Cons.prems show ?thesis by (auto simp: Tx_Get_def intro!: Cons.IH)
  next
    case (OpSet key v)
    with Cons.prems assms(1,2) show ?thesis
      by (auto simp: Tx_Set_def radix_Get_Insert row_map_Add wf_changes_Add intro!: Cons.IH)
  qed
qed

section \<open>Properties\<close>

text \<open>C4. No replay: in a state rebuilt from a chain every write occurs once. The nonces of a log that
  can be replayed are pairwise different, they are exactly the nonces the state remembers, and
  applying any of its writes again, dry or not, is refused without changing the state.\<close>

theorem state_no_replay:
  assumes "NewState rx log = Ok s"
  shows "distinct (map w_Nonce (concat log)) \<and> st_writes s = w_Nonce ` set (concat log) \<and>
    (\<forall>w dry. w_Nonce w \<in> w_Nonce ` set (concat log) \<longrightarrow>
       State_Apply rx s (Some w) dry = (Some ErrAlreadyApplied, Some w, s))"
proof -
  have "apply_all rx (empty_state rx) (concat log) = (None, s)"
    using assms by (auto simp: NewState_def split: prod.splits option.splits)
  from apply_all_nonces [OF this] show ?thesis
    by (auto simp: empty_state_def State_Apply_def)
qed

definition ex_state :: "(bytes \<rightharpoonup> bytes) State" where
  "ex_state = empty_state map_radix"

definition ex_write :: "txop list \<Rightarrow> nat \<Rightarrow> Write" where
  "ex_write ops n = \<lparr>w_TxData = ex_txd ops, w_PK = ex_pk 3, w_Nonce = replicate 32 (word_of_nat n),
     w_Signature = replicate 64 0\<rparr>"

definition ex_log :: "Write list list" where
  "ex_log = [[ex_write ex_ops1 1], [ex_write ex_ops2 2]]"

lemmas ex_state_defs = ex_state_def ex_write_def ex_log_def empty_state_def ex_defs

theorem state_no_replay_witness:
  "\<exists>s. NewState map_radix ex_log = Ok s \<and>
     fst (State_Apply map_radix s (Some (ex_write ex_ops2 1)) False) = Some ErrAlreadyApplied"
proof -
  obtain s where s: "NewState map_radix ex_log = Ok s"
    by (simp add: NewState_def State_Apply_def ex_state_defs)
  have "w_Nonce (ex_write ex_ops2 1) \<in> w_Nonce ` set (concat ex_log)"
    by (simp add: ex_log_def ex_write_def)
  with state_no_replay [OF s] s show ?thesis by force
qed



text \<open>Every member computes the same hash for a write, whatever order its maps happen to be
  iterated in.\<close>

theorem write_hash_order_independent:
  assumes "wf_amap (td_WriteRows (w_TxData w))"
    and "mset rows = mset (td_WriteRows (w_TxData w))" "mset reads = mset (td_ReadRows (w_TxData w))"
    and "w' = w\<lparr>w_TxData := (w_TxData w)\<lparr>td_ReadRows := reads, td_WriteRows := rows\<rparr>\<rparr>"
  shows "Write_Hash sha w' = Write_Hash sha w"
proof -
  have "sort reads = sort (td_ReadRows (w_TxData w))"
    using assms(3) by (rule sort_perm)
  moreover have "sort (map fst rows) = sort (map fst (td_WriteRows (w_TxData w)))"
    using assms(2) by (intro sort_perm) simp
  moreover have "map_of rows = map_of (td_WriteRows (w_TxData w))"
    by (rule map_of_perm [OF assms(1), symmetric]) (simp add: assms(2))
  ultimately show ?thesis
    by (simp add: assms(4) Write_Hash_def Write_preimage_def Let_def write_row_def [abs_def])
qed

theorem write_hash_order_independent_witness:
  "let d = (ex_txd [OpSet [1] [7], OpSet [2] [8]])
   in Write_Hash ex_sha \<lparr>w_TxData = d\<lparr>td_WriteRows := rev (td_WriteRows d)\<rparr>, w_PK = [], w_Nonce = [], w_Signature = []\<rparr> =
      Write_Hash ex_sha \<lparr>w_TxData = d, w_PK = [], w_Nonce = [], w_Signature = []\<rparr>"
proof -
  let ?d = "ex_txd [OpSet [1] [7], OpSet [2] [8]]"
  let ?w = "\<lparr>w_TxData = ?d, w_PK = [], w_Nonce = [], w_Signature = []\<rparr>"
  have "wf_amap (td_WriteRows ?d)" by (simp add: ex_defs wf_amap_def)
  from write_hash_order_independent [of ?w "rev (td_WriteRows ?d)" "td_ReadRows ?d" _ ex_sha, OF _ _ _ refl]
    this show ?thesis by (simp add: Let_def)
qed

text \<open>The commit time is part of the bytes a write is signed over, and \<open>Apply\<close> sets it, even in
  a dry run: once a freshly signed write has been applied, the bytes to verify are different
  ones, and so is the hash when it has no collision there.\<close>

theorem apply_changes_signed_bytes:
  assumes "State_Apply rx s (Some w) dry = (None, Some w', s')"
    and "oracle_time (db_oracle (st_db s)) \<noteq> - 1" "td_TimeCommit (w_TxData w) = 0"
    and "td_WriteRows (w_TxData w) \<noteq> []" "inj sha"
  shows "Write_Hash sha w' \<noteq> Write_Hash sha w"
proof -
  obtain txd where c: "DB_Commit rx (st_db s) (w_TxData w) dry = (None, txd, st_db s')"
    and w': "w' = w\<lparr>w_TxData := txd\<rparr>"
    using State_Apply_ok [OF assms(1)] by auto
  have ts: "td_TimeStart txd = td_TimeStart (w_TxData w)"
    using c assms(4) by (auto simp: DB_Commit_def Let_def split: if_splits prod.splits)
  have "oracle_time (db_oracle (st_db s)) + 1 \<noteq> 0" using assms(2) by (rule word_Suc_nonzero)
  with c assms(2) have "td_TimeCommit txd \<noteq> 0"
    using assms(4) by - (erule (1) DB_Commit_cases, auto)
  then have "Write_preimage w' \<noteq> Write_preimage w"
    using assms(3) w' ts by (simp add: Write_preimage_def Let_def append_eq_append_conv)
  with assms(5) show ?thesis by (simp add: Write_Hash_def inj_eq)
qed

theorem apply_changes_signed_bytes_witness:
  "\<exists>w' s'. State_Apply map_radix ex_state (Some (ex_write ex_ops1 1)) True = (None, Some w', s') \<and>
     Write_Hash ex_sha w' \<noteq> Write_Hash ex_sha (ex_write ex_ops1 1)"
proof -
  have "fst (State_Apply map_radix ex_state (Some (ex_write ex_ops1 1)) True) = None"
    by (simp add: State_Apply_def ex_state_defs)
  moreover have "fst (snd (State_Apply map_radix ex_state (Some (ex_write ex_ops1 1)) True)) \<noteq> None"
    by (simp add: State_Apply_def ex_state_defs)
  ultimately obtain w' s' where a: "State_Apply map_radix ex_state (Some (ex_write ex_ops1 1)) True = (None, Some w', s')"
    by (metis not_None_eq prod.collapse)
  have "oracle_time (db_oracle (st_db ex_state)) \<noteq> - 1" "td_TimeCommit (w_TxData (ex_write ex_ops1 1)) = 0"
    "td_WriteRows (w_TxData (ex_write ex_ops1 1)) \<noteq> []" "inj ex_sha"
    by (simp_all add: ex_state_defs inj_on_def)
  with apply_changes_signed_bytes [OF a] a show ?thesis by blast
qed

end
