(* ===== verification/Onl_Block.thy ===== *)
theory Onl_Block
  imports Onl_State "HOL-Library.Countable"
begin

text \<open>
  Blocks, stakes, identities and block storage of package \<open>onl\<close>: \<^verbatim>\<open>src/exp/onl/block.go\<close>,
  \<^verbatim>\<open>stakes.go\<close>, \<^verbatim>\<open>identity.go\<close> and \<^verbatim>\<open>store.go\<close>. The signature scheme and the VRF are parameters, as
  are the Badger transaction (an ordered byte store, contract \<open>badger_ok\<close>) and the gob encoding
  of a stored block. The locale \<open>block_store\<close> is the contract of the \<open>Tx\<close> interface that the
  chain relies on; it is interpreted on \<open>BadgerTx\<close>.
\<close>

section \<open>Blocks (block.go)\<close>

type_synonym ID = bytes

definition NilID :: ID where
  "NilID = replicate 32 0"

definition ID_Round :: "ID \<Rightarrow> u64" where
  "ID_Round bid = - 1 - u64_of bid"

record Block =
  b_Round :: u64
  b_Timestamp :: u64
  b_Token :: bytes
  b_Proof :: bytes
  b_PK :: PK
  b_Prev :: ID
  b_Signature :: bytes
  b_Writes :: "Write list"

definition round_prefix :: "u64 \<Rightarrow> bytes" where
  "round_prefix r = put_uint64 (- 1 - r)"

definition Block_Hash :: "(bytes \<Rightarrow> bytes) \<Rightarrow> Block \<Rightarrow> ID" where
  "Block_Hash sha b =
     (let tsb = put_uint64 (b_Timestamp b); roundb = round_prefix (b_Round b);
          wrshs = concat (map (\<lambda>wr. Write_Hash sha wr @ w_Signature wr) (b_Writes b));
          h = sha (b_Prev b @ b_PK b @ b_Proof b @ b_Token b @ tsb @ roundb @ wrshs)
      in roundb @ drop 8 h)"

definition Block_Seed :: "Block \<Rightarrow> ID \<Rightarrow> bytes" where
  "Block_Seed b stableid = stableid @ b_PK b @ put_uint64 (b_Round b)"

definition Block_VerifySignature :: "(bytes \<Rightarrow> bytes) \<Rightarrow> (PK \<Rightarrow> bytes \<Rightarrow> bytes \<Rightarrow> bool) \<Rightarrow> Block \<Rightarrow> bool" where
  "Block_VerifySignature sha ed_verify b = ed_verify (b_PK b) (Block_Hash sha b) (b_Signature b)"

definition Block_VerifyToken :: "(bytes \<Rightarrow> bytes \<Rightarrow> bytes \<Rightarrow> bytes \<Rightarrow> bool) \<Rightarrow> Block \<Rightarrow> bytes \<Rightarrow> ID \<Rightarrow> bool" where
  "Block_VerifyToken vrf_verify b tokenPK stableid = vrf_verify tokenPK (Block_Seed b stableid) (b_Token b) (b_Proof b)"

text \<open>The stake is converted with \<^verbatim>\<open>int64\<close>, so a stake of \<open>2 ^ 63\<close> or more ranks negative.\<close>

definition Block_Rank :: "Block \<Rightarrow> u64 \<Rightarrow> int" where
  "Block_Rank b stake = int (be_nat (b_Token b)) * sint stake"

primrec Block_AppendWrite :: "Block \<Rightarrow> Write option list \<Rightarrow> Block" where
  "Block_AppendWrite b [] = b"
| "Block_AppendWrite b (ow # ws) =
     (case ow of None \<Rightarrow> Block_AppendWrite b ws
      | Some w \<Rightarrow> Block_AppendWrite (b\<lparr>b_Writes := b_Writes b @ [w]\<rparr>) ws)"

section \<open>Stakes and identities (stakes.go, identity.go)\<close>

record Stakes =
  stk_Sum :: u64
  stk_Votes :: "(PK \<times> u64) list"

definition NewStakes :: "u64 \<Rightarrow> Stakes" where
  "NewStakes s = \<lparr>stk_Sum = s, stk_Votes = []\<rparr>"

record Identity =
  idn_vrfSK :: bytes
  idn_signPK :: PK
  idn_signSK :: bytes

definition Identity_Sign :: "(bytes \<Rightarrow> bytes) \<Rightarrow> (bytes \<Rightarrow> bytes \<Rightarrow> bytes) \<Rightarrow> Identity \<Rightarrow> Block \<Rightarrow> Block" where
  "Identity_Sign sha ed_sign idn b = b\<lparr>b_Signature := ed_sign (idn_signSK idn) (Block_Hash sha b)\<rparr>"

definition Identity_SignWrite :: "(bytes \<Rightarrow> bytes) \<Rightarrow> (bytes \<Rightarrow> bytes \<Rightarrow> bytes) \<Rightarrow> Identity \<Rightarrow> Write \<Rightarrow> Write" where
  "Identity_SignWrite sha ed_sign idn w = w\<lparr>w_Signature := ed_sign (idn_signSK idn) (Write_Hash sha w)\<rparr>"

definition Identity_Mint :: "(bytes \<Rightarrow> bytes \<Rightarrow> bytes \<times> bytes) \<Rightarrow> Identity \<Rightarrow> u64 \<Rightarrow> ID \<Rightarrow> ID \<Rightarrow> u64 \<Rightarrow> Block" where
  "Identity_Mint vrf_prove idn ts prev stableid rnd =
     (let b = \<lparr>b_Round = rnd, b_Timestamp = ts, b_Token = [], b_Proof = [], b_PK = idn_signPK idn,
               b_Prev = prev, b_Signature = replicate 64 0, b_Writes = []\<rparr>;
          (token, proof) = vrf_prove (Block_Seed b stableid) (idn_vrfSK idn)
      in b\<lparr>b_Token := token, b_Proof := proof\<rparr>)"

section \<open>Storage (store.go)\<close>

type_synonym entry = "Block \<times> Stakes \<times> int"

text \<open>The Badger package: \<open>bd_Iter t p\<close> lists the pairs an iterator started with \<open>Seek p\<close> visits
  in ascending key order, \<open>bd_RevIter\<close> those of a reverse iterator.\<close>

record 'b badger =
  bd_Get :: "'b \<Rightarrow> bytes \<Rightarrow> bytes option"
  bd_Set :: "'b \<Rightarrow> bytes \<Rightarrow> bytes \<Rightarrow> 'b"
  bd_Iter :: "'b \<Rightarrow> bytes \<Rightarrow> (bytes \<times> bytes) list"
  bd_RevIter :: "'b \<Rightarrow> bytes \<Rightarrow> (bytes \<times> bytes) list"

definition badger_ok :: "'b badger \<Rightarrow> bool" where
  "badger_ok bd \<longleftrightarrow>
     (\<forall>t k v. bd_Get bd (bd_Set bd t k v) = (bd_Get bd t)(k \<mapsto> v)) \<and>
     (\<forall>t p. set (bd_Iter bd t p) = {(k, v). p \<le> k \<and> bd_Get bd t k = Some v} \<and>
            sorted_wrt (\<lambda>x y. fst x < fst y) (bd_Iter bd t p)) \<and>
     (\<forall>t p. set (bd_RevIter bd t p) = {(k, v). k \<le> p \<and> bd_Get bd t k = Some v} \<and>
            sorted_wrt (\<lambda>x y. fst y < fst x) (bd_RevIter bd t p))"

record gob =
  gob_enc :: "entry \<Rightarrow> bytes"
  gob_dec :: "bytes \<Rightarrow> entry option"

definition gob_ok :: "gob \<Rightarrow> bool" where
  "gob_ok g \<longleftrightarrow> (\<forall>e. gob_dec g (gob_enc g e) = Some e)"

record 'b BadgerTx =
  bt_sha :: "bytes \<Rightarrow> bytes"
  bt_bd :: "'b badger"
  bt_gob :: gob
  bt_btx :: 'b

definition blockBucket :: bytes where
  "blockBucket = str_bytes ''b/''"

definition tipKey :: bytes where
  "tipKey = str_bytes ''m/'' @ str_bytes ''tip''"

definition roundPrefix :: "u64 \<Rightarrow> bytes" where
  "roundPrefix nr = blockBucket @ round_prefix nr"

definition id2key :: "ID \<Rightarrow> bytes" where
  "id2key bid = blockBucket @ bid"

definition key2id :: "bytes \<Rightarrow> ID" where
  "key2id key = drop (length blockBucket) key"

text \<open>A decoding failure is an error of \<open>decode\<close>; a stored tip value is always written whole.\<close>

definition decode :: "gob \<Rightarrow> bytes \<Rightarrow> (onl_error, entry) res" where
  "decode g d = (case gob_dec g d of None \<Rightarrow> Err (ErrFmt ''failed to decode block data'') | Some e \<Rightarrow> Ok e)"

definition BadgerTx_ReadTip :: "'b BadgerTx \<Rightarrow> ID \<times> u64" where
  "BadgerTx_ReadTip tx =
     (case bd_Get (bt_bd tx) (bt_btx tx) tipKey of
        None \<Rightarrow> (NilID, 0)
      | Some val \<Rightarrow> (take 32 val, u64_of (drop 32 val)))"

definition BadgerTx_WriteTip :: "'b BadgerTx \<Rightarrow> ID \<Rightarrow> u64 \<Rightarrow> 'b BadgerTx" where
  "BadgerTx_WriteTip tx tip tipw = tx\<lparr>bt_btx := bd_Set (bt_bd tx) (bt_btx tx) tipKey (tip @ put_uint64 tipw)\<rparr>"

definition BadgerTx_MaxRound :: "'b BadgerTx \<Rightarrow> u64" where
  "BadgerTx_MaxRound tx =
     (case takeWhile (\<lambda>p. take (length blockBucket) (fst p) = blockBucket)
             (bd_Iter (bt_bd tx) (bt_btx tx) blockBucket) of
        [] \<Rightarrow> 0
      | p # _ \<Rightarrow> ID_Round (key2id (fst p)))"

definition BadgerTx_MinRound :: "'b BadgerTx \<Rightarrow> u64" where
  "BadgerTx_MinRound tx =
     (case takeWhile (\<lambda>p. take (length blockBucket) (fst p) = blockBucket)
             (bd_RevIter (bt_bd tx) (bt_btx tx) (butlast blockBucket @ [0xff])) of
        [] \<Rightarrow> 0
      | p # _ \<Rightarrow> ID_Round (key2id (fst p)))"

fun decode_all :: "gob \<Rightarrow> (bytes \<times> bytes) list \<Rightarrow> (onl_error, (ID \<times> entry) list) res" where
  "decode_all g [] = Ok []"
| "decode_all g ((k, d) # ps) =
     res_bind (decode g d) (\<lambda>e. res_bind (decode_all g ps) (\<lambda>es. Ok ((key2id k, e) # es)))"

definition BadgerTx_Round :: "'b BadgerTx \<Rightarrow> u64 \<Rightarrow> (onl_error, (ID \<times> entry) list) res" where
  "BadgerTx_Round tx nr =
     decode_all (bt_gob tx) (takeWhile (\<lambda>p. take (length (roundPrefix nr)) (fst p) = roundPrefix nr)
       (bd_Iter (bt_bd tx) (bt_btx tx) (roundPrefix nr)))"

definition BadgerTx_Write :: "'b BadgerTx \<Rightarrow> Block \<Rightarrow> Stakes \<Rightarrow> int \<Rightarrow> 'b BadgerTx" where
  "BadgerTx_Write tx b stk rank =
     tx\<lparr>bt_btx := bd_Set (bt_bd tx) (bt_btx tx) (id2key (Block_Hash (bt_sha tx) b)) (gob_enc (bt_gob tx) (b, stk, rank))\<rparr>"

definition BadgerTx_Read :: "'b BadgerTx \<Rightarrow> ID \<Rightarrow> (onl_error, entry) res" where
  "BadgerTx_Read tx bid =
     (case bd_Get (bt_bd tx) (bt_btx tx) (id2key bid) of
        None \<Rightarrow> Err ErrBlockNotExist
      | Some d \<Rightarrow> decode (bt_gob tx) d)"

section \<open>Lemmas\<close>

lemma length_round_prefix [simp]: "length (round_prefix r) = 8"
  by (simp add: round_prefix_def)

lemma take_Block_Hash [simp]: "take 8 (Block_Hash sha b) = round_prefix (b_Round b)"
  by (simp add: Block_Hash_def Let_def)

lemma ID_Round_prefix: "take 8 bid = round_prefix r \<Longrightarrow> ID_Round bid = r"
  by (simp add: ID_Round_def u64_of_def round_prefix_def)

lemma Block_AppendWrite_Writes:
  "b_Writes (Block_AppendWrite b ws) = b_Writes b @ List.map_filter id ws"
  by (induction ws arbitrary: b) (auto simp: List.map_filter_simps split: option.splits)

section \<open>The contract of the store\<close>

locale block_store =
  fixes hash :: "'t \<Rightarrow> Block \<Rightarrow> ID"
    and readTip :: "'t \<Rightarrow> ID \<times> u64" and writeTip :: "'t \<Rightarrow> ID \<Rightarrow> u64 \<Rightarrow> 't"
    and bwrite :: "'t \<Rightarrow> Block \<Rightarrow> Stakes \<Rightarrow> int \<Rightarrow> 't"
    and bread :: "'t \<Rightarrow> ID \<Rightarrow> (onl_error, entry) res"
    and bround :: "'t \<Rightarrow> u64 \<Rightarrow> (onl_error, (ID \<times> entry) list) res"
    and maxRound :: "'t \<Rightarrow> u64"
    and entries :: "'t \<Rightarrow> ID \<Rightarrow> entry option" and inv :: "'t \<Rightarrow> bool"
  assumes inv_write: "inv t \<Longrightarrow> inv (bwrite t b stk rank)"
    and inv_writeTip: "inv t \<Longrightarrow> inv (writeTip t tip w)"
    and hash_round: "take 8 (hash t b) = round_prefix (b_Round b)"
    and hash_write: "hash (bwrite t b stk rank) = hash t"
    and hash_writeTip: "hash (writeTip t tip w) = hash t"
    and read_entry: "inv t \<Longrightarrow>
      bread t i = (case entries t i of None \<Rightarrow> Err ErrBlockNotExist | Some e \<Rightarrow> Ok e)"
    and write_entries: "inv t \<Longrightarrow> entries (bwrite t b stk rank) = (entries t)(hash t b \<mapsto> (b, stk, rank))"
    and write_tip: "inv t \<Longrightarrow> readTip (bwrite t b stk rank) = readTip t"
    and writeTip_tip: "inv t \<Longrightarrow> length tip = 32 \<Longrightarrow> readTip (writeTip t tip w) = (tip, w)"
    and writeTip_entries: "inv t \<Longrightarrow> entries (writeTip t tip w) = entries t"
    and round_entries: "inv t \<Longrightarrow> \<exists>es. bround t nr = Ok es \<and> distinct (map fst es) \<and>
      set es = {(i, e). entries t i = Some e \<and> take 8 i = round_prefix nr}"
    and maxRound_ge: "inv t \<Longrightarrow> entries t i = Some e \<Longrightarrow> ID_Round i \<le> maxRound t"
    and maxRound_attained: "inv t \<Longrightarrow> maxRound t \<noteq> 0 \<Longrightarrow> \<exists>i e. entries t i = Some e \<and> maxRound t = ID_Round i"
begin

lemmas inv_laws = inv_write inv_writeTip
lemmas entry_laws = write_entries writeTip_entries

text \<open>A block can be read back under its hash and shows up in its round; a round holds only
  blocks whose identifier carries its number.\<close>

lemma read_written: "inv t \<Longrightarrow> bread (bwrite t b stk rank) (hash t b) = Ok (b, stk, rank)"
  by (simp add: read_entry inv_write write_entries)

lemma round_written:
  assumes "inv t"
  shows "\<exists>es. bround (bwrite t b stk rank) (b_Round b) = Ok es \<and> (hash t b, b, stk, rank) \<in> set es"
proof -
  obtain es where "bround (bwrite t b stk rank) (b_Round b) = Ok es"
    "set es = {(i, e). entries (bwrite t b stk rank) i = Some e \<and> take 8 i = round_prefix (b_Round b)}"
    using round_entries [OF inv_write [OF assms]] by blast
  then show ?thesis using assms by (auto simp: write_entries hash_round)
qed

lemma maxRound_written: "inv t \<Longrightarrow> b_Round b \<le> maxRound (bwrite t b stk rank)"
  using maxRound_ge [of "bwrite t b stk rank" "hash t b"]
  by (simp add: inv_write write_entries ID_Round_prefix [OF hash_round])

text \<open>The largest round depends on the stored entries only.\<close>

lemma maxRound_mono: "inv t \<Longrightarrow> inv t' \<Longrightarrow> dom (entries t) \<subseteq> dom (entries t') \<Longrightarrow> maxRound t \<le> maxRound t'"
  using maxRound_attained [of t] maxRound_ge [of t'] by (cases "maxRound t = 0") fastforce+

lemma maxRound_cong: "inv t \<Longrightarrow> inv t' \<Longrightarrow> entries t = entries t' \<Longrightarrow> maxRound t = maxRound t'"
  by (simp add: antisym maxRound_mono)

lemma maxRound_write_le: "inv t \<Longrightarrow> maxRound (bwrite t b stk rank) \<le> max (maxRound t) (b_Round b)"
proof (cases "maxRound (bwrite t b stk rank) = 0")
  case False
  assume t: "inv t"
  with False obtain i e where "entries (bwrite t b stk rank) i = Some e" "maxRound (bwrite t b stk rank) = ID_Round i"
    using maxRound_attained inv_write by blast
  then show ?thesis using t maxRound_ge [OF t, of i]
    by (auto simp: write_entries ID_Round_prefix [OF hash_round] max_def split: if_splits)
qed simp

end

definition BadgerTx_entries :: "'b BadgerTx \<Rightarrow> ID \<Rightarrow> entry option" where
  "BadgerTx_entries tx i = Option.bind (bd_Get (bt_bd tx) (bt_btx tx) (id2key i)) (gob_dec (bt_gob tx))"

text \<open>All keys of the block bucket were written by \<open>Write\<close>: they hold a decodable entry and at
  least the eight bytes of the round number.\<close>

definition BadgerTx_inv :: "'b BadgerTx \<Rightarrow> bool" where
  "BadgerTx_inv tx \<longleftrightarrow> badger_ok (bt_bd tx) \<and> gob_ok (bt_gob tx) \<and>
     (\<forall>i d. bd_Get (bt_bd tx) (bt_btx tx) (id2key i) = Some d \<longrightarrow> gob_dec (bt_gob tx) d \<noteq> None \<and> 8 \<le> length i)"

lemma badger_Get_Set: "badger_ok bd \<Longrightarrow> bd_Get bd (bd_Set bd t k v) = (bd_Get bd t)(k \<mapsto> v)"
  by (simp add: badger_ok_def)

lemma badger_Iter_set: "badger_ok bd \<Longrightarrow> set (bd_Iter bd t p) = {(k, v). p \<le> k \<and> bd_Get bd t k = Some v}"
  by (simp add: badger_ok_def)

lemma badger_Iter_sorted: "badger_ok bd \<Longrightarrow> sorted_wrt (\<lambda>x y. fst x < fst y) (bd_Iter bd t p)"
  by (simp add: badger_ok_def)

lemma key_simps [simp]: "id2key i = id2key j \<longleftrightarrow> i = j" "key2id (id2key i) = i" "id2key i \<noteq> tipKey" "tipKey \<noteq> id2key i"
  by (auto simp: id2key_def key2id_def tipKey_def blockBucket_def str_bytes_def)

lemma bucket_prefix_iff: "has_prefix blockBucket k \<longleftrightarrow> (\<exists>i. k = id2key i)"
  by (metis append_eq_conv_conj append_take_drop_id id2key_def)

lemma round_prefix_iff:
  "has_prefix (roundPrefix nr) k \<longleftrightarrow> (\<exists>i. k = id2key i \<and> take 8 i = round_prefix nr)"
proof
  assume "has_prefix (roundPrefix nr) k"
  then have "k = roundPrefix nr @ drop (length (roundPrefix nr)) k" by (metis append_take_drop_id)
  then have "k = id2key (round_prefix nr @ drop (length (roundPrefix nr)) k)"
    by (simp add: roundPrefix_def id2key_def)
  then show "\<exists>i. k = id2key i \<and> take 8 i = round_prefix nr" by (metis append_eq_conv_conj length_round_prefix)
qed (auto simp: roundPrefix_def id2key_def)

lemma le_append: "(p :: 'a::linorder list) \<le> p @ q"
  by (induction p) auto

lemma scan_prefix:
  assumes "badger_ok bd"
  shows "takeWhile (\<lambda>x. has_prefix p (fst x)) (bd_Iter bd t p) = filter (\<lambda>x. has_prefix p (fst x)) (bd_Iter bd t p)"
  using assms by (intro takeWhile_prefix) (auto simp: badger_Iter_sorted badger_Iter_set)

lemma has_prefix_le: "has_prefix p (k :: 'a::linorder list) \<Longrightarrow> p \<le> k"
  by (metis append_take_drop_id le_append)

lemma distinct_singleton: "distinct xs \<Longrightarrow> set xs = {x} \<Longrightarrow> xs = [x]"
proof (cases xs)
  case (Cons y ys)
  moreover assume "distinct xs" "set xs = {x}"
  ultimately have "y = x" "set ys \<subseteq> {x}" "x \<notin> set ys" by auto
  then have "set ys = {}" using subset_singletonD [of "set ys" x] by auto
  with Cons \<open>y = x\<close> show ?thesis by simp
qed simp

lemma decode_all_ok:
  assumes "gob_ok g" "\<forall>(k, d) \<in> set ps. gob_dec g d \<noteq> None"
  shows "decode_all g ps = Ok (map (\<lambda>(k, d). (key2id k, the (gob_dec g d))) ps)"
  using assms(2) by (induction g ps rule: decode_all.induct) (auto simp: decode_def)

lemma sorted_keys_distinct: "sorted_wrt (\<lambda>x y. fst x < (fst y :: 'a::linorder)) ps \<Longrightarrow> distinct (map fst ps)"
  by (induction ps) auto

lemma BadgerTx_Round_entries:
  assumes "BadgerTx_inv tx"
  shows "\<exists>es. BadgerTx_Round tx nr = Ok es \<and> distinct (map fst es) \<and>
    set es = {(i, e). BadgerTx_entries tx i = Some e \<and> take 8 i = round_prefix nr}"
proof -
  have bd: "badger_ok (bt_bd tx)" and g: "gob_ok (bt_gob tx)"
    and dec: "\<And>i d. bd_Get (bt_bd tx) (bt_btx tx) (id2key i) = Some d \<Longrightarrow> gob_dec (bt_gob tx) d \<noteq> None"
    using assms by (auto simp: BadgerTx_inv_def)
  define ps where "ps = filter (\<lambda>x. has_prefix (roundPrefix nr) (fst x)) (bd_Iter (bt_bd tx) (bt_btx tx) (roundPrefix nr))"
  have ps: "set ps = {(k, v). has_prefix (roundPrefix nr) k \<and> bd_Get (bt_bd tx) (bt_btx tx) k = Some v}"
    using has_prefix_le by (auto simp: ps_def badger_Iter_set [OF bd])
  have key: "\<exists>i. fst p = id2key i \<and> take 8 i = round_prefix nr" if "p \<in> set ps" for p
    using that by (auto simp: ps round_prefix_iff)
  define es where "es = map (\<lambda>(k, d). (key2id k, the (gob_dec (bt_gob tx) d))) ps"
  have ok: "BadgerTx_Round tx nr = Ok es"
    unfolding BadgerTx_Round_def scan_prefix [OF bd] ps_def [symmetric] es_def
    using g by (rule decode_all_ok) (use dec in \<open>auto simp: ps round_prefix_iff\<close>)
  have "fst ` set ps \<subseteq> range id2key" using key by blast
  then have "inj_on key2id (fst ` set ps)" by (rule inj_on_subset [rotated]) (auto intro!: inj_onI)
  moreover have "distinct (map fst ps)"
    by (rule sorted_keys_distinct) (simp add: ps_def sorted_wrt_filter badger_Iter_sorted [OF bd])
  ultimately have "distinct (map key2id (map fst ps))" by (simp add: distinct_map comp_inj_on)
  then have "distinct (map fst es)" by (simp add: es_def comp_def split_beta)
  moreover have "(i, e) \<in> set es \<longleftrightarrow> BadgerTx_entries tx i = Some e \<and> take 8 i = round_prefix nr" for i e
  proof -
    have "(i, e) \<in> set es \<longleftrightarrow> (\<exists>d. (id2key i, d) \<in> set ps \<and> e = the (gob_dec (bt_gob tx) d))"
    proof
      assume "(i, e) \<in> set es"
      then obtain k d where kd: "(k, d) \<in> set ps" "i = key2id k" "e = the (gob_dec (bt_gob tx) d)" by (auto simp: es_def)
      with key [OF kd(1)] show "\<exists>d. (id2key i, d) \<in> set ps \<and> e = the (gob_dec (bt_gob tx) d)" by auto
    next
      assume "\<exists>d. (id2key i, d) \<in> set ps \<and> e = the (gob_dec (bt_gob tx) d)"
      then obtain d where "(id2key i, d) \<in> set ps" "e = the (gob_dec (bt_gob tx) d)" by blast
      then show "(i, e) \<in> set es" unfolding es_def set_map by (intro image_eqI [where x = "(id2key i, d)"]) simp_all
    qed
    also have "\<dots> \<longleftrightarrow> (\<exists>d. take 8 i = round_prefix nr \<and> bd_Get (bt_bd tx) (bt_btx tx) (id2key i) = Some d \<and>
        e = the (gob_dec (bt_gob tx) d))"
      by (simp add: ps round_prefix_iff)
    also have "\<dots> \<longleftrightarrow> BadgerTx_entries tx i = Some e \<and> take 8 i = round_prefix nr"
      using dec [of i] by (cases "bd_Get (bt_bd tx) (bt_btx tx) (id2key i)") (auto simp: BadgerTx_entries_def)
    finally show ?thesis .
  qed
  ultimately show ?thesis using ok by auto
qed

lemma id2key_le: "id2key i \<le> id2key j \<longleftrightarrow> i \<le> j"
  by (simp add: id2key_def blockBucket_def str_bytes_def)

lemma ID_Round_antimono:
  assumes "j \<le> i" "8 \<le> length i" "8 \<le> length j"
  shows "ID_Round i \<le> ID_Round j"
proof -
  have lt: "be_nat (take 8 k) < 18446744073709551616" for k
    using be_nat_less [of "take 8 k"] power_increasing [of "length (take 8 k)" 8 "256 :: nat"] by simp
  have "be_nat (take 8 j) \<le> be_nat (take 8 i)"
    using assms by (intro be_nat_mono take_mono_lex) simp_all
  then have "u64_of j \<le> u64_of i"
    using lt by (simp add: u64_of_def word_le_nat_alt unat_of_nat)
  then show ?thesis unfolding ID_Round_def by (rule compl_antimono)
qed

lemma BadgerTx_MaxRound_ge:
  assumes "BadgerTx_inv tx" "BadgerTx_entries tx i = Some e"
  shows "ID_Round i \<le> BadgerTx_MaxRound tx"
proof -
  have bd: "badger_ok (bt_bd tx)" using assms(1) by (simp add: BadgerTx_inv_def)
  obtain d where d: "bd_Get (bt_bd tx) (bt_btx tx) (id2key i) = Some d"
    using assms(2) by (auto simp: BadgerTx_entries_def split: Option.bind_splits)
  define ps where "ps = filter (\<lambda>x. has_prefix blockBucket (fst x)) (bd_Iter (bt_bd tx) (bt_btx tx) blockBucket)"
  have mem: "(id2key i, d) \<in> set ps"
    using d le_append by (auto simp: ps_def badger_Iter_set [OF bd] id2key_def)
  then obtain p qs where pq: "ps = p # qs" by (cases ps) auto
  then have "p \<in> set ps" by simp
  then obtain j where j: "fst p = id2key j" "bd_Get (bt_bd tx) (bt_btx tx) (id2key j) \<noteq> None"
    by (auto simp: ps_def badger_Iter_set [OF bd] bucket_prefix_iff)
  have "sorted_wrt (\<lambda>x y. fst x < fst y) ps"
    by (simp add: ps_def sorted_wrt_filter badger_Iter_sorted [OF bd])
  then have "id2key j \<le> id2key i" using mem pq j by auto
  then have "ID_Round i \<le> ID_Round j"
    using assms(1) d j by (intro ID_Round_antimono) (auto simp: id2key_le BadgerTx_inv_def)
  also have "ID_Round j = BadgerTx_MaxRound tx"
    using pq j by (simp add: BadgerTx_MaxRound_def scan_prefix [OF bd] ps_def [symmetric])
  finally show ?thesis .
qed

lemma BadgerTx_MaxRound_attained:
  assumes "BadgerTx_inv tx" "BadgerTx_MaxRound tx \<noteq> 0"
  shows "\<exists>i e. BadgerTx_entries tx i = Some e \<and> BadgerTx_MaxRound tx = ID_Round i"
proof -
  have bd: "badger_ok (bt_bd tx)" using assms(1) by (simp add: BadgerTx_inv_def)
  define ps where "ps = filter (\<lambda>x. has_prefix blockBucket (fst x)) (bd_Iter (bt_bd tx) (bt_btx tx) blockBucket)"
  have mr: "BadgerTx_MaxRound tx = (case ps of [] \<Rightarrow> 0 | p # _ \<Rightarrow> ID_Round (key2id (fst p)))"
    by (simp add: BadgerTx_MaxRound_def scan_prefix [OF bd] ps_def)
  then obtain p qs where pq: "ps = p # qs" using assms(2) by (cases ps) auto
  then have "p \<in> set ps" by simp
  then obtain j d where j: "fst p = id2key j" "bd_Get (bt_bd tx) (bt_btx tx) (id2key j) = Some d"
    by (auto simp: ps_def badger_Iter_set [OF bd] bucket_prefix_iff)
  then obtain e where "BadgerTx_entries tx j = Some e" using assms(1) unfolding BadgerTx_inv_def BadgerTx_entries_def by fastforce
  moreover have "BadgerTx_MaxRound tx = ID_Round j" using mr pq j by simp
  ultimately show ?thesis by blast
qed

interpretation btx: block_store "\<lambda>tx. Block_Hash (bt_sha tx)" BadgerTx_ReadTip BadgerTx_WriteTip
  BadgerTx_Write BadgerTx_Read BadgerTx_Round BadgerTx_MaxRound BadgerTx_entries BadgerTx_inv
proof
  fix t :: "'b BadgerTx" and b stk rank i tip w nr e
  show "take 8 (Block_Hash (bt_sha t) b) = round_prefix (b_Round b)" by simp
  then have l: "8 \<le> length (Block_Hash (bt_sha t) b)" by (metis length_round_prefix length_take min.absorb_iff2 min.commute)
  show "Block_Hash (bt_sha (BadgerTx_Write t b stk rank)) = Block_Hash (bt_sha t)"
    "Block_Hash (bt_sha (BadgerTx_WriteTip t tip w)) = Block_Hash (bt_sha t)"
    by (simp_all add: BadgerTx_Write_def BadgerTx_WriteTip_def)
  assume t: "BadgerTx_inv t"
  note d = BadgerTx_inv_def BadgerTx_entries_def badger_Get_Set gob_ok_def
  show "BadgerTx_inv (BadgerTx_Write t b stk rank)" "BadgerTx_inv (BadgerTx_WriteTip t tip w)"
    using t l by (auto simp: d BadgerTx_Write_def BadgerTx_WriteTip_def split: if_splits)
  show "BadgerTx_Read t i = (case BadgerTx_entries t i of None \<Rightarrow> Err ErrBlockNotExist | Some e \<Rightarrow> Ok e)"
    using t by (auto simp: d BadgerTx_Read_def decode_def split: option.splits Option.bind_splits)
  show "BadgerTx_entries (BadgerTx_Write t b stk rank) =
      (BadgerTx_entries t)(Block_Hash (bt_sha t) b \<mapsto> (b, stk, rank))"
    "BadgerTx_entries (BadgerTx_WriteTip t tip w) = BadgerTx_entries t"
    "BadgerTx_ReadTip (BadgerTx_Write t b stk rank) = BadgerTx_ReadTip t"
    using t by (auto simp: d BadgerTx_Write_def BadgerTx_WriteTip_def BadgerTx_ReadTip_def fun_eq_iff)
  show "length tip = 32 \<Longrightarrow> BadgerTx_ReadTip (BadgerTx_WriteTip t tip w) = (tip, w)"
    using t by (simp add: d BadgerTx_WriteTip_def BadgerTx_ReadTip_def)
  show "\<exists>es. BadgerTx_Round t nr = Ok es \<and> distinct (map fst es) \<and>
      set es = {(i, e). BadgerTx_entries t i = Some e \<and> take 8 i = round_prefix nr}"
    using t by (rule BadgerTx_Round_entries)
  show "BadgerTx_entries t i = Some e \<Longrightarrow> ID_Round i \<le> BadgerTx_MaxRound t"
    using t by (rule BadgerTx_MaxRound_ge)
  show "BadgerTx_MaxRound t \<noteq> 0 \<Longrightarrow> \<exists>i e. BadgerTx_entries t i = Some e \<and> BadgerTx_MaxRound t = ID_Round i"
    using t by (rule BadgerTx_MaxRound_attained)
qed

section \<open>A concrete store\<close>

text \<open>Instances of the contracts for the examples: an association list as the byte store, and an
  encoding of entries that exists because entries are finite objects.\<close>

instance word :: (len) countable
  by (rule countable_classI [of unat]) (simp add: word_unat_eq_iff)

instance Change_ext :: (countable) countable
  by (rule countable_classI [of "\<lambda>r. to_nat (change_K r, change_V r, Change.more r)"])
    (auto intro: Change.equality)

instance TxData_ext :: (countable) countable
  by (rule countable_classI [of "\<lambda>r. to_nat (td_TimeStart r, td_TimeCommit r, td_ReadRows r, td_WriteRows r, TxData.more r)"])
    (auto intro: TxData.equality)

instance Write_ext :: (countable) countable
  by (rule countable_classI [of "\<lambda>r. to_nat (w_TxData r, w_PK r, w_Nonce r, w_Signature r, Write.more r)"])
    (auto intro: Write.equality)

instance Block_ext :: (countable) countable
  by (rule countable_classI [of "\<lambda>r. to_nat (b_Round r, b_Timestamp r, b_Token r, b_Proof r, b_PK r, b_Prev r,
      b_Signature r, b_Writes r, Block.more r)"])
    (auto intro: Block.equality)

instance Stakes_ext :: (countable) countable
  by (rule countable_classI [of "\<lambda>r. to_nat (stk_Sum r, stk_Votes r, Stakes.more r)"])
    (auto intro: Stakes.equality)

definition ex_gob :: gob where
  "ex_gob = \<lparr>gob_enc = (\<lambda>e. replicate (to_nat e) 0), gob_dec = (\<lambda>d. Some (from_nat (length d)))\<rparr>"

lemma ex_gob_ok: "gob_ok ex_gob"
  by (simp add: gob_ok_def ex_gob_def)

lemma ex_gob_dec_enc [simp]: "gob_dec ex_gob (gob_enc ex_gob e) = Some e"
  by (simp add: ex_gob_def)

definition alist_badger :: "(bytes \<times> bytes) list badger" where
  "alist_badger = \<lparr>bd_Get = map_of, bd_Set = (\<lambda>t k v. (k, v) # t),
     bd_Iter = (\<lambda>t p. map (\<lambda>k. (k, the (map_of t k))) (sort (remdups (filter (\<lambda>k. p \<le> k) (map fst t))))),
     bd_RevIter = (\<lambda>t p. map (\<lambda>k. (k, the (map_of t k))) (rev (sort (remdups (filter (\<lambda>k. k \<le> p) (map fst t))))))\<rparr>"

lemma strict_sorted_remdups: "sorted_wrt (<) (sort (remdups xs :: 'a::linorder list))"
  by (simp add: strict_sorted_iff)

lemma alist_badger_ok: "badger_ok alist_badger"
proof -
  have "set (map (\<lambda>k. (k, the (map_of t k))) (filter P (map fst t))) = {(k, v). P k \<and> map_of t k = Some v}"
    for t :: "(bytes \<times> bytes) list" and P
    by (force simp: image_iff dom_map_of_conv_image_fst [symmetric] dest: weak_map_of_SomeI)
  then show ?thesis
    using strict_sorted_remdups
    by (auto simp: badger_ok_def alist_badger_def sorted_wrt_map sorted_wrt_rev comp_def fun_eq_iff)
qed

section \<open>Properties\<close>

text \<open>The identifier of a block carries its round, and a block that was written can be read back
  under its identifier with its stakes and rank, is listed with its round, and bounds the largest
  round from below.\<close>

theorem store_roundtrip:
  assumes "BadgerTx_inv tx"
  shows "ID_Round (Block_Hash (bt_sha tx) b) = b_Round b \<and>
    BadgerTx_Read (BadgerTx_Write tx b stk rank) (Block_Hash (bt_sha tx) b) = Ok (b, stk, rank) \<and>
    (\<exists>es. BadgerTx_Round (BadgerTx_Write tx b stk rank) (b_Round b) = Ok es \<and>
       (Block_Hash (bt_sha tx) b, b, stk, rank) \<in> set es \<and> distinct (map fst es)) \<and>
    b_Round b \<le> BadgerTx_MaxRound (BadgerTx_Write tx b stk rank)"
proof (intro conjI)
  obtain es where "BadgerTx_Round (BadgerTx_Write tx b stk rank) (b_Round b) = Ok es" "distinct (map fst es)"
    using btx.round_entries [OF btx.inv_write [OF assms]] by blast
  then show "\<exists>es. BadgerTx_Round (BadgerTx_Write tx b stk rank) (b_Round b) = Ok es \<and>
       (Block_Hash (bt_sha tx) b, b, stk, rank) \<in> set es \<and> distinct (map fst es)"
    using btx.round_written [OF assms, of b stk rank] by auto
qed (simp_all add: ID_Round_prefix btx.read_written btx.maxRound_written assms)

definition ex_tx :: "(bytes \<times> bytes) list BadgerTx" where
  "ex_tx = \<lparr>bt_sha = ex_sha, bt_bd = alist_badger, bt_gob = ex_gob, bt_btx = [(tipKey, [])]\<rparr>"

lemma ex_tx_inv: "BadgerTx_inv ex_tx"
  by (simp add: ex_tx_def BadgerTx_inv_def alist_badger_ok ex_gob_ok) (simp add: alist_badger_def)

theorem store_roundtrip_witness:
  "let b = \<lparr>b_Round = 3, b_Timestamp = 9, b_Token = [1], b_Proof = [2], b_PK = ex_pk 1, b_Prev = NilID,
     b_Signature = [], b_Writes = []\<rparr>
   in BadgerTx_Read (BadgerTx_Write ex_tx b (NewStakes 5) 7) (Block_Hash ex_sha b) = Ok (b, NewStakes 5, 7)"
  using store_roundtrip [OF ex_tx_inv] by (simp add: Let_def ex_tx_def)

end
