(* ===== verification/Onl_Chain.thy ===== *)
theory Onl_Chain
  imports Onl_Block
begin

text \<open>
  The block chain of \<^verbatim>\<open>src/exp/onl/chain.go\<close>: walking towards the genesis, rebuilding the state,
  appending, weighing rounds and voting. The chain uses the store through the \<open>Tx\<close> interface, so
  the operations take a record \<open>Txi\<close> of its methods; the lemmas are proved in the locale
  \<open>block_store\<close> and hold for \<open>BadgerTx\<close> through its interpretation.

  Loops that may not end (the walk over a cyclic store, the round counter at its 64-bit limit)
  are partial functions: \<open>None\<close> means that the call does not return. The weights and the tip state
  of the chain object are changed in place, also by calls that end in an error.
\<close>

section \<open>Environment\<close>

record 't Txi =
  txi_ReadTip :: "'t \<Rightarrow> ID \<times> u64"
  txi_WriteTip :: "'t \<Rightarrow> ID \<Rightarrow> u64 \<Rightarrow> 't"
  txi_Write :: "'t \<Rightarrow> Block \<Rightarrow> Stakes \<Rightarrow> int \<Rightarrow> 't"
  txi_Read :: "'t \<Rightarrow> ID \<Rightarrow> (onl_error, entry) res"
  txi_Round :: "'t \<Rightarrow> u64 \<Rightarrow> (onl_error, (ID \<times> entry) list) res"
  txi_MaxRound :: "'t \<Rightarrow> u64"

text \<open>A block as \<open>weigh\<close> ranks it: its prev, its rank and its identifier.\<close>

type_synonym ranked = "ID \<times> int \<times> ID"

text \<open>The packages the chain is linked against: hash, signature and VRF verification, the radix
  tree, and \<^verbatim>\<open>sort.Slice\<close>, which promises a descending permutation and nothing about ties.\<close>

record 's env =
  env_sha :: "bytes \<Rightarrow> bytes"
  env_ed_verify :: "PK \<Rightarrow> bytes \<Rightarrow> bytes \<Rightarrow> bool"
  env_vrf_verify :: "bytes \<Rightarrow> bytes \<Rightarrow> bytes \<Rightarrow> bytes \<Rightarrow> bool"
  env_rx :: "'s iradix"
  env_sort :: "ranked list \<Rightarrow> ranked list"

definition rank_sort_ok :: "(ranked list \<Rightarrow> ranked list) \<Rightarrow> bool" where
  "rank_sort_ok srt \<longleftrightarrow> (\<forall>xs. mset (srt xs) = mset xs \<and>
     sorted_wrt (\<lambda>x y. fst (snd y) \<le> fst (snd x)) (srt xs))"

section \<open>The chain object and its walks\<close>

record 's Chain =
  ch_points :: u64
  ch_genesis :: ID
  ch_weights :: "ID \<rightharpoonup> u64"
  ch_tstate :: "'s State option"

type_synonym ('t, 'a) visitor = "ID \<Rightarrow> entry \<Rightarrow> 't \<Rightarrow> 'a \<Rightarrow> (onl_error, 't \<times> 'a) res"

partial_function (option) walk ::
    "'t Txi \<Rightarrow> ID \<Rightarrow> ('t, 'a) visitor \<Rightarrow> ID \<Rightarrow> 't \<Rightarrow> 'a \<Rightarrow> (onl_error, 't \<times> 'a) res option" where
  "walk ti gen f bid t a =
     (case txi_Read ti t bid of
        Err e \<Rightarrow> Some (Err e)
      | Panic \<Rightarrow> Some Panic
      | Ok e \<Rightarrow>
          (case f bid e t a of
             Err er \<Rightarrow> Some (Err er)
           | Panic \<Rightarrow> Some Panic
           | Ok ta \<Rightarrow>
               if bid = gen then Some (Ok ta)
               else walk ti gen f (b_Prev (fst e)) (fst ta) (snd ta)))"

definition log_visitor :: "('t, Write list list) visitor" where
  "log_visitor bid e t log = Ok (t, b_Writes (fst e) # log)"

definition Chain_state :: "'s env \<Rightarrow> 't Txi \<Rightarrow> 's Chain \<Rightarrow> 't \<Rightarrow> ID \<Rightarrow> (onl_error, ID \<times> 's State) res option" where
  "Chain_state env ti c t bid =
     (let tip = fst (txi_ReadTip ti t)
      in if tip = NilID then Some (Err (ErrFmt ''no tip available''))
         else run_bind (walk ti (ch_genesis c) log_visitor (if bid = NilID then tip else bid) t [])
           (\<lambda>(t', log). case NewState (env_rx env) log of
              Ok s \<Rightarrow> Some (Ok (tip, s)) | Err e \<Rightarrow> Some (Err e) | Panic \<Rightarrow> Some Panic))"

definition vote_visitor :: "'t Txi \<Rightarrow> PK \<Rightarrow> u64 \<Rightarrow> ('t, unit) visitor" where
  "vote_visitor ti pk stake bid e t u =
     (case e of (b, stk, rank) \<Rightarrow>
        Ok (txi_Write ti t b (stk\<lparr>stk_Votes := AList.update pk stake (stk_Votes stk)\<rparr>) rank, ()))"

definition Chain_vote :: "'t Txi \<Rightarrow> 's Chain \<Rightarrow> 't \<Rightarrow> ID \<Rightarrow> PK \<Rightarrow> u64 \<Rightarrow> (onl_error, 't) res option" where
  "Chain_vote ti c t bid pk stake =
     run_bind (walk ti (ch_genesis c) (vote_visitor ti pk stake) bid t ()) (\<lambda>(t', u). Some (Ok t'))"

section \<open>Weighing\<close>

text \<open>One round: the blocks in rank order, \<open>i\<close> counting positions from 0. The tip weight \<open>tipw\<close> is
  the one read before the first round and is not updated when a new tip is written.\<close>

fun weigh_blocks :: "'s env \<Rightarrow> 't Txi \<Rightarrow> u64 \<Rightarrow> nat \<Rightarrow> ranked list \<Rightarrow> 's Chain \<Rightarrow> 't \<Rightarrow>
    (('s Chain \<times> (onl_error, 't) res)) option" where
  "weigh_blocks env ti tipw i [] c t = Some (c, Ok t)"
| "weigh_blocks env ti tipw i ((prev, rank, bid) # bs) c t =
     (let w = ch_points c div word_of_nat (i + 1)
      in case ch_weights c prev of
           None \<Rightarrow> Some (c, Err (ErrFmt ''prev block without a weight''))
         | Some prevw \<Rightarrow>
             (let sumw = prevw + w; c1 = c\<lparr>ch_weights := (ch_weights c)(bid \<mapsto> sumw)\<rparr>
              in if sumw \<ge> tipw
                 then let t1 = txi_WriteTip ti t bid sumw
                      in (case Chain_state env ti c1 t1 NilID of
                            None \<Rightarrow> None
                          | Some (Err e) \<Rightarrow> Some (c1, Err (ErrFmt ''failed to re-build state from tip''))
                          | Some Panic \<Rightarrow> Some (c1, Panic)
                          | Some (Ok (tip, s)) \<Rightarrow>
                              weigh_blocks env ti tipw (Suc i) bs (c1\<lparr>ch_tstate := Some s\<rparr>) t1)
                 else weigh_blocks env ti tipw (Suc i) bs c1 t))"

partial_function (option) weigh_rounds :: "'s env \<Rightarrow> 't Txi \<Rightarrow> u64 \<Rightarrow> u64 \<Rightarrow> 's Chain \<Rightarrow> 't \<Rightarrow>
    ('s Chain \<times> (onl_error, 't) res) option" where
  "weigh_rounds env ti tipw rn c t =
     (if rn \<le> txi_MaxRound ti t
      then (case txi_Round ti t rn of
              Err e \<Rightarrow> Some (c, Err (ErrFmt ''failed to read blocks from round''))
            | Panic \<Rightarrow> Some (c, Panic)
            | Ok es \<Rightarrow>
                Option.bind
                  (weigh_blocks env ti tipw 0
                     (env_sort env (map (\<lambda>(bid, b, stk, rank). (b_Prev b, rank, bid)) es)) c t)
                  (\<lambda>r. case r of
                     (c1, Ok t1) \<Rightarrow> weigh_rounds env ti tipw (rn + 1) c1 t1
                   | (c1, Err e) \<Rightarrow> Some (c1, Err e)
                   | (c1, Panic) \<Rightarrow> Some (c1, Panic)))
      else Some (c, Ok t))"

definition Chain_weigh :: "'s env \<Rightarrow> 't Txi \<Rightarrow> 's Chain \<Rightarrow> 't \<Rightarrow> u64 \<Rightarrow> ('s Chain \<times> (onl_error, 't) res) option" where
  "Chain_weigh env ti c t nr = weigh_rounds env ti (snd (txi_ReadTip ti t)) nr c t"

section \<open>Appending\<close>

text \<open>The visitor of \<open>Append\<close>: the prev block and, of all blocks with a deposit for the proposer,
  the one nearest to the genesis.\<close>

fun find_deposit :: "PK \<Rightarrow> Block \<Rightarrow> Write list \<Rightarrow> Block option \<Rightarrow> (onl_error, Block option) res" where
  "find_deposit pk bb [] st = Ok st"
| "find_deposit pk bb (w # ws) st =
     res_bind (HasDepositFor w pk) (\<lambda>d. find_deposit pk bb ws (if d then Some bb else st))"

definition append_visitor :: "Block \<Rightarrow> ('t, (Block \<times> Stakes) option \<times> Block option) visitor" where
  "append_visitor b bid e t a =
     (case e of (bb, stk, rank) \<Rightarrow>
        (case a of (pv, st) \<Rightarrow>
           res_bind (find_deposit (b_PK b) bb (b_Writes bb) st)
             (\<lambda>st'. Ok (t, (if b_Prev b = bid then Some (bb, stk) else pv), st'))))"

fun apply_block :: "'s iradix \<Rightarrow> 's State \<Rightarrow> Write list \<Rightarrow> u64 \<Rightarrow> (onl_error, Write list \<times> u64) res" where
  "apply_block rx s [] deposit = Ok ([], deposit)"
| "apply_block rx s (w # ws) deposit =
     (case State_Apply rx s (Some w) False of
        (Some e, _, _) \<Rightarrow> Err e
      | (None, None, s') \<Rightarrow> Panic
      | (None, Some w', s') \<Rightarrow>
          res_bind (TotalDeposit w') (\<lambda>d.
            res_bind (apply_block rx s' ws (deposit + d)) (\<lambda>(ws', dep). Ok (w' # ws', dep))))"

definition is_not_exist :: "(onl_error, 'a) res \<Rightarrow> bool" where
  "is_not_exist r = (case r of Err e \<Rightarrow> e = ErrBlockNotExist | _ \<Rightarrow> False)"

text \<open>The checks of \<open>Append\<close> up to the write: what is stored (the block with the commit times
  set by \<open>Apply\<close>, its stakes and rank) and the proposer's stake.\<close>

definition append_check :: "'s env \<Rightarrow> 't Txi \<Rightarrow> 's Chain \<Rightarrow> 't \<Rightarrow> Block \<Rightarrow>
    (onl_error, Block \<times> Stakes \<times> int \<times> u64) res option" where
  "append_check env ti c t b =
     (if \<not> Block_VerifySignature (env_sha env) (env_ed_verify env) b then Some (Err ErrInvalidSignature)
      else if b_Round b < 1 then Some (Err ErrZeroRound)
      else if \<not> is_not_exist (txi_Read ti t (Block_Hash (env_sha env) b)) then Some (Err ErrBlockExist)
      else (case walk ti (ch_genesis c) (append_visitor b) (b_Prev b) t (None, None) of
          None \<Rightarrow> None
        | Some (Err e) \<Rightarrow> Some (Err (ErrFmt ''failed to walk prev chain''))
        | Some Panic \<Rightarrow> Some Panic
        | Some (Ok (_, pv, st)) \<Rightarrow>
            (case st of None \<Rightarrow> Some (Err ErrStableNotInChain)
             | Some stableb \<Rightarrow>
            (case pv of None \<Rightarrow> Some Panic
             | Some (prev, prevStk) \<Rightarrow>
                 if b_Timestamp prev \<ge> b_Timestamp b then Some (Err ErrTimestampNotAfterPrev)
                 else if b_Round prev \<ge> b_Round b then Some (Err ErrRoundNrNotAfterPrev)
                 else (case Chain_state env ti c t (b_Prev b) of
                     None \<Rightarrow> None
                   | Some (Err e) \<Rightarrow> Some (Err ErrStateReconstruction)
                   | Some Panic \<Rightarrow> Some Panic
                   | Some (Ok (_, s)) \<Rightarrow>
                       (let kv = \<lparr>kv_sha = env_sha env, kv_rx = env_rx env, kv_tx = DB_NewTx (st_db s)\<rparr>;
                            (stake, tpk) = fst (ReadStake KV_Get kv (b_PK b))
                        in case tpk of None \<Rightarrow> Some (Err ErrNoTokenPK)
                           | Some tpk \<Rightarrow>
                             if \<not> Block_VerifyToken (env_vrf_verify env) b tpk (Block_Hash (env_sha env) stableb)
                             then Some (Err ErrInvalidToken)
                             else if Block_Rank b stake \<le> 0 then Some (Err ErrZeroRank)
                             else Some (res_bind (apply_block (env_rx env) s (b_Writes b) 0)
                               (\<lambda>(ws, deposit). Ok (b\<lparr>b_Writes := ws\<rparr>, NewStakes (stk_Sum prevStk + deposit),
                                  Block_Rank b stake, stake)))))))))"

text \<open>\<open>conflict\<close> is the answer of Badger's commit; on any error the transaction is discarded.\<close>

definition Chain_Append :: "'s env \<Rightarrow> 't Txi \<Rightarrow> bool \<Rightarrow> 's Chain \<Rightarrow> 't \<Rightarrow> Block \<Rightarrow>
    ('s Chain \<times> (onl_error, 't) res) option" where
  "Chain_Append env ti conflict c t b =
     (case append_check env ti c t b of
        None \<Rightarrow> None
      | Some (Err e) \<Rightarrow> Some (c, Err e)
      | Some Panic \<Rightarrow> Some (c, Panic)
      | Some (Ok (b', stk, rank, stake)) \<Rightarrow>
          (case Chain_weigh env ti c (txi_Write ti t b' stk rank) (b_Round b) of
             None \<Rightarrow> None
           | Some (c1, Err e) \<Rightarrow> Some (c1, Err (ErrFmt ''failed to weigh rounds''))
           | Some (c1, Panic) \<Rightarrow> Some (c1, Panic)
           | Some (c1, Ok t1) \<Rightarrow>
               (case Chain_vote ti c1 t1 (b_Prev b) (b_PK b) stake of
                  None \<Rightarrow> None
                | Some (Err e) \<Rightarrow> Some (c1, Err (ErrFmt ''failed to vote on ancestory''))
                | Some Panic \<Rightarrow> Some (c1, Panic)
                | Some (Ok t2) \<Rightarrow> if conflict then Some (c1, Err ErrAppendConflict) else Some (c1, Ok t2))))"

definition Chain_Tip :: "'t Txi \<Rightarrow> 't \<Rightarrow> ID" where
  "Chain_Tip ti t = fst (txi_ReadTip ti t)"

definition Chain_Read :: "'t Txi \<Rightarrow> 's Chain \<Rightarrow> 't \<Rightarrow> ID \<Rightarrow> (onl_error, Block \<times> u64 \<times> Stakes) res" where
  "Chain_Read ti c t bid =
     res_bind (txi_Read ti t bid) (\<lambda>(b, stk, rank).
       (case ch_weights c bid of None \<Rightarrow> Err ErrNotWeighted | Some w \<Rightarrow> Ok (b, w, stk)))"

text \<open>\<open>NewChain\<close>: read the genesis round, or create the genesis block from the given updates. A
  genesis update without writes yields a nil write, on which \<open>TotalDeposit\<close> panics.\<close>

fun genesis_writes :: "'s State \<Rightarrow> ('s Tx \<Rightarrow> 's Tx) list \<Rightarrow> u64 \<Rightarrow> Write list \<Rightarrow> (onl_error, u64 \<times> Write list) res" where
  "genesis_writes st [] deposits ws = Ok (deposits, ws)"
| "genesis_writes st (genf # genfs) deposits ws =
     (case State_Update st genf of
        None \<Rightarrow> Panic
      | Some w \<Rightarrow> res_bind (TotalDeposit w) (\<lambda>d. genesis_writes st genfs (deposits + d) (ws @ [w])))"

definition genesis_token :: bytes where
  "genesis_token = str_bytes ''vi veri veniversum vivus vici''"

definition NewChain :: "'s env \<Rightarrow> 't Txi \<Rightarrow> 't \<Rightarrow> u64 \<Rightarrow> ('s Tx \<Rightarrow> 's Tx) list \<Rightarrow>
    (onl_error, 's Chain \<times> 't) res option" where
  "NewChain env ti t genr genfs =
     (let c = \<lparr>ch_points = 1000, ch_genesis = NilID, ch_weights = [NilID \<mapsto> 0], ch_tstate = None\<rparr>;
          start = (\<lambda>c t. case Chain_weigh env ti c t genr of
             None \<Rightarrow> None
           | Some (c1, Err e) \<Rightarrow> Some (Err (ErrFmt ''failed to weigh chain blocks''))
           | Some (c1, Panic) \<Rightarrow> Some Panic
           | Some (c1, Ok t1) \<Rightarrow> Some (Ok (c1, t1)))
      in case txi_Round ti t genr of
           Err e \<Rightarrow> Some (Err (ErrFmt ''failed to read round 0 for genesis block''))
         | Panic \<Rightarrow> Some Panic
         | Ok [] \<Rightarrow>
             (case genesis_writes (empty_state (env_rx env)) genfs 0 [] of
                Err e \<Rightarrow> Some (Err e)
              | Panic \<Rightarrow> Some Panic
              | Ok (deposits, ws) \<Rightarrow>
                  (let gb = \<lparr>b_Round = genr, b_Timestamp = 0, b_Token = genesis_token, b_Proof = [],
                             b_PK = replicate 32 0, b_Prev = NilID, b_Signature = replicate 64 0, b_Writes = ws\<rparr>;
                       gid = Block_Hash (env_sha env) gb
                   in start (c\<lparr>ch_genesis := gid\<rparr>) (txi_WriteTip ti (txi_Write ti t gb (NewStakes deposits) 1) gid 0)))
         | Ok [(gid, e)] \<Rightarrow> start (c\<lparr>ch_genesis := gid\<rparr>) t
         | Ok _ \<Rightarrow> Some (Err (ErrFmt ''there is more then just the genesis block'')))"

text \<open>\<open>ForEach\<close>: every block of every round from \<open>start\<close> on (from the smallest round when it is 0),
  folded with a callback that may fail. Like \<open>weigh\<close> it counts rounds with a 64-bit counter.\<close>

fun visit_round :: "(ID \<Rightarrow> Block \<Rightarrow> Stakes \<Rightarrow> 'a \<Rightarrow> (onl_error, 'a) res) \<Rightarrow> (ID \<times> entry) list \<Rightarrow> 'a \<Rightarrow> (onl_error, 'a) res" where
  "visit_round f [] a = Ok a"
| "visit_round f ((bid, b, stk, rank) # es) a = res_bind (f bid b stk a) (visit_round f es)"

partial_function (option) forEach_rounds :: "'b BadgerTx \<Rightarrow> (ID \<Rightarrow> Block \<Rightarrow> Stakes \<Rightarrow> 'a \<Rightarrow> (onl_error, 'a) res) \<Rightarrow>
    u64 \<Rightarrow> 'a \<Rightarrow> (onl_error, 'a) res option" where
  "forEach_rounds tx f rn a =
     (if rn \<le> BadgerTx_MaxRound tx
      then (case res_bind (BadgerTx_Round tx rn) (\<lambda>es. visit_round f es a) of
              Ok a' \<Rightarrow> forEach_rounds tx f (rn + 1) a'
            | Err e \<Rightarrow> Some (Err (ErrFmt ''failed to read blocks from round''))
            | Panic \<Rightarrow> Some Panic)
      else Some (Ok a))"

definition Chain_forEach :: "'b BadgerTx \<Rightarrow> u64 \<Rightarrow> (ID \<Rightarrow> Block \<Rightarrow> Stakes \<Rightarrow> 'a \<Rightarrow> (onl_error, 'a) res) \<Rightarrow> 'a \<Rightarrow>
    (onl_error, 'a) res option" where
  "Chain_forEach tx start f a = forEach_rounds tx f (if start = 0 then BadgerTx_MinRound tx else start) a"

section \<open>Lemmas\<close>

text \<open>Whatever the outcome, the genesis of the chain object does not change.\<close>

lemma weigh_blocks_genesis: "weigh_blocks env ti tipw i bs c t = Some (c', r) \<Longrightarrow> ch_genesis c' = ch_genesis c"
  by (induction env ti tipw i bs c t rule: weigh_blocks.induct)
    (fastforce simp: Let_def split: option.splits if_splits res.splits prod.splits)+

lemma weigh_rounds_genesis:
  assumes "weigh_rounds env ti tipw rn c t = Some (c', r)"
  shows "ch_genesis c' = ch_genesis c"
proof -
  let ?P = "\<lambda>env ti tipw rn c t y. ch_genesis (fst y) = ch_genesis c"
  have "ch_genesis (fst (c', r)) = ch_genesis c"
  proof (rule weigh_rounds.raw_induct [where P = ?P, OF _ assms])
    fix W env ti tipw rn c t y
    assume ih: "\<And>env ti tipw rn c t y. W env ti tipw rn c t = Some y \<Longrightarrow> ?P env ti tipw rn c t y"
      and body: "(if rn \<le> txi_MaxRound ti t
        then (case txi_Round ti t rn of Err e \<Rightarrow> Some (c, Err (ErrFmt ''failed to read blocks from round''))
            | Panic \<Rightarrow> Some (c, Panic)
            | Ok es \<Rightarrow> Option.bind (weigh_blocks env ti tipw 0
                     (env_sort env (map (\<lambda>(bid, b, stk, rank). (b_Prev b, rank, bid)) es)) c t)
                  (\<lambda>r. case r of (c1, Ok t1) \<Rightarrow> W env ti tipw (rn + 1) c1 t1
                   | (c1, Err e) \<Rightarrow> Some (c1, Err e) | (c1, Panic) \<Rightarrow> Some (c1, Panic)))
        else Some (c, Ok t)) = Some y"
    show "?P env ti tipw rn c t y"
    proof (cases "rn \<le> txi_MaxRound ti t \<and> (\<exists>es. txi_Round ti t rn = Ok es)")
      case True
      with body obtain es c1 r1 where wb: "weigh_blocks env ti tipw 0 es c t = Some (c1, r1)"
        "(case r1 of Ok t1 \<Rightarrow> W env ti tipw (rn + 1) c1 t1 | Err e \<Rightarrow> Some (c1, Err e) | Panic \<Rightarrow> Some (c1, Panic)) = Some y"
        by (auto simp: bind_eq_Some_conv)
      then show ?thesis using weigh_blocks_genesis [OF wb(1)] ih by (cases r1) auto
    qed (use body in \<open>auto split: if_splits res.splits\<close>)
  qed
  then show ?thesis by simp
qed

lemma Chain_Append_genesis: "Chain_Append env ti cf c t b = Some (c', r) \<Longrightarrow> ch_genesis c' = ch_genesis c"
  unfolding Chain_Append_def Chain_weigh_def
  by (auto dest!: weigh_rounds_genesis split: option.splits res.splits prod.splits if_splits)

text \<open>A store is linked when every block but the genesis names a stored block of an earlier round,
  and every entry is stored under the hash of its block.\<close>

definition linked :: "('t \<Rightarrow> Block \<Rightarrow> ID) \<Rightarrow> ('t \<Rightarrow> ID \<Rightarrow> entry option) \<Rightarrow> ID \<Rightarrow> 't \<Rightarrow> bool" where
  "linked hash entries gen t \<longleftrightarrow> entries t gen \<noteq> None \<and>
     (\<forall>i e. entries t i = Some e \<longrightarrow> hash t (fst e) = i \<and>
        (i \<noteq> gen \<longrightarrow> (\<exists>p. entries t (b_Prev (fst e)) = Some p \<and> b_Round (fst p) < b_Round (fst e))))"

lemma linked_key: "linked hash entries gen t \<Longrightarrow> entries t i = Some e \<Longrightarrow> hash t (fst e) = i"
  unfolding linked_def by blast

lemma linked_prev:
  "linked hash entries gen t \<Longrightarrow> entries t i = Some e \<Longrightarrow> i \<noteq> gen \<Longrightarrow>
   \<exists>p. entries t (b_Prev (fst e)) = Some p \<and> b_Round (fst p) < b_Round (fst e)"
  unfolding linked_def by blast

definition blocks_of :: "('t \<Rightarrow> ID \<Rightarrow> entry option) \<Rightarrow> 't \<Rightarrow> ID \<Rightarrow> Block option" where
  "blocks_of entries t i = map_option fst (entries t i)"

text \<open>Everything \<open>Append\<close> has checked when it goes on to write the block.\<close>

definition append_checked :: "'s env \<Rightarrow> 't Txi \<Rightarrow> 's Chain \<Rightarrow> 't \<Rightarrow> Block \<Rightarrow> Block \<Rightarrow> Stakes \<Rightarrow> Block \<Rightarrow>
    Block \<Rightarrow> Stakes \<Rightarrow> int \<Rightarrow> u64 \<Rightarrow> bool" where
  "append_checked env ti c t b prev prevStk stableb b' stk rank stake \<longleftrightarrow>
     Block_VerifySignature (env_sha env) (env_ed_verify env) b \<and> b_Round b \<noteq> 0 \<and>
     is_not_exist (txi_Read ti t (Block_Hash (env_sha env) b)) \<and>
     b_Timestamp prev < b_Timestamp b \<and> b_Round prev < b_Round b \<and>
     (\<exists>tip s tpk ws deposit. Chain_state env ti c t (b_Prev b) = Some (Ok (tip, s)) \<and>
        fst (ReadStake KV_Get \<lparr>kv_sha = env_sha env, kv_rx = env_rx env, kv_tx = DB_NewTx (st_db s)\<rparr> (b_PK b)) =
          (stake, Some tpk) \<and>
        Block_VerifyToken (env_vrf_verify env) b tpk (Block_Hash (env_sha env) stableb) \<and>
        0 < rank \<and> rank = Block_Rank b stake \<and>
        apply_block (env_rx env) s (b_Writes b) 0 = Ok (ws, deposit) \<and>
        b' = b\<lparr>b_Writes := ws\<rparr> \<and> stk = NewStakes (stk_Sum prevStk + deposit))"

lemma append_check_Ok:
  assumes "append_check env ti c t b = Some (Ok (b', stk, rank, stake))"
  obtains t0 prev prevStk stableb where
    "walk ti (ch_genesis c) (append_visitor b) (b_Prev b) t (None, None) = Some (Ok (t0, Some (prev, prevStk), Some stableb))"
    "append_checked env ti c t b prev prevStk stableb b' stk rank stake"
proof -
  let ?kv = "\<lambda>s. \<lparr>kv_sha = env_sha env, kv_rx = env_rx env, kv_tx = DB_NewTx (st_db s)\<rparr>"
  from assms obtain t0 prev prevStk stableb where
    w: "walk ti (ch_genesis c) (append_visitor b) (b_Prev b) t (None, None) = Some (Ok (t0, Some (prev, prevStk), Some stableb))"
    and pre: "Block_VerifySignature (env_sha env) (env_ed_verify env) b" "\<not> b_Round b < 1"
      "is_not_exist (txi_Read ti t (Block_Hash (env_sha env) b))"
      "\<not> b_Timestamp b \<le> b_Timestamp prev" "\<not> b_Round b \<le> b_Round prev"
    unfolding append_check_def by (auto split: if_splits option.splits res.splits prod.splits)
  with assms obtain tip s tpk stake' where
    s: "Chain_state env ti c t (b_Prev b) = Some (Ok (tip, s))" "fst (ReadStake KV_Get (?kv s) (b_PK b)) = (stake', Some tpk)"
    unfolding append_check_def by (auto simp: Let_def split: option.splits res.splits prod.splits)
  with assms w pre have
    t: "Block_VerifyToken (env_vrf_verify env) b tpk (Block_Hash (env_sha env) stableb)" "\<not> Block_Rank b stake' \<le> 0"
    "res_bind (apply_block (env_rx env) s (b_Writes b) 0) (\<lambda>(ws, deposit). Ok (b\<lparr>b_Writes := ws\<rparr>,
       NewStakes (stk_Sum prevStk + deposit), Block_Rank b stake', stake')) = Ok (b', stk, rank, stake)"
    unfolding append_check_def by (auto simp: Let_def split: if_splits)
  then obtain ws deposit where "apply_block (env_rx env) s (b_Writes b) 0 = Ok (ws, deposit)" "stake = stake'"
    "b' = b\<lparr>b_Writes := ws\<rparr>" "stk = NewStakes (stk_Sum prevStk + deposit)" "rank = Block_Rank b stake'"
    by (cases "apply_block (env_rx env) s (b_Writes b) 0") auto
  then have "append_checked env ti c t b prev prevStk stableb b' stk rank stake"
    unfolding append_checked_def using pre s t(1,2) by (auto simp: not_less not_le)
  with w show ?thesis by (rule that)
qed

text \<open>The weights and the tip after weighing the blocks of a round: \<open>i\<close> is the position of the
  first block. Blocks do not name a prev of their own round.\<close>

abbreviation (input) bid_of :: "ranked \<Rightarrow> ID" where
  "bid_of x \<equiv> snd (snd x)"

definition new_tip :: "u64 \<Rightarrow> (ID \<rightharpoonup> u64) \<Rightarrow> ranked list \<Rightarrow> ID \<times> u64 \<Rightarrow> ID \<times> u64" where
  "new_tip tipw wts bs tip0 =
     fold (\<lambda>x tip. if tipw \<le> the (wts (bid_of x)) then (bid_of x, the (wts (bid_of x))) else tip) bs tip0"

context block_store
begin

definition ops :: "'t Txi" where
  "ops = \<lparr>txi_ReadTip = readTip, txi_WriteTip = writeTip, txi_Write = bwrite, txi_Read = bread,
     txi_Round = bround, txi_MaxRound = maxRound\<rparr>"

lemma ops_simps [simp]:
  "txi_ReadTip ops = readTip" "txi_WriteTip ops = writeTip" "txi_Write ops = bwrite"
  "txi_Read ops = bread" "txi_Round ops = bround" "txi_MaxRound ops = maxRound"
  by (simp_all add: ops_def)

definition good :: "ID \<Rightarrow> 't \<Rightarrow> bool" where
  "good gen t \<longleftrightarrow> inv t \<and> linked hash entries gen t"

text \<open>What a visitor may do to the store while it is walked.\<close>

definition steady :: "ID \<Rightarrow> ('t, 'a) visitor \<Rightarrow> bool" where
  "steady gen f \<longleftrightarrow> (\<forall>bid e t a t' a'. good gen t \<longrightarrow> entries t bid = Some e \<longrightarrow> f bid e t a = Ok (t', a') \<longrightarrow>
     good gen t' \<and> hash t' = hash t \<and> blocks_of entries t' = blocks_of entries t)"

lemma walk_returns:
  assumes "steady gen f" "good gen t" "entries t bid = Some e"
  shows "\<exists>r. walk ops gen f bid t a = Some r \<and>
    (\<forall>t' a'. r = Ok (t', a') \<longrightarrow> good gen t' \<and> hash t' = hash t \<and> blocks_of entries t' = blocks_of entries t)"
  using assms(2,3)
proof (induction "unat (b_Round (fst e))" arbitrary: t bid e a rule: less_induct)
  case less
  have rd: "bread t bid = Ok e" using less.prems by (simp add: good_def read_entry)
  have ln: "linked hash entries gen t" using less.prems(1) by (simp add: good_def)
  show ?case
  proof (cases "f bid e t a")
    case (Ok ta)
    obtain t1 a1 where ta: "ta = (t1, a1)" by (cases ta)
    have st: "good gen t1" "hash t1 = hash t" "blocks_of entries t1 = blocks_of entries t"
      using assms(1) less.prems Ok ta unfolding steady_def by blast+
    show ?thesis
    proof (cases "bid = gen")
      case True
      then have "walk ops gen f bid t a = Some (Ok (t1, a1))"
        using rd Ok ta by (subst walk.simps) simp
      with st show ?thesis by simp
    next
      case False
      then obtain p where p: "entries t (b_Prev (fst e)) = Some p" "b_Round (fst p) < b_Round (fst e)"
        using linked_prev [OF ln less.prems(2)] by blast
      have "blocks_of entries t1 (b_Prev (fst e)) = Some (fst p)"
        unfolding st(3) using p(1) by (simp add: blocks_of_def)
      then obtain q where q: "entries t1 (b_Prev (fst e)) = Some q" "fst q = fst p"
        by (auto simp: blocks_of_def)
      have "unat (b_Round (fst q)) < unat (b_Round (fst e))" using p(2) q(2) by (simp add: word_less_nat_alt)
      note ih = less.hyps [OF this st(1) q(1), of a1]
      have "walk ops gen f bid t a = walk ops gen f (b_Prev (fst e)) t1 a1"
        using rd Ok ta False by (subst walk.simps) simp
      with ih show ?thesis unfolding st(2,3) by (elim ssubst)
    qed
  qed (use rd in \<open>(subst walk.simps, simp)+\<close>)
qed

lemma steady_readonly:
  assumes "\<And>bid e t a t' a'. f bid e t a = Ok (t', a') \<Longrightarrow> t' = t"
  shows "steady gen f"
  using assms unfolding steady_def by blast

lemma steady_log: "steady gen log_visitor"
  by (rule steady_readonly) (simp add: log_visitor_def)

lemma steady_append: "steady gen (append_visitor b)"
  by (rule steady_readonly) (auto simp: append_visitor_def split: prod.splits)

lemma steady_vote: "steady gen (vote_visitor ops pk stake)"
  unfolding steady_def
proof (intro allI impI)
  fix bid e t u t' u'
  assume g: "good gen t" and e: "entries t bid = Some e" and v: "vote_visitor ops pk stake bid e t u = Ok (t', u')"
  obtain b stk rank where eq: "e = (b, stk, rank)" by (cases e)
  have ln: "linked hash entries gen t" using g by (simp add: good_def)
  have h: "hash t b = bid" using linked_key [OF ln e] eq by simp
  have t': "t' = bwrite t b (stk\<lparr>stk_Votes := AList.update pk stake (stk_Votes stk)\<rparr>) rank"
    using v eq by (simp add: vote_visitor_def)
  have iv: "inv t" using g by (simp add: good_def)
  have ht: "hash t' = hash t" by (simp add: t' hash_write)
  have bl: "blocks_of entries t' = blocks_of entries t"
    using e eq iv h by (auto simp: t' blocks_of_def write_entries fun_eq_iff)
  have "linked hash entries gen t'"
    unfolding linked_def
  proof (intro conjI allI impI)
    show "entries t' gen \<noteq> None"
      using g bl by (metis blocks_of_def good_def linked_def map_option_is_None)
  next
    fix i e' assume e': "entries t' i = Some e'"
    then have "blocks_of entries t i = Some (fst e')" using fun_cong [OF bl, of i] by (simp add: blocks_of_def)
    then obtain e0 where e0: "entries t i = Some e0" "fst e0 = fst e'" by (auto simp: blocks_of_def)
    then show "hash t' (fst e') = i" using linked_key [OF ln e0(1)] ht by simp
    assume "i \<noteq> gen"
    then obtain p where p: "entries t (b_Prev (fst e')) = Some p" "b_Round (fst p) < b_Round (fst e')"
      using linked_prev [OF ln e0(1)] e0(2) by auto
    then have "map_option fst (entries t' (b_Prev (fst e'))) = Some (fst p)"
      using fun_cong [OF bl, of "b_Prev (fst e')"] by (simp add: blocks_of_def)
    then obtain p' where "entries t' (b_Prev (fst e')) = Some p'" "fst p' = fst p" by (elim map_option_eq_Some [THEN iffD1, elim_format]) blast
    then show "\<exists>p. entries t' (b_Prev (fst e')) = Some p \<and> b_Round (fst p) < b_Round (fst e')"
      using p(2) by metis
  qed
  with iv ht bl show "good gen t' \<and> hash t' = hash t \<and> blocks_of entries t' = blocks_of entries t"
    by (simp add: good_def t' inv_write)
qed

lemma walk_total:
  assumes "steady gen f" "good gen t"
  shows "\<exists>r. walk ops gen f bid t a = Some r \<and>
    (\<forall>t' a'. r = Ok (t', a') \<longrightarrow> good gen t' \<and> hash t' = hash t \<and> blocks_of entries t' = blocks_of entries t)"
proof (cases "entries t bid")
  case None
  then have "bread t bid = Err ErrBlockNotExist" using assms(2) by (simp add: good_def read_entry)
  then show ?thesis by (subst walk.simps) simp
qed (rule walk_returns [OF assms])

text \<open>What holds of an accumulator at the end of a walk by a visitor that leaves the store alone.\<close>

lemma walk_collects:
  assumes f: "\<And>i e a t' a'. entries t i = Some e \<Longrightarrow> f i e t a = Ok (t', a') \<Longrightarrow> P a \<Longrightarrow> t' = t \<and> P a'"
    and iv: "inv t" and w: "walk ops gen f bid t a = Some (Ok (t', a'))" and P: "P a"
  shows "t' = t \<and> P a'"
proof -
  let ?Q = "\<lambda>ti g f' b s x (r :: (onl_error, 't \<times> 'a) res). ti = ops \<longrightarrow> f' = f \<longrightarrow> s = t \<longrightarrow> P x \<longrightarrow> (\<forall>t' a'. r = Ok (t', a') \<longrightarrow> t' = t \<and> P a')"
  have "?Q ops gen f bid t a (Ok (t', a'))"
  proof (rule walk.raw_induct [where P = ?Q, OF _ w])
    fix W ti g f' b s x r
    assume ih: "\<And>ti g f' b s x r. W ti g f' b s x = Some r \<Longrightarrow> ?Q ti g f' b s x r"
      and body: "(case txi_Read ti s b of Err e \<Rightarrow> Some (Err e) | Panic \<Rightarrow> Some Panic
        | Ok e \<Rightarrow> (case f' b e s x of Err er \<Rightarrow> Some (Err er) | Panic \<Rightarrow> Some Panic
           | Ok ta \<Rightarrow> if b = g then Some (Ok ta) else W ti g f' (b_Prev (fst e)) (fst ta) (snd ta))) = Some r"
    show "?Q ti g f' b s x r"
    proof (intro impI allI)
      fix t1 a1 assume *: "ti = ops" "f' = f" "s = t" "P x" "r = Ok (t1, a1)"
      then obtain e where e: "entries t b = Some e" "bread t b = Ok e"
        using body iv by (auto simp: read_entry split: option.splits)
      with body * obtain t2 a2 where ta: "f b e t x = Ok (t2, a2)" by (auto split: res.splits)
      then have st: "t2 = t" "P a2" using f [OF e(1)] * by blast+
      show "t1 = t \<and> P a1"
      proof (cases "b = g")
        case False
        then have "W ops g f (b_Prev (fst e)) t a2 = Some (Ok (t1, a1))" using body * e ta st by simp
        then show ?thesis using ih [of ops g f "b_Prev (fst e)" t a2] st by blast
      qed (use body * e ta st in simp)
    qed
  qed
  with P show ?thesis by blast
qed

lemma append_walk_prev:
  assumes "inv t" "walk ops gen (append_visitor b) bid t (None, None) = Some (Ok (t', pv, st))"
  shows "pv = Some (bb, stk) \<Longrightarrow> \<exists>rank. entries t (b_Prev b) = Some (bb, stk, rank)"
  using walk_collects [where P = "\<lambda>a. \<forall>bb stk. fst a = Some (bb, stk) \<longrightarrow> (\<exists>rank. entries t (b_Prev b) = Some (bb, stk, rank))",
      OF _ assms]
  by (auto simp: append_visitor_def split: prod.splits if_splits)

lemma Chain_state_total:
  assumes "good (ch_genesis c) t"
  shows "\<exists>r. Chain_state env ops c t bid = Some r"
proof -
  let ?bid = "if bid = NilID then fst (readTip t) else bid"
  obtain r where "walk ops (ch_genesis c) log_visitor ?bid t [] = Some r"
    using walk_total [OF steady_log assms] by blast
  then show ?thesis
    by (cases r) (auto simp: Chain_state_def Let_def split: prod.splits res.splits)
qed

text \<open>Weighing writes the tip and nothing else.\<close>

definition same_store :: "'t \<Rightarrow> 't \<Rightarrow> bool" where
  "same_store t t' \<longleftrightarrow> inv t' \<and> hash t' = hash t \<and> entries t' = entries t"

lemma same_store_refl [simp]: "same_store t t \<longleftrightarrow> inv t"
  by (simp add: same_store_def)

lemma same_store_trans: "same_store t1 t2 \<Longrightarrow> same_store t2 t3 \<Longrightarrow> same_store t1 t3"
  by (simp add: same_store_def)

lemma same_store_writeTip: "inv t \<Longrightarrow> same_store t (writeTip t tip w)"
  by (simp add: same_store_def inv_writeTip hash_writeTip writeTip_entries)

lemma same_store_good: "same_store t t' \<Longrightarrow> good gen t \<Longrightarrow> good gen t'"
  by (simp add: same_store_def good_def linked_def)

lemma same_store_maxRound: "same_store t t' \<Longrightarrow> inv t \<Longrightarrow> maxRound t' = maxRound t"
  unfolding same_store_def by (metis maxRound_cong)

lemma weigh_blocks_store:
  "weigh_blocks env ops tipw i bs c t = Some (c', Ok t') \<Longrightarrow> inv t \<Longrightarrow> same_store t t' \<and> ch_genesis c' = ch_genesis c"
proof (induction bs arbitrary: i c t c' t')
  case (Cons x bs)
  obtain prev rank bid where x: "x = (prev, rank, bid)" by (cases x)
  obtain prevw where pw: "ch_weights c prev = Some prevw" using Cons.prems x by (cases "ch_weights c prev") (auto simp: Let_def)
  let ?s = "prevw + ch_points c div word_of_nat (i + 1)"
  show ?case
  proof (cases "tipw \<le> ?s")
    case True
    then show ?thesis using Cons.prems x pw same_store_writeTip [OF Cons.prems(2), of bid ?s]
      by (auto simp: Let_def inv_writeTip split: option.splits res.splits prod.splits dest!: Cons.IH
          intro: same_store_trans)
  qed (use Cons x pw in \<open>auto simp: Let_def\<close>)
qed simp

lemma weigh_blocks_effect:
  assumes "weigh_blocks env ops tipw i bs c t = Some (c', Ok t')" "inv t" "distinct (map bid_of bs)"
    "\<And>x y. x \<in> set bs \<Longrightarrow> y \<in> set bs \<Longrightarrow> fst x \<noteq> bid_of y" "\<And>x. x \<in> set bs \<Longrightarrow> length (bid_of x) = 32"
  shows "(\<forall>k < length bs. \<exists>pw. ch_weights c (fst (bs ! k)) = Some pw \<and>
        ch_weights c' (bid_of (bs ! k)) = Some (pw + ch_points c div word_of_nat (i + k + 1))) \<and>
    (\<forall>j. j \<notin> bid_of ` set bs \<longrightarrow> ch_weights c' j = ch_weights c j) \<and>
    readTip t' = new_tip tipw (ch_weights c') bs (readTip t)"
  using assms
proof (induction bs arbitrary: i c t)
  case (Cons x bs)
  obtain prev rank bid where x: "x = (prev, rank, bid)" by (cases x)
  obtain pw where pw: "ch_weights c prev = Some pw" using Cons.prems x by (cases "ch_weights c prev") (auto simp: Let_def)
  define s where "s = pw + ch_points c div (1 + word_of_nat i)"
  define c1 where "c1 = c\<lparr>ch_weights := (ch_weights c)(bid \<mapsto> s)\<rparr>"
  obtain c2 t2 where nx: "weigh_blocks env ops tipw (Suc i) bs c2 t2 = Some (c', Ok t')"
    and c2: "ch_weights c2 = ch_weights c1" "ch_points c2 = ch_points c"
    and t2: "inv t2" "readTip t2 = (if tipw \<le> s then (bid, s) else readTip t)"
  proof (cases "tipw \<le> s")
    case True
    then obtain st where "weigh_blocks env ops tipw (Suc i) bs (c1\<lparr>ch_tstate := Some st\<rparr>) (writeTip t bid s) = Some (c', Ok t')"
      using Cons.prems(1) x pw
      by (auto simp: Let_def s_def [symmetric] c1_def [symmetric] split: option.splits res.splits prod.splits)
    then show ?thesis using that True Cons.prems(2) Cons.prems(5) [of x] x
      by (simp add: inv_writeTip writeTip_tip c1_def)
  next
    case False
    then have "weigh_blocks env ops tipw (Suc i) bs c1 t = Some (c', Ok t')"
      using Cons.prems(1) x pw by (simp add: Let_def s_def [symmetric] c1_def [symmetric])
    then show ?thesis using that [of c1 t] False Cons.prems(2) by (simp add: c1_def)
  qed
  note ih = Cons.IH [OF nx t2(1)]
  have ih: "(\<forall>k < length bs. \<exists>pw. ch_weights c2 (fst (bs ! k)) = Some pw \<and>
        ch_weights c' (bid_of (bs ! k)) = Some (pw + ch_points c2 div word_of_nat (Suc i + k + 1)))"
    "\<forall>j. j \<notin> bid_of ` set bs \<longrightarrow> ch_weights c' j = ch_weights c2 j"
    "readTip t' = new_tip tipw (ch_weights c') bs (readTip t2)"
    using ih Cons.prems(3-5) by auto
  have bw: "ch_weights c' bid = Some s" using ih(2) Cons.prems(3) x c2 by (auto simp: c1_def)
  have pv: "fst (bs ! k) \<noteq> bid" if "k < length bs" for k
    using Cons.prems(4) [of "bs ! k" x] that x by simp
  show ?case
  proof (intro conjI allI impI)
    fix k assume k: "k < length (x # bs)"
    show "\<exists>pw. ch_weights c (fst ((x # bs) ! k)) = Some pw \<and>
        ch_weights c' (bid_of ((x # bs) ! k)) = Some (pw + ch_points c div word_of_nat (i + k + 1))"
      using k x pw bw s_def ih(1) c2 pv by (cases k) (auto simp: c1_def)
  next
    show "readTip t' = new_tip tipw (ch_weights c') (x # bs) (readTip t)"
      using ih(3) t2(2) bw x by (simp add: new_tip_def)
  qed (use ih(2) c2 x in \<open>auto simp: c1_def\<close>)
qed (simp add: new_tip_def)

lemma weigh_blocks_total:
  "good (ch_genesis c) t \<Longrightarrow> \<exists>r. weigh_blocks env ops tipw i bs c t = Some r"
proof (induction bs arbitrary: i c t)
  case (Cons x bs)
  obtain prev rank bid where x: "x = (prev, rank, bid)" by (cases x)
  show ?case
  proof (cases "ch_weights c prev")
    case (Some prevw)
    define s where "s = prevw + ch_points c div (1 + word_of_nat i)"
    define c1 where "c1 = c\<lparr>ch_weights := (ch_weights c)(bid \<mapsto> s)\<rparr>"
    define t1 where "t1 = writeTip t bid s"
    have g: "good (ch_genesis c1) t" "good (ch_genesis c1) t1"
      using Cons.prems same_store_good [OF same_store_writeTip, of t] unfolding c1_def t1_def by (auto simp: good_def)
    obtain r where r: "Chain_state env ops c1 t1 NilID = Some r" using Chain_state_total [OF g(2)] by blast
    show ?thesis
      using Cons.IH [OF g(1)] Cons.IH [of "c1\<lparr>ch_tstate := _\<rparr>" t1] g(2) r Some x
      by (auto simp: Let_def s_def [symmetric] c1_def [symmetric] t1_def [symmetric] split: res.splits prod.splits)
  qed (simp add: x Let_def)
qed simp

text \<open>The round loop ends in the same store, and it ends at all unless the largest round is the
  largest 64-bit number: then the counter wraps and the loop can only be left by an error.\<close>

lemma weigh_rounds_Ok:
  assumes w: "weigh_rounds env ops tipw rn c t = Some (c', Ok t')" and iv: "inv t"
  shows "same_store t t' \<and> ch_genesis c' = ch_genesis c \<and> maxRound t \<noteq> - 1"
proof -
  let ?Q = "\<lambda>env ti tipw rn c t r. ti = ops \<longrightarrow> inv t \<longrightarrow> (\<forall>c' t'. r = (c', Ok t' :: (onl_error, 't) res) \<longrightarrow>
    same_store t t' \<and> ch_genesis c' = ch_genesis c \<and> maxRound t \<noteq> - 1)"
  have "?Q env ops tipw rn c t (c', Ok t')"
  proof (rule weigh_rounds.raw_induct [where P = ?Q, OF _ w])
    fix W env ti tipw rn c t r
    assume ih: "\<And>env ti tipw rn c t r. W env ti tipw rn c t = Some r \<Longrightarrow> ?Q env ti tipw rn c t r"
      and body: "(if rn \<le> txi_MaxRound ti t
        then (case txi_Round ti t rn of Err e \<Rightarrow> Some (c, Err (ErrFmt ''failed to read blocks from round''))
            | Panic \<Rightarrow> Some (c, Panic)
            | Ok es \<Rightarrow> Option.bind (weigh_blocks env ti tipw 0
                     (env_sort env (map (\<lambda>(bid, b, stk, rank). (b_Prev b, rank, bid)) es)) c t)
                  (\<lambda>r. case r of (c1, Ok t1) \<Rightarrow> W env ti tipw (rn + 1) c1 t1
                   | (c1, Err e) \<Rightarrow> Some (c1, Err e) | (c1, Panic) \<Rightarrow> Some (c1, Panic)))
        else Some (c, Ok t)) = Some r"
    show "?Q env ti tipw rn c t r"
    proof (intro impI allI)
      fix c' t' assume *: "ti = ops" "inv t" "r = (c', Ok t')"
      show "same_store t t' \<and> ch_genesis c' = ch_genesis c \<and> maxRound t \<noteq> - 1"
      proof (cases "rn \<le> maxRound t")
        case True
        with body * obtain es where es: "bround t rn = Ok es" by (auto split: res.splits)
        let ?bs = "env_sort env (map (\<lambda>(bid, b, stk, rank). (b_Prev b, rank, bid)) es)"
        from body * True es obtain c1 r1 where cr: "weigh_blocks env ops tipw 0 ?bs c t = Some (c1, r1)"
          by (auto simp: bind_eq_Some_conv)
        with body * True es obtain t1 where wb: "weigh_blocks env ops tipw 0 ?bs c t = Some (c1, Ok t1)"
          "W env ops tipw (rn + 1) c1 t1 = Some (c', Ok t')" by (cases r1) auto
        have st: "same_store t t1" "ch_genesis c1 = ch_genesis c" using weigh_blocks_store [OF wb(1) *(2)] by simp_all
        moreover have "inv t1" using st by (simp add: same_store_def)
        ultimately show ?thesis using ih [OF wb(2)] same_store_trans same_store_maxRound [OF st(1) *(2)] by auto
      next
        case False
        then have "maxRound t \<noteq> - 1" by auto
        then show ?thesis using body * False by simp
      qed
    qed
  qed
  with iv show ?thesis by blast
qed

lemma weigh_rounds_total:
  "good (ch_genesis c) t \<Longrightarrow> maxRound t \<noteq> - 1 \<Longrightarrow> \<exists>r. weigh_rounds env ops tipw rn c t = Some r"
proof (induction "unat (maxRound t) + 1 - unat rn" arbitrary: rn c t rule: less_induct)
  case less
  have iv: "inv t" using less.prems by (simp add: good_def)
  show ?case
  proof (cases "rn \<le> maxRound t")
    case True
    obtain es where es: "bround t rn = Ok es" using round_entries [OF iv] by blast
    let ?bs = "env_sort env (map (\<lambda>(bid, b, stk, rank). (b_Prev b, rank, bid)) es)"
    obtain c1 r1 where wb: "weigh_blocks env ops tipw 0 ?bs c t = Some (c1, r1)"
      using weigh_blocks_total [OF less.prems(1)] by fastforce
    have body: "weigh_rounds env ops tipw rn c t = (case r1 of Ok t1 \<Rightarrow> weigh_rounds env ops tipw (rn + 1) c1 t1
        | Err e \<Rightarrow> Some (c1, Err e) | Panic \<Rightarrow> Some (c1, Panic))"
      using True es wb by (subst weigh_rounds.simps) simp
    show ?thesis
    proof (cases r1)
      case (Ok t1)
      have st: "same_store t t1" "ch_genesis c1 = ch_genesis c" using weigh_blocks_store [OF wb [unfolded Ok] iv] by simp_all
      have mr: "maxRound t1 = maxRound t" using same_store_maxRound [OF st(1) iv] .
      have "rn \<noteq> - 1" using True less.prems(2) word_order.extremum_unique by blast
      then have "unat (rn + 1) = unat rn + 1" using unat_Suc_u64 by blast
      moreover have "unat rn \<le> unat (maxRound t)" using True by (simp add: word_le_nat_alt)
      ultimately have "\<exists>r. weigh_rounds env ops tipw (rn + 1) c1 t1 = Some r"
        using less.prems st by (intro less.hyps) (simp_all add: mr same_store_good)
      then show ?thesis using body Ok by simp
    qed (use body in simp_all)
  qed (subst weigh_rounds.simps, simp)
qed

lemma Chain_vote_total:
  assumes "good (ch_genesis c) t"
  shows "\<exists>r. Chain_vote ops c t bid pk stake = Some r \<and>
    (\<forall>t'. r = Ok t' \<longrightarrow> good (ch_genesis c) t' \<and> hash t' = hash t \<and> blocks_of entries t' = blocks_of entries t)"
proof -
  obtain r where r: "walk ops (ch_genesis c) (vote_visitor ops pk stake) bid t () = Some r"
    "\<forall>t' a'. r = Ok (t', a') \<longrightarrow> good (ch_genesis c) t' \<and> hash t' = hash t \<and> blocks_of entries t' = blocks_of entries t"
    using walk_total [OF steady_vote assms] by blast
  then show ?thesis by (cases r) (auto simp: Chain_vote_def)
qed

lemma append_check_total: "good (ch_genesis c) t \<Longrightarrow> \<exists>r. append_check env ops c t b = Some r"
proof -
  assume g: "good (ch_genesis c) t"
  obtain r1 where r1: "walk ops (ch_genesis c) (append_visitor b) (b_Prev b) t (None, None) = Some r1"
    using walk_total [OF steady_append g] by blast
  obtain r2 where r2: "Chain_state env ops c t (b_Prev b) = Some r2" using Chain_state_total [OF g] by blast
  show ?thesis unfolding append_check_def r1 r2
    by (cases r1; cases r2) (auto simp: Let_def split: option.splits prod.splits)
qed

lemma key_round: "linked hash entries gen t \<Longrightarrow> entries t i = Some e \<Longrightarrow> i = hash t b \<Longrightarrow> b_Round (fst e) = b_Round b"
  by (metis ID_Round_prefix hash_round linked_key)

text \<open>Writing a block behind a stored one of an earlier round keeps the store linked, even over
  a block with the same identifier: identifiers determine the round.\<close>

lemma good_write:
  assumes g: "good gen t" and pv: "entries t (b_Prev b) = Some p" "b_Round (fst p) < b_Round b"
  shows "good gen (bwrite t b stk rank)"
proof -
  let ?t = "bwrite t b stk rank"
  have iv: "inv t" and ln: "linked hash entries gen t" using g by (simp_all add: good_def)
  have en: "entries ?t = (entries t)(hash t b \<mapsto> (b, stk, rank))" using iv by (rule write_entries)
  have keep: "\<exists>q'. entries ?t j = Some q' \<and> b_Round (fst q') = b_Round (fst q)" if "entries t j = Some q" for j q
    using that key_round [OF ln that, of b] by (cases "j = hash t b") (simp_all add: en)
  have "linked hash entries gen ?t"
    unfolding linked_def
  proof (intro conjI allI impI)
    show "entries ?t gen \<noteq> None" using ln unfolding linked_def by (simp add: en)
  next
    fix i e assume e: "entries ?t i = Some e"
    show "hash ?t (fst e) = i"
      using e linked_key [OF ln, of i e] by (cases "i = hash t b") (auto simp: en hash_write)
    assume "i \<noteq> gen"
    then have "\<exists>q. entries t (b_Prev (fst e)) = Some q \<and> b_Round (fst q) < b_Round (fst e)"
      using e pv linked_prev [OF ln, of i e] by (cases "i = hash t b") (auto simp: en simp del: split_paired_Ex)
    then obtain q where "entries t (b_Prev (fst e)) = Some q" "b_Round (fst q) < b_Round (fst e)" by blast
    then show "\<exists>q. entries ?t (b_Prev (fst e)) = Some q \<and> b_Round (fst q) < b_Round (fst e)"
      using keep [of "b_Prev (fst e)" q] by auto
  qed
  then show ?thesis using iv by (simp add: good_def inv_write)
qed

text \<open>The two facts about \<open>Append\<close>: what a successful call has checked and what it leaves, and
  that every call returns unless the round counter can wrap.\<close>

lemma Append_Ok:
  assumes g: "good (ch_genesis c) t"
    and ok: "Chain_Append env ops conflict c t b = Some (c', Ok t')"
  obtains prev prevStk prank stableb b' stk rank stake where
    "entries t (b_Prev b) = Some (prev, prevStk, prank)"
    "append_checked env ops c t b prev prevStk stableb b' stk rank stake"
    "\<not> conflict" "good (ch_genesis c') t'" "ch_genesis c' = ch_genesis c" "b_Round b \<noteq> - 1"
    "blocks_of entries t' = (blocks_of entries t)(hash t b' \<mapsto> b')"
proof -
  have iv: "inv t" using g by (simp add: good_def)
  from ok obtain b' stk rank stake where chk: "append_check env ops c t b = Some (Ok (b', stk, rank, stake))"
    unfolding Chain_Append_def by (auto split: option.splits res.splits)
  let ?t = "bwrite t b' stk rank"
  from ok chk obtain c1 r1 where w: "Chain_weigh env ops c ?t (b_Round b) = Some (c1, r1)"
    unfolding Chain_Append_def by (auto split: option.splits)
  with ok chk obtain t1 where w: "Chain_weigh env ops c ?t (b_Round b) = Some (c1, Ok t1)"
    unfolding Chain_Append_def by (cases r1) auto
  with ok chk have v: "Chain_vote ops c1 t1 (b_Prev b) (b_PK b) stake = Some (Ok t')" and cc: "\<not> conflict" "c' = c1"
    unfolding Chain_Append_def by (auto split: option.splits res.splits if_splits)
  obtain t0 prev prevStk stableb where
    pw: "walk ops (ch_genesis c) (append_visitor b) (b_Prev b) t (None, None) = Some (Ok (t0, Some (prev, prevStk), Some stableb))"
    and ac: "append_checked env ops c t b prev prevStk stableb b' stk rank stake"
    using chk by (rule append_check_Ok)
  obtain prank where pv: "entries t (b_Prev b) = Some (prev, prevStk, prank)"
    using append_walk_prev [OF iv pw refl] by blast
  have b': "b_Prev b' = b_Prev b" "b_Round b' = b_Round b" "b_Round prev < b_Round b"
    using ac unfolding append_checked_def by auto
  have g1: "good (ch_genesis c) ?t" using good_write [OF g] pv b' by simp
  then have iv1: "inv ?t" by (simp add: good_def)
  have st: "same_store ?t t1" "ch_genesis c1 = ch_genesis c" and mr: "maxRound ?t \<noteq> - 1"
    using weigh_rounds_Ok [OF w [unfolded Chain_weigh_def] iv1] by simp_all
  have g2: "good (ch_genesis c1) t1" using same_store_good [OF st(1) g1] st(2) by simp
  have v': "good (ch_genesis c1) t'" "blocks_of entries t' = blocks_of entries t1"
    using Chain_vote_total [OF g2, of "b_Prev b" "b_PK b" stake] v by auto
  have rb: "b_Round b \<noteq> - 1"
    using maxRound_written [OF iv, of b' stk rank] mr b'(2) word_order.extremum_unique by metis
  have "blocks_of entries t' = (blocks_of entries t)(hash t b' \<mapsto> b')"
    unfolding v'(2) using st(1) iv by (auto simp: blocks_of_def same_store_def write_entries fun_eq_iff)
  then show ?thesis using that [OF pv ac cc(1) _ _ rb] v'(1) st(2) cc(2) by simp
qed

lemma Append_total:
  assumes g: "good (ch_genesis c) t" and mr: "maxRound t \<noteq> - 1" "b_Round b \<noteq> - 1"
  shows "\<exists>r. Chain_Append env ops conflict c t b = Some r"
proof -
  have iv: "inv t" using g by (simp add: good_def)
  obtain r where r: "append_check env ops c t b = Some r" using append_check_total [OF g] by blast
  show ?thesis
  proof (cases r)
    case (Ok x)
    obtain b' stk rank stake where x: "x = (b', stk, rank, stake)" by (cases x)
    let ?t = "bwrite t b' stk rank"
    obtain t0 prev prevStk stableb where
      pw: "walk ops (ch_genesis c) (append_visitor b) (b_Prev b) t (None, None) = Some (Ok (t0, Some (prev, prevStk), Some stableb))"
      and ac: "append_checked env ops c t b prev prevStk stableb b' stk rank stake"
      using r unfolding Ok x by (rule append_check_Ok)
    obtain prank where pv: "entries t (b_Prev b) = Some (prev, prevStk, prank)"
      using append_walk_prev [OF iv pw refl] by blast
    have b': "b_Prev b' = b_Prev b" "b_Round b' = b_Round b" "b_Round prev < b_Round b"
      using ac unfolding append_checked_def by auto
    have g1: "good (ch_genesis c) ?t" using good_write [OF g] pv b' by simp
    have "maxRound ?t \<noteq> - 1"
      using maxRound_write_le [OF iv, of b' stk rank] mr b'(2) by (auto simp: max_def word_order.extremum_unique split: if_splits)
    then obtain c1 r1 where w: "Chain_weigh env ops c ?t (b_Round b) = Some (c1, r1)"
      using weigh_rounds_total [OF g1] unfolding Chain_weigh_def by fastforce
    show ?thesis
    proof (cases r1)
      case r1: (Ok t1)
      have iv1: "inv ?t" using g1 by (simp add: good_def)
      have st: "same_store ?t t1" "ch_genesis c1 = ch_genesis c"
        using weigh_rounds_Ok [OF w [unfolded Chain_weigh_def r1] iv1] by simp_all
      have "good (ch_genesis c1) t1" using same_store_good [OF st(1) g1] st(2) by simp
      then obtain r2 where "Chain_vote ops c1 t1 (b_Prev b) (b_PK b) stake = Some r2" using Chain_vote_total by blast
      then show ?thesis unfolding Chain_Append_def using r Ok x w r1 by (cases r2) auto
    qed (use r Ok x w in \<open>auto simp: Chain_Append_def\<close>)
  qed (use r in \<open>auto simp: Chain_Append_def\<close>)
qed

end

section \<open>The chain over Badger\<close>

definition badger_ops :: "'b BadgerTx Txi" where
  "badger_ops = \<lparr>txi_ReadTip = BadgerTx_ReadTip, txi_WriteTip = BadgerTx_WriteTip, txi_Write = BadgerTx_Write,
     txi_Read = BadgerTx_Read, txi_Round = BadgerTx_Round, txi_MaxRound = BadgerTx_MaxRound\<rparr>"

definition chain_ok :: "ID \<Rightarrow> 'b BadgerTx \<Rightarrow> bool" where
  "chain_ok gen t \<longleftrightarrow> BadgerTx_inv t \<and> linked (\<lambda>tx. Block_Hash (bt_sha tx)) BadgerTx_entries gen t"

lemma btx_ops: "btx.ops = badger_ops"
  by (simp add: btx.ops_def badger_ops_def)

lemma btx_good: "btx.good = chain_ok"
  by (simp add: fun_eq_iff btx.good_def chain_ok_def)

lemmas badger_Append_Ok = btx.Append_Ok [unfolded btx_ops btx_good]
lemmas badger_Append_total = btx.Append_total [unfolded btx_ops btx_good]

section \<open>An example\<close>

text \<open>A chain whose genesis deposits a stake for the member \<open>ex_pk 3\<close>, and a block of that member
  for round 1. The hash is the last 32 bytes of its input; signatures and tokens verify.\<close>

definition ex_hash :: "bytes \<Rightarrow> bytes" where
  "ex_hash k = drop (length k) (replicate 32 0 @ k)"

definition ex_env :: "(bytes \<rightharpoonup> bytes) env" where
  "ex_env = \<lparr>env_sha = ex_hash, env_ed_verify = (\<lambda>_ _ _. True), env_vrf_verify = (\<lambda>_ _ _ _. True),
     env_rx = map_radix, env_sort = sort_key (\<lambda>x. - fst (snd x))\<rparr>"

definition ex_genesis_tx :: TxData where
  "ex_genesis_tx = \<lparr>td_TimeStart = 0, td_TimeCommit = 1, td_ReadRows = [],
     td_WriteRows = map (\<lambda>(k, v). (ex_hash k, \<lparr>change_K = k, change_V = v\<rparr>))
       [(skey (ex_pk 3), put_uint64 5), (tpkey (ex_pk 3), [7])]\<rparr>"

definition ex_genesis :: Block where
  "ex_genesis = \<lparr>b_Round = 0, b_Timestamp = 0, b_Token = genesis_token, b_Proof = [], b_PK = replicate 32 0,
     b_Prev = NilID, b_Signature = replicate 64 0,
     b_Writes = [\<lparr>w_TxData = ex_genesis_tx, w_PK = [], w_Nonce = [], w_Signature = replicate 64 0\<rparr>]\<rparr>"

definition ex_gid :: ID where
  "ex_gid = round_prefix 0 @ replicate 24 0"

definition ex_block :: Block where
  "ex_block = \<lparr>b_Round = 1, b_Timestamp = 1, b_Token = [1], b_Proof = [], b_PK = ex_pk 3,
     b_Prev = ex_gid, b_Signature = replicate 64 0, b_Writes = []\<rparr>"

definition ex_store :: "(bytes \<times> bytes) list BadgerTx" where
  "ex_store = BadgerTx_WriteTip (BadgerTx_Write \<lparr>bt_sha = ex_hash, bt_bd = alist_badger, bt_gob = ex_gob, bt_btx = []\<rparr>
     ex_genesis (NewStakes 5) 1) ex_gid 1000"

definition ex_chain :: "(bytes \<rightharpoonup> bytes) Chain" where
  "ex_chain = \<lparr>ch_points = 1000, ch_genesis = ex_gid, ch_weights = [NilID \<mapsto> 0, ex_gid \<mapsto> 1000], ch_tstate = None\<rparr>"

lemma ex_gid: "Block_Hash ex_hash ex_genesis = ex_gid"
  by (simp add: ex_gid_def ex_genesis_def Block_Hash_def ex_hash_def Let_def)

lemma ex_store_entries: "BadgerTx_entries ex_store = [ex_gid \<mapsto> (ex_genesis, NewStakes 5, 1)]"
  and ex_store_inv: "BadgerTx_inv ex_store" and ex_store_sha [simp]: "bt_sha ex_store = ex_hash"
  and ex_store_tip: "BadgerTx_ReadTip ex_store = (ex_gid, 1000)"
proof -
  let ?t0 = "\<lparr>bt_sha = ex_hash, bt_bd = alist_badger, bt_gob = ex_gob, bt_btx = []\<rparr>"
  have i0: "BadgerTx_inv ?t0" by (simp add: BadgerTx_inv_def alist_badger_ok ex_gob_ok) (simp add: alist_badger_def)
  have e0: "BadgerTx_entries ?t0 = Map.empty" by (simp add: BadgerTx_entries_def fun_eq_iff) (simp add: alist_badger_def)
  show "BadgerTx_entries ex_store = [ex_gid \<mapsto> (ex_genesis, NewStakes 5, 1)]"
    using i0 e0 by (simp add: ex_store_def btx.entry_laws btx.inv_laws ex_gid)
  show "BadgerTx_inv ex_store" using i0 by (simp add: ex_store_def btx.inv_laws)
  show "bt_sha ex_store = ex_hash" by (simp add: ex_store_def BadgerTx_WriteTip_def BadgerTx_Write_def)
  show "BadgerTx_ReadTip ex_store = (ex_gid, 1000)"
    using i0 by (simp add: ex_store_def btx.writeTip_tip btx.inv_laws ex_gid_def)
qed

lemma ex_store_ok: "chain_ok ex_gid ex_store"
  by (simp add: chain_ok_def ex_store_inv linked_def ex_store_entries ex_gid)

lemma ex_gid_neq [simp]: "ex_gid \<noteq> NilID" "NilID \<noteq> ex_gid"
proof -
  have "u64_of ex_gid = - 1" "u64_of NilID = 0"
    by (simp_all add: ex_gid_def NilID_def round_prefix_def u64_of_def, simp add: be_nat_def numeral_eq_Suc)
  then show "ex_gid \<noteq> NilID" "NilID \<noteq> ex_gid" by auto
qed

lemma ex_block_neq: "Block_Hash ex_hash ex_block \<noteq> ex_gid"
proof
  assume "Block_Hash ex_hash ex_block = ex_gid"
  then have "take 8 (Block_Hash ex_hash ex_block) = take 8 ex_gid" by simp
  then show False by (simp add: ex_gid_def ex_block_def round_prefix_def)
qed

lemma badger_ops_simps [simp]:
  "txi_Read badger_ops = BadgerTx_Read" "txi_ReadTip badger_ops = BadgerTx_ReadTip" "txi_Write badger_ops = BadgerTx_Write"
  "txi_WriteTip badger_ops = BadgerTx_WriteTip" "txi_Round badger_ops = BadgerTx_Round" "txi_MaxRound badger_ops = BadgerTx_MaxRound"
  by (simp_all add: badger_ops_def)

lemma ex_env_simps [simp]:
  "env_sha ex_env = ex_hash" "env_ed_verify ex_env pk h sg" "env_vrf_verify ex_env a b tk pr" "env_rx ex_env = map_radix"
  by (simp_all add: ex_env_def)

lemma ex_chain_simps [simp]:
  "ch_genesis ex_chain = ex_gid" "ch_points ex_chain = 1000" "ch_weights ex_chain ex_gid = Some 1000"
  by (simp_all add: ex_chain_def)

definition ex_like :: "(bytes \<rightharpoonup> bytes) Chain \<Rightarrow> bool" where
  "ex_like c \<longleftrightarrow> ch_genesis c = ex_gid \<and> ch_points c = 1000 \<and> ch_weights c ex_gid = Some 1000"

lemma ex_like_chain [simp]: "ex_like ex_chain"
  by (simp add: ex_like_def)

lemma ex_block_simps [simp]:
  "b_Round ex_block = 1" "b_Timestamp ex_block = 1" "b_PK ex_block = ex_pk 3" "b_Prev ex_block = ex_gid"
  "b_Writes ex_block = []" "b_Token ex_block = [1]" "ex_block\<lparr>b_Writes := []\<rparr> = ex_block"
  "b_Round ex_genesis = 0" "b_Timestamp ex_genesis = 0"
  by (simp_all add: ex_block_def ex_genesis_def)

lemmas ex_key_defs = ex_genesis_def ex_genesis_tx_def skey_def tpkey_def ex_pk_def stakeKey_def tpkKey_def str_bytes_def

lemma ex_deposit: "find_deposit (ex_pk 3) ex_genesis (b_Writes ex_genesis) None = Ok (Some ex_genesis)"
  by (simp add: HasDepositFor_def StakeDeposits_def get0_def ex_key_defs)

lemma ex_state_of_genesis:
  obtains s where "NewState map_radix [b_Writes ex_genesis] = Ok s" "NewState map_radix [b_Writes ex_genesis, []] = Ok s"
    "fst (ReadStake KV_Get \<lparr>kv_sha = ex_hash, kv_rx = map_radix, kv_tx = DB_NewTx (st_db s)\<rparr> (ex_pk 3)) = (5, Some [7])"
  by (simp add: NewState_def State_Apply_def ReadStake_def empty_state_def ex_hash_def KV_Get_def ex_key_defs ex_defs)

lemmas ex_read = btx.read_entry [OF ex_store_inv] ex_store_entries

lemma ex_append_check:
  assumes "ex_like c"
  shows "append_check ex_env badger_ops c ex_store ex_block = Some (Ok (ex_block, NewStakes 5, 5, 5))"
proof -
  have wk: "walk badger_ops ex_gid (append_visitor ex_block) ex_gid ex_store (None, None) =
     Some (Ok (ex_store, Some (ex_genesis, NewStakes 5), Some ex_genesis))"
    by (subst walk.simps) (simp add: ex_read append_visitor_def ex_deposit)
  have wl: "walk badger_ops ex_gid log_visitor ex_gid ex_store [] = Some (Ok (ex_store, [b_Writes ex_genesis]))"
    by (subst walk.simps) (simp add: ex_read log_visitor_def)
  obtain s where s: "NewState map_radix [b_Writes ex_genesis] = Ok s"
    "fst (ReadStake KV_Get \<lparr>kv_sha = ex_hash, kv_rx = map_radix, kv_tx = DB_NewTx (st_db s)\<rparr> (ex_pk 3)) = (5, Some [7])"
    using ex_state_of_genesis by metis
  have cs: "Chain_state ex_env badger_ops c ex_store ex_gid = Some (Ok (ex_gid, s))"
    using wl s assms by (simp add: Chain_state_def ex_store_tip ex_like_def)
  have new: "is_not_exist (BadgerTx_Read ex_store (Block_Hash ex_hash ex_block))"
    by (simp add: ex_read is_not_exist_def ex_block_neq)
  show ?thesis
    using wk cs s new assms
    by (simp add: ex_like_def append_check_def Block_VerifySignature_def Block_VerifyToken_def Let_def Block_Rank_def NewStakes_def be_nat_def)
qed

text \<open>The rest of the run: the block is the only one of its round, so weighing makes it the tip.\<close>

definition ex_store1 :: "(bytes \<times> bytes) list BadgerTx" where
  "ex_store1 = BadgerTx_Write ex_store ex_block (NewStakes 5) 5"

definition ex_bid :: ID where
  "ex_bid = Block_Hash ex_hash ex_block"

lemma ex_bid_props [simp]: "ex_bid \<noteq> ex_gid" "ex_gid \<noteq> ex_bid" "length ex_bid = 32" "take 8 ex_bid = round_prefix 1"
  "take 8 ex_gid = round_prefix 0" "ID_Round ex_bid = 1" "ID_Round ex_gid = 0" "ex_bid \<noteq> NilID"
proof -
  have t: "take 8 ex_bid = round_prefix 1" by (simp add: ex_bid_def)
  show "take 8 ex_bid = round_prefix 1" "take 8 ex_gid = round_prefix 0" by (simp_all add: t ex_gid_def)
  then show "ID_Round ex_bid = 1" "ID_Round ex_gid = 0" by (simp_all add: ID_Round_prefix)
  show "ex_bid \<noteq> ex_gid" using ex_block_neq by (simp add: ex_bid_def)
  then show "ex_gid \<noteq> ex_bid" by simp
  show "length ex_bid = 32" by (simp add: ex_bid_def Block_Hash_def ex_hash_def Let_def)
  have "ID_Round NilID = - 1" by (simp add: ID_Round_def u64_of_def NilID_def be_nat_def numeral_eq_Suc)
  moreover have "(1 :: u64) \<noteq> - 1" by simp
  ultimately show "ex_bid \<noteq> NilID" using \<open>ID_Round ex_bid = 1\<close> by metis
qed

lemma ex_store1_inv: "BadgerTx_inv ex_store1"
  by (simp add: ex_store1_def btx.inv_write ex_store_inv)

lemma ex_store1_entries:
  "BadgerTx_entries ex_store1 = [ex_gid \<mapsto> (ex_genesis, NewStakes 5, 1), ex_bid \<mapsto> (ex_block, NewStakes 5, 5)]"
  by (simp add: ex_store1_def btx.write_entries ex_store_inv ex_store_entries ex_bid_def)

lemma ex_round: "BadgerTx_Round ex_store1 1 = Ok [(ex_bid, ex_block, NewStakes 5, 5)]"
proof -
  obtain es where es: "BadgerTx_Round ex_store1 1 = Ok es" "distinct (map fst es)"
    "set es = {(i, e). BadgerTx_entries ex_store1 i = Some e \<and> take 8 i = round_prefix 1}"
    using btx.round_entries [OF ex_store1_inv] by blast
  have "set es = {(ex_bid, ex_block, NewStakes 5, 5)}"
    unfolding es(3) by (auto simp: ex_store1_entries round_prefix_def split: if_splits)
  moreover have "distinct es" using es(2) by (simp add: distinct_map)
  ultimately have "es = [(ex_bid, ex_block, NewStakes 5, 5)]"
    by (intro distinct_singleton)
  with es(1) show ?thesis by simp
qed

lemma ex_maxRound: "BadgerTx_MaxRound ex_store1 = 1"
proof -
  have "1 \<le> BadgerTx_MaxRound ex_store1"
    using btx.maxRound_ge [OF ex_store1_inv, of ex_bid] by (simp add: ex_store1_entries)
  moreover have "BadgerTx_MaxRound ex_store1 \<le> 1"
    using btx.maxRound_attained [OF ex_store1_inv] by (force simp: ex_store1_entries split: if_splits)
  ultimately show ?thesis by simp
qed

definition ex_store2 :: "(bytes \<times> bytes) list BadgerTx" where
  "ex_store2 = BadgerTx_WriteTip ex_store1 ex_bid 2000"

lemma ex_store2:
  "BadgerTx_inv ex_store2" "BadgerTx_entries ex_store2 = BadgerTx_entries ex_store1"
  "BadgerTx_ReadTip ex_store2 = (ex_bid, 2000)" "BadgerTx_MaxRound ex_store2 = 1"
proof -
  show "BadgerTx_inv ex_store2" "BadgerTx_entries ex_store2 = BadgerTx_entries ex_store1"
    "BadgerTx_ReadTip ex_store2 = (ex_bid, 2000)"
    by (simp_all add: ex_store2_def btx.inv_writeTip btx.writeTip_entries btx.writeTip_tip ex_store1_inv)
  then show "BadgerTx_MaxRound ex_store2 = 1" using btx.maxRound_cong [OF _ ex_store1_inv] ex_maxRound by simp
qed

lemmas ex_read2 = btx.read_entry [OF ex_store2(1)] ex_store2(2) ex_store1_entries

lemma ex_weigh_blocks:
  assumes "ex_like c"
  obtains c' where "weigh_blocks ex_env badger_ops 1000 0 [(ex_gid, 5, ex_bid)] c ex_store1 = Some (c', Ok ex_store2)"
    "ex_like c'"
proof -
  let ?c = "c\<lparr>ch_weights := (ch_weights c)(ex_bid \<mapsto> 2000)\<rparr>"
  have "walk badger_ops ex_gid log_visitor ex_gid ex_store2 [[]] = Some (Ok (ex_store2, [b_Writes ex_genesis, []]))"
    by (subst walk.simps) (simp add: ex_read2 log_visitor_def)
  then have "walk badger_ops ex_gid log_visitor ex_bid ex_store2 [] = Some (Ok (ex_store2, [b_Writes ex_genesis, []]))"
    by (subst walk.simps) (simp add: ex_read2 log_visitor_def)
  moreover obtain s where "NewState map_radix [b_Writes ex_genesis, []] = Ok s" using ex_state_of_genesis by metis
  ultimately have "Chain_state ex_env badger_ops ?c ex_store2 NilID = Some (Ok (ex_bid, s))"
    using assms by (simp add: Chain_state_def ex_store2(3) ex_like_def)
  then have "weigh_blocks ex_env badger_ops 1000 0 [(ex_gid, 5, ex_bid)] c ex_store1 =
      Some (?c\<lparr>ch_tstate := Some s\<rparr>, Ok ex_store2)"
    using assms by (simp add: ex_store2_def [symmetric] ex_like_def)
  then show ?thesis by (rule that) (use assms in \<open>simp add: ex_like_def\<close>)
qed

lemma ex_append_like:
  assumes "ex_like c"
  shows "\<exists>c' t'. ex_like c' \<and> Chain_Append ex_env badger_ops cf c ex_store ex_block =
    Some (c', if cf then Err ErrAppendConflict else Ok t')"
proof -
  obtain c' where c': "weigh_blocks ex_env badger_ops 1000 0 [(ex_gid, 5, ex_bid)] c ex_store1 = Some (c', Ok ex_store2)"
    "ex_like c'" using assms by (rule ex_weigh_blocks)
  have "weigh_rounds ex_env badger_ops 1000 2 c' ex_store2 = Some (c', Ok ex_store2)"
    by (subst weigh_rounds.simps) (simp add: ex_store2 word_le_nat_alt)
  then have "weigh_rounds ex_env badger_ops 1000 1 c ex_store1 = Some (c', Ok ex_store2)"
    by (subst weigh_rounds.simps) (simp add: ex_maxRound ex_round c' ex_env_def [THEN arg_cong [where f = env_sort], simplified]
        del: weigh_blocks.simps)
  moreover have "BadgerTx_ReadTip ex_store1 = (ex_gid, 1000)"
    by (simp add: ex_store1_def btx.write_tip ex_store_inv ex_store_tip)
  ultimately have w: "Chain_weigh ex_env badger_ops c ex_store1 1 = Some (c', Ok ex_store2)"
    by (simp add: Chain_weigh_def)
  have "\<exists>t'. Chain_vote badger_ops c' ex_store2 ex_gid (ex_pk 3) 5 = Some (Ok t')"
    unfolding Chain_vote_def c'(2) [unfolded ex_like_def, THEN conjunct1]
    by (subst walk.simps) (simp add: ex_read2 vote_visitor_def split: prod.splits)
  then show ?thesis using w c'(2) ex_append_check [OF assms] by (auto simp: Chain_Append_def ex_store1_def [symmetric])
qed

lemma ex_append: "\<exists>c' t'. Chain_Append ex_env badger_ops False ex_chain ex_store ex_block = Some (c', Ok t')"
  using ex_append_like [of ex_chain False] by auto

section \<open>Properties\<close>





text \<open>A block of the largest round is never accepted: \<open>weigh\<close> counts the rounds up to it with a
  64-bit counter that wraps, so the call ends with an error, with a panic or not at all.\<close>

theorem append_max_round_never_succeeds:
  assumes "chain_ok (ch_genesis c) t" "b_Round b = - 1"
  shows "Chain_Append env badger_ops conflict c t b \<noteq> Some (c', Ok t')"
  using badger_Append_Ok [OF assms(1)] assms(2) by metis

theorem append_max_round_never_succeeds_witness:
  "Chain_Append ex_env badger_ops False ex_chain ex_store (ex_block\<lparr>b_Round := - 1\<rparr>) \<noteq> Some (ex_chain, Ok ex_store)"
  by (rule append_max_round_never_succeeds) (simp_all add: ex_store_ok)

text \<open>Weighing a round gives the block at position \<open>k\<close> of the descending rank order the weight of
  its prev plus the points divided by \<open>k + 1\<close>, and leaves other weights alone. The tip becomes the
  last block of that order whose weight reaches the weight the tip had before, so it need not be
  the heaviest: when no block reaches it the old tip stays, even if its own weight has dropped.\<close>

theorem weigh_by_rank:
  assumes "weigh_blocks env badger_ops tipw 0 bs c t = Some (c', Ok t')" "BadgerTx_inv t"
    and "distinct (map bid_of bs)" "\<And>x y. x \<in> set bs \<Longrightarrow> y \<in> set bs \<Longrightarrow> fst x \<noteq> bid_of y"
    and "\<And>x. x \<in> set bs \<Longrightarrow> length (bid_of x) = 32"
  shows "(\<forall>k < length bs. \<exists>pw. ch_weights c (fst (bs ! k)) = Some pw \<and>
        ch_weights c' (bid_of (bs ! k)) = Some (pw + ch_points c div word_of_nat (k + 1))) \<and>
    (\<forall>j. j \<notin> bid_of ` set bs \<longrightarrow> ch_weights c' j = ch_weights c j) \<and>
    BadgerTx_ReadTip t' = new_tip tipw (ch_weights c') bs (BadgerTx_ReadTip t)"
  using btx.weigh_blocks_effect [unfolded btx_ops, OF assms] by simp

theorem weigh_by_rank_witness:
  "\<exists>c'. weigh_blocks ex_env badger_ops 1000 0 [(ex_gid, 5, ex_bid)] ex_chain ex_store1 = Some (c', Ok ex_store2) \<and>
     ch_weights c' ex_bid = Some 2000 \<and> BadgerTx_ReadTip ex_store2 = (ex_bid, 2000)"
proof -
  obtain c' where c': "weigh_blocks ex_env badger_ops 1000 0 [(ex_gid, 5, ex_bid)] ex_chain ex_store1 = Some (c', Ok ex_store2)"
    by (rule ex_weigh_blocks [OF ex_like_chain])
  have "ch_weights c' ex_bid = Some 2000 \<and> BadgerTx_ReadTip ex_store2 = (ex_bid, 2000)"
    using weigh_by_rank [OF c' ex_store1_inv] by (simp add: new_tip_def)
  with c' show ?thesis by blast
qed

end
