(* ===== verification/Onl_Engine.thy ===== *)
theory Onl_Engine
  imports Onl_Chain
begin

text \<open>
  The member process of package \<open>onl\<close>: \<^verbatim>\<open>src/exp/onl/engine/broadcast.go\<close> (messages), \<^verbatim>\<open>ooo.go\<close> (the
  out-of-order buffer), \<^verbatim>\<open>mempool.go\<close> and \<^verbatim>\<open>engine.go\<close>. A handler started with \<^verbatim>\<open>go\<close> becomes an element of
  the list of started handlers; which of them runs next is the choice of the step relation, so
  the lemmas hold for every schedule. Logging, drawing and shutdown are not modelled.
\<close>

section \<open>Messages (broadcast.go)\<close>

record Msg =
  msg_Block :: "Block option"
  msg_Write :: "Write option"
  msg_Sync :: "ID list option"

abbreviation BlockMsg :: "Block \<Rightarrow> Msg" where
  "BlockMsg b \<equiv> \<lparr>msg_Block = Some b, msg_Write = None, msg_Sync = None\<rparr>"

abbreviation WriteMsg :: "Write \<Rightarrow> Msg" where
  "WriteMsg w \<equiv> \<lparr>msg_Block = None, msg_Write = Some w, msg_Sync = None\<rparr>"

abbreviation SyncMsg :: "ID list \<Rightarrow> Msg" where
  "SyncMsg ids \<equiv> \<lparr>msg_Block = None, msg_Write = None, msg_Sync = Some ids\<rparr>"

definition Msg_Dependency :: "Msg \<Rightarrow> ID \<times> u64" where
  "Msg_Dependency msg =
     (if msg_Write msg \<noteq> None then (NilID, 0)
      else case msg_Block msg of None \<Rightarrow> (NilID, 0) | Some b \<Rightarrow> (b_Prev b, b_Round b))"

section \<open>The out-of-order buffer (ooo.go)\<close>

text \<open>The Go maps hold slices; a nil slice marks a resolved key. Slices are only created by
  appending, so nil is the empty list. \<open>started\<close> are the messages given to \<^verbatim>\<open>go o.handler.Handle\<close>.\<close>

record OutOfOrder =
  onBlocks :: "(ID \<times> Msg list) list"
  onRounds :: "(u64 \<times> Msg list) list"

definition NewOutOfOrder :: OutOfOrder where
  "NewOutOfOrder = \<lparr>onBlocks = [], onRounds = []\<rparr>"

text \<open>What \<open>Handle\<close> does with one dependency: whether it is resolved, and the waiting lists after.\<close>

definition depend :: "'k \<Rightarrow> Msg \<Rightarrow> ('k \<times> Msg list) list \<Rightarrow> bool \<times> ('k \<times> Msg list) list" where
  "depend k msg m =
     (case map_of m k of
        Some ex \<Rightarrow> (ex = [], m)
      | None \<Rightarrow> (False, AList.update k [msg] m))"

definition OOO_Handle :: "OutOfOrder \<Rightarrow> Msg \<Rightarrow> OutOfOrder \<times> Msg list" where
  "OOO_Handle orc msg =
     (let (bdep, rdep) = Msg_Dependency msg;
          (bres, bs) = (if bdep \<noteq> NilID then depend bdep msg (onBlocks orc) else (True, onBlocks orc));
          (rres, rs) = (if rdep > 0 then depend rdep msg (onRounds orc) else (True, onRounds orc))
      in (\<lparr>onBlocks = bs, onRounds = rs\<rparr>, if rres \<and> bres then [msg] else []))"

fun OOO_HandleAll :: "OutOfOrder \<Rightarrow> Msg list \<Rightarrow> OutOfOrder \<times> Msg list" where
  "OOO_HandleAll orc [] = (orc, [])"
| "OOO_HandleAll orc (msg # msgs) =
     (let (o1, h1) = OOO_Handle orc msg; (o2, h2) = OOO_HandleAll o1 msgs in (o2, h1 @ h2))"

definition OOO_Resolve :: "OutOfOrder \<Rightarrow> ID \<Rightarrow> OutOfOrder \<times> Msg list" where
  "OOO_Resolve orc bid =
     (let defers = map_of (onBlocks orc) bid; o1 = orc\<lparr>onBlocks := AList.update bid [] (onBlocks orc)\<rparr>
      in case defers of None \<Rightarrow> (o1, []) | Some msgs \<Rightarrow> OOO_HandleAll o1 msgs)"

text \<open>Also returns the identifiers asked for in the sync message that is broadcast.\<close>

definition OOO_ResolveRound :: "OutOfOrder \<Rightarrow> u64 \<Rightarrow> OutOfOrder \<times> ID list \<times> Msg list" where
  "OOO_ResolveRound orc nr =
     (let defers = map_of (onRounds orc) nr; o1 = orc\<lparr>onRounds := AList.update nr [] (onRounds orc)\<rparr>;
          syncids = map fst (filter (\<lambda>(bid, msgs). msgs \<noteq> [] \<and> ID_Round bid \<le> nr) (onBlocks orc))
      in case defers of None \<Rightarrow> (o1, syncids, [])
         | Some msgs \<Rightarrow> (let (o2, h) = OOO_HandleAll o1 msgs in (o2, syncids, h)))"

section \<open>The pool of pending writes (mempool.go)\<close>

text \<open>A Go map iterates in any order: the association list is the order of one iteration, and
  the lemmas are about every list. A dry run of \<open>Apply\<close> changes the write it is given.\<close>

datatype pool_error = ErrInvalidWriteSignature | ErrAlreadyInPool

type_synonym MemPool = "(Nonce \<times> Write) list"

definition NewMemPool :: MemPool where
  "NewMemPool = []"

definition MemPool_Add :: "(bytes \<Rightarrow> bytes) \<Rightarrow> (PK \<Rightarrow> bytes \<Rightarrow> bytes \<Rightarrow> bool) \<Rightarrow> MemPool \<Rightarrow> Write \<Rightarrow> (pool_error, MemPool) res" where
  "MemPool_Add sha ed_verify p w =
     (if \<not> Write_VerifySignature sha ed_verify w then Err ErrInvalidWriteSignature
      else if map_of p (w_Nonce w) \<noteq> None then Err ErrAlreadyInPool
      else Ok (AList.update (w_Nonce w) w p))"

fun MemPool_Pick :: "'s iradix \<Rightarrow> 's State \<Rightarrow> (Write \<Rightarrow> 'a \<Rightarrow> bool \<times> 'a) \<Rightarrow> MemPool \<Rightarrow> 'a \<Rightarrow> MemPool \<times> 's State \<times> 'a" where
  "MemPool_Pick rx s f [] a = ([], s, a)"
| "MemPool_Pick rx s f ((n, w) # p) a =
     (case State_Apply rx s (Some w) True of
        (e, ow, s1) \<Rightarrow>
          (let w1 = the ow
           in if e \<noteq> None then (let (p2, s2, a2) = MemPool_Pick rx s1 f p a in ((n, w1) # p2, s2, a2))
              else (let (stop, a1) = f w1 a
                    in if stop then ((n, w1) # p, s1, a1)
                       else let (p2, s2, a2) = MemPool_Pick rx s1 f p a1 in ((n, w1) # p2, s2, a2))))"

section \<open>The engine (engine.go)\<close>

record crypto =
  cr_ed_sign :: "bytes \<Rightarrow> bytes \<Rightarrow> bytes"
  cr_vrf_prove :: "bytes \<Rightarrow> bytes \<Rightarrow> bytes \<times> bytes"

record ('s, 'b) Engine =
  e_env :: "'s env"
  e_cr :: crypto
  e_chain :: "'s Chain"
  e_store :: "'b BadgerTx"
  e_ooo :: OutOfOrder
  e_pool :: MemPool
  e_idn :: Identity
  e_genesis :: ID
  e_maxw :: nat
  e_started :: "Msg list"
  e_sent :: "Msg list"
  e_pushed :: "Block list"

definition Engine_send :: "Msg \<Rightarrow> ('s, 'b) Engine \<Rightarrow> ('s, 'b) Engine" where
  "Engine_send msg e = e\<lparr>e_sent := e_sent e @ [msg]\<rparr>"

definition Engine_resolve :: "ID \<Rightarrow> ('s, 'b) Engine \<Rightarrow> ('s, 'b) Engine" where
  "Engine_resolve bid e = (let (orc, h) = OOO_Resolve (e_ooo e) bid in e\<lparr>e_ooo := orc, e_started := e_started e @ h\<rparr>)"

definition New_Engine :: "'s env \<Rightarrow> crypto \<Rightarrow> Identity \<Rightarrow> 's Chain \<Rightarrow> 'b BadgerTx \<Rightarrow> ('s, 'b) Engine" where
  "New_Engine env cr idn c t =
     Engine_resolve (ch_genesis c)
       \<lparr>e_env = env, e_cr = cr, e_chain = c, e_store = t, e_ooo = NewOutOfOrder, e_pool = NewMemPool, e_idn = idn,
        e_genesis = ch_genesis c, e_maxw = 10, e_started = [], e_sent = [], e_pushed = []\<rparr>"

definition handleWrite :: "('s, 'b) Engine \<Rightarrow> Write \<Rightarrow> ('s, 'b) Engine" where
  "handleWrite e w =
     (case MemPool_Add (env_sha (e_env e)) (env_ed_verify (e_env e)) (e_pool e) w of
        Ok p \<Rightarrow> Engine_send (WriteMsg w) (e\<lparr>e_pool := p\<rparr>)
      | _ \<Rightarrow> e)"

definition appended_block :: "'s env \<Rightarrow> 'b BadgerTx \<Rightarrow> 's Chain \<Rightarrow> Block \<Rightarrow> Block" where
  "appended_block env t c b =
     (case append_check env badger_ops c t b of Some (Ok (b', _)) \<Rightarrow> b' | _ \<Rightarrow> b)"

datatype attempt = Stopped | Went Block | Crashed

text \<open>The retries of \<open>handleBlock\<close>: \<open>cf\<close> says which attempts end in a Badger conflict. The writes
  of the block are changed in place by every attempt that reaches them. After the last
  conflict the loop is left the same way as after a success.\<close>

fun append_loop :: "nat \<Rightarrow> bool list \<Rightarrow> ('s, 'b) Engine \<Rightarrow> Block \<Rightarrow> (('s, 'b) Engine \<times> attempt) option" where
  "append_loop 0 cf e b = Some (e, Went b)"
| "append_loop (Suc n) cf e b =
     (let b' = appended_block (e_env e) (e_store e) (e_chain e) b
      in case Chain_Append (e_env e) badger_ops (cf \<noteq> [] \<and> hd cf) (e_chain e) (e_store e) b of
           None \<Rightarrow> None
         | Some (c', Ok t') \<Rightarrow> Some (e\<lparr>e_chain := c', e_store := t'\<rparr>, Went b')
         | Some (c', Panic) \<Rightarrow> Some (e\<lparr>e_chain := c'\<rparr>, Crashed)
         | Some (c', Err er) \<Rightarrow>
             if er = ErrAppendConflict then append_loop n (tl cf) (e\<lparr>e_chain := c'\<rparr>) b'
             else Some (e\<lparr>e_chain := c'\<rparr>, Stopped))"

definition handleBlock :: "bool list \<Rightarrow> ('s, 'b) Engine \<Rightarrow> Block \<Rightarrow> (onl_error, ('s, 'b) Engine) res option" where
  "handleBlock cf e b =
     (case append_loop 5 cf e b of
        None \<Rightarrow> None
      | Some (e1, Stopped) \<Rightarrow> Some (Ok e1)
      | Some (e1, Crashed) \<Rightarrow> Some Panic
      | Some (e1, Went b') \<Rightarrow>
          Some (Ok (Engine_send (BlockMsg b') (Engine_resolve (Block_Hash (env_sha (e_env e1)) b') e1))))"

text \<open>Blocks that can be read are pushed to the peer that asked.\<close>

definition handleSync :: "('s, 'b) Engine \<Rightarrow> ID list \<Rightarrow> ('s, 'b) Engine" where
  "handleSync e ids = e\<lparr>e_pushed := e_pushed e @
     concat (map (\<lambda>bid. case Chain_Read badger_ops (e_chain e) (e_store e) bid of Ok (b, w, stk) \<Rightarrow> [b] | _ \<Rightarrow> []) ids)\<rparr>"

definition pick_visitor :: "nat \<Rightarrow> Write \<Rightarrow> Block \<Rightarrow> bool \<times> Block" where
  "pick_visitor maxw w b = (let b' = Block_AppendWrite b [Some w] in (length (b_Writes b') \<ge> maxw, b'))"

text \<open>The block \<open>handleRound\<close> proposes, if the tip state holds a stake of the member.\<close>

definition propose :: "('s, 'b) Engine \<Rightarrow> u64 \<Rightarrow> u64 \<Rightarrow> ID \<Rightarrow> 's State \<Rightarrow> (MemPool \<times> Block) option" where
  "propose e round_nr ts tip s =
     (let kv = \<lparr>kv_sha = env_sha (e_env e), kv_rx = env_rx (e_env e), kv_tx = DB_NewTx (st_db s)\<rparr>;
          stake = fst (fst (ReadStake KV_Get kv (idn_signPK (e_idn e))))
      in if stake < 1 then None
         else let b0 = Identity_Mint (cr_vrf_prove (e_cr e)) (e_idn e) ts tip (e_genesis e) round_nr;
                  (p, s', b) = MemPool_Pick (env_rx (e_env e)) s (pick_visitor (e_maxw e)) (e_pool e) b0
              in Some (p, Identity_Sign (env_sha (e_env e)) (cr_ed_sign (e_cr e)) (e_idn e) b))"

definition handleRound :: "bool list \<Rightarrow> ('s, 'b) Engine \<Rightarrow> u64 \<Rightarrow> u64 \<Rightarrow> (onl_error, ('s, 'b) Engine) res option" where
  "handleRound cf e round_nr ts =
     (let (orc, ids, h) = OOO_ResolveRound (e_ooo e) round_nr;
          e1 = Engine_send (SyncMsg ids) (e\<lparr>e_ooo := orc, e_started := e_started e @ h\<rparr>)
      in case Chain_state (e_env e1) badger_ops (e_chain e1) (e_store e1) NilID of
           None \<Rightarrow> None
         | Some (Err er) \<Rightarrow> Some (Ok e1)
         | Some Panic \<Rightarrow> Some Panic
         | Some (Ok (tip, s)) \<Rightarrow>
             (case propose e1 round_nr ts tip s of
                None \<Rightarrow> Some (Ok e1)
              | Some (p, b) \<Rightarrow> handleBlock cf (e1\<lparr>e_pool := p\<rparr>) b))"

definition Engine_Handle :: "bool list \<Rightarrow> ('s, 'b) Engine \<Rightarrow> Msg \<Rightarrow> (onl_error, ('s, 'b) Engine) res option" where
  "Engine_Handle cf e msg =
     (case msg_Write msg of Some w \<Rightarrow> Some (Ok (handleWrite e w))
      | None \<Rightarrow> (case msg_Block msg of Some b \<Rightarrow> handleBlock cf e b
      | None \<Rightarrow> (case msg_Sync msg of Some ids \<Rightarrow> Some (Ok (handleSync e ids))
      | None \<Rightarrow> Some (Ok e))))"

definition Engine_Update :: "('s, 'b) Engine \<Rightarrow> Nonce \<Rightarrow> ('s Tx \<Rightarrow> 's Tx) \<Rightarrow> (onl_error, ('s, 'b) Engine) res" where
  "Engine_Update e nonce f =
     (case ch_tstate (e_chain e) of None \<Rightarrow> Panic
      | Some s \<Rightarrow> (case State_Update s f of None \<Rightarrow> Ok e
        | Some w \<Rightarrow> Ok (handleWrite e (Identity_SignWrite (env_sha (e_env e)) (cr_ed_sign (e_cr e)) (e_idn e)
            (w\<lparr>w_Nonce := nonce, w_PK := idn_signPK (e_idn e)\<rparr>)))))"

text \<open>The engine as a transition system: messages read from the broadcast go to the buffer, the
  clock starts a round, any started handler runs, and the member itself updates the state.\<close>

inductive engine_step :: "('s, 'b) Engine \<Rightarrow> ('s, 'b) Engine \<Rightarrow> bool" where
  recv: "OOO_Handle (e_ooo e) msg = (orc, h) \<Longrightarrow> engine_step e (e\<lparr>e_ooo := orc, e_started := e_started e @ h\<rparr>)"
| round: "handleRound cf e nr ts = Some (Ok e') \<Longrightarrow> engine_step e e'"
| handle: "msg \<in> set (e_started e) \<Longrightarrow>
    Engine_Handle cf (e\<lparr>e_started := remove1 msg (e_started e)\<rparr>) msg = Some (Ok e') \<Longrightarrow> engine_step e e'"
| update: "Engine_Update e nonce f = Ok e' \<Longrightarrow> engine_step e e'"

section \<open>Lemmas on the buffer\<close>

datatype ooo_event = EvMsg Msg | EvBlock ID | EvRound u64

definition ooo_event_step :: "OutOfOrder \<times> Msg list \<Rightarrow> ooo_event \<Rightarrow> OutOfOrder \<times> Msg list" where
  "ooo_event_step = (\<lambda>(orc, h) ev. case ev of
     EvMsg msg \<Rightarrow> (let (o1, h1) = OOO_Handle orc msg in (o1, h @ h1))
   | EvBlock bid \<Rightarrow> (let (o1, h1) = OOO_Resolve orc bid in (o1, h @ h1))
   | EvRound nr \<Rightarrow> (let (o1, ids, h1) = OOO_ResolveRound orc nr in (o1, h @ h1)))"

definition ooo_run :: "ooo_event list \<Rightarrow> OutOfOrder \<times> Msg list" where
  "ooo_run evs = foldl ooo_event_step (NewOutOfOrder, []) evs"

definition received :: "ooo_event list \<Rightarrow> Msg list" where
  "received evs = List.map_filter (\<lambda>ev. case ev of EvMsg m \<Rightarrow> Some m | _ \<Rightarrow> None) evs"

abbreviation (input) bdep :: "Msg \<Rightarrow> ID" where
  "bdep m \<equiv> fst (Msg_Dependency m)"

abbreviation (input) rdep :: "Msg \<Rightarrow> u64" where
  "rdep m \<equiv> snd (Msg_Dependency m)"

text \<open>Slots: a key is unknown, resolved (an empty list) or holds one waiting message.\<close>

definition slots_ok :: "'k \<Rightarrow> ('k \<Rightarrow> bool) \<Rightarrow> (Msg \<Rightarrow> 'k) \<Rightarrow> ('k \<times> Msg list) list \<Rightarrow> bool" where
  "slots_ok nul known dep m \<longleftrightarrow>
     (\<forall>k ms. map_of m k = Some ms \<longrightarrow> ms = [] \<and> known k \<or> (\<exists>x. ms = [x] \<and> dep x = k \<and> k \<noteq> nul))"

definition waits :: "OutOfOrder \<Rightarrow> Msg \<Rightarrow> nat" where
  "waits orc m = (if (bdep m \<noteq> NilID \<and> map_of (onBlocks orc) (bdep m) = Some [m]) \<or>
     (rdep m \<noteq> 0 \<and> map_of (onRounds orc) (rdep m) = Some [m]) then 1 else 0)"

definition ready :: "(ID \<Rightarrow> bool) \<Rightarrow> (u64 \<Rightarrow> bool) \<Rightarrow> Msg \<Rightarrow> bool" where
  "ready bk rk m \<longleftrightarrow> (bdep m = NilID \<or> bk (bdep m)) \<and> (rdep m = 0 \<or> rk (rdep m))"

lemma slotsD: "slots_ok nul known dep m \<Longrightarrow> map_of m k = Some ms \<Longrightarrow> ms = [] \<and> known k \<or> (\<exists>x. ms = [x] \<and> dep x = k \<and> k \<noteq> nul)"
  unfolding slots_ok_def by blast

lemma slots_update:
  "slots_ok nul known dep m \<Longrightarrow> ms = [] \<and> known k \<or> (\<exists>x. ms = [x] \<and> dep x = k \<and> k \<noteq> nul) \<Longrightarrow>
   slots_ok nul known dep (AList.update k ms m)"
  unfolding slots_ok_def update_conv fun_upd_apply by (simp split: if_splits)

lemma slots_depend:
  assumes "slots_ok nul known dep m" "dep x = k" "k \<noteq> nul" "depend k x m = (r, m')"
  shows "slots_ok nul known dep m'" "r \<Longrightarrow> known k \<and> m' = m \<and> map_of m k = Some []"
    "map_of m' y = Some [z] \<Longrightarrow> map_of m y = Some [z] \<or> z = x"
proof -
  have "slots_ok nul known dep m' \<and> (r \<longrightarrow> known k \<and> m' = m \<and> map_of m k = Some []) \<and>
    (map_of m' y = Some [z] \<longrightarrow> map_of m y = Some [z] \<or> z = x)"
  proof (cases "map_of m k")
    case None
    then show ?thesis using assms slots_update [OF assms(1), of "[x]" k] by (auto simp: depend_def update_conv split: if_splits)
  next
    case (Some ms)
    then show ?thesis using assms slotsD [OF assms(1) Some] by (auto simp: depend_def)
  qed
  then show "slots_ok nul known dep m'" "r \<Longrightarrow> known k \<and> m' = m \<and> map_of m k = Some []"
    "map_of m' y = Some [z] \<Longrightarrow> map_of m y = Some [z] \<or> z = x" by blast+
qed

lemma slots_mono: "slots_ok nul known dep m \<Longrightarrow> (\<And>k. known k \<Longrightarrow> known' k) \<Longrightarrow> slots_ok nul known' dep m"
  unfolding slots_ok_def by blast

definition buf_ok :: "(ID \<Rightarrow> bool) \<Rightarrow> (u64 \<Rightarrow> bool) \<Rightarrow> OutOfOrder \<Rightarrow> bool" where
  "buf_ok bk rk orc \<longleftrightarrow> slots_ok NilID bk (\<lambda>m. bdep m) (onBlocks orc) \<and> slots_ok 0 rk (\<lambda>m. rdep m) (onRounds orc)"

lemma Handle_buf:
  assumes "buf_ok bk rk orc" "OOO_Handle orc x = (o1, h)"
  shows "buf_ok bk rk o1 \<and> (h = [] \<or> h = [x] \<and> ready bk rk x) \<and>
    count_list h m + waits o1 m \<le> (if m = x then 1 else waits orc m)"
proof -
  let ?b = "if bdep x \<noteq> NilID then depend (bdep x) x (onBlocks orc) else (True, onBlocks orc)"
  let ?r = "if rdep x > 0 then depend (rdep x) x (onRounds orc) else (True, onRounds orc)"
  obtain br bs where br: "?b = (br, bs)" by (cases ?b)
  obtain rr rs where rr: "?r = (rr, rs)" by (cases ?r)
  have o1: "o1 = \<lparr>onBlocks = bs, onRounds = rs\<rparr>" and h: "h = (if rr \<and> br then [x] else [])"
    using assms(2) br rr by (auto simp: OOO_Handle_def split_beta Let_def)
  have sb: "slots_ok NilID bk (\<lambda>m. bdep m) bs" "br \<Longrightarrow> bdep x = NilID \<or> bk (bdep x) \<and> map_of bs (bdep x) = Some []"
    "\<And>y z. map_of bs y = Some [z] \<Longrightarrow> map_of (onBlocks orc) y = Some [z] \<or> z = x"
    using assms(1) br slots_depend [of NilID bk "\<lambda>m. bdep m" "onBlocks orc" x "bdep x" br bs]
    unfolding buf_ok_def by (auto split: if_splits)
  have sr: "slots_ok 0 rk (\<lambda>m. rdep m) rs" "rr \<Longrightarrow> rdep x = 0 \<or> rk (rdep x) \<and> map_of rs (rdep x) = Some []"
    "\<And>y z. map_of rs y = Some [z] \<Longrightarrow> map_of (onRounds orc) y = Some [z] \<or> z = x"
    using assms(1) rr slots_depend [of 0 rk "\<lambda>m. rdep m" "onRounds orc" x "rdep x" rr rs]
    unfolding buf_ok_def by (auto simp: word_gt_0 split: if_splits)
  have wx: "h = [x] \<Longrightarrow> waits o1 x = 0" using sb(2) sr(2) h o1 by (auto simp: waits_def split: if_splits)
  have wm: "m \<noteq> x \<Longrightarrow> waits o1 m \<le> waits orc m" using sb(3) sr(3) o1 by (auto simp: waits_def)
  have w1: "waits o1 m \<le> 1" by (simp add: waits_def)
  show ?thesis
  proof (intro conjI)
    show "buf_ok bk rk o1" using sb(1) sr(1) o1 by (simp add: buf_ok_def)
    show "h = [] \<or> h = [x] \<and> ready bk rk x" using h sb(2) sr(2) unfolding ready_def by (cases "rr \<and> br") auto
    show "count_list h m + waits o1 m \<le> (if m = x then 1 else waits orc m)"
      using h wx wm w1 by (cases "m = x"; cases "rr \<and> br") auto
  qed
qed

lemma Resolve_buf:
  assumes "buf_ok bk rk orc" "OOO_Resolve orc i = (o1, h)"
  shows "buf_ok (\<lambda>k. k = i \<or> bk k) rk o1 \<and> (\<forall>m \<in> set h. ready (\<lambda>k. k = i \<or> bk k) rk m) \<and>
    count_list h m + waits o1 m \<le> waits orc m"
proof -
  let ?bk = "\<lambda>k. k = i \<or> bk k"
  define o0 where "o0 = orc\<lparr>onBlocks := AList.update i [] (onBlocks orc)\<rparr>"
  have b0: "buf_ok ?bk rk o0"
    using assms(1) slots_mono [of NilID bk _ _ ?bk] slots_update [of NilID ?bk _ "onBlocks orc" "[]" i]
    by (auto simp: buf_ok_def o0_def)
  have w0: "waits o0 m \<le> waits orc m" by (auto simp: waits_def o0_def update_conv)
  show ?thesis
  proof (cases "map_of (onBlocks orc) i")
    case None
    then show ?thesis using assms(2) b0 w0 by (simp add: OOO_Resolve_def o0_def [symmetric] Let_def)
  next
    case (Some ms)
    from slotsD [OF assms(1) [unfolded buf_ok_def, THEN conjunct1] Some] show ?thesis
    proof (elim disjE exE conjE)
      assume "ms = []"
      then show ?thesis using Some assms(2) b0 w0 by (simp add: OOO_Resolve_def o0_def [symmetric] Let_def)
    next
      fix x assume x: "ms = [x]" "bdep x = i" "i \<noteq> NilID"
      then have "OOO_Handle o0 x = (o1, h)"
        using Some assms(2) by (simp add: OOO_Resolve_def o0_def [symmetric] Let_def split_beta)
      from Handle_buf [OF b0 this, of m] w0 show ?thesis
        using x Some by (auto simp: waits_def [of orc] split: if_splits)
    qed
  qed
qed

lemma ResolveRound_buf:
  assumes "buf_ok bk rk orc" "OOO_ResolveRound orc i = (o1, ids, h)"
  shows "buf_ok bk (\<lambda>k. k = i \<or> rk k) o1 \<and> (\<forall>m \<in> set h. ready bk (\<lambda>k. k = i \<or> rk k) m) \<and>
    count_list h m + waits o1 m \<le> waits orc m"
proof -
  let ?rk = "\<lambda>k. k = i \<or> rk k"
  define o0 where "o0 = orc\<lparr>onRounds := AList.update i [] (onRounds orc)\<rparr>"
  have b0: "buf_ok bk ?rk o0"
    using assms(1) slots_mono [of 0 rk _ _ ?rk] slots_update [of 0 ?rk _ "onRounds orc" "[]" i]
    by (auto simp: buf_ok_def o0_def)
  have w0: "waits o0 m \<le> waits orc m" by (auto simp: waits_def o0_def update_conv)
  show ?thesis
  proof (cases "map_of (onRounds orc) i")
    case None
    then show ?thesis using assms(2) b0 w0 by (simp add: OOO_ResolveRound_def o0_def [symmetric] Let_def)
  next
    case (Some ms)
    from slotsD [OF assms(1) [unfolded buf_ok_def, THEN conjunct2] Some] show ?thesis
    proof (elim disjE exE conjE)
      assume "ms = []"
      then show ?thesis using Some assms(2) b0 w0 by (simp add: OOO_ResolveRound_def o0_def [symmetric] Let_def)
    next
      fix x assume x: "ms = [x]" "rdep x = i" "i \<noteq> 0"
      then have "OOO_Handle o0 x = (o1, h)"
        using Some assms(2) by (auto simp: OOO_ResolveRound_def o0_def [symmetric] Let_def split_beta)
      from Handle_buf [OF b0 this, of m] w0 show ?thesis
        using x Some by (auto simp: waits_def [of orc] split: if_splits)
    qed
  qed
qed

lemma received_simps [simp]:
  "received (evs @ [EvMsg m]) = received evs @ [m]" "received (evs @ [EvBlock b]) = received evs"
  "received (evs @ [EvRound r]) = received evs" "received [] = []"
  by (simp_all add: received_def List.map_filter_def)

lemma ready_mono: "ready bk rk m \<Longrightarrow> (\<And>k. bk k \<Longrightarrow> bk' k) \<Longrightarrow> (\<And>k. rk k \<Longrightarrow> rk' k) \<Longrightarrow> ready bk' rk' m"
  unfolding ready_def by blast

lemma ooo_run_inv:
  "ooo_run evs = (orc, h) \<Longrightarrow>
   buf_ok (\<lambda>k. EvBlock k \<in> set evs) (\<lambda>k. EvRound k \<in> set evs) orc \<and>
   (\<forall>m \<in> set h. ready (\<lambda>k. EvBlock k \<in> set evs) (\<lambda>k. EvRound k \<in> set evs) m) \<and>
   (\<forall>m. count_list h m + waits orc m \<le> count_list (received evs) m)"
proof (induction evs arbitrary: orc h rule: rev_induct)
  case Nil
  then show ?case by (auto simp: ooo_run_def NewOutOfOrder_def buf_ok_def slots_ok_def waits_def)
next
  case (snoc ev evs)
  obtain o0 h0 where r: "ooo_run evs = (o0, h0)" by (cases "ooo_run evs")
  note ih = snoc.IH [OF r]
  have st: "ooo_event_step (o0, h0) ev = (orc, h)" using snoc.prems r by (simp add: ooo_run_def)
  show ?case
  proof (cases ev)
    case (EvMsg x)
    then obtain h1 where h1: "OOO_Handle o0 x = (orc, h1)" "h = h0 @ h1"
      using st by (auto simp: ooo_event_step_def split: prod.splits)
    have hb: "buf_ok (\<lambda>k. EvBlock k \<in> set evs) (\<lambda>k. EvRound k \<in> set evs) orc"
      "h1 = [] \<or> h1 = [x] \<and> ready (\<lambda>k. EvBlock k \<in> set evs) (\<lambda>k. EvRound k \<in> set evs) x"
      "\<And>m. count_list h1 m + waits orc m \<le> (if m = x then 1 else waits o0 m)"
      using Handle_buf [OF ih [THEN conjunct1] h1(1)] by blast+
    have "count_list h m + waits orc m \<le> count_list (received (evs @ [ev])) m" for m
    proof -
      have "count_list h0 m + waits o0 m \<le> count_list (received evs) m" using ih by blast
      with hb(3) [of m] show ?thesis using EvMsg h1(2) by (simp split: if_splits)
    qed
    with ih hb(1,2) show ?thesis using EvMsg h1(2) by auto
  next
    case (EvBlock i)
    then obtain h1 where h1: "OOO_Resolve o0 i = (orc, h1)" "h = h0 @ h1"
      using st by (auto simp: ooo_event_step_def split: prod.splits)
    have eq: "(\<lambda>k. EvBlock k \<in> set (evs @ [ev])) = (\<lambda>k. k = i \<or> EvBlock k \<in> set evs)"
      "(\<lambda>k. EvRound k \<in> set (evs @ [ev])) = (\<lambda>k. EvRound k \<in> set evs)" using EvBlock by auto
    note hb = Resolve_buf [OF ih [THEN conjunct1] h1(1)]
    have "count_list h m + waits orc m \<le> count_list (received (evs @ [ev])) m" for m
      using hb [of m] ih [THEN conjunct2, THEN conjunct2, rule_format, of m] EvBlock h1(2) by simp
    moreover have "ready (\<lambda>k. k = i \<or> EvBlock k \<in> set evs) (\<lambda>k. EvRound k \<in> set evs) m" if "m \<in> set h" for m
      using that h1(2) hb [of m] ih by (auto intro: ready_mono)
    ultimately show ?thesis unfolding eq using hb by blast
  next
    case (EvRound i)
    then obtain h1 ids where h1: "OOO_ResolveRound o0 i = (orc, ids, h1)" "h = h0 @ h1"
      using st by (auto simp: ooo_event_step_def split: prod.splits)
    have eq: "(\<lambda>k. EvBlock k \<in> set (evs @ [ev])) = (\<lambda>k. EvBlock k \<in> set evs)"
      "(\<lambda>k. EvRound k \<in> set (evs @ [ev])) = (\<lambda>k. k = i \<or> EvRound k \<in> set evs)" using EvRound by auto
    note hb = ResolveRound_buf [OF ih [THEN conjunct1] h1(1)]
    have "count_list h m + waits orc m \<le> count_list (received (evs @ [ev])) m" for m
      using hb [of m] ih [THEN conjunct2, THEN conjunct2, rule_format, of m] EvRound h1(2) by simp
    moreover have "ready (\<lambda>k. EvBlock k \<in> set evs) (\<lambda>k. k = i \<or> EvRound k \<in> set evs) m" if "m \<in> set h" for m
      using that h1(2) hb [of m] ih by (auto intro: ready_mono)
    ultimately show ?thesis unfolding eq using hb by blast
  qed
qed

section \<open>Lemmas on the pool\<close>

definition pool_ok :: "MemPool \<Rightarrow> bool" where
  "pool_ok p \<longleftrightarrow> distinct (map fst p) \<and> (\<forall>x \<in> set p. w_Nonce (snd x) = fst x)"

lemma update_new: "k \<notin> fst ` set al \<Longrightarrow> AList.update k v al = al @ [(k, v)]"
  by (induction al) auto

lemma pool_Add: "pool_ok p \<Longrightarrow> MemPool_Add sha edv p w = Ok p' \<Longrightarrow> pool_ok p'"
  by (auto simp: pool_ok_def MemPool_Add_def map_of_eq_None_iff update_new split: if_splits)

text \<open>A dry run on one state predicts a real run on any state with the same oracle: the write as
  the dry run leaves it is accepted, and the real run does not change it any more.\<close>

lemma dry_predicts:
  assumes "State_Apply rx s (Some w) True = (None, ow, s1)" "db_oracle (st_db s) = db_oracle (st_db r)"
    "w_Nonce w \<notin> st_writes r"
  obtains w1 r1 where "ow = Some w1" "w_Nonce w1 = w_Nonce w"
    "State_Apply rx r (Some w1) False = (None, Some w1, r1)" "db_oracle (st_db s1) = db_oracle (st_db r1)"
    "st_writes r1 = insert (w_Nonce w) (st_writes r)" "st_writes s1 = st_writes s"
    "oracle_time (db_oracle (st_db s1)) \<in> {oracle_time (db_oracle (st_db s)), oracle_time (db_oracle (st_db s)) + 1}"
  using assms
  by (auto simp: State_Apply_def DB_Commit_def DB_commitReq_def Oracle_Commit_def Let_def
      split: if_splits prod.splits option.splits ssi_error.splits)

lemma dry_refused:
  assumes "State_Apply rx s (Some w) True = (Some e, ow, s1)" "oracle_time (db_oracle (st_db s)) \<noteq> - 1"
  shows "db_oracle (st_db s1) = db_oracle (st_db s) \<and> st_writes s1 = st_writes s"
proof -
  have "oracle_time (db_oracle (st_db s)) + 1 \<noteq> 0" using assms(2) by (metis add.commute add_eq_0_iff)
  then show ?thesis using assms(1)
  by (auto simp: State_Apply_def DB_Commit_def DB_commitReq_def Oracle_Commit_def Let_def
      split: if_splits prod.splits option.splits ssi_error.splits)
qed

lemma unat_max_u64: "unat (- 1 :: u64) = 2 ^ 64 - 1"
  by (simp add: unsigned_minus_1_eq_mask mask_eq_exp_minus_1)

lemma pick_applies_from:
  assumes "MemPool_Pick rx s (pick_visitor maxw) p b0 = (p', s', b)" "db_oracle (st_db s) = db_oracle (st_db r)"
    "pool_ok p" "\<forall>n \<in> fst ` set p. n \<in> st_writes r \<longrightarrow> n \<in> st_writes s"
    "unat (oracle_time (db_oracle (st_db s))) + length p < 2 ^ 64 - 1"
  shows "\<exists>ws. b = b0\<lparr>b_Writes := b_Writes b0 @ ws\<rparr> \<and>
    (\<forall>dep. (\<forall>w \<in> set ws. \<exists>d. (TotalDeposit w :: (onl_error, u64) res) = Ok d) \<longrightarrow> (\<exists>dep'. apply_block rx r ws dep = Ok (ws, dep'))) \<and>
    (length (b_Writes b0) < maxw \<longrightarrow> length (b_Writes b) \<le> maxw)"
  using assms
proof (induction p arbitrary: s r b0 p' s' b)
  case (Cons x p)
  obtain n w where x: "x = (n, w)" by (cases x)
  obtain e ow s1 where ap: "State_Apply rx s (Some w) True = (e, ow, s1)" by (cases "State_Apply rx s (Some w) True")
  let ?t = "oracle_time (db_oracle (st_db s))"
  have po: "pool_ok p" "n \<notin> fst ` set p" "w_Nonce w = n" using Cons.prems(3) x by (auto simp: pool_ok_def)
  have t1: "?t \<noteq> - 1" using Cons.prems(5) by (auto simp: unat_max_u64)
  show ?case
  proof (cases e)
    case (Some er)
    then have st: "db_oracle (st_db s1) = db_oracle (st_db s)" "st_writes s1 = st_writes s"
      using dry_refused ap t1 by blast+
    obtain p2 s2 where "MemPool_Pick rx s1 (pick_visitor maxw) p b0 = (p2, s2, b)"
      using Cons.prems(1) x ap Some by (auto simp: Let_def split: prod.splits)
    from Cons.IH [OF this, of r] show ?thesis using Cons.prems po st by auto
  next
    case None
    have nr: "w_Nonce w \<notin> st_writes r"
      using State_Apply_ok [OF ap [unfolded None]] Cons.prems(4) x po(3) by auto
    obtain w1 r1 where w1: "ow = Some w1" "w_Nonce w1 = n"
      "State_Apply rx r (Some w1) False = (None, Some w1, r1)" "db_oracle (st_db s1) = db_oracle (st_db r1)"
      "st_writes r1 = insert n (st_writes r)" "st_writes s1 = st_writes s"
      "oracle_time (db_oracle (st_db s1)) \<in> {?t, ?t + 1}"
      using dry_predicts [OF ap [unfolded None] Cons.prems(2) nr] po(3) by metis
    define b1 where "b1 = b0\<lparr>b_Writes := b_Writes b0 @ [w1]\<rparr>"
    have f: "pick_visitor maxw w1 b0 = (maxw \<le> length (b_Writes b1), b1)" by (simp add: pick_visitor_def b1_def)
    show ?thesis
    proof (cases "maxw \<le> length (b_Writes b1)")
      case True
      then have "b = b1" using Cons.prems(1) x ap None w1(1) f by (auto simp: Let_def split: prod.splits)
      then show ?thesis using w1(3) b1_def by (intro exI [of _ "[w1]"]) auto
    next
      case False
      then obtain p2 s2 where pk: "MemPool_Pick rx s1 (pick_visitor maxw) p b1 = (p2, s2, b)"
        using Cons.prems(1) x ap None w1(1) f by (auto simp: Let_def split: prod.splits)
      have "unat (oracle_time (db_oracle (st_db s1))) \<le> unat ?t + 1" using w1(7) unat_Suc_u64 [OF t1] by auto
      then have bd: "unat (oracle_time (db_oracle (st_db s1))) + length p < 2 ^ 64 - 1" using Cons.prems(5) by simp
      have fresh: "\<forall>k \<in> fst ` set p. k \<in> st_writes r1 \<longrightarrow> k \<in> st_writes s1"
        using Cons.prems(4) po(2) w1(5,6) by auto
      from Cons.IH [OF pk w1(4) po(1) fresh bd] obtain ws where ws: "b = b1\<lparr>b_Writes := b_Writes b1 @ ws\<rparr>"
        "\<And>dep. \<forall>w \<in> set ws. \<exists>d. (TotalDeposit w :: (onl_error, u64) res) = Ok d \<Longrightarrow> \<exists>dep'. apply_block rx r1 ws dep = Ok (ws, dep')"
        "length (b_Writes b1) < maxw \<longrightarrow> length (b_Writes b) \<le> maxw" by blast
      show ?thesis
      proof (intro exI [of _ "w1 # ws"] conjI allI impI)
        show "b = b0\<lparr>b_Writes := b_Writes b0 @ w1 # ws\<rparr>" using ws(1) b1_def by simp
        fix dep assume td: "\<forall>w \<in> set (w1 # ws). \<exists>d. (TotalDeposit w :: (onl_error, u64) res) = Ok d"
        then obtain d where d: "(TotalDeposit w1 :: (onl_error, u64) res) = Ok d" by auto
        obtain dep' where "apply_block rx r1 ws (dep + d) = Ok (ws, dep')" using ws(2) td by force
        then show "\<exists>dep'. apply_block rx r (w1 # ws) dep = Ok (w1 # ws, dep')" using w1(3) d by simp
      qed (use ws(3) False in simp)
    qed
  qed
qed (auto intro: exI [of _ "[]"])

lemma pick_pool: "pool_ok p \<Longrightarrow> MemPool_Pick rx s f p a = (p', s', a') \<Longrightarrow> pool_ok p' \<and> map fst p' = map fst p"
proof (induction p arbitrary: s a p' s' a')
  case (Cons x p)
  obtain n w where x: "x = (n, w)" by (cases x)
  obtain e ow s1 where ap: "State_Apply rx s (Some w) True = (e, ow, s1)" by (cases "State_Apply rx s (Some w) True")
  have nw: "w_Nonce (the ow) = w_Nonce w"
    using ap by (auto simp: State_Apply_def Let_def split: if_splits prod.splits option.splits ssi_error.splits)
  have po: "pool_ok p" "n \<notin> fst ` set p" "w_Nonce w = n" using Cons.prems(1) x by (auto simp: pool_ok_def)
  obtain q where q: "p' = (n, the ow) # q" "q = p \<or> (\<exists>b r c. MemPool_Pick rx s1 f p b = (q, r, c))"
    using Cons.prems(2) x ap by (auto simp: Let_def split: if_splits prod.splits)
  then have "pool_ok q \<and> map fst q = map fst p" using Cons.IH [OF po(1)] po(1) by blast
  moreover from this have "fst ` set q = fst ` set p" by (metis set_map)
  ultimately show ?case using q(1) x nw po by (auto simp: pool_ok_def)
qed simp

section \<open>The invariant of the engine\<close>

definition engine_ok :: "ID \<Rightarrow> ('s, 'b) Engine \<Rightarrow> bool" where
  "engine_ok gen e \<longleftrightarrow> ch_genesis (e_chain e) = gen \<and> chain_ok gen (e_store e) \<and> pool_ok (e_pool e)"

definition keeps_blocks :: "'b BadgerTx \<Rightarrow> 'b BadgerTx \<Rightarrow> bool" where
  "keeps_blocks t t' \<longleftrightarrow> (\<forall>i. BadgerTx_entries t i \<noteq> None \<longrightarrow> BadgerTx_entries t' i \<noteq> None)"

lemma keeps_blocks_refl [simp]: "keeps_blocks t t"
  by (simp add: keeps_blocks_def)

lemma keeps_blocks_trans: "keeps_blocks t1 t2 \<Longrightarrow> keeps_blocks t2 t3 \<Longrightarrow> keeps_blocks t1 t3"
  unfolding keeps_blocks_def by blast

lemma blocks_of_keeps:
  assumes "blocks_of BadgerTx_entries t' = (blocks_of BadgerTx_entries t)(i \<mapsto> b)"
  shows "keeps_blocks t t'"
  unfolding keeps_blocks_def
proof (intro allI impI)
  fix j assume "BadgerTx_entries t j \<noteq> None"
  then show "BadgerTx_entries t' j \<noteq> None"
    using fun_cong [OF assms, of j] by (auto simp: blocks_of_def split: if_splits)
qed

lemma append_loop_ok:
  "engine_ok gen e \<Longrightarrow> append_loop n cf e b = Some (e', r) \<Longrightarrow> engine_ok gen e' \<and> keeps_blocks (e_store e) (e_store e')"
proof (induction n arbitrary: cf e b)
  case (Suc n)
  let ?A = "Chain_Append (e_env e) badger_ops (cf \<noteq> [] \<and> hd cf) (e_chain e) (e_store e) b"
  obtain c1 r1 where a: "?A = Some (c1, r1)" using Suc.prems(2) by (auto simp: Let_def split: option.splits)
  have g: "ch_genesis c1 = gen" using Chain_Append_genesis [OF a] Suc.prems(1) by (simp add: engine_ok_def)
  show ?case
  proof (cases r1)
    case (Ok t')
    have ck: "chain_ok (ch_genesis (e_chain e)) (e_store e)" using Suc.prems(1) by (simp add: engine_ok_def)
    have "chain_ok gen t' \<and> keeps_blocks (e_store e) t'"
      by (rule badger_Append_Ok [OF ck a [unfolded Ok]]) (use g in \<open>auto dest: blocks_of_keeps\<close>)
    then show ?thesis using Suc.prems a Ok g by (auto simp: engine_ok_def Let_def)
  next
    case (Err er)
    let ?e = "e\<lparr>e_chain := c1\<rparr>"
    have ok: "engine_ok gen ?e" using Suc.prems(1) g by (simp add: engine_ok_def)
    show ?thesis
    proof (cases "er = ErrAppendConflict")
      case True
      then show ?thesis using Suc.IH [OF ok] Suc.prems(2) a Err by (simp add: Let_def)
    qed (use Suc.prems(2) a Err ok in \<open>auto simp: Let_def\<close>)
  next
    case Panic
    then show ?thesis using Suc.prems a g by (auto simp: engine_ok_def Let_def)
  qed
qed simp

lemma send_resolve_ok [simp]:
  "engine_ok gen (Engine_send m e) \<longleftrightarrow> engine_ok gen e" "e_store (Engine_send m e) = e_store e"
  "engine_ok gen (Engine_resolve i e) \<longleftrightarrow> engine_ok gen e" "e_store (Engine_resolve i e) = e_store e"
  "e_sent (Engine_resolve i e) = e_sent e" "e_sent (Engine_send m e) = e_sent e @ [m]"
  by (simp_all add: engine_ok_def Engine_send_def Engine_resolve_def split_beta Let_def)

lemma handleBlock_ok:
  "engine_ok gen e \<Longrightarrow> handleBlock cf e b = Some (Ok e') \<Longrightarrow> engine_ok gen e' \<and> keeps_blocks (e_store e) (e_store e')"
proof -
  assume ok: "engine_ok gen e" and h: "handleBlock cf e b = Some (Ok e')"
  then obtain e1 r where l: "append_loop 5 cf e b = Some (e1, r)" by (auto simp: handleBlock_def split: option.splits)
  with h have "e' = e1 \<or> (\<exists>m i. e' = Engine_send m (Engine_resolve i e1))"
    unfolding handleBlock_def by (cases r) auto
  with append_loop_ok [OF ok l] show ?thesis by auto
qed

lemma handleWrite_ok: "engine_ok gen e \<Longrightarrow> engine_ok gen (handleWrite e w) \<and> e_store (handleWrite e w) = e_store e"
  by (auto simp: handleWrite_def engine_ok_def Engine_send_def split: res.splits dest: pool_Add)

lemma handleRound_ok:
  assumes "engine_ok gen e" "handleRound cf e nr ts = Some (Ok e')"
  shows "engine_ok gen e' \<and> keeps_blocks (e_store e) (e_store e')"
proof -
  obtain orc ids h where rr: "OOO_ResolveRound (e_ooo e) nr = (orc, ids, h)" by (cases "OOO_ResolveRound (e_ooo e) nr")
  define e1 where "e1 = Engine_send (SyncMsg ids) (e\<lparr>e_ooo := orc, e_started := e_started e @ h\<rparr>)"
  have ok1: "engine_ok gen e1" "e_store e1 = e_store e" "pool_ok (e_pool e1)"
    using assms(1) by (simp_all add: e1_def engine_ok_def Engine_send_def)
  from assms(2) consider "e' = e1"
    | tip s p b where "propose e1 nr ts tip s = Some (p, b)" "handleBlock cf (e1\<lparr>e_pool := p\<rparr>) b = Some (Ok e')"
    by (auto simp: handleRound_def rr e1_def [symmetric] Let_def split: option.splits res.splits prod.splits)
  then show ?thesis
  proof cases
    case 2
    have "pool_ok p" using 2(1)
      by (auto simp: propose_def Let_def split: if_splits prod.splits dest!: pick_pool [OF ok1(3)])
    then have "engine_ok gen (e1\<lparr>e_pool := p\<rparr>)" using ok1(1) by (simp add: engine_ok_def)
    from handleBlock_ok [OF this 2(2)] show ?thesis using ok1(2) by simp
  qed (use ok1 in simp)
qed

lemma engine_step_ok:
  assumes "engine_step e e'" "engine_ok gen e"
  shows "engine_ok gen e' \<and> keeps_blocks (e_store e) (e_store e')"
  using assms
proof (induction rule: engine_step.induct)
  case (handle msg e cf e')
  let ?e = "e\<lparr>e_started := remove1 msg (e_started e)\<rparr>"
  have "engine_ok gen ?e" using handle.prems by (simp add: engine_ok_def)
  moreover have "engine_ok gen (handleSync ?e ids)" for ids using handle.prems by (simp add: engine_ok_def handleSync_def)
  moreover have "e_store (handleSync ?e ids) = e_store e" for ids by (simp add: handleSync_def)
  ultimately show ?case using handle.hyps(2) handleWrite_ok [of gen ?e] handleBlock_ok [of gen ?e]
    unfolding Engine_Handle_def by (auto split: option.splits)
next
  case (update e nonce f e')
  then show ?case using handleWrite_ok [of gen e] unfolding Engine_Update_def by (auto split: option.splits)
next
  case (round cf e nr ts e')
  then show ?case using handleRound_ok by blast
qed (simp add: engine_ok_def)

section \<open>Properties\<close>

definition ex_engine :: "(bytes \<rightharpoonup> bytes, (bytes \<times> bytes) list) Engine" where
  "ex_engine = New_Engine ex_env \<lparr>cr_ed_sign = (\<lambda>_ _. []), cr_vrf_prove = (\<lambda>_ _. ([1], []))\<rparr>
     \<lparr>idn_vrfSK = [], idn_signPK = ex_pk 3, idn_signSK = []\<rparr> ex_chain ex_store"

lemma ex_engine_ok: "engine_ok ex_gid ex_engine"
  by (simp add: ex_engine_def New_Engine_def) (simp add: engine_ok_def ex_store_ok pool_ok_def NewMemPool_def)

lemma ex_engine_simps [simp]: "e_env ex_engine = ex_env" "e_store ex_engine = ex_store" "e_chain ex_engine = ex_chain"
  by (simp_all add: ex_engine_def New_Engine_def Engine_resolve_def split_beta Let_def)

text \<open>C8. Whatever messages arrive and however the started handlers and rounds interleave, the
  engine keeps its store linked to the genesis, loses no block that was stored, and keeps the
  pool keyed by the nonces of its writes.\<close>

theorem engine_invariant:
  assumes "chain_ok (ch_genesis c) t" "engine_step\<^sup>*\<^sup>* (New_Engine env cr idn c t) e"
  shows "chain_ok (ch_genesis c) (e_store e) \<and> ch_genesis (e_chain e) = ch_genesis c \<and>
    keeps_blocks t (e_store e) \<and> pool_ok (e_pool e)"
proof -
  let ?e0 = "New_Engine env cr idn c t"
  have "engine_ok (ch_genesis c) ?e0" "e_store ?e0 = t"
    using assms(1) by (simp_all add: New_Engine_def) (simp add: engine_ok_def pool_ok_def NewMemPool_def)
  with assms(2) have "engine_ok (ch_genesis c) e \<and> keeps_blocks t (e_store e)"
    by (induction rule: rtranclp_induct) (auto dest: engine_step_ok intro: keeps_blocks_trans)
  then show ?thesis by (simp add: engine_ok_def)
qed

theorem engine_invariant_witness:
  "\<exists>e. engine_step\<^sup>*\<^sup>* ex_engine e \<and> chain_ok ex_gid (e_store e) \<and> pool_ok (e_pool e)"
proof -
  obtain orc h where "OOO_Handle (e_ooo ex_engine) (BlockMsg ex_block) = (orc, h)" by fastforce
  then have s: "engine_step\<^sup>*\<^sup>* ex_engine (ex_engine\<lparr>e_ooo := orc, e_started := e_started ex_engine @ h\<rparr>)"
    by (intro r_into_rtranclp engine_step.recv)
  have "chain_ok (ch_genesis ex_chain) ex_store" by (simp add: ex_store_ok)
  from engine_invariant [OF this s [unfolded ex_engine_def]] s show ?thesis by (auto simp: ex_engine_def [symmetric])
qed



text \<open>The buffer keeps one waiting message per block and per round. The first message waiting
  for a block and a round is handled once both are resolved, in either order; a second message
  waiting for the same block and the same round is dropped.\<close>

theorem buffer_one_waiter:
  assumes "Msg_Dependency m = (i, r)" "i \<noteq> NilID" "r \<noteq> 0"
  shows "(map_of (onBlocks orc) i = None \<and> map_of (onRounds orc) r = None \<longrightarrow>
      (\<exists>o1. OOO_Handle orc m = (o1, []) \<and>
        snd (OOO_Resolve o1 i) = [] \<and> snd (snd (OOO_ResolveRound (fst (OOO_Resolve o1 i)) r)) = [m] \<and>
        snd (snd (OOO_ResolveRound o1 r)) = [] \<and> snd (OOO_Resolve (fst (OOO_ResolveRound o1 r)) i) = [m])) \<and>
    (map_of (onBlocks orc) i = Some (x # xs) \<and> map_of (onRounds orc) r = Some (y # ys) \<longrightarrow>
      OOO_Handle orc m = (orc, []))"
  using assms
  by (auto simp: OOO_Handle_def OOO_Resolve_def OOO_ResolveRound_def depend_def update_conv word_gt_0 Let_def)

theorem buffer_one_waiter_witness:
  "let m = BlockMsg ex_block; m' = BlockMsg (ex_block\<lparr>b_Timestamp := 9\<rparr>); o1 = fst (OOO_Handle NewOutOfOrder m)
   in snd (snd (OOO_ResolveRound (fst (OOO_Resolve o1 ex_gid)) 1)) = [m] \<and> OOO_Handle o1 m' = (o1, [])"
proof -
  let ?m = "BlockMsg ex_block" and ?m' = "BlockMsg (ex_block\<lparr>b_Timestamp := 9\<rparr>)"
  have d: "Msg_Dependency ?m = (ex_gid, 1)" "Msg_Dependency ?m' = (ex_gid, 1)" by (simp_all add: Msg_Dependency_def)
  let ?o1 = "fst (OOO_Handle NewOutOfOrder ?m)"
  have "map_of (onBlocks ?o1) ex_gid = Some [?m]" "map_of (onRounds ?o1) 1 = Some [?m]"
    using d by (simp_all add: OOO_Handle_def NewOutOfOrder_def depend_def Let_def)
  with buffer_one_waiter [OF d(2), of ?o1 "?m" "[]" "?m" "[]"] buffer_one_waiter [OF d(1), of NewOutOfOrder]
  show ?thesis by (auto simp: Let_def NewOutOfOrder_def)
qed


lemmas ex_pick_defs = State_Apply_def pick_visitor_def DB_Commit_def DB_commitReq_def Oracle_Commit_def NewDB_def NewOracle_def
  map_radix_def KeyChangeSet_KeySet_def


text \<open>When all five attempts to append end in a store conflict, \<open>handleBlock\<close> goes on as after a
  success: the block is resolved and relayed to the peers although it was never stored.\<close>

theorem conflict_relays_unstored:
  assumes "append_loop 5 (replicate 5 True) e b = Some (e1, Went b')"
  shows "\<exists>e2. handleBlock (replicate 5 True) e b = Some (Ok e2) \<and> e_store e2 = e_store e \<and>
    BlockMsg b' \<in> set (e_sent e2)"
proof -
  have store: "append_loop n (replicate n True) e b = Some (e1, Went b') \<Longrightarrow> e_store e1 = e_store e" for n
  proof (induction n arbitrary: e b)
    case (Suc n)
    obtain c1 r1 where a: "Chain_Append (e_env e) badger_ops True (e_chain e) (e_store e) b = Some (c1, r1)"
      using Suc.prems by (auto simp: Let_def split: option.splits)
    then have "\<nexists>t. r1 = Ok t"
      unfolding Chain_Append_def by (auto split: option.splits res.splits prod.splits)
    then obtain er where "r1 = Err er" using a Suc.prems by (cases r1) (auto simp: Let_def)
    then show ?case using a Suc.prems Suc.IH by (auto simp: Let_def split: if_splits)
  qed simp
  then show ?thesis using assms by (simp add: handleBlock_def)
qed

theorem conflict_relays_unstored_witness:
  "\<exists>e2. handleBlock (replicate 5 True) ex_engine ex_block = Some (Ok e2) \<and> e_store e2 = ex_store \<and>
     BlockMsg ex_block \<in> set (e_sent e2)"
proof -
  have same: "ex_like c \<Longrightarrow> appended_block ex_env ex_store c ex_block = ex_block" for c
    by (simp add: appended_block_def ex_append_check)
  have "\<exists>e1. append_loop n (replicate n True) e ex_block = Some (e1, Went ex_block)"
    if "ex_like (e_chain e)" "e_env e = ex_env" "e_store e = ex_store" for n and e :: "(_, (bytes \<times> bytes) list) Engine"
    using that
  proof (induction n arbitrary: e)
    case (Suc n)
    obtain c' where "ex_like c'" "Chain_Append ex_env badger_ops True (e_chain e) ex_store ex_block = Some (c', Err ErrAppendConflict)"
      using ex_append_like [OF Suc.prems(1), of True] by auto
    then show ?case using Suc.IH [of "e\<lparr>e_chain := c'\<rparr>"] Suc.prems same by (simp add: Let_def)
  qed simp
  then obtain e1 where "append_loop 5 (replicate 5 True) ex_engine ex_block = Some (e1, Went ex_block)" by force
  from conflict_relays_unstored [OF this] show ?thesis by simp
qed

end
