(* ===== verification/Wall.thy ===== *)
theory Wall
  imports Prelude
begin

text \<open>
  Currency transfers, unspent outputs, identities and blocks of package \<open>wall\<close>:
  \<^verbatim>\<open>src/exp/onl/wall/tr.go\<close>, \<^verbatim>\<open>utro.go\<close>, \<^verbatim>\<open>identity.go\<close>, \<^verbatim>\<open>params.go\<close> and \<^verbatim>\<open>block.go\<close>. SHA-256, the verifiable
  random function and the stake threshold of package \<open>thr\<close> (decimal arithmetic of a third-party
  package) are parameters, collected in the record \<open>wenv\<close>.

  The Go code clears signatures in place before it hashes and restores them only on success, so
  the verification functions also return the object as they leave it.
\<close>

section \<open>Parameters (params.go)\<close>

type_synonym OID = bytes
type_synonym TrID = bytes
type_synonym BID = bytes

record wenv =
  we_sha :: "bytes \<Rightarrow> bytes"
  we_verify :: "bytes \<Rightarrow> bytes \<Rightarrow> bytes \<Rightarrow> bytes \<Rightarrow> bool"
  we_prove :: "bytes \<Rightarrow> bytes \<Rightarrow> bytes \<times> bytes"
  we_thr :: "u64 \<Rightarrow> u64 \<Rightarrow> bytes \<Rightarrow> bool"
  we_sort :: "(BID \<times> bytes) list \<Rightarrow> (BID \<times> bytes) list"

text \<open>\<^verbatim>\<open>vrf.Prove\<close> and \<^verbatim>\<open>vrf.Verify\<close>: a proof made with a secret key verifies under its public key.\<close>

definition vrf_ok :: "wenv \<Rightarrow> bytes \<Rightarrow> bytes \<Rightarrow> bool" where
  "vrf_ok env pk sk \<longleftrightarrow> (\<forall>m. we_verify env pk m (fst (we_prove env m sk)) (snd (we_prove env m sk)))"

record Params =
  MaxDepositTTL :: u64
  GenesisTicket :: bytes
  WeightPoints :: u64

definition DefaultParams :: Params where
  "DefaultParams = \<lparr>MaxDepositTTL = 100, GenesisTicket =
     [0xd8, 0x81, 0xfe, 0x39, 0x87, 0xaa, 0xe6, 0xe4, 0x5e, 0x38, 0xfb, 0x7b, 0x26, 0x6a, 0x2f, 0xd0,
      0x0b, 0x35, 0x06, 0x01, 0x52, 0x89, 0x0d, 0x12, 0x32, 0x8b, 0xb0, 0xc0, 0xca, 0xe2, 0xb4, 0x01],
     WeightPoints = 100\<rparr>"

datatype wall_error = ErrTransferEmpty | ErrTransferIDInvalid | ErrTransferSenderNotFundsOwner
  | ErrTransferOutputAmountInvalid | ErrTransferTimeLockedOutput | ErrTransferUsesUnspendableOutput
  | ErrTransferDepositLockedTooLong | ErrBlockIDInvalid | ErrBlockVoteSignatureInvalid | ErrBlockTicketInvalid
  | ErrBlockRoundIsZero | ErrWitnessSignatureInvalid | ErrWitnessInvalidRound | ErrWitnessTimestampNotInPast
  | ErrBlockTimstampInPast | ErrBlockRoundInPast | ErrBlockDepositNotSpendable | ErrBlockVoterDoesntOwnDeposit
  | ErrBlockDepositNotLocked | ErrBlockDepositLockedTooLong | ErrBlockDepositNotMarkedAsDeposit
  | ErrNoSpendableDepositAvailable | ErrBlocksTicketNotGoodEnough | ErrWitnessWasPrevBlock
  | ErrBlockNotExist | ErrBlockExists | ErrVoterAlreadyVoted | ErrDepositNotFound

section \<open>Transfers (tr.go)\<close>

definition OID_Tr :: "OID \<Rightarrow> TrID" where
  "OID_Tr r = take 32 r"

definition OID_Idx :: "OID \<Rightarrow> u64" where
  "OID_Idx r = u64_of (drop 32 r)"

definition Ref :: "TrID \<Rightarrow> u64 \<Rightarrow> OID" where
  "Ref trid i = trid @ put_uint64 i"

record TrOut =
  to_Amount :: u64
  to_Receiver :: bytes
  to_IsDeposit :: bool
  to_UnlocksAfter :: u64

definition UsableDepositFor :: "TrOut \<Rightarrow> u64 \<Rightarrow> u64 \<Rightarrow> wall_error option" where
  "UsableDepositFor tro rnd depositTTL =
     (if \<not> to_IsDeposit tro then Some ErrBlockDepositNotMarkedAsDeposit
      else if to_UnlocksAfter tro \<le> rnd then Some ErrBlockDepositNotLocked
      else if to_UnlocksAfter tro - rnd > depositTTL then Some ErrBlockDepositLockedTooLong
      else None)"

record Tr =
  tr_Inputs :: "OID list"
  tr_Outputs :: "TrOut list"
  tr_Sender :: bytes
  tr_Proof :: bytes
  tr_ID :: TrID

abbreviation zeros :: "nat \<Rightarrow> bytes" where
  "zeros n \<equiv> replicate n 0"

text \<open>\<^verbatim>\<open>vrf.Size\<close> is 32 and \<^verbatim>\<open>vrf.ProofSize\<close> is 96.\<close>

definition NewTr :: Tr where
  "NewTr = \<lparr>tr_Inputs = [], tr_Outputs = [], tr_Sender = zeros 32, tr_Proof = zeros 96, tr_ID = zeros 32\<rparr>"

definition Consume :: "Tr \<Rightarrow> Tr \<Rightarrow> u64 \<Rightarrow> Tr" where
  "Consume tr intr ii = tr\<lparr>tr_Inputs := tr_Inputs tr @ [Ref (tr_ID intr) ii]\<rparr>"

definition Send :: "Tr \<Rightarrow> u64 \<Rightarrow> bytes \<Rightarrow> u64 \<Rightarrow> bool \<Rightarrow> Tr" where
  "Send tr amount to unlocksAfter deposit =
     tr\<lparr>tr_Outputs := tr_Outputs tr @ [\<lparr>to_Amount = amount, to_Receiver = to, to_IsDeposit = deposit, to_UnlocksAfter = unlocksAfter\<rparr>]\<rparr>"

definition out_fields :: "TrOut \<Rightarrow> bytes" where
  "out_fields out = to_Receiver out @ put_uint64 (to_Amount out) @ (if to_IsDeposit out then [1] else [])"

definition Tr_Hash :: "wenv \<Rightarrow> Tr \<Rightarrow> bytes" where
  "Tr_Hash env tr =
     we_sha env (concat (tr_Inputs tr) @ concat (map out_fields (tr_Outputs tr)) @ tr_Sender tr @ tr_ID tr @ tr_Proof tr)"

section \<open>Unspent outputs (utro.go)\<close>

type_synonym UTRO = "(OID \<times> TrOut) list"

definition NewUTRO :: UTRO where
  "NewUTRO = []"

definition Deposited :: "UTRO \<Rightarrow> u64 \<Rightarrow> u64 \<Rightarrow> u64" where
  "Deposited utro rnd depositTTL =
     sum_list (map (\<lambda>p. to_Amount (snd p)) (filter (\<lambda>p. UsableDepositFor (snd p) rnd depositTTL = None) utro))"

definition UTRO_Put :: "UTRO \<Rightarrow> OID \<Rightarrow> TrOut \<Rightarrow> UTRO" where
  "UTRO_Put utro i out = AList.update i out utro"

definition UTRO_Del :: "UTRO \<Rightarrow> OID \<Rightarrow> UTRO" where
  "UTRO_Del utro i = AList.delete i utro"

definition UTRO_Get :: "UTRO \<Rightarrow> OID \<Rightarrow> TrOut option" where
  "UTRO_Get utro i = map_of utro i"

section \<open>Verifying a transfer\<close>

fun in_total :: "Tr \<Rightarrow> u64 \<Rightarrow> UTRO \<Rightarrow> OID list \<Rightarrow> u64 \<Rightarrow> wall_error + u64" where
  "in_total tr rnd utro [] acc = Inr acc"
| "in_total tr rnd utro (i # ins) acc =
     (case UTRO_Get utro i of
        None \<Rightarrow> Inl ErrTransferUsesUnspendableOutput
      | Some out \<Rightarrow>
          if to_Receiver out \<noteq> tr_Sender tr then Inl ErrTransferSenderNotFundsOwner
          else if rnd \<le> to_UnlocksAfter out then Inl ErrTransferTimeLockedOutput
          else in_total tr rnd utro ins (acc + to_Amount out))"

fun out_total :: "u64 \<Rightarrow> u64 \<Rightarrow> TrOut list \<Rightarrow> u64 \<Rightarrow> wall_error + u64" where
  "out_total rnd depositTTL [] acc = Inr acc"
| "out_total rnd depositTTL (out # outs) acc =
     (let remainingLockTime = to_UnlocksAfter out - rnd
      in if to_IsDeposit out \<and> remainingLockTime > depositTTL then Inl ErrTransferDepositLockedTooLong
         else out_total rnd depositTTL outs (acc + to_Amount out))"

definition Tr_cleared :: "Tr \<Rightarrow> Tr" where
  "Tr_cleared tr = tr\<lparr>tr_ID := zeros 32, tr_Proof := zeros 96\<rparr>"

definition Tr_Verify :: "wenv \<Rightarrow> Tr \<Rightarrow> bool \<Rightarrow> u64 \<Rightarrow> UTRO \<Rightarrow> u64 \<Rightarrow> wall_error option \<times> Tr" where
  "Tr_Verify env tr coinbase rnd utro depositTTL =
     (if length (tr_Outputs tr) < 1 then (Some ErrTransferEmpty, tr)
      else if \<not> coinbase \<and> length (tr_Inputs tr) < 1 then (Some ErrTransferEmpty, tr)
      else let tr0 = Tr_cleared tr; h = Tr_Hash env tr0
        in if \<not> we_verify env (tr_Sender tr) h (tr_ID tr) (tr_Proof tr) then (Some ErrTransferIDInvalid, tr0)
           else (case in_total tr rnd utro (tr_Inputs tr) 0 of
               Inl e \<Rightarrow> (Some e, tr)
             | Inr inTotal \<Rightarrow>
                 (case out_total rnd depositTTL (tr_Outputs tr) 0 of
                    Inl e \<Rightarrow> (Some e, tr)
                  | Inr outTotal \<Rightarrow>
                      if \<not> coinbase \<and> outTotal \<noteq> inTotal then (Some ErrTransferOutputAmountInvalid, tr)
                      else (None, tr))))"

section \<open>Blocks (block.go)\<close>

record Vote =
  vt_Round :: u64
  vt_Prev :: BID
  vt_Voter :: bytes
  vt_Deposit :: OID
  vt_Timestamp :: u64
  vt_Signature :: bytes
  vt_Proof :: bytes

definition Vote_Hash :: "wenv \<Rightarrow> Vote \<Rightarrow> bytes" where
  "Vote_Hash env v =
     we_sha env (put_uint64 (vt_Round v) @ put_uint64 (vt_Timestamp v) @ vt_Prev v @ vt_Voter v @ vt_Deposit v @
       vt_Signature v @ vt_Proof v)"

record WBlock =
  wb_ID :: BID
  wb_Proof :: bytes
  wb_Vote :: Vote
  wb_Witness :: "Vote list"
  wb_TicketProof :: bytes
  wb_TicketToken :: bytes
  wb_Transfers :: "Tr list"

definition WBlock_Hash :: "wenv \<Rightarrow> WBlock \<Rightarrow> bytes" where
  "WBlock_Hash env b =
     we_sha env (wb_ID b @ wb_Proof b @ Vote_Hash env (wb_Vote b) @ concat (map (Vote_Hash env) (wb_Witness b)) @
       wb_TicketProof b @ wb_TicketToken b @ concat (map (Tr_Hash env) (wb_Transfers b)))"

definition Vote_cleared :: "Vote \<Rightarrow> Vote" where
  "Vote_cleared v = v\<lparr>vt_Signature := zeros 32, vt_Proof := zeros 96\<rparr>"

definition Vote_Verify :: "wenv \<Rightarrow> Vote \<Rightarrow> bool \<times> Vote" where
  "Vote_Verify env v =
     (let v0 = Vote_cleared v
      in if \<not> we_verify env (vt_Voter v) (Vote_Hash env v0) (vt_Signature v) (vt_Proof v) then (False, v0) else (True, v))"

definition WBlock_cleared :: "WBlock \<Rightarrow> WBlock" where
  "WBlock_cleared b = b\<lparr>wb_ID := zeros 32, wb_Proof := zeros 96\<rparr>"

definition verifyBlockID :: "wenv \<Rightarrow> WBlock \<Rightarrow> bool \<times> WBlock" where
  "verifyBlockID env b =
     (let b0 = WBlock_cleared b
      in if \<not> we_verify env (vt_Voter (wb_Vote b)) (WBlock_Hash env b0) (wb_ID b) (wb_Proof b) then (False, b0)
         else (True, b))"

definition verifyTicket :: "wenv \<Rightarrow> WBlock \<Rightarrow> bytes \<Rightarrow> bool" where
  "verifyTicket env b prevt = we_verify env (vt_Voter (wb_Vote b)) prevt (wb_TicketToken b) (wb_TicketProof b)"

definition VerifyCheap :: "wenv \<Rightarrow> WBlock \<Rightarrow> wall_error option \<times> WBlock" where
  "VerifyCheap env b =
     (case verifyBlockID env b of
        (False, b1) \<Rightarrow> (Some ErrBlockIDInvalid, b1)
      | (True, b1) \<Rightarrow>
          (case Vote_Verify env (wb_Vote b1) of
             (False, v) \<Rightarrow> (Some ErrBlockVoteSignatureInvalid, b1\<lparr>wb_Vote := v\<rparr>)
           | (True, v) \<Rightarrow> if vt_Round (wb_Vote b1) < 1 then (Some ErrBlockRoundIsZero, b1) else (None, b1)))"

fun verify_witnesses :: "wenv \<Rightarrow> Vote \<Rightarrow> Vote \<Rightarrow> Vote list \<Rightarrow> wall_error option \<times> Vote list" where
  "verify_witnesses env v prevv [] = (None, [])"
| "verify_witnesses env v prevv (w # ws) =
     (case Vote_Verify env w of
        (False, w0) \<Rightarrow> (Some ErrWitnessSignatureInvalid, w0 # ws)
      | (True, w1) \<Rightarrow>
          if vt_Round w1 \<noteq> vt_Round prevv then (Some ErrWitnessInvalidRound, w1 # ws)
          else if vt_Timestamp w1 \<ge> vt_Timestamp v then (Some ErrWitnessTimestampNotInPast, w1 # ws)
          else if vt_Signature w1 = vt_Signature prevv then (Some ErrWitnessWasPrevBlock, w1 # ws)
          else (case verify_witnesses env v prevv ws of (e, ws') \<Rightarrow> (e, w1 # ws')))"

definition VerifyAgainstPrev :: "wenv \<Rightarrow> WBlock \<Rightarrow> Vote \<Rightarrow> bytes \<Rightarrow> wall_error option \<times> WBlock" where
  "VerifyAgainstPrev env b prevv prevt =
     (if \<not> verifyTicket env b prevt then (Some ErrBlockTicketInvalid, b)
      else if vt_Round (wb_Vote b) \<le> vt_Round prevv then (Some ErrBlockRoundInPast, b)
      else if vt_Timestamp (wb_Vote b) \<le> vt_Timestamp prevv then (Some ErrBlockTimstampInPast, b)
      else case verify_witnesses env (wb_Vote b) prevv (wb_Witness b) of (e, ws) \<Rightarrow> (e, b\<lparr>wb_Witness := ws\<rparr>))"

fun verify_transfers :: "wenv \<Rightarrow> u64 \<Rightarrow> UTRO \<Rightarrow> u64 \<Rightarrow> Tr list \<Rightarrow> wall_error option \<times> Tr list" where
  "verify_transfers env rnd utro depositTTL [] = (None, [])"
| "verify_transfers env rnd utro depositTTL (tr # trs) =
     (case Tr_Verify env tr False rnd utro depositTTL of
        (Some e, tr') \<Rightarrow> (Some e, tr' # trs)
      | (None, tr') \<Rightarrow> (case verify_transfers env rnd utro depositTTL trs of (e, trs') \<Rightarrow> (e, tr' # trs')))"

definition VerifyAgainstUTRO :: "wenv \<Rightarrow> WBlock \<Rightarrow> UTRO \<Rightarrow> Params \<Rightarrow> wall_error option \<times> WBlock" where
  "VerifyAgainstUTRO env b utro p =
     (case UTRO_Get utro (vt_Deposit (wb_Vote b)) of
        None \<Rightarrow> (Some ErrBlockDepositNotSpendable, b)
      | Some deposit \<Rightarrow>
          (case UsableDepositFor deposit (vt_Round (wb_Vote b)) (MaxDepositTTL p) of
             Some e \<Rightarrow> (Some e, b)
           | None \<Rightarrow>
               if to_Receiver deposit \<noteq> vt_Voter (wb_Vote b) then (Some ErrBlockVoterDoesntOwnDeposit, b)
               else let total = Deposited utro (vt_Round (wb_Vote b)) (MaxDepositTTL p)
                 in if total < 1 then (Some ErrNoSpendableDepositAvailable, b)
                    else if \<not> we_thr env (to_Amount deposit) total (wb_TicketToken b)
                      then (Some ErrBlocksTicketNotGoodEnough, b)
                    else (case verify_transfers env (vt_Round (wb_Vote b)) utro (MaxDepositTTL p) (wb_Transfers b) of
                            (e, trs) \<Rightarrow> (e, b\<lparr>wb_Transfers := trs\<rparr>))))"

section \<open>Identities (identity.go)\<close>

record WIdentity =
  wi_pk :: bytes
  wi_sk :: bytes

definition drawTicket :: "wenv \<Rightarrow> WIdentity \<Rightarrow> WBlock \<Rightarrow> bytes \<Rightarrow> WBlock" where
  "drawTicket env idn b prevt =
     (let (token, tproof) = we_prove env prevt (wi_sk idn) in b\<lparr>wb_TicketToken := token, wb_TicketProof := tproof\<rparr>)"

text \<open>The hash is taken before the old signature is cleared.\<close>

definition signVote :: "wenv \<Rightarrow> WIdentity \<Rightarrow> WBlock \<Rightarrow> WBlock" where
  "signVote env idn b =
     (let vh = Vote_Hash env (wb_Vote b); (vsig, vproof) = we_prove env vh (wi_sk idn)
      in b\<lparr>wb_Vote := (wb_Vote b)\<lparr>vt_Signature := vsig, vt_Proof := vproof\<rparr>\<rparr>)"

definition SignBlock :: "wenv \<Rightarrow> WIdentity \<Rightarrow> WBlock \<Rightarrow> bytes \<Rightarrow> WBlock" where
  "SignBlock env idn b prevt =
     (let b1 = b\<lparr>wb_Vote := (wb_Vote b)\<lparr>vt_Voter := wi_pk idn\<rparr>\<rparr>;
          b2 = WBlock_cleared (signVote env idn (drawTicket env idn b1 prevt));
          (bid, proof) = we_prove env (WBlock_Hash env b2) (wi_sk idn)
      in b2\<lparr>wb_ID := bid, wb_Proof := proof\<rparr>)"

definition SignTransfer :: "wenv \<Rightarrow> WIdentity \<Rightarrow> Tr \<Rightarrow> Tr" where
  "SignTransfer env idn tr =
     (let tr0 = Tr_cleared (tr\<lparr>tr_Sender := wi_pk idn\<rparr>);
          (tid, proof) = we_prove env (Tr_Hash env tr0) (wi_sk idn)
      in tr0\<lparr>tr_ID := tid, tr_Proof := proof\<rparr>)"

section \<open>Lemmas\<close>

text \<open>The specification of a transfer's effect on the unspent outputs: its outputs are added under
  references to it, then its inputs are removed.\<close>

fun put_outputs :: "UTRO \<Rightarrow> TrID \<Rightarrow> u64 \<Rightarrow> TrOut list \<Rightarrow> UTRO" where
  "put_outputs utro tid i [] = utro"
| "put_outputs utro tid i (out # outs) = put_outputs (UTRO_Put utro (Ref tid i) out) tid (i + 1) outs"

definition spend :: "UTRO \<Rightarrow> Tr \<Rightarrow> UTRO" where
  "spend utro tr = fold (\<lambda>i u. UTRO_Del u i) (tr_Inputs tr) (put_outputs utro (tr_ID tr) 0 (tr_Outputs tr))"

definition utro_total :: "UTRO \<Rightarrow> u64" where
  "utro_total utro = sum_list (map (\<lambda>p. to_Amount (snd p)) utro)"

lemma in_total_ok:
  "in_total tr rnd utro ins acc = Inr t \<Longrightarrow>
   (\<forall>i \<in> set ins. \<exists>out. map_of utro i = Some out \<and> to_Receiver out = tr_Sender tr \<and> to_UnlocksAfter out < rnd) \<and>
   t = acc + sum_list (map (\<lambda>i. to_Amount (the (map_of utro i))) ins)"
proof (induction tr rnd utro ins acc rule: in_total.induct)
  case (2 tr rnd utro i ins acc)
  then show ?case by (auto simp: UTRO_Get_def not_le split: option.splits if_splits)
qed simp

lemma out_total_ok:
  "out_total rnd ttl outs acc = Inr t \<Longrightarrow>
   (\<forall>out \<in> set outs. to_IsDeposit out \<longrightarrow> to_UnlocksAfter out - rnd \<le> ttl) \<and> t = acc + sum_list (map to_Amount outs)"
  by (induction rnd ttl outs acc rule: out_total.induct) (auto simp: Let_def not_less split: if_splits)

lemma Tr_Verify_ok:
  assumes "Tr_Verify env tr coinbase rnd utro ttl = (None, tr')"
  shows "tr' = tr" "tr_Outputs tr \<noteq> []" "\<not> coinbase \<Longrightarrow> tr_Inputs tr \<noteq> []"
    "we_verify env (tr_Sender tr) (Tr_Hash env (Tr_cleared tr)) (tr_ID tr) (tr_Proof tr)"
    "\<forall>i \<in> set (tr_Inputs tr). \<exists>out. map_of utro i = Some out \<and> to_Receiver out = tr_Sender tr \<and> to_UnlocksAfter out < rnd"
    "\<forall>out \<in> set (tr_Outputs tr). to_IsDeposit out \<longrightarrow> to_UnlocksAfter out - rnd \<le> ttl"
    "\<not> coinbase \<Longrightarrow> sum_list (map to_Amount (tr_Outputs tr)) = sum_list (map (\<lambda>i. to_Amount (the (map_of utro i))) (tr_Inputs tr))"
  using assms in_total_ok [of tr rnd utro "tr_Inputs tr" 0] out_total_ok [of rnd ttl "tr_Outputs tr" 0]
  by (auto simp: Tr_Verify_def Let_def split: if_splits sum.splits)

lemma total_Put: "i \<notin> fst ` set u \<Longrightarrow> utro_total (UTRO_Put u i out) = utro_total u + to_Amount out"
  by (induction u) (auto simp: utro_total_def UTRO_Put_def)

lemma total_Del: "distinct (map fst u) \<Longrightarrow> map_of u i = Some out \<Longrightarrow> utro_total (UTRO_Del u i) + to_Amount out = utro_total u"
proof (induction u)
  case (Cons p u)
  show ?case
  proof (cases "fst p = i")
    case True
    then have "AList.delete i (p # u) = u" using Cons.prems(1) by (cases p) (simp add: delete_id)
    then show ?thesis using True Cons.prems(2) by (cases p) (simp add: utro_total_def UTRO_Del_def add.commute)
  next
    case False
    then show ?thesis using Cons by (cases p) (auto simp: utro_total_def UTRO_Del_def add.assoc)
  qed
qed simp

lemma wf_Del: "distinct (map fst u) \<Longrightarrow> distinct (map fst (UTRO_Del u i))"
  by (simp add: UTRO_Del_def distinct_delete)

lemma total_Dels:
  "distinct (map fst u) \<Longrightarrow> distinct ins \<Longrightarrow> (\<And>i. i \<in> set ins \<Longrightarrow> map_of u i \<noteq> None) \<Longrightarrow>
   utro_total (fold (\<lambda>i u. UTRO_Del u i) ins u) + sum_list (map (\<lambda>i. to_Amount (the (map_of u i))) ins) = utro_total u"
proof (induction ins arbitrary: u)
  case (Cons i ins)
  obtain out where out: "map_of u i = Some out" using Cons.prems(3) [of i] by auto
  have same: "map_of (UTRO_Del u i) j = map_of u j" if "j \<in> set ins" for j
    using that Cons.prems(2) by (auto simp: UTRO_Del_def delete_conv')
  have "utro_total (fold (\<lambda>i u. UTRO_Del u i) ins (UTRO_Del u i)) + sum_list (map (\<lambda>j. to_Amount (the (map_of (UTRO_Del u i) j))) ins) =
      utro_total (UTRO_Del u i)"
    using Cons.prems same by (intro Cons.IH) (auto simp: wf_Del)
  moreover have "map (\<lambda>j. to_Amount (the (map_of (UTRO_Del u i) j))) ins = map (\<lambda>j. to_Amount (the (map_of u j))) ins"
    using same by simp
  ultimately show ?case using total_Del [OF Cons.prems(1) out] out by (simp add: algebra_simps)
qed simp

lemma Ref_inject [simp]: "Ref t i = Ref t j \<longleftrightarrow> i = j"
  by (simp add: Ref_def)

lemma Ref_next:
  assumes "k < length outs" "length (out # outs) \<le> 2 ^ 64"
  shows "Ref t (i + 1 + word_of_nat k) = Ref t (i + word_of_nat (Suc k))" "Ref t (i + 1 + word_of_nat k) \<noteq> Ref t i"
proof -
  have "word_of_nat (Suc k) \<noteq> (0 :: u64)" using assms by (simp add: word_of_nat_eq_0_iff nat_dvd_not_less del: of_nat_Suc)
  then show "Ref t (i + 1 + word_of_nat k) = Ref t (i + word_of_nat (Suc k))" "Ref t (i + 1 + word_of_nat k) \<noteq> Ref t i"
    by (simp_all add: algebra_simps)
qed

lemma put_outputs_fresh:
  assumes "\<forall>k < length outs. Ref t (i + word_of_nat k) \<notin> fst ` set u" "length outs \<le> 2 ^ 64"
  shows "utro_total (put_outputs u t i outs) = utro_total u + sum_list (map to_Amount outs) \<and>
    (\<forall>j \<in> fst ` set u. map_of (put_outputs u t i outs) j = map_of u j) \<and>
    (distinct (map fst u) \<longrightarrow> distinct (map fst (put_outputs u t i outs)))"
  using assms
proof (induction u t i outs rule: put_outputs.induct)
  case (2 u t i out outs)
  let ?u = "UTRO_Put u (Ref t i) out"
  have f0: "Ref t i \<notin> fst ` set u" using "2.prems"(1) by force
  have keys: "fst ` set ?u = insert (Ref t i) (fst ` set u)" by (simp add: UTRO_Put_def dom_update)
  have "Ref t (i + 1 + word_of_nat k) \<notin> fst ` set ?u" if "k < length outs" for k
    using Ref_next [OF that "2.prems"(2), of t i] "2.prems"(1) [rule_format, of "Suc k"] that unfolding keys by (simp add: add.assoc)
  then have ih: "utro_total (put_outputs ?u t (i + 1) outs) = utro_total ?u + sum_list (map to_Amount outs) \<and>
    (\<forall>j \<in> fst ` set ?u. map_of (put_outputs ?u t (i + 1) outs) j = map_of ?u j) \<and>
    (distinct (map fst ?u) \<longrightarrow> distinct (map fst (put_outputs ?u t (i + 1) outs)))"
    using "2.prems"(2) by (intro "2.IH") simp_all
  have "map_of (put_outputs ?u t (i + 1) outs) j = map_of u j" if "j \<in> fst ` set u" for j
  proof -
    have "map_of (put_outputs ?u t (i + 1) outs) j = map_of ?u j" using ih that unfolding keys by blast
    moreover have "j \<noteq> Ref t i" using that f0 by blast
    ultimately show ?thesis by (simp add: UTRO_Put_def update_conv')
  qed
  then show ?case using ih total_Put [OF f0, of out] by (simp add: add.assoc) (simp add: UTRO_Put_def distinct_update)
qed simp

lemma Ref_long [simp]: "Ref t i \<noteq> [x]" "[x] \<noteq> Ref t i"
proof -
  have "length (Ref t i) \<noteq> length [x]" by (simp add: Ref_def)
  then show "Ref t i \<noteq> [x]" "[x] \<noteq> Ref t i" by metis+
qed

section \<open>Properties\<close>


definition ex_wenv :: wenv where
  "ex_wenv = \<lparr>we_sha = (\<lambda>m. m), we_verify = (\<lambda>pk m sig pf. sig = m), we_prove = (\<lambda>m sk. (m, [])),
     we_thr = (\<lambda>_ _ _. True), we_sort = (\<lambda>xs. xs)\<rparr>"

definition ex_idn :: WIdentity where
  "ex_idn = \<lparr>wi_pk = [9], wi_sk = [9]\<rparr>"

definition ex_utro :: UTRO where
  "ex_utro = [([1], \<lparr>to_Amount = 5, to_Receiver = [9], to_IsDeposit = False, to_UnlocksAfter = 0\<rparr>)]"

definition ex_tr :: "OID list \<Rightarrow> u64 \<Rightarrow> Tr" where
  "ex_tr ins amount = SignTransfer ex_wenv ex_idn (Send (NewTr\<lparr>tr_Inputs := ins\<rparr>) amount [8] 0 False)"

lemmas ex_wall_defs = ex_wenv_def ex_idn_def ex_utro_def ex_tr_def SignTransfer_def Send_def NewTr_def Tr_cleared_def
  Tr_Verify_def UTRO_Get_def Let_def



text \<open>The hash of a transfer, and with it the sender's signature, does not cover the time locks of
  its outputs: anyone can change them without the signature check noticing.\<close>

theorem unlock_times_not_signed:
  "Tr_Hash env (tr\<lparr>tr_Outputs := map (\<lambda>out. out\<lparr>to_UnlocksAfter := f out\<rparr>) (tr_Outputs tr)\<rparr>) = Tr_Hash env tr"
  by (simp add: Tr_Hash_def out_fields_def [abs_def] comp_def)

lemma SignBlock_verifies:
  assumes "vrf_ok env (wi_pk idn) (wi_sk idn)"
  shows "vt_Signature (wb_Vote b) = zeros 32 \<Longrightarrow> vt_Proof (wb_Vote b) = zeros 96 \<Longrightarrow> 0 < vt_Round (wb_Vote b) \<Longrightarrow>
      VerifyCheap env (SignBlock env idn b prevt) = (None, SignBlock env idn b prevt)"
    "verifyTicket env (SignBlock env idn b prevt) prevt"
proof -
  have ok: "we_verify env (wi_pk idn) m (fst (we_prove env m (wi_sk idn))) (snd (we_prove env m (wi_sk idn)))" for m
    using assms by (simp add: vrf_ok_def)
  note defs = SignBlock_def WBlock_cleared_def signVote_def drawTicket_def split_beta Let_def
  show "verifyTicket env (SignBlock env idn b prevt) prevt"
    using ok by (simp add: verifyTicket_def defs)
  assume *: "vt_Signature (wb_Vote b) = zeros 32" "vt_Proof (wb_Vote b) = zeros 96" "0 < vt_Round (wb_Vote b)"
  have vh: "Vote_Hash env ((wb_Vote b)\<lparr>vt_Voter := wi_pk idn, vt_Signature := zeros 32, vt_Proof := zeros 96\<rparr>) =
      Vote_Hash env ((wb_Vote b)\<lparr>vt_Voter := wi_pk idn\<rparr>)"
    using *(1,2) by (simp add: Vote_Hash_def)
  have v: "Vote_Verify env (wb_Vote (SignBlock env idn b prevt)) = (True, wb_Vote (SignBlock env idn b prevt))"
    using ok by (simp add: Vote_Verify_def Vote_cleared_def vh defs)
  have "verifyBlockID env (SignBlock env idn b prevt) = (True, SignBlock env idn b prevt)"
    using ok by (simp add: verifyBlockID_def defs)
  then show "VerifyCheap env (SignBlock env idn b prevt) = (None, SignBlock env idn b prevt)"
    using v *(3) by (simp add: VerifyCheap_def) (simp add: defs word_gt_0)
qed

text \<open>What an identity signs verifies: a signed transfer is not refused for its signature, and a
  block signed by \<open>SignBlock\<close> whose vote had no signature before passes the cheap checks (for a
  round above 0) and the ticket check, unchanged.\<close>

theorem signed_verifies:
  assumes "vrf_ok env (wi_pk idn) (wi_sk idn)"
  shows "fst (Tr_Verify env (SignTransfer env idn tr) coinbase rnd utro ttl) \<noteq> Some ErrTransferIDInvalid \<and>
    (vt_Signature (wb_Vote b) = zeros 32 \<and> vt_Proof (wb_Vote b) = zeros 96 \<and> 0 < vt_Round (wb_Vote b) \<longrightarrow>
      VerifyCheap env (SignBlock env idn b prevt) = (None, SignBlock env idn b prevt)) \<and>
    verifyTicket env (SignBlock env idn b prevt) prevt"
proof -
  have ok: "we_verify env (wi_pk idn) m (fst (we_prove env m (wi_sk idn))) (snd (we_prove env m (wi_sk idn)))" for m
    using assms by (simp add: vrf_ok_def)
  have tr: "we_verify env (tr_Sender t) (Tr_Hash env (Tr_cleared t)) (tr_ID t) (tr_Proof t)" if "t = SignTransfer env idn tr" for t
    using ok that by (simp add: SignTransfer_def Tr_cleared_def split_beta Let_def)
  have in_err: "in_total t rnd utro ins acc \<noteq> Inl ErrTransferIDInvalid" for t ins acc
    by (induction t rnd utro ins acc rule: in_total.induct) (auto split: option.splits)
  have out_err: "out_total rnd ttl outs acc \<noteq> Inl ErrTransferIDInvalid" for outs acc
    by (induction rnd ttl outs acc rule: out_total.induct) (auto simp: Let_def)
  have "fst (Tr_Verify env (SignTransfer env idn tr) coinbase rnd utro ttl) \<noteq> Some ErrTransferIDInvalid"
    using tr in_err out_err by (auto simp: Tr_Verify_def Let_def split: sum.splits)
  then show ?thesis using SignBlock_verifies [OF assms] by blast
qed

theorem signed_verifies_witness:
  "fst (Tr_Verify ex_wenv (ex_tr [[1]] 5) True 1 ex_utro 100) \<noteq> Some ErrTransferIDInvalid"
proof -
  have "vrf_ok ex_wenv (wi_pk ex_idn) (wi_sk ex_idn)" by (simp add: vrf_ok_def ex_wenv_def)
  then show ?thesis unfolding ex_tr_def by (rule signed_verifies [THEN conjunct1])
qed

end
