(* ===== verification/Wall_Chain.thy ===== *)
theory Wall_Chain
  imports Wall
begin

text \<open>
  The in-memory block chain of \<^verbatim>\<open>src/exp/onl/wall/chain/chain.go\<close>: reading and walking, indexing unspent
  outputs, minting, appending and selecting the tip. As in the other chains a walk over a cyclic
  store and a round counter at its limit do not return, which is the value \<open>None\<close>; a Go panic is
  \<open>Panic\<close>. \<^verbatim>\<open>sort.Slice\<close> by ticket is the parameter \<open>we_sort\<close>, of which only is used that it permutes.
\<close>

section \<open>The chain\<close>

record MemChain =
  mc_genesis :: BID
  mc_params :: Params
  mc_tip :: BID
  mc_rounds :: "u64 \<rightharpoonup> BID list"
  mc_maxr :: u64
  mc_idns :: "u64 \<rightharpoonup> bytes list"
  mc_blocks :: "BID \<rightharpoonup> WBlock"
  mc_weights :: "BID \<rightharpoonup> u64"

abbreviation wround :: "WBlock \<Rightarrow> u64" where
  "wround b \<equiv> vt_Round (wb_Vote b)"

abbreviation wprev :: "WBlock \<Rightarrow> BID" where
  "wprev b \<equiv> vt_Prev (wb_Vote b)"

definition zero_vote :: Vote where
  "zero_vote = \<lparr>vt_Round = 0, vt_Prev = zeros 32, vt_Voter = zeros 32, vt_Deposit = zeros 40, vt_Timestamp = 0,
     vt_Signature = zeros 32, vt_Proof = zeros 96\<rparr>"

definition zero_block :: WBlock where
  "zero_block = \<lparr>wb_ID = zeros 32, wb_Proof = zeros 96, wb_Vote = zero_vote, wb_Witness = [], wb_TicketProof = zeros 96,
     wb_TicketToken = zeros 32, wb_Transfers = []\<rparr>"

definition GenesisBlock :: "wenv \<Rightarrow> bytes \<Rightarrow> WIdentity \<Rightarrow> WBlock" where
  "GenesisBlock env t god = SignBlock env god (zero_block\<lparr>wb_ID := replicate 32 0xff\<rparr>) t"

text \<open>\<open>god\<close> is the identity generated from the genesis ticket.\<close>

definition NewMemChain :: "wenv \<Rightarrow> WIdentity \<Rightarrow> Params \<Rightarrow> MemChain" where
  "NewMemChain env god p =
     (let gen = GenesisBlock env (GenesisTicket p) god
      in \<lparr>mc_genesis = wb_ID gen, mc_params = p, mc_tip = wb_ID gen, mc_rounds = [0 \<mapsto> [wb_ID gen]], mc_maxr = 0,
          mc_idns = Map.empty, mc_blocks = [wb_ID gen \<mapsto> gen],
          mc_weights = [wb_ID gen \<mapsto> WeightPoints p, wprev gen \<mapsto> 0]\<rparr>)"

definition MemChain_read :: "MemChain \<Rightarrow> BID \<Rightarrow> (wall_error, WBlock) res" where
  "MemChain_read c i = (case mc_blocks c i of None \<Rightarrow> Err ErrBlockNotExist | Some b \<Rightarrow> Ok b)"

partial_function (option) MemChain_walk ::
    "MemChain \<Rightarrow> (WBlock \<Rightarrow> 'a \<Rightarrow> wall_error option \<times> 'a) \<Rightarrow> BID \<Rightarrow> 'a \<Rightarrow> (wall_error option \<times> 'a) option" where
  "MemChain_walk c f i a =
     (case mc_blocks c i of
        None \<Rightarrow> Some (Some ErrBlockNotExist, a)
      | Some b \<Rightarrow>
          (case f b a of
             (Some e, a') \<Rightarrow> Some (Some e, a')
           | (None, a') \<Rightarrow> if i = mc_genesis c then Some (None, a') else MemChain_walk c f (wprev b) a'))"

section \<open>Indexing unspent outputs\<close>

fun index_outputs :: "TrID \<Rightarrow> u64 \<Rightarrow> TrOut list \<Rightarrow> OID list \<Rightarrow> UTRO \<Rightarrow> UTRO" where
  "index_outputs tid oi [] spent utro = utro"
| "index_outputs tid oi (out # outs) spent utro =
     index_outputs tid (oi + 1) outs spent
       (if Ref tid oi \<in> set spent then utro else UTRO_Put utro (Ref tid oi) out)"

definition index_transfer :: "Tr \<Rightarrow> UTRO \<times> OID list \<Rightarrow> UTRO \<times> OID list" where
  "index_transfer tr a =
     (case a of (utro, spent) \<Rightarrow>
        let spent' = tr_Inputs tr @ spent in (index_outputs (tr_ID tr) 0 (tr_Outputs tr) spent' utro, spent'))"

definition index_visitor :: "WBlock \<Rightarrow> UTRO \<times> OID list \<Rightarrow> wall_error option \<times> UTRO \<times> OID list" where
  "index_visitor b a = (None, fold index_transfer (rev (wb_Transfers b)) a)"

definition indexUTRO :: "MemChain \<Rightarrow> BID \<Rightarrow> UTRO option" where
  "indexUTRO c i = map_option (\<lambda>r. fst (snd r)) (MemChain_walk c index_visitor i (NewUTRO, []))"

section \<open>Minting\<close>

definition deposit_output :: "bytes \<Rightarrow> u64 \<Rightarrow> u64 \<Rightarrow> TrOut \<Rightarrow> bool" where
  "deposit_output pk rnd ttl out \<longleftrightarrow> to_Receiver out = pk \<and> UsableDepositFor out rnd ttl = None"

fun first_output :: "(TrOut \<Rightarrow> bool) \<Rightarrow> u64 \<Rightarrow> TrOut list \<Rightarrow> u64 option" where
  "first_output P i [] = None"
| "first_output P i (out # outs) = (if P out then Some i else first_output P (i + 1) outs)"

fun first_deposit :: "bytes \<Rightarrow> u64 \<Rightarrow> u64 \<Rightarrow> Tr list \<Rightarrow> (Tr \<times> u64) option" where
  "first_deposit pk rnd ttl [] = None"
| "first_deposit pk rnd ttl (tr # trs) =
     (if tr_Sender tr \<noteq> pk then first_deposit pk rnd ttl trs
      else case first_output (deposit_output pk rnd ttl) 0 (tr_Outputs tr) of
             Some i \<Rightarrow> Some (tr, i)
           | None \<Rightarrow> first_deposit pk rnd ttl trs)"

definition deposit_visitor :: "bytes \<Rightarrow> u64 \<Rightarrow> u64 \<Rightarrow> WBlock \<Rightarrow> (Tr \<times> u64) option \<Rightarrow> wall_error option \<times> (Tr \<times> u64) option" where
  "deposit_visitor pk rnd ttl b d =
     (None, if rnd - wround b \<ge> ttl then d
            else case first_deposit pk rnd ttl (wb_Transfers b) of None \<Rightarrow> d | Some x \<Rightarrow> Some x)"

definition findDeposit :: "MemChain \<Rightarrow> BID \<Rightarrow> u64 \<Rightarrow> WIdentity \<Rightarrow> (Tr \<times> u64) option option" where
  "findDeposit c i rnd idn =
     map_option snd (MemChain_walk c (deposit_visitor (wi_pk idn) rnd (MaxDepositTTL (mc_params c))) i None)"

text \<open>\<open>Mint\<close> returns the unsigned block and the token its ticket is drawn from; the returned
  closure of the Go code is \<open>SignBlock\<close> on them.\<close>

definition Mint :: "MemChain \<Rightarrow> BID \<Rightarrow> u64 \<Rightarrow> u64 \<Rightarrow> WIdentity \<Rightarrow> (wall_error, WBlock \<times> bytes) res option" where
  "Mint c prev rnd ts idn =
     (let prev = (if prev = zeros 32 then mc_tip c else prev)
      in case mc_blocks c prev of
           None \<Rightarrow> Some (Err ErrBlockNotExist)
         | Some prevb \<Rightarrow>
             (case findDeposit c prev rnd idn of
                None \<Rightarrow> None
              | Some None \<Rightarrow> Some (Err ErrDepositNotFound)
              | Some (Some (dtr, di)) \<Rightarrow>
                  (let wids = filter (\<lambda>w. w \<noteq> prev) (case mc_rounds c (wround prevb) of None \<Rightarrow> [] | Some r \<Rightarrow> r);
                       b = zero_block\<lparr>wb_Vote := zero_vote\<lparr>vt_Round := rnd, vt_Prev := wb_ID prevb,
                             vt_Deposit := Ref (tr_ID dtr) di, vt_Timestamp := ts\<rparr>\<rparr>
                   in if \<exists>w \<in> set wids. mc_blocks c w = None then Some Panic
                      else Some (Ok (b\<lparr>wb_Witness := map (\<lambda>w. wb_Vote (the (mc_blocks c w))) wids\<rparr>, wb_TicketToken prevb)))))"

section \<open>Selecting the tip\<close>

text \<open>The weights of one round; unlike the chain of package \<open>onl\<close> the tip weight follows the tip.\<close>

fun select_blocks :: "nat \<Rightarrow> BID list \<Rightarrow> MemChain \<Rightarrow> u64 \<Rightarrow> (wall_error, MemChain \<times> u64) res" where
  "select_blocks i [] c tipw = Ok (c, tipw)"
| "select_blocks i (bid # bids) c tipw =
     (case mc_blocks c bid of
        None \<Rightarrow> Panic
      | Some b \<Rightarrow>
          (let w = WeightPoints (mc_params c) div word_of_nat (i + 1)
           in case mc_weights c (wprev b) of
                None \<Rightarrow> Panic
              | Some prevw \<Rightarrow>
                  (let sumw = prevw + w; c1 = c\<lparr>mc_weights := (mc_weights c)(bid \<mapsto> sumw)\<rparr>
                   in if sumw \<ge> tipw then select_blocks (Suc i) bids (c1\<lparr>mc_tip := bid\<rparr>) sumw
                      else select_blocks (Suc i) bids c1 tipw)))"

definition sort_round :: "wenv \<Rightarrow> MemChain \<Rightarrow> BID list \<Rightarrow> BID list" where
  "sort_round env c bids = map fst (we_sort env (map (\<lambda>i. (i, wb_TicketToken (the (mc_blocks c i)))) bids))"

partial_function (option) select_rounds :: "wenv \<Rightarrow> u64 \<Rightarrow> MemChain \<Rightarrow> u64 \<Rightarrow> (wall_error, MemChain) res option" where
  "select_rounds env rn c tipw =
     (if rn \<le> mc_maxr c
      then (case mc_rounds c rn of
              None \<Rightarrow> select_rounds env (rn + 1) c tipw
            | Some bids \<Rightarrow>
                if \<exists>i \<in> set bids. mc_blocks c i = None then Some Panic
                else let sorted = sort_round env c bids
                  in (case select_blocks 0 sorted (c\<lparr>mc_rounds := (mc_rounds c)(rn \<mapsto> sorted)\<rparr>) tipw of
                        Ok (c1, tipw1) \<Rightarrow> select_rounds env (rn + 1) c1 tipw1
                      | Err e \<Rightarrow> Some (Err e)
                      | Panic \<Rightarrow> Some Panic))
      else Some (Ok c))"

definition selectLongestChain :: "wenv \<Rightarrow> MemChain \<Rightarrow> u64 \<Rightarrow> (wall_error, MemChain) res option" where
  "selectLongestChain env c n = select_rounds env n c (get0 (mc_weights c) (mc_tip c))"

section \<open>Appending\<close>

definition writeBlock :: "MemChain \<Rightarrow> WBlock \<Rightarrow> MemChain" where
  "writeBlock c b =
     (let r = wround b;
          rounds = (case mc_rounds c r of None \<Rightarrow> [] | Some ids \<Rightarrow> ids) @ [wb_ID b];
          maxr = (if mc_idns c r = None \<and> r > mc_maxr c then r else mc_maxr c);
          idns = List.insert (vt_Voter (wb_Vote b)) (case mc_idns c r of None \<Rightarrow> [] | Some vs \<Rightarrow> vs)
      in c\<lparr>mc_blocks := (mc_blocks c)(wb_ID b \<mapsto> b), mc_weights := (mc_weights c)(wb_ID b \<mapsto> 0),
           mc_rounds := (mc_rounds c)(r \<mapsto> rounds), mc_maxr := maxr, mc_idns := (mc_idns c)(r \<mapsto> idns)\<rparr>)"

definition voted :: "MemChain \<Rightarrow> u64 \<Rightarrow> bytes \<Rightarrow> bool" where
  "voted c r pk \<longleftrightarrow> (case mc_idns c r of None \<Rightarrow> False | Some vs \<Rightarrow> pk \<in> set vs)"

definition MemChain_Append :: "wenv \<Rightarrow> MemChain \<Rightarrow> WBlock \<Rightarrow> (wall_error, MemChain) res option" where
  "MemChain_Append env c b0 =
     (case VerifyCheap env b0 of
        (Some e, _) \<Rightarrow> Some (Err e)
      | (None, b) \<Rightarrow>
          if mc_blocks c (wb_ID b) \<noteq> None then Some (Err ErrBlockExists)
          else (case mc_blocks c (wprev b) of
              None \<Rightarrow> Some (Err ErrBlockNotExist)
            | Some prevb \<Rightarrow>
                (case VerifyAgainstPrev env b (wb_Vote prevb) (wb_TicketToken prevb) of
                   (Some e, _) \<Rightarrow> Some (Err e)
                 | (None, b1) \<Rightarrow>
                     if voted c (wround b1) (vt_Voter (wb_Vote b1)) then Some (Err ErrVoterAlreadyVoted)
                     else (case indexUTRO c (wb_ID prevb) of
                         None \<Rightarrow> None
                       | Some utro \<Rightarrow>
                           (case VerifyAgainstUTRO env b1 utro (mc_params c) of
                              (Some e, _) \<Rightarrow> Some (Err e)
                            | (None, b2) \<Rightarrow> selectLongestChain env (writeBlock c b2) (wround b2))))))"

section \<open>The invariant\<close>

definition mem_inv :: "MemChain \<Rightarrow> bool" where
  "mem_inv c \<longleftrightarrow>
     mc_blocks c (mc_genesis c) \<noteq> None \<and> mc_blocks c (mc_tip c) \<noteq> None \<and>
     (\<forall>i b. mc_blocks c i = Some b \<longrightarrow> wb_ID b = i \<and> mc_weights c i \<noteq> None \<and> mc_weights c (wprev b) \<noteq> None \<and>
        wround b \<le> mc_maxr c \<and>
        (i \<noteq> mc_genesis c \<longrightarrow> voted c (wround b) (vt_Voter (wb_Vote b)) \<and>
           (\<exists>p. mc_blocks c (wprev b) = Some p \<and> wround p < wround b))) \<and>
     (\<forall>i j b b'. mc_blocks c i = Some b \<longrightarrow> mc_blocks c j = Some b' \<longrightarrow> i \<noteq> mc_genesis c \<longrightarrow> j \<noteq> mc_genesis c \<longrightarrow>
        wround b = wround b' \<longrightarrow> vt_Voter (wb_Vote b) = vt_Voter (wb_Vote b') \<longrightarrow> i = j) \<and>
     (\<forall>r ids. mc_rounds c r = Some ids \<longrightarrow> distinct ids \<and> (\<forall>i \<in> set ids. \<exists>b. mc_blocks c i = Some b \<and> wround b = r)) \<and>
     (\<forall>r. mc_idns c r \<noteq> None \<longrightarrow> r \<le> mc_maxr c)"

lemma mem_invD:
  assumes "mem_inv c" "mc_blocks c i = Some b"
  shows "wb_ID b = i" "mc_weights c i \<noteq> None" "mc_weights c (wprev b) \<noteq> None" "wround b \<le> mc_maxr c"
    "i \<noteq> mc_genesis c \<Longrightarrow> voted c (wround b) (vt_Voter (wb_Vote b))"
    "i \<noteq> mc_genesis c \<Longrightarrow> \<exists>p. mc_blocks c (wprev b) = Some p \<and> wround p < wround b"
  using assms unfolding mem_inv_def by blast+

lemma mem_inv_once:
  "mem_inv c \<Longrightarrow> mc_blocks c i = Some b \<Longrightarrow> mc_blocks c j = Some b' \<Longrightarrow> i \<noteq> mc_genesis c \<Longrightarrow> j \<noteq> mc_genesis c \<Longrightarrow>
   wround b = wround b' \<Longrightarrow> vt_Voter (wb_Vote b) = vt_Voter (wb_Vote b') \<Longrightarrow> i = j"
  unfolding mem_inv_def by blast

lemma mem_inv_round:
  "mem_inv c \<Longrightarrow> mc_rounds c r = Some ids \<Longrightarrow> distinct ids \<and> (\<forall>i \<in> set ids. \<exists>b. mc_blocks c i = Some b \<and> wround b = r)"
  unfolding mem_inv_def by blast

lemma mem_inv_idns: "mem_inv c \<Longrightarrow> mc_idns c r \<noteq> None \<Longrightarrow> r \<le> mc_maxr c"
  unfolding mem_inv_def by blast

text \<open>A walk from any identifier returns: it fails at an unknown one and ends at the genesis.\<close>

lemma MemChain_walk_total:
  assumes "mem_inv c"
  shows "\<exists>r. MemChain_walk c f i a = Some r"
proof (cases "mc_blocks c i")
  case None
  then show ?thesis by (subst MemChain_walk.simps) simp
next
  case (Some b)
  then show ?thesis
  proof (induction "unat (wround b)" arbitrary: i b a rule: less_induct)
    case less
    obtain e a' where f: "f b a = (e, a')" by (cases "f b a")
    show ?case
    proof (cases "e = None \<and> i \<noteq> mc_genesis c")
      case True
      then obtain p where "mc_blocks c (wprev b) = Some p" "wround p < wround b"
        using mem_invD(6) [OF assms less.prems] by blast
      then have "\<exists>r. MemChain_walk c f (wprev b) a' = Some r" using less.hyps by (simp add: word_less_nat_alt)
      then show ?thesis using True f less.prems by (subst MemChain_walk.simps) simp
    next
      case False
      then show ?thesis using f less.prems by (subst MemChain_walk.simps) (auto split: option.splits)
    qed
  qed
qed

lemma indexUTRO_total: "mem_inv c \<Longrightarrow> \<exists>u. indexUTRO c i = Some u"
proof -
  assume "mem_inv c"
  then obtain r where "MemChain_walk c index_visitor i (NewUTRO, []) = Some r"
    using MemChain_walk_total [of c index_visitor i "(NewUTRO, [])"] by blast
  then show ?thesis by (simp add: indexUTRO_def)
qed

text \<open>Reweighing changes weights and the tip only.\<close>

definition same_blocks :: "MemChain \<Rightarrow> MemChain \<Rightarrow> bool" where
  "same_blocks c c' \<longleftrightarrow> mc_genesis c' = mc_genesis c \<and> mc_params c' = mc_params c \<and> mc_blocks c' = mc_blocks c \<and>
     mc_maxr c' = mc_maxr c \<and> mc_idns c' = mc_idns c \<and> (\<forall>i. mc_weights c i \<noteq> None \<longrightarrow> mc_weights c' i \<noteq> None) \<and>
     (mc_blocks c (mc_tip c) \<noteq> None \<longrightarrow> mc_blocks c (mc_tip c') \<noteq> None)"

lemma same_blocks_refl [simp]: "same_blocks c c"
  by (simp add: same_blocks_def)

lemma same_blocks_trans: "same_blocks c1 c2 \<Longrightarrow> same_blocks c2 c3 \<Longrightarrow> same_blocks c1 c3"
  by (simp add: same_blocks_def)

lemma select_blocks_ok:
  assumes "\<forall>i \<in> set bids. \<exists>b. mc_blocks c i = Some b \<and> mc_weights c (wprev b) \<noteq> None"
  shows "\<exists>c' w. select_blocks k bids c tipw = Ok (c', w) \<and> same_blocks c c' \<and> mc_rounds c' = mc_rounds c"
  using assms
proof (induction bids arbitrary: k c tipw)
  case (Cons i bids)
  obtain b prevw where b: "mc_blocks c i = Some b" "mc_weights c (wprev b) = Some prevw" using Cons.prems by auto
  define s where "s = prevw + WeightPoints (mc_params c) div (1 + word_of_nat k)"
  let ?c1 = "c\<lparr>mc_weights := (mc_weights c)(i \<mapsto> s)\<rparr>"
  have sb: "same_blocks c ?c1" "same_blocks c (?c1\<lparr>mc_tip := i\<rparr>)" using b by (simp_all add: same_blocks_def)
  have pre: "\<forall>j \<in> set bids. \<exists>b. mc_blocks c j = Some b \<and> ((mc_weights c)(i \<mapsto> s)) (wprev b) \<noteq> None"
    using Cons.prems by (metis fun_upd_apply list.set_intros(2) option.distinct(1))
  have "\<exists>c' w. select_blocks (Suc k) bids ?c1 tipw = Ok (c', w) \<and> same_blocks ?c1 c' \<and> mc_rounds c' = mc_rounds ?c1"
    "\<exists>c' w. select_blocks (Suc k) bids (?c1\<lparr>mc_tip := i\<rparr>) s = Ok (c', w) \<and> same_blocks (?c1\<lparr>mc_tip := i\<rparr>) c' \<and>
       mc_rounds c' = mc_rounds ?c1"
    using Cons.IH [of ?c1] Cons.IH [of "?c1\<lparr>mc_tip := i\<rparr>"] pre by simp_all
  then show ?case using b sb same_blocks_trans by (fastforce simp: Let_def s_def [symmetric])
qed simp

definition perm_sort :: "wenv \<Rightarrow> bool" where
  "perm_sort env \<longleftrightarrow> (\<forall>xs. mset (we_sort env xs) = mset xs)"

lemma sort_round_mset: "perm_sort env \<Longrightarrow> mset (sort_round env c bids) = mset bids"
  unfolding sort_round_def perm_sort_def by (metis (no_types, lifting) comp_apply fst_conv list.map_comp map_idI mset_map)

lemma mem_inv_same:
  assumes "mem_inv c" "same_blocks c c'"
    and "\<And>r ids. mc_rounds c' r = Some ids \<Longrightarrow> distinct ids \<and> (\<forall>i \<in> set ids. \<exists>b. mc_blocks c i = Some b \<and> wround b = r)"
  shows "mem_inv c'"
proof -
  have eq: "mc_genesis c' = mc_genesis c" "mc_blocks c' = mc_blocks c" "mc_maxr c' = mc_maxr c" "mc_idns c' = mc_idns c"
    "mc_blocks c (mc_tip c') \<noteq> None"
    using assms(1,2) unfolding same_blocks_def mem_inv_def by blast+
  have w: "mc_weights c' i \<noteq> None" if "mc_weights c i \<noteq> None" for i using assms(2) that unfolding same_blocks_def by blast
  have v: "voted c' = voted c" unfolding voted_def eq ..
  show ?thesis
    unfolding mem_inv_def eq(1-4) v
  proof (intro conjI allI impI)
    show "mc_blocks c (mc_genesis c) \<noteq> None" "mc_blocks c (mc_tip c') \<noteq> None"
      using assms(1) eq(5) unfolding mem_inv_def by blast+
  next
    fix i b assume b: "mc_blocks c i = Some b"
    show "wb_ID b = i" "wround b \<le> mc_maxr c" "mc_weights c' i \<noteq> None" "mc_weights c' (wprev b) \<noteq> None"
      using mem_invD [OF assms(1) b] w by simp_all
    show "i \<noteq> mc_genesis c \<Longrightarrow> voted c (wround b) (vt_Voter (wb_Vote b))"
      "i \<noteq> mc_genesis c \<Longrightarrow> \<exists>p. mc_blocks c (wprev b) = Some p \<and> wround p < wround b"
      using mem_invD(5,6) [OF assms(1) b] by simp_all
  qed (use assms(3) mem_inv_once [OF assms(1)] assms(1) in \<open>auto simp: mem_inv_def\<close>)
qed

lemma select_rounds_ok:
  assumes "perm_sort env"
  shows "mem_inv c \<Longrightarrow> mc_maxr c \<noteq> - 1 \<Longrightarrow>
    \<exists>c'. select_rounds env rn c tipw = Some (Ok c') \<and> mem_inv c' \<and> same_blocks c c'"
proof (induction "unat (mc_maxr c) + 1 - unat rn" arbitrary: rn c tipw rule: less_induct)
  case less
  show ?case
  proof (cases "rn \<le> mc_maxr c")
    case True
    have "rn \<noteq> - 1" using True less.prems(2) word_order.extremum_unique by blast
    then have u: "unat (rn + 1) = unat rn + 1" "unat rn \<le> unat (mc_maxr c)"
      using True unat_Suc_u64 by (simp_all add: word_le_nat_alt)
    show ?thesis
    proof (cases "mc_rounds c rn")
      case None
      have "\<exists>c'. select_rounds env (rn + 1) c tipw = Some (Ok c') \<and> mem_inv c' \<and> same_blocks c c'"
        using u less.prems by (intro less.hyps) simp_all
      then show ?thesis using True None by (subst select_rounds.simps) simp
    next
      case (Some bids)
      let ?s = "sort_round env c bids"
      let ?c = "c\<lparr>mc_rounds := (mc_rounds c)(rn \<mapsto> ?s)\<rparr>"
      have ms: "mset ?s = mset bids" using assms by (rule sort_round_mset)
      then have ss: "set ?s = set bids" "distinct ?s = distinct bids" by (metis set_mset_mset, metis mset_eq_imp_distinct_iff)
      have bl: "distinct bids" "\<forall>i \<in> set bids. \<exists>b. mc_blocks c i = Some b \<and> wround b = rn"
        using mem_inv_round [OF less.prems(1) Some] by blast+
      have inv: "mem_inv ?c"
        by (rule mem_inv_same [OF less.prems(1)])
          (use ss bl mem_inv_round [OF less.prems(1)] in \<open>auto simp: same_blocks_def split: if_splits\<close>)
      have "\<forall>i \<in> set ?s. \<exists>b. mc_blocks ?c i = Some b \<and> mc_weights ?c (wprev b) \<noteq> None"
      proof
        fix i assume "i \<in> set ?s"
        then obtain b where "mc_blocks c i = Some b" using ss bl by blast
        then show "\<exists>b. mc_blocks ?c i = Some b \<and> mc_weights ?c (wprev b) \<noteq> None"
          using mem_invD(3) [OF less.prems(1)] by simp
      qed
      then obtain c1 w1 where sb: "select_blocks 0 ?s ?c tipw = Ok (c1, w1)" "same_blocks ?c c1" "mc_rounds c1 = mc_rounds ?c"
        using select_blocks_ok by metis
      have inv1: "mem_inv c1"
        by (rule mem_inv_same [OF inv sb(2)]) (use sb(3) mem_inv_round [OF inv] in auto)
      have st: "same_blocks c c1" using sb(2) by (simp add: same_blocks_def)
      then have mr: "mc_maxr c1 = mc_maxr c" by (simp add: same_blocks_def)
      obtain c' where "select_rounds env (rn + 1) c1 w1 = Some (Ok c')" "mem_inv c'" "same_blocks c1 c'"
        using less.hyps [of c1 "rn + 1" w1] u inv1 mr less.prems(2) by (auto simp: Suc_diff_le)
      moreover have "\<not> (\<exists>i \<in> set bids. mc_blocks c i = None)" using bl(2) by auto
      ultimately show ?thesis using True Some sb(1) st same_blocks_trans
        by (subst select_rounds.simps) (auto simp: Let_def)
    qed
  next
    case False
    then show ?thesis using less.prems by (subst select_rounds.simps) simp
  qed
qed

text \<open>Verification that succeeds leaves the block as it was.\<close>

lemma VerifyCheap_ok: "VerifyCheap env b = (None, b1) \<Longrightarrow> b1 = b \<and> 0 < wround b"
  by (auto simp: VerifyCheap_def verifyBlockID_def Let_def word_gt_0 split: bool.splits prod.splits if_splits)

lemma verify_witnesses_ok: "verify_witnesses env v p ws = (None, ws') \<Longrightarrow> ws' = ws"
  by (induction env v p ws arbitrary: ws' rule: verify_witnesses.induct)
    (auto simp: Vote_Verify_def Let_def split: bool.splits prod.splits if_splits)

lemma VerifyAgainstPrev_ok:
  "VerifyAgainstPrev env b pv tok = (None, b1) \<Longrightarrow> b1 = b \<and> vt_Round pv < wround b \<and> vt_Timestamp pv < vt_Timestamp (wb_Vote b)"
  by (auto simp: VerifyAgainstPrev_def not_le split: if_splits prod.splits dest: verify_witnesses_ok)

lemma verify_transfers_ok:
  "verify_transfers env rnd utro ttl trs = (None, trs') \<Longrightarrow>
   trs' = trs \<and> (\<forall>tr \<in> set trs. Tr_Verify env tr False rnd utro ttl = (None, tr))"
  by (induction env rnd utro ttl trs arbitrary: trs' rule: verify_transfers.induct)
    (auto split: prod.splits option.splits dest: Tr_Verify_ok(1))

lemma VerifyAgainstUTRO_ok:
  assumes "VerifyAgainstUTRO env b utro p = (None, b1)"
  shows "b1 = b \<and> (\<exists>dep. UTRO_Get utro (vt_Deposit (wb_Vote b)) = Some dep \<and> UsableDepositFor dep (wround b) (MaxDepositTTL p) = None \<and>
      to_Receiver dep = vt_Voter (wb_Vote b) \<and>
      we_thr env (to_Amount dep) (Deposited utro (wround b) (MaxDepositTTL p)) (wb_TicketToken b)) \<and>
    (\<forall>tr \<in> set (wb_Transfers b). Tr_Verify env tr False (wround b) utro (MaxDepositTTL p) = (None, tr))"
  using assms
  by (auto simp: VerifyAgainstUTRO_def Let_def split: option.splits if_splits prod.splits dest: verify_transfers_ok)

lemma writeBlock_inv:
  assumes inv: "mem_inv c" and new: "mc_blocks c (wb_ID b) = None" "\<not> voted c (wround b) (vt_Voter (wb_Vote b))"
    and pv: "mc_blocks c (wprev b) = Some p" "wround p < wround b"
  shows "mem_inv (writeBlock c b)" "mc_genesis (writeBlock c b) = mc_genesis c" "mc_params (writeBlock c b) = mc_params c"
    "mc_blocks (writeBlock c b) = (mc_blocks c)(wb_ID b \<mapsto> b)"
    "mc_maxr (writeBlock c b) \<in> {mc_maxr c, wround b}"
proof -
  let ?c = "writeBlock c b"
  show sel: "mc_genesis ?c = mc_genesis c" "mc_params ?c = mc_params c" "mc_blocks ?c = (mc_blocks c)(wb_ID b \<mapsto> b)"
    "mc_maxr ?c \<in> {mc_maxr c, wround b}"
    by (simp_all add: writeBlock_def Let_def)
  have w: "mc_weights ?c = (mc_weights c)(wb_ID b \<mapsto> 0)" "mc_tip ?c = mc_tip c" by (simp_all add: writeBlock_def Let_def)
  have maxr: "mc_maxr c \<le> mc_maxr ?c" "wround b \<le> mc_maxr ?c"
    using inv unfolding mem_inv_def writeBlock_def Let_def by (auto simp: not_less)
  have vt: "voted ?c r pk \<longleftrightarrow> voted c r pk \<or> r = wround b \<and> pk = vt_Voter (wb_Vote b)" for r pk
    by (auto simp: voted_def writeBlock_def Let_def split: option.splits)
  have gen: "wb_ID b \<noteq> mc_genesis c" using inv new(1) unfolding mem_inv_def by auto
  have rounds: "distinct ids \<and> (\<forall>i \<in> set ids. \<exists>b'. mc_blocks ?c i = Some b' \<and> wround b' = r)" if "mc_rounds ?c r = Some ids" for r ids
    using that mem_inv_round [OF inv] new(1) unfolding sel
    by (fastforce simp: writeBlock_def Let_def split: if_splits option.splits)
  show "mem_inv ?c"
    unfolding mem_inv_def
  proof (intro conjI allI impI)
    show "mc_blocks ?c (mc_genesis ?c) \<noteq> None" "mc_blocks ?c (mc_tip ?c) \<noteq> None"
      using inv unfolding mem_inv_def by (simp_all add: sel w)
    fix i b' assume b': "mc_blocks ?c i = Some b'"
    then have or: "i = wb_ID b \<and> b' = b \<or> mc_blocks c i = Some b'" by (auto simp: sel split: if_splits)
    show "wb_ID b' = i" using or mem_invD(1) [OF inv] by auto
    show "mc_weights ?c i \<noteq> None" using or mem_invD(2) [OF inv] by (auto simp: w)
    show "mc_weights ?c (wprev b') \<noteq> None" using or mem_invD(2) [OF inv pv(1)] mem_invD(3) [OF inv] by (auto simp: w)
    show "wround b' \<le> mc_maxr ?c" using or mem_invD(4) [OF inv] maxr by (auto intro: order_trans)
    assume "i \<noteq> mc_genesis ?c"
    then have ng: "i \<noteq> mc_genesis c" by (simp add: sel)
    show "voted ?c (wround b') (vt_Voter (wb_Vote b'))" using or ng mem_invD(5) [OF inv] by (auto simp: vt)
    show "\<exists>p. mc_blocks ?c (wprev b') = Some p \<and> wround p < wround b'"
    proof (cases "mc_blocks c i = Some b'")
      case True
      then obtain q where "mc_blocks c (wprev b') = Some q" "wround q < wround b'" using mem_invD(6) [OF inv True ng] by blast
      then show ?thesis using new(1) by (auto simp: sel)
    qed (use or pv new(1) in \<open>auto simp: sel\<close>)
    fix j b'' assume b'': "mc_blocks ?c j = Some b''" and "j \<noteq> mc_genesis ?c" "wround b' = wround b''"
      "vt_Voter (wb_Vote b') = vt_Voter (wb_Vote b'')"
    moreover from this have "j = wb_ID b \<and> b'' = b \<or> mc_blocks c j = Some b''" by (auto simp: sel split: if_splits)
    ultimately show "i = j" using or ng new(2) mem_inv_once [OF inv] mem_invD(5) [OF inv] by (metis sel(1))
  next
    fix r ids assume r: "mc_rounds ?c r = Some ids"
    show "distinct ids" "\<forall>i \<in> set ids. \<exists>b. mc_blocks ?c i = Some b \<and> wround b = r" using rounds [OF r] by blast+
  next
    fix r assume "mc_idns ?c r \<noteq> None"
    then have "r = wround b \<or> mc_idns c r \<noteq> None" by (auto simp: writeBlock_def Let_def split: if_splits)
    then show "r \<le> mc_maxr ?c" using mem_inv_idns [OF inv, of r] maxr by (auto intro: order_trans)
  qed
qed

text \<open>Appending: what was checked, what is kept, and that every call returns without a panic.\<close>

definition append_passed :: "wenv \<Rightarrow> MemChain \<Rightarrow> WBlock \<Rightarrow> WBlock \<Rightarrow> UTRO \<Rightarrow> bool" where
  "append_passed env c b p utro \<longleftrightarrow>
     VerifyCheap env b = (None, b) \<and> mc_blocks c (wb_ID b) = None \<and> mc_blocks c (wprev b) = Some p \<and>
     VerifyAgainstPrev env b (wb_Vote p) (wb_TicketToken p) = (None, b) \<and>
     \<not> voted c (wround b) (vt_Voter (wb_Vote b)) \<and> indexUTRO c (wprev b) = Some utro \<and>
     VerifyAgainstUTRO env b utro (mc_params c) = (None, b)"

lemma append_passed_inv:
  assumes "mem_inv c" "append_passed env c b p utro"
  shows "mem_inv (writeBlock c b)" "mc_blocks (writeBlock c b) = (mc_blocks c)(wb_ID b \<mapsto> b)"
    "mc_genesis (writeBlock c b) = mc_genesis c" "mc_maxr (writeBlock c b) \<in> {mc_maxr c, wround b}"
    "mc_params (writeBlock c b) = mc_params c"
  using writeBlock_inv [OF assms(1), of b p] assms(2) unfolding append_passed_def by (auto dest: VerifyAgainstPrev_ok)

lemma append_passed_eq:
  assumes "mem_inv c" "append_passed env c b p utro"
  shows "MemChain_Append env c b = selectLongestChain env (writeBlock c b) (wround b)"
proof -
  have "wb_ID p = wprev b" using mem_invD(1) [OF assms(1)] assms(2) unfolding append_passed_def by blast
  then show ?thesis using assms(2) by (simp add: append_passed_def MemChain_Append_def)
qed

lemma MemChain_Append_cases:
  assumes "mem_inv c"
  obtains (refused) e where "MemChain_Append env c b = Some (Err e)"
  | (passed) p utro where "append_passed env c b p utro"
      "MemChain_Append env c b = selectLongestChain env (writeBlock c b) (wround b)"
proof -
  obtain r1 b1 where v1: "VerifyCheap env b = (r1, b1)" by (cases "VerifyCheap env b")
  show ?thesis
  proof (cases "r1 = None \<and> mc_blocks c (wb_ID b1) = None \<and> mc_blocks c (wprev b1) \<noteq> None")
    case False
    then have "\<exists>e. MemChain_Append env c b = Some (Err e)"
      using v1 by (cases r1; cases "mc_blocks c (wb_ID b1)"; cases "mc_blocks c (wprev b1)") (simp_all add: MemChain_Append_def)
    then show ?thesis using refused by blast
  next
    case True
    then have b1: "b1 = b" using v1 VerifyCheap_ok by blast
    from True b1 obtain p where p: "mc_blocks c (wprev b) = Some p" by blast
    have pid: "wb_ID p = wprev b" using mem_invD(1) [OF assms p] .
    obtain r2 b2 where v2: "VerifyAgainstPrev env b (wb_Vote p) (wb_TicketToken p) = (r2, b2)"
      by (cases "VerifyAgainstPrev env b (wb_Vote p) (wb_TicketToken p)")
    obtain utro where u: "indexUTRO c (wprev b) = Some utro" using indexUTRO_total [OF assms] by blast
    obtain r3 b3 where v3: "VerifyAgainstUTRO env b utro (mc_params c) = (r3, b3)"
      by (cases "VerifyAgainstUTRO env b utro (mc_params c)")
    show ?thesis
    proof (cases "r2 = None \<and> \<not> voted c (wround b) (vt_Voter (wb_Vote b)) \<and> r3 = None")
      case ok: True
      then have b23: "b2 = b" "b3 = b" using v2 v3 VerifyAgainstPrev_ok VerifyAgainstUTRO_ok by blast+
      show ?thesis
      proof (rule passed)
        show "append_passed env c b p utro"
          using v1 True b1 p v2 ok b23 u v3 by (simp add: append_passed_def)
        then show "MemChain_Append env c b = selectLongestChain env (writeBlock c b) (wround b)"
          by (rule append_passed_eq [OF assms])
      qed
    next
      case bad: False
      have "r2 = None \<Longrightarrow> b2 = b" using v2 VerifyAgainstPrev_ok by blast
      then have "\<exists>e. MemChain_Append env c b = Some (Err e)"
        using v1 True b1 p v2 u v3 pid bad
        by (cases r2; cases r3; cases "voted c (wround b) (vt_Voter (wb_Vote b))") (simp_all add: MemChain_Append_def)
      then show ?thesis using refused by blast
    qed
  qed
qed

lemma selectLongestChain_ok:
  "perm_sort env \<Longrightarrow> mem_inv c \<Longrightarrow> mc_maxr c \<noteq> - 1 \<Longrightarrow>
   \<exists>c'. selectLongestChain env c n = Some (Ok c') \<and> mem_inv c' \<and> same_blocks c c'"
  unfolding selectLongestChain_def by (rule select_rounds_ok)

text \<open>The chains that appending yields. A new chain has no deposits; \<open>funded\<close> puts transfers into its
  genesis block, the way the tests of the package set a chain up.\<close>

definition funded :: "wenv \<Rightarrow> WIdentity \<Rightarrow> Params \<Rightarrow> Tr list \<Rightarrow> MemChain" where
  "funded env god p trs =
     (let c = NewMemChain env god p; gen = GenesisBlock env (GenesisTicket p) god
      in c\<lparr>mc_blocks := [wb_ID gen \<mapsto> gen\<lparr>wb_Transfers := trs\<rparr>]\<rparr>)"

inductive grown :: "wenv \<Rightarrow> MemChain \<Rightarrow> MemChain \<Rightarrow> bool" for env c0 where
  start: "grown env c0 c0"
| append: "grown env c0 c \<Longrightarrow> MemChain_Append env c b = Some (Ok c') \<Longrightarrow> grown env c0 c'"

inductive_simps grown_append_simps: "grown env c0 c"

lemma genesis_fields: "wround (GenesisBlock env t god) = 0" "wprev (GenesisBlock env t god) = zeros 32"
  "wb_Transfers (GenesisBlock env t god) = []"
  by (simp_all add: GenesisBlock_def SignBlock_def signVote_def drawTicket_def WBlock_cleared_def zero_block_def zero_vote_def
      split_beta Let_def)

lemma funded_inv: "mem_inv (funded env god p trs)"
  by (simp add: mem_inv_def funded_def NewMemChain_def Let_def genesis_fields)

lemma NewMemChain_funded: "NewMemChain env god p = funded env god p []"
proof -
  have "(GenesisBlock env t god)\<lparr>wb_Transfers := []\<rparr> = GenesisBlock env t god" for t
    by (intro WBlock.equality) (simp_all add: genesis_fields)
  then show ?thesis by (simp add: funded_def NewMemChain_def Let_def)
qed

text \<open>A selection that returns has not met the largest round number: the counter would wrap.\<close>

lemma select_blocks_maxr: "select_blocks k bids c tipw = Ok (c', w) \<Longrightarrow> mc_maxr c' = mc_maxr c"
  by (induction k bids c tipw rule: select_blocks.induct) (auto simp: Let_def split: option.splits if_splits)

lemma select_rounds_maxr:
  assumes "select_rounds env rn c tipw = Some (Ok c')"
  shows "mc_maxr c \<noteq> - 1"
proof -
  let ?P = "\<lambda>env rn c tipw r. \<forall>c'. r = (Ok c' :: (wall_error, MemChain) res) \<longrightarrow> mc_maxr c \<noteq> - 1"
  have "?P env rn c tipw (Ok c')"
  proof (rule select_rounds.raw_induct [where P = ?P, OF _ assms])
    fix W env rn c tipw r
    assume ih: "\<And>env rn c tipw r. W env rn c tipw = Some r \<Longrightarrow> ?P env rn c tipw r"
      and body: "(if rn \<le> mc_maxr c
        then (case mc_rounds c rn of None \<Rightarrow> W env (rn + 1) c tipw
            | Some bids \<Rightarrow> if \<exists>i \<in> set bids. mc_blocks c i = None then Some Panic
                else let sorted = sort_round env c bids
                  in (case select_blocks 0 sorted (c\<lparr>mc_rounds := (mc_rounds c)(rn \<mapsto> sorted)\<rparr>) tipw of
                        Ok (c1, tipw1) \<Rightarrow> W env (rn + 1) c1 tipw1 | Err e \<Rightarrow> Some (Err e) | Panic \<Rightarrow> Some Panic))
        else Some (Ok c)) = Some r"
    show "?P env rn c tipw r"
    proof (cases "rn \<le> mc_maxr c")
      case False
      then show ?thesis by auto
    next
      case True
      show ?thesis
      proof (cases "mc_rounds c rn")
        case None
        then show ?thesis using body True ih by auto
      next
        case (Some bids)
        show ?thesis
        proof (intro allI impI)
          fix c' assume "r = Ok c'"
          with body True Some obtain c1 w1 where
            sb: "select_blocks 0 (sort_round env c bids) (c\<lparr>mc_rounds := (mc_rounds c)(rn \<mapsto> sort_round env c bids)\<rparr>) tipw = Ok (c1, w1)"
            "W env (rn + 1) c1 w1 = Some (Ok c')"
            by (auto simp: Let_def split: if_splits res.splits prod.splits)
          then show "mc_maxr c \<noteq> - 1" using ih [OF sb(2)] select_blocks_maxr [OF sb(1)] by simp
        qed
      qed
    qed
  qed
  then show ?thesis by simp
qed

lemma append_keeps:
  assumes "perm_sort env" "mem_inv c" "MemChain_Append env c b = Some (Ok c')"
  obtains p utro where "append_passed env c b p utro" "mem_inv c'" "mc_genesis c' = mc_genesis c"
    "mc_blocks c' = (mc_blocks c)(wb_ID b \<mapsto> b)"
  using assms(2)
proof (cases rule: MemChain_Append_cases [of c env b])
  case (passed p utro)
  note w = append_passed_inv [OF assms(2) passed(1)]
  have sel: "selectLongestChain env (writeBlock c b) (wround b) = Some (Ok c')" using passed(2) assms(3) by simp
  have "mc_maxr (writeBlock c b) \<noteq> - 1" using select_rounds_maxr sel unfolding selectLongestChain_def by blast
  from selectLongestChain_ok [OF assms(1) w(1) this, of "wround b"] have
    "mem_inv c'" "same_blocks (writeBlock c b) c'" using sel by auto
  then show ?thesis using that [OF passed(1)] w unfolding same_blocks_def by auto
qed (use assms(3) in simp)

lemma grown_inv:
  assumes "perm_sort env" "mem_inv c0" "grown env c0 c"
  shows "mem_inv c \<and> mc_genesis c = mc_genesis c0 \<and>
    (\<forall>i. mc_blocks c0 i \<noteq> None \<longrightarrow> mc_blocks c i = mc_blocks c0 i)"
  using assms(3)
proof (induction rule: grown.induct)
  case (append c b c')
  then have inv: "mem_inv c" by blast
  obtain p utro where "append_passed env c b p utro" "mem_inv c'" "mc_genesis c' = mc_genesis c"
    "mc_blocks c' = (mc_blocks c)(wb_ID b \<mapsto> b)"
    using append_keeps [OF assms(1) inv append.hyps(2)] by metis
  then show ?case using append.IH by (auto simp: append_passed_def)
qed (use assms(2) in simp)

section \<open>The index of unspent outputs implements spending in order\<close>

abbreviation outs_map :: "Tr \<Rightarrow> OID \<rightharpoonup> TrOut" where
  "outs_map tr \<equiv> map_of (put_outputs [] (tr_ID tr) 0 (tr_Outputs tr))"

lemma put_outputs_add: "map_of (put_outputs u t i outs) = map_of u ++ map_of (put_outputs [] t i outs)"
proof (induction outs arbitrary: u i)
  case (Cons out outs)
  let ?p = "map_of (put_outputs [] t (i + 1) outs)"
  have step: "map_of (put_outputs v t i (out # outs)) = map_of (UTRO_Put v (Ref t i) out) ++ ?p" for v
    by (subst put_outputs.simps) (rule Cons.IH)
  have "map_of (UTRO_Put u (Ref t i) out) = map_of u ++ map_of (UTRO_Put [] (Ref t i) out)"
    by (simp add: UTRO_Put_def update_conv')
  then show ?case unfolding step by (simp only: map_add_assoc)
qed simp

lemma index_outputs_add:
  "map_of (index_outputs t i outs sp u) = map_of u ++ (map_of (put_outputs [] t i outs) |` (- set sp))"
proof (induction outs arbitrary: u i)
  case (Cons out outs)
  let ?u = "if Ref t i \<in> set sp then u else UTRO_Put u (Ref t i) out"
  have "map_of (index_outputs t i (out # outs) sp u) = map_of ?u ++ (map_of (put_outputs [] t (i + 1) outs) |` (- set sp))"
    using Cons.IH by simp
  moreover have "map_of (put_outputs [] t i (out # outs)) = map_of (UTRO_Put [] (Ref t i) out) ++ map_of (put_outputs [] t (i + 1) outs)"
    by (simp add: put_outputs_add [of "UTRO_Put [] (Ref t i) out"])
  ultimately show ?case
    by (auto simp: fun_eq_iff map_add_def restrict_map_def UTRO_Put_def update_conv split: option.splits)
qed simp

lemma spend_map: "map_of (spend u tr) i = (if i \<in> set (tr_Inputs tr) then None else (map_of u ++ outs_map tr) i)"
proof -
  have "map_of (fold (\<lambda>i u. UTRO_Del u i) ins v) i = (if i \<in> set ins then None else map_of v i)" for ins v
    by (induction ins arbitrary: v) (auto simp: UTRO_Del_def delete_conv')
  then show ?thesis unfolding spend_def using put_outputs_add [of u] by simp
qed

lemma index_transfer_map:
  "index_transfer tr (u, sp) = (u', sp') \<Longrightarrow>
   sp' = tr_Inputs tr @ sp \<and> map_of u' = map_of u ++ (outs_map tr |` (- set (tr_Inputs tr @ sp)))"
  using index_outputs_add by (auto simp: index_transfer_def Let_def)

lemma index_from:
  "map_of (fst (fold index_transfer rs (u, sp))) i =
     (if i \<in> set sp then map_of u i
      else (map_of u ++ map_of (fst (fold index_transfer rs ([], [])))) i)"
proof (induction rs arbitrary: u sp)
  case (Cons r rs)
  obtain u1 sp1 where a: "index_transfer r (u, sp) = (u1, sp1)" by (cases "index_transfer r (u, sp)")
  obtain u2 sp2 where b: "index_transfer r ([], []) = (u2, sp2)" by (cases "index_transfer r ([], [])")
  show ?case
    using index_transfer_map [OF a] index_transfer_map [OF b] Cons.IH [of u1 sp1] Cons.IH [of u2 sp2] a b
    by (auto simp: map_add_def restrict_map_def split: option.splits)
qed simp

text \<open>The references of the outputs of earlier transfers are not used again.\<close>

fun fresh_outputs :: "Tr list \<Rightarrow> bool" where
  "fresh_outputs [] \<longleftrightarrow> True"
| "fresh_outputs (tr # trs) \<longleftrightarrow> (\<forall>t \<in> set trs. dom (outs_map tr) \<inter> dom (outs_map t) = {}) \<and> fresh_outputs trs"

lemma fresh_outputs_snoc:
  "fresh_outputs (trs @ [tr]) \<longleftrightarrow> fresh_outputs trs \<and> (\<forall>t \<in> set trs. dom (outs_map t) \<inter> dom (outs_map tr) = {})"
  by (induction trs) auto

lemma spend_dom: "dom (map_of (fold (\<lambda>tr u. spend u tr) trs [])) \<subseteq> (\<Union>t \<in> set trs. dom (outs_map t))"
proof (induction trs rule: rev_induct)
  case (snoc tr trs)
  have "dom (map_of (spend u tr)) \<subseteq> dom (map_of u) \<union> dom (outs_map tr)" for u
  proof
    fix i assume "i \<in> dom (map_of (spend u tr))"
    then have "(map_of u ++ outs_map tr) i \<noteq> None" by (auto simp: domIff spend_map split: if_splits)
    then show "i \<in> dom (map_of u) \<union> dom (outs_map tr)"
      by (cases "outs_map tr i") (auto simp: domIff map_add_def)
  qed
  from this [of "fold (\<lambda>tr u. spend u tr) trs []"] snoc.IH show ?case
    by (simp del: dom_map_of_conv_image_fst) blast
qed simp

lemma index_spends:
  "fresh_outputs trs \<Longrightarrow> map_of (fst (fold index_transfer (rev trs) ([], []))) = map_of (fold (\<lambda>tr u. spend u tr) trs [])"
proof (induction trs rule: rev_induct)
  case (snoc tr trs)
  let ?F = "fold (\<lambda>tr u. spend u tr) trs []"
  obtain u1 sp1 where a: "index_transfer tr ([], []) = (u1, sp1)" by (cases "index_transfer tr ([], [])")
  have ih: "map_of (fst (fold index_transfer (rev trs) ([], []))) = map_of ?F"
    using snoc by (simp add: fresh_outputs_snoc)
  have disj: "dom (map_of ?F) \<inter> dom (outs_map tr) = {}"
    using spend_dom [of trs] snoc.prems unfolding fresh_outputs_snoc by blast
  have "map_of (fst (fold index_transfer (rev trs) (u1, sp1))) i = map_of (spend ?F tr) i" for i
  proof -
    have u1: "sp1 = tr_Inputs tr" "map_of u1 = outs_map tr |` (- set (tr_Inputs tr))" using index_transfer_map [OF a] by simp_all
    show ?thesis
    proof (cases "i \<in> set (tr_Inputs tr)")
      case True
      then show ?thesis using index_from [of "rev trs" u1 sp1 i] u1 by (simp add: spend_map)
    next
      case False
      then have "map_of (fst (fold index_transfer (rev trs) (u1, sp1))) i = (map_of u1 ++ map_of ?F) i"
        using index_from [of "rev trs" u1 sp1 i] u1(1) ih by simp
      also have "\<dots> = (outs_map tr ++ map_of ?F) i" using False u1(2) by (simp add: map_add_def restrict_map_def)
      also have "outs_map tr ++ map_of ?F = map_of ?F ++ outs_map tr" using disj by (intro map_add_comm) blast
      finally show ?thesis using False by (simp add: spend_map)
    qed
  qed
  then have "map_of (fst (fold index_transfer (rev trs) (u1, sp1))) = map_of (spend ?F tr)" ..
  then show ?case using a by simp
qed simp

text \<open>The blocks of the chain that ends in a block, the genesis first: a walk that collects them.\<close>

definition ancestry :: "MemChain \<Rightarrow> BID \<Rightarrow> WBlock list" where
  "ancestry c i = snd (the (MemChain_walk c (\<lambda>b bs. (None, b # bs)) i []))"

lemma walk_step:
  "mc_blocks c i = Some b \<Longrightarrow> MemChain_walk c (\<lambda>b a. (None, f b a)) i x =
     (if i = mc_genesis c then Some (None, f b x) else MemChain_walk c (\<lambda>b a. (None, f b a)) (wprev b) (f b x))"
  by (subst MemChain_walk.simps) simp

lemma walk_folds:
  assumes "mem_inv c"
  shows "\<exists>e bs. (\<forall>xs. MemChain_walk c (\<lambda>b bs. (None, b # bs)) i xs = Some (e, rev bs @ xs)) \<and>
    (\<forall>a. MemChain_walk c (\<lambda>b a. (None, g b a)) i a = Some (e, fold g bs a))"
proof (cases "mc_blocks c i")
  case None
  then show ?thesis
    by (intro exI [of _ "Some ErrBlockNotExist"] exI [of _ "[]"]) (subst (1 2) MemChain_walk.simps, simp)
next
  case (Some b)
  then show ?thesis
  proof (induction "unat (wround b)" arbitrary: i b rule: less_induct)
    case less
    note st = walk_step [OF less.prems]
    show ?case
    proof (cases "i = mc_genesis c")
      case True
      then show ?thesis by (intro exI [of _ None] exI [of _ "[b]"]) (simp add: st [unfolded True])
    next
      case False
      then obtain p where p: "mc_blocks c (wprev b) = Some p" "wround p < wround b"
        using mem_invD(6) [OF assms less.prems] by blast
      then obtain e bs where ih: "\<And>xs. MemChain_walk c (\<lambda>b bs. (None, b # bs)) (wprev b) xs = Some (e, rev bs @ xs)"
        "\<And>a. MemChain_walk c (\<lambda>b a. (None, g b a)) (wprev b) a = Some (e, fold g bs a)"
        using less.hyps [OF _ p(1)] by (metis word_less_nat_alt)
      show ?thesis using False by (intro exI [of _ e] exI [of _ "b # bs"]) (simp add: st ih)
    qed
  qed
qed

lemma indexUTRO_fold:
  assumes "mem_inv c"
  shows "indexUTRO c i = Some (fst (fold index_transfer (rev (concat (map wb_Transfers (ancestry c i)))) ([], [])))"
proof -
  let ?g = "\<lambda>b a. fold index_transfer (rev (wb_Transfers b)) a"
  obtain e bs where w: "MemChain_walk c (\<lambda>b bs. (None, b # bs)) i [] = Some (e, rev bs)"
    "MemChain_walk c (\<lambda>b a. (None, ?g b a)) i (NewUTRO, []) = Some (e, fold ?g bs (NewUTRO, []))"
    using walk_folds [OF assms, of i ?g] by (metis append_Nil2)
  have an: "ancestry c i = rev bs" using w(1) by (simp add: ancestry_def)
  have vis: "(\<lambda>b a. (None, ?g b a)) = index_visitor" by (simp add: index_visitor_def fun_eq_iff)
  have "fold index_transfer (rev (concat (map wb_Transfers (rev bs)))) a = fold ?g bs a" for a
    by (induction bs arbitrary: a) simp_all
  then show ?thesis using w(2) unfolding vis indexUTRO_def an by (simp add: NewUTRO_def)
qed

section \<open>An example\<close>

definition ex_params :: Params where
  "ex_params = \<lparr>MaxDepositTTL = 100, GenesisTicket = [1], WeightPoints = 100\<rparr>"

definition ex_deposit_tr :: Tr where
  "ex_deposit_tr = \<lparr>tr_Inputs = [], tr_Outputs = [\<lparr>to_Amount = 5, to_Receiver = [9], to_IsDeposit = True, to_UnlocksAfter = 50\<rparr>],
     tr_Sender = [9], tr_Proof = [], tr_ID = [7]\<rparr>"

definition ex_wchain :: MemChain where
  "ex_wchain = funded ex_wenv ex_idn ex_params [ex_deposit_tr]"

definition ex_wblock :: WBlock where
  "ex_wblock = SignBlock ex_wenv ex_idn (zero_block\<lparr>wb_Vote := zero_vote\<lparr>vt_Round := 1, vt_Prev := mc_genesis ex_wchain,
     vt_Deposit := Ref [7] 0, vt_Timestamp := 1\<rparr>\<rparr>) [1]"

lemmas sign_defs = SignBlock_def signVote_def drawTicket_def WBlock_cleared_def zero_block_def zero_vote_def

lemma ex_vrf: "vrf_ok ex_wenv (wi_pk ex_idn) (wi_sk ex_idn)"
  by (simp add: vrf_ok_def ex_wenv_def)

lemma ex_wchain_blocks:
  "mc_blocks ex_wchain = [mc_genesis ex_wchain \<mapsto> (GenesisBlock ex_wenv [1] ex_idn)\<lparr>wb_Transfers := [ex_deposit_tr]\<rparr>]"
  "mc_genesis ex_wchain = wb_ID (GenesisBlock ex_wenv [1] ex_idn)" "mc_params ex_wchain = ex_params"
  "mc_idns ex_wchain = Map.empty" "mc_maxr ex_wchain = 0"
  by (simp_all add: ex_wchain_def funded_def NewMemChain_def Let_def ex_params_def)

lemma ex_wblock_fields:
  "wround ex_wblock = 1" "wprev ex_wblock = mc_genesis ex_wchain" "vt_Voter (wb_Vote ex_wblock) = [9]"
  "vt_Deposit (wb_Vote ex_wblock) = Ref [7] 0" "vt_Timestamp (wb_Vote ex_wblock) = 1" "wb_Witness ex_wblock = []"
  "wb_Transfers ex_wblock = []"
  by (simp_all add: ex_wblock_def sign_defs ex_wenv_def ex_idn_def Let_def)

lemma ex_wblock_new: "wb_ID ex_wblock \<noteq> mc_genesis ex_wchain"
proof -
  have "length (wb_ID ex_wblock) \<noteq> length (mc_genesis ex_wchain)"
    unfolding ex_wchain_blocks(2) ex_wblock_def GenesisBlock_def
    by (simp add: sign_defs ex_wenv_def ex_idn_def Let_def WBlock_Hash_def Vote_Hash_def Ref_def ex_wchain_blocks(2) GenesisBlock_def)
  then show ?thesis by metis
qed

lemma ex_utro_index: "indexUTRO ex_wchain (mc_genesis ex_wchain) =
    Some [(Ref [7] 0, \<lparr>to_Amount = 5, to_Receiver = [9], to_IsDeposit = True, to_UnlocksAfter = 50\<rparr>)]"
  unfolding indexUTRO_def
  by (subst MemChain_walk.simps) (simp add: ex_wchain_blocks(1) index_visitor_def index_transfer_def ex_deposit_tr_def NewUTRO_def
      UTRO_Put_def Let_def)

lemma ex_append_passed:
  "append_passed ex_wenv ex_wchain ex_wblock ((GenesisBlock ex_wenv [1] ex_idn)\<lparr>wb_Transfers := [ex_deposit_tr]\<rparr>)
     [(Ref [7] 0, \<lparr>to_Amount = 5, to_Receiver = [9], to_IsDeposit = True, to_UnlocksAfter = 50\<rparr>)]"
proof -
  have tok: "wb_TicketToken (GenesisBlock ex_wenv [1] ex_idn) = [1]" "vt_Timestamp (wb_Vote (GenesisBlock ex_wenv [1] ex_idn)) = 0"
    by (simp_all add: GenesisBlock_def sign_defs ex_wenv_def Let_def)
  have thr: "we_thr ex_wenv a t k" for a t k by (simp add: ex_wenv_def)
  have cheap: "VerifyCheap ex_wenv ex_wblock = (None, ex_wblock)"
    unfolding ex_wblock_def by (rule SignBlock_verifies(1) [OF ex_vrf]) (simp_all add: zero_vote_def)
  have "verifyTicket ex_wenv ex_wblock [1]" unfolding ex_wblock_def by (rule SignBlock_verifies(2) [OF ex_vrf])
  moreover have "ex_wblock\<lparr>wb_Witness := []\<rparr> = ex_wblock" "ex_wblock\<lparr>wb_Transfers := []\<rparr> = ex_wblock"
    by (simp_all add: ex_wblock_def sign_defs ex_wenv_def Let_def)
  ultimately show ?thesis
    using cheap ex_wblock_new
    by (simp add: append_passed_def ex_wchain_blocks ex_wblock_fields ex_utro_index [unfolded ex_wchain_blocks(2)] tok VerifyAgainstPrev_def
        VerifyAgainstUTRO_def voted_def genesis_fields UTRO_Get_def UsableDepositFor_def Deposited_def ex_params_def thr word_le_nat_alt word_less_nat_alt Let_def)
qed

lemma ex_perm: "perm_sort ex_wenv"
  by (simp add: perm_sort_def ex_wenv_def)

lemma ex_wchain_inv: "mem_inv ex_wchain"
  unfolding ex_wchain_def by (rule funded_inv)

lemma ex_wall_append: "\<exists>c'. MemChain_Append ex_wenv ex_wchain ex_wblock = Some (Ok c') \<and> mc_blocks c' (wb_ID ex_wblock) = Some ex_wblock"
proof -
  note w = append_passed_inv [OF ex_wchain_inv ex_append_passed]
  have "mc_maxr (writeBlock ex_wchain ex_wblock) \<noteq> - 1" using w(4) by (auto simp: ex_wchain_blocks ex_wblock_fields)
  from selectLongestChain_ok [OF ex_perm w(1) this, of "wround ex_wblock"] show ?thesis
    using append_passed_eq [OF ex_wchain_inv ex_append_passed] w(2) unfolding same_blocks_def by auto
qed

section \<open>Properties\<close>

text \<open>C12. \<open>indexUTRO\<close>, which walks from a block back to the genesis with a set of spent references,
  yields exactly the outputs that remain when all transfers of that chain are spent in order
  from the genesis, provided no reference is used for two outputs.\<close>

theorem index_utro_refines_spending:
  assumes "mem_inv c" "fresh_outputs (concat (map wb_Transfers (ancestry c i)))"
  shows "\<exists>utro. indexUTRO c i = Some utro \<and>
    UTRO_Get utro = map_of (fold (\<lambda>tr u. spend u tr) (concat (map wb_Transfers (ancestry c i))) NewUTRO)"
  using indexUTRO_fold [OF assms(1)] index_spends [OF assms(2)] by (auto simp: UTRO_Get_def NewUTRO_def fun_eq_iff)

theorem index_utro_refines_spending_witness:
  "\<exists>utro. indexUTRO ex_wchain (mc_genesis ex_wchain) = Some utro \<and>
     UTRO_Get utro = map_of (fold (\<lambda>tr u. spend u tr) [ex_deposit_tr] NewUTRO)"
proof -
  have "ancestry ex_wchain (mc_genesis ex_wchain) = [(GenesisBlock ex_wenv [1] ex_idn)\<lparr>wb_Transfers := [ex_deposit_tr]\<rparr>]"
    unfolding ancestry_def by (subst MemChain_walk.simps) (simp add: ex_wchain_blocks(1))
  then show ?thesis
    using index_utro_refines_spending [OF ex_wchain_inv, of "mc_genesis ex_wchain"] by simp
qed





text \<open>A chain made by \<open>NewMemChain\<close> accepts no block at all: its genesis holds no transfers, so there is
  no deposit a first block could refer to.\<close>

theorem new_chain_refuses:
  "\<exists>e. MemChain_Append env (NewMemChain env god p) b = Some (Err e)"
proof -
  let ?c = "NewMemChain env god p"
  have inv: "mem_inv ?c" unfolding NewMemChain_funded by (rule funded_inv)
  show ?thesis using inv
  proof (cases rule: MemChain_Append_cases [of ?c env b])
    case (passed q utro)
    have gen: "mc_blocks ?c = [mc_genesis ?c \<mapsto> GenesisBlock env (GenesisTicket p) god]"
      by (simp add: NewMemChain_def Let_def)
    have "mc_blocks ?c (wprev b) = Some q" using passed(1) by (simp add: append_passed_def)
    then have "wprev b = mc_genesis ?c" by (simp add: gen split: if_splits)
    moreover have "indexUTRO ?c (mc_genesis ?c) = Some []"
      unfolding indexUTRO_def by (subst MemChain_walk.simps) (simp add: gen index_visitor_def genesis_fields NewUTRO_def)
    ultimately have "utro = []" using passed(1) by (simp add: append_passed_def)
    then have False using passed(1) by (auto simp: append_passed_def VerifyAgainstUTRO_def UTRO_Get_def)
    then show ?thesis ..
  qed blast
qed

end
