(* ===== verification/Tlog.thy ===== *)
theory Tlog
  imports Prelude
begin

unbundle bit_operations_syntax

text \<open>
  The tamper-evident log of \<^verbatim>\<open>src/exp/onl/tlog\<close>: the dense storage order of the hashes of
  a growing Merkle tree, tree hashes, record (inclusion) proofs and tree (consistency) proofs, and
  the file that stores the hashes (\<^verbatim>\<open>storage.go\<close>). The reference is the Merkle tree of RFC 6962,
  which the package comment names: \<open>mth\<close>, \<open>audit_path\<close> and \<open>subproof\<close> are its section 2.1.

  SHA-256 is the parameter \<open>sha\<close>. An \<^verbatim>\<open>int64\<close> is an \<open>int\<close>; where a value can leave the range the
  reduction \<open>i64\<close> is written out (\<open>StoredHashIndex\<close> and the shift in \<open>maxpow2\<close>). The other sums
  need none: \<open>maxpow2\<close> does not return above \<open>2 ^ 62\<close>, so no bound that passes it reaches \<open>2 ^ 63\<close>.
  A result of type \<open>'a run\<close> is \<open>None\<close> when the call does not return.
\<close>

section \<open>Hashes and the split of a tree\<close>

type_synonym hash = bytes

datatype tlog_err = InvalidInputs | ReadCount nat nat | ErrProofFailed | ReaderError string

type_synonym 'a run = "(tlog_err, 'a) res option"

type_synonym hash_reader = "int list \<Rightarrow> (tlog_err, hash list) res"

definition HashSize :: nat where
  "HashSize = 32"

definition zero_hash :: hash where
  "zero_hash = replicate HashSize 0"

definition i64 :: "int \<Rightarrow> int" where
  "i64 x = (x + 2 ^ 63) mod 2 ^ 64 - 2 ^ 63"

partial_function (option) maxpow2_loop :: "int \<Rightarrow> nat \<Rightarrow> (int \<times> int) option" where
  "maxpow2_loop n l =
     (if i64 (2 ^ (l + 1)) < n then maxpow2_loop n (l + 1) else Some (i64 (2 ^ l), int l))"

definition maxpow2 :: "int \<Rightarrow> (int \<times> int) option" where
  "maxpow2 n = maxpow2_loop n 0"

definition RecordHash :: "(bytes \<Rightarrow> hash) \<Rightarrow> bytes \<Rightarrow> hash" where
  "RecordHash sha data = sha (0 # data)"

definition NodeHash :: "(bytes \<Rightarrow> hash) \<Rightarrow> hash \<Rightarrow> hash \<Rightarrow> hash" where
  "NodeHash sha left right = sha (1 # left @ right)"

section \<open>The storage order\<close>

fun index_down :: "nat \<Rightarrow> int \<Rightarrow> int" where
  "index_down 0 n = n"
| "index_down (Suc l) n = index_down l (i64 (2 * n + 1))"

function index_sum :: "int \<Rightarrow> int \<Rightarrow> int" where
  "index_sum i n = (if n > 0 then index_sum (i64 (i + n)) (drop_bit 1 n) else i)"
  by pat_completeness auto
termination
  by (relation "measure (\<lambda>(i, n). nat n)") (auto simp: drop_bit_eq_div)

definition StoredHashIndex :: "int \<Rightarrow> int \<Rightarrow> int" where
  "StoredHashIndex level n = i64 (index_sum 0 (index_down (nat level) n) + level)"

text \<open>\<^verbatim>\<open>bits.TrailingZeros64(uint64(x))\<close>: 64 for zero.\<close>

fun tz_loop :: "nat \<Rightarrow> nat \<Rightarrow> nat" where
  "tz_loop 0 x = 0"
| "tz_loop (Suc f) x = (if odd x then 0 else Suc (tz_loop f (x div 2)))"

definition TrailingZeros64 :: "int \<Rightarrow> nat" where
  "TrailingZeros64 x = tz_loop 64 (nat (x mod 2 ^ 64))"

partial_function (option) split_loop :: "int \<Rightarrow> int \<Rightarrow> int \<Rightarrow> (int \<times> int) option" where
  "split_loop index n indexN =
     (let x = i64 (indexN + 1 + int (TrailingZeros64 (n + 1)))
      in if x > index then Some (n, indexN) else split_loop index (i64 (n + 1)) x)"

definition SplitStoredHashIndex :: "int \<Rightarrow> (int \<times> int) run" where
  "SplitStoredHashIndex index =
     (let n = (if index < 0 then - ((- index) div 2) else index div 2); indexN = StoredHashIndex 0 n
      in if indexN > index then Some Panic
         else case split_loop index n indexN of None \<Rightarrow> None
              | Some (n, indexN) \<Rightarrow>
                  (let level = index - indexN in Some (Ok (level, drop_bit (nat level) n))))"

function count_ones :: "int \<Rightarrow> int \<Rightarrow> int" where
  "count_ones numHash i =
     (if i > 0 \<and> i AND 1 \<noteq> 0 then count_ones (numHash + 1) (drop_bit 1 i) else numHash)"
  by pat_completeness auto
termination
  by (relation "measure (\<lambda>(h, i). nat i)") (auto simp: drop_bit_eq_div)

definition StoredHashCount :: "int \<Rightarrow> int" where
  "StoredHashCount n =
     (if n = 0 then 0 else count_ones (StoredHashIndex 0 (n - 1) + 1) ((n - 1) mod 2 ^ 64))"

definition node_chain :: "(bytes \<Rightarrow> hash) \<Rightarrow> hash list \<Rightarrow> nat \<Rightarrow> hash \<Rightarrow> hash list" where
  "node_chain sha old m h =
     fst (fold (\<lambda>i (hashes, h). let h' = NodeHash sha (old ! (m - 1 - i)) h in (hashes @ [h'], h'))
       [0..<m] ([h], h))"

definition StoredHashesForRecordHash ::
  "(bytes \<Rightarrow> hash) \<Rightarrow> int \<Rightarrow> hash \<Rightarrow> hash_reader \<Rightarrow> (tlog_err, hash list) res" where
  "StoredHashesForRecordHash sha n h r =
     (let m = TrailingZeros64 (n + 1);
          indexes = map (\<lambda>j. let i = m - 1 - j in StoredHashIndex (int i) (drop_bit i n - 1)) [0..<m]
      in res_bind (r indexes) (\<lambda>old.
           if length old \<noteq> length indexes then Err (ReadCount (length indexes) (length old))
           else Ok (node_chain sha old m h)))"

definition StoredHashes ::
  "(bytes \<Rightarrow> hash) \<Rightarrow> int \<Rightarrow> bytes \<Rightarrow> hash_reader \<Rightarrow> (tlog_err, hash list) res" where
  "StoredHashes sha n data r = StoredHashesForRecordHash sha n (RecordHash sha data) r"

section \<open>Tree hashes\<close>

function subTreeIndex :: "int \<Rightarrow> int \<Rightarrow> int list \<Rightarrow> int list run" where
  "subTreeIndex lo hi need =
     (if lo < hi then
        case maxpow2 (hi - lo + 1) of None \<Rightarrow> None
        | Some (k, level) \<Rightarrow>
            if lo AND (k - 1) \<noteq> 0 then Some Panic
            else subTreeIndex (lo + k) hi (need @ [StoredHashIndex level (drop_bit (nat level) lo)])
      else Some (Ok need))"
  by pat_completeness auto

function subTreeCount :: "int \<Rightarrow> int \<Rightarrow> nat \<Rightarrow> nat run" where
  "subTreeCount lo hi numTree =
     (if lo < hi then
        case maxpow2 (hi - lo + 1) of None \<Rightarrow> None
        | Some (k, level) \<Rightarrow>
            if lo AND (k - 1) \<noteq> 0 \<or> lo \<ge> hi then Some Panic
            else subTreeCount (lo + k) hi (numTree + 1)
      else Some (Ok numTree))"
  by pat_completeness auto

fun hash_down :: "(bytes \<Rightarrow> hash) \<Rightarrow> hash list \<Rightarrow> nat \<Rightarrow> hash \<Rightarrow> hash" where
  "hash_down sha hashes 0 h = h"
| "hash_down sha hashes (Suc i) h = hash_down sha hashes i (NodeHash sha (hashes ! i) h)"

text \<open>The slice access \<^verbatim>\<open>hashes[numTree-1]\<close> panics when the range is empty.\<close>

definition subTreeHash ::
  "(bytes \<Rightarrow> hash) \<Rightarrow> int \<Rightarrow> int \<Rightarrow> hash list \<Rightarrow> (hash \<times> hash list) run" where
  "subTreeHash sha lo hi hashes = run_bind (subTreeCount lo hi 0) (\<lambda>numTree.
     if length hashes < numTree \<or> numTree = 0 then Some Panic
     else Some (Ok (hash_down sha hashes (numTree - 1) (hashes ! (numTree - 1)), drop numTree hashes)))"

text \<open>The read of the needed hashes that \<open>TreeHash\<close>, \<open>ProveRecord\<close> and \<open>ProveTree\<close> share.\<close>

definition read_all :: "hash_reader \<Rightarrow> int list \<Rightarrow> hash list run" where
  "read_all r indexes = Some (res_bind (r indexes) (\<lambda>hashes.
     if length hashes \<noteq> length indexes then Err (ReadCount (length indexes) (length hashes))
     else Ok hashes))"

definition TreeHash :: "(bytes \<Rightarrow> hash) \<Rightarrow> int \<Rightarrow> hash_reader \<Rightarrow> hash run" where
  "TreeHash sha n r =
     (if n = 0 then Some (Ok zero_hash)
      else run_bind (subTreeIndex 0 n []) (\<lambda>indexes.
        run_bind (read_all r indexes) (\<lambda>hashes.
        run_bind (subTreeHash sha 0 n hashes) (\<lambda>(h, rest).
        if rest \<noteq> [] then Some Panic else Some (Ok h)))))"

section \<open>Record proofs\<close>

function leafProofIndex :: "int \<Rightarrow> int \<Rightarrow> int \<Rightarrow> int list \<Rightarrow> int list run" where
  "leafProofIndex lo hi n need =
     (if \<not> (lo \<le> n \<and> n < hi) then Some Panic
      else if lo + 1 = hi then Some (Ok need)
      else case maxpow2 (hi - lo) of None \<Rightarrow> None
           | Some (k, level) \<Rightarrow>
               if n < lo + k
               then run_bind (leafProofIndex lo (lo + k) n need) (\<lambda>need. subTreeIndex (lo + k) hi need)
               else run_bind (subTreeIndex lo (lo + k) need) (\<lambda>need. leafProofIndex (lo + k) hi n need))"
  by pat_completeness auto

function leafProof ::
  "(bytes \<Rightarrow> hash) \<Rightarrow> int \<Rightarrow> int \<Rightarrow> int \<Rightarrow> hash list \<Rightarrow> (hash list \<times> hash list) run" where
  "leafProof sha lo hi n hashes =
     (if \<not> (lo \<le> n \<and> n < hi) then Some Panic
      else if lo + 1 = hi then Some (Ok ([], hashes))
      else case maxpow2 (hi - lo) of None \<Rightarrow> None
           | Some (k, level) \<Rightarrow>
               if n < lo + k
               then run_bind (leafProof sha lo (lo + k) n hashes) (\<lambda>(p, hashes).
                    run_bind (subTreeHash sha (lo + k) hi hashes) (\<lambda>(th, hashes). Some (Ok (p @ [th], hashes))))
               else run_bind (subTreeHash sha lo (lo + k) hashes) (\<lambda>(th, hashes).
                    run_bind (leafProof sha (lo + k) hi n hashes) (\<lambda>(p, hashes). Some (Ok (p @ [th], hashes)))))"
  by pat_completeness auto

definition ProveRecord :: "(bytes \<Rightarrow> hash) \<Rightarrow> int \<Rightarrow> int \<Rightarrow> hash_reader \<Rightarrow> hash list run" where
  "ProveRecord sha t n r =
     (if t < 0 \<or> n < 0 \<or> n \<ge> t then Some (Err InvalidInputs)
      else run_bind (leafProofIndex 0 t n []) (\<lambda>indexes.
        if indexes = [] then Some (Ok [])
        else run_bind (read_all r indexes) (\<lambda>hashes.
        run_bind (leafProof sha 0 t n hashes) (\<lambda>(p, rest).
        if rest \<noteq> [] then Some Panic else Some (Ok p)))))"

function runRecordProof ::
  "(bytes \<Rightarrow> hash) \<Rightarrow> hash list \<Rightarrow> int \<Rightarrow> int \<Rightarrow> int \<Rightarrow> hash \<Rightarrow> hash run" where
  "runRecordProof sha p lo hi n leafHash =
     (if \<not> (lo \<le> n \<and> n < hi) then Some Panic
      else if lo + 1 = hi then (if p \<noteq> [] then Some (Err ErrProofFailed) else Some (Ok leafHash))
      else if p = [] then Some (Err ErrProofFailed)
      else case maxpow2 (hi - lo) of None \<Rightarrow> None
           | Some (k, level) \<Rightarrow>
               if n < lo + k
               then run_bind (runRecordProof sha (butlast p) lo (lo + k) n leafHash)
                      (\<lambda>th. Some (Ok (NodeHash sha th (last p))))
               else run_bind (runRecordProof sha (butlast p) (lo + k) hi n leafHash)
                      (\<lambda>th. Some (Ok (NodeHash sha (last p) th))))"
  by pat_completeness auto

definition CheckRecord ::
  "(bytes \<Rightarrow> hash) \<Rightarrow> hash list \<Rightarrow> int \<Rightarrow> hash \<Rightarrow> int \<Rightarrow> hash \<Rightarrow> unit run" where
  "CheckRecord sha p t th n h =
     (if t < 0 \<or> n < 0 \<or> n \<ge> t then Some (Err InvalidInputs)
      else run_bind (runRecordProof sha p 0 t n h) (\<lambda>th2.
        if th2 = th then Some (Ok ()) else Some (Err ErrProofFailed)))"

section \<open>Tree proofs\<close>

function treeProofIndex :: "int \<Rightarrow> int \<Rightarrow> int \<Rightarrow> int list \<Rightarrow> int list run" where
  "treeProofIndex lo hi n need =
     (if \<not> (lo < n \<and> n \<le> hi) then Some Panic
      else if n = hi then (if lo = 0 then Some (Ok need) else subTreeIndex lo hi need)
      else case maxpow2 (hi - lo) of None \<Rightarrow> None
           | Some (k, level) \<Rightarrow>
               if n \<le> lo + k
               then run_bind (treeProofIndex lo (lo + k) n need) (\<lambda>need. subTreeIndex (lo + k) hi need)
               else run_bind (subTreeIndex lo (lo + k) need) (\<lambda>need. treeProofIndex (lo + k) hi n need))"
  by pat_completeness auto

function treeProof ::
  "(bytes \<Rightarrow> hash) \<Rightarrow> int \<Rightarrow> int \<Rightarrow> int \<Rightarrow> hash list \<Rightarrow> (hash list \<times> hash list) run" where
  "treeProof sha lo hi n hashes =
     (if \<not> (lo < n \<and> n \<le> hi) then Some Panic
      else if n = hi then
        (if lo = 0 then Some (Ok ([], hashes))
         else run_bind (subTreeHash sha lo hi hashes) (\<lambda>(th, hashes). Some (Ok ([th], hashes))))
      else case maxpow2 (hi - lo) of None \<Rightarrow> None
           | Some (k, level) \<Rightarrow>
               if n \<le> lo + k
               then run_bind (treeProof sha lo (lo + k) n hashes) (\<lambda>(p, hashes).
                    run_bind (subTreeHash sha (lo + k) hi hashes) (\<lambda>(th, hashes). Some (Ok (p @ [th], hashes))))
               else run_bind (subTreeHash sha lo (lo + k) hashes) (\<lambda>(th, hashes).
                    run_bind (treeProof sha (lo + k) hi n hashes) (\<lambda>(p, hashes). Some (Ok (p @ [th], hashes)))))"
  by pat_completeness auto

definition ProveTree :: "(bytes \<Rightarrow> hash) \<Rightarrow> int \<Rightarrow> int \<Rightarrow> hash_reader \<Rightarrow> hash list run" where
  "ProveTree sha t n r =
     (if t < 1 \<or> n < 1 \<or> n > t then Some (Err InvalidInputs)
      else run_bind (treeProofIndex 0 t n []) (\<lambda>indexes.
        if indexes = [] then Some (Ok [])
        else run_bind (read_all r indexes) (\<lambda>hashes.
        run_bind (treeProof sha 0 t n hashes) (\<lambda>(p, rest).
        if rest \<noteq> [] then Some Panic else Some (Ok p)))))"

function runTreeProof ::
  "(bytes \<Rightarrow> hash) \<Rightarrow> hash list \<Rightarrow> int \<Rightarrow> int \<Rightarrow> int \<Rightarrow> hash \<Rightarrow> (hash \<times> hash) run" where
  "runTreeProof sha p lo hi n old =
     (if \<not> (lo < n \<and> n \<le> hi) then Some Panic
      else if n = hi then
        (if lo = 0 then (if p \<noteq> [] then Some (Err ErrProofFailed) else Some (Ok (old, old)))
         else if length p \<noteq> 1 then Some (Err ErrProofFailed) else Some (Ok (p ! 0, p ! 0)))
      else if p = [] then Some (Err ErrProofFailed)
      else case maxpow2 (hi - lo) of None \<Rightarrow> None
           | Some (k, level) \<Rightarrow>
               if n \<le> lo + k
               then run_bind (runTreeProof sha (butlast p) lo (lo + k) n old)
                      (\<lambda>(oh, th). Some (Ok (oh, NodeHash sha th (last p))))
               else run_bind (runTreeProof sha (butlast p) (lo + k) hi n old)
                      (\<lambda>(oh, th). Some (Ok (NodeHash sha (last p) oh, NodeHash sha (last p) th))))"
  by pat_completeness auto

definition CheckTree ::
  "(bytes \<Rightarrow> hash) \<Rightarrow> hash list \<Rightarrow> int \<Rightarrow> hash \<Rightarrow> int \<Rightarrow> hash \<Rightarrow> unit run" where
  "CheckTree sha p t th n h =
     (if t < 1 \<or> n < 1 \<or> n > t then Some (Err InvalidInputs)
      else run_bind (runTreeProof sha p 0 t n h) (\<lambda>(h2, th2).
        if th2 = th \<and> h2 = h then Some (Ok ()) else Some (Err ErrProofFailed)))"

section \<open>Hash storage in a file\<close>

text \<open>\<^verbatim>\<open>fileHashStorage\<close>: every write and read moves one whole hash, so the file is a list of
  hashes and offsets count hashes. \<^verbatim>\<open>Truncate\<close> cuts or extends the file with zero bytes and leaves
  the write offset where it is; a write beyond the end fills the gap with zero bytes.\<close>

record fileHashStorage =
  fhs_f :: "hash list"
  fhs_off :: nat

definition newFileHashStorage :: fileHashStorage where
  "newFileHashStorage = \<lparr>fhs_f = [], fhs_off = 0\<rparr>"

definition file_pad :: "nat \<Rightarrow> hash list \<Rightarrow> hash list" where
  "file_pad n f = f @ replicate (n - length f) zero_hash"

definition file_write :: "hash \<Rightarrow> fileHashStorage \<Rightarrow> fileHashStorage" where
  "file_write h t =
     (let f = file_pad (fhs_off t) (fhs_f t)
      in t\<lparr>fhs_f := take (fhs_off t) f @ h # drop (fhs_off t + 1) f, fhs_off := fhs_off t + 1\<rparr>)"

definition fhs_Rollback :: "int \<Rightarrow> fileHashStorage \<Rightarrow> (tlog_err, fileHashStorage) res" where
  "fhs_Rollback n t =
     (let x = StoredHashIndex 0 n
      in if x < 0 then Panic
         else Ok (t\<lparr>fhs_f := file_pad (nat x) (take (nat x) (fhs_f t))\<rparr>))"

definition fhs_Append :: "hash list \<Rightarrow> fileHashStorage \<Rightarrow> fileHashStorage" where
  "fhs_Append hashes t = fold file_write hashes t"

definition fhs_At :: "fileHashStorage \<Rightarrow> int \<Rightarrow> (tlog_err, hash) res" where
  "fhs_At t i = (if 0 \<le> i \<and> nat i < length (fhs_f t) then Ok (fhs_f t ! nat i) else Panic)"

definition fhs_Len :: "fileHashStorage \<Rightarrow> int" where
  "fhs_Len t = int (fhs_off t)"

fun fhs_ReadHashes :: "fileHashStorage \<Rightarrow> hash_reader" where
  "fhs_ReadHashes t [] = Ok []"
| "fhs_ReadHashes t (x # index) =
     res_bind (fhs_At t x) (\<lambda>h. res_bind (fhs_ReadHashes t index) (\<lambda>out. Ok (h # out)))"

section \<open>Arithmetic of the storage order\<close>

text \<open>\<open>lg\<close> is the integer logarithm, \<open>tz\<close> the number of trailing zero bits and \<open>ipos n\<close> the sum
  \<open>n + n div 2 + n div 4 + \<dots>\<close>, the position of the hash of record \<open>n\<close>.\<close>

fun lg :: "nat \<Rightarrow> nat" where
  "lg n = (if n < 2 then 0 else Suc (lg (n div 2)))"

fun tz :: "nat \<Rightarrow> nat" where
  "tz n = (if n = 0 \<or> odd n then 0 else Suc (tz (n div 2)))"

fun ipos :: "nat \<Rightarrow> nat" where
  "ipos n = (if n = 0 then 0 else n + ipos (n div 2))"

declare lg.simps [simp del] tz.simps [simp del] ipos.simps [simp del]

lemma i64_id [simp]: "- (2 ^ 63) \<le> x \<Longrightarrow> x < 2 ^ 63 \<Longrightarrow> i64 x = x"
  by (simp add: i64_def)

lemma i64_pow2: "i64 (2 ^ l) = (if l < 63 then 2 ^ l else if l = 63 then - (2 ^ 63) else 0)"
proof -
  have "l < 63 \<Longrightarrow> (2::int) ^ l < 2 ^ 63" by (rule power_strict_increasing) auto
  moreover have "(- (2 ^ 63) :: int) \<le> 2 ^ l" by (rule order_trans [of _ 0]) auto
  moreover have "(2 ^ l + 2 ^ 63) mod 2 ^ 64 = (2 ^ 63 :: int)" if "l > 63"
  proof -
    define d where "d = l - 64"
    from that have "l = 64 + d" by (simp add: d_def)
    then have "(2::int) ^ l = 2 ^ 64 * 2 ^ d" by (simp add: power_add)
    then have "(2 ^ l + 2 ^ 63) mod 2 ^ 64 = (2 ^ 63 mod 2 ^ 64 :: int)" by (simp only: mod_mult_self4)
    then show ?thesis by simp
  qed
  ultimately show ?thesis by (cases "l < 63"; cases "l = 63") (auto simp: i64_def)
qed

lemma lg_bounds: "0 < n \<Longrightarrow> 2 ^ lg n \<le> n \<and> n < 2 * 2 ^ lg n"
proof (induction n rule: lg.induct)
  case (1 n)
  then show ?case by (cases "n < 2") (auto simp: lg.simps [of n])
qed

lemma lg_unique: "2 ^ j \<le> n \<Longrightarrow> n < 2 * 2 ^ j \<Longrightarrow> lg n = j"
proof (induction n arbitrary: j rule: lg.induct)
  case (1 n)
  show ?case
  proof (cases j)
    case 0
    with 1 show ?thesis by (simp add: lg.simps [of n])
  next
    case (Suc i)
    with "1.prems" have "2 ^ i \<le> n div 2" "n div 2 < 2 * 2 ^ i" by auto
    moreover have "2 * 1 \<le> (2::nat) * 2 ^ i" by (rule mult_le_mono2) simp
    ultimately show ?thesis using "1.IH" [of i] "1.prems" Suc by (simp add: lg.simps [of n])
  qed
qed

lemma lg_pow2 [simp]: "lg (2 ^ j) = j"
  by (rule lg_unique) auto

lemma maxpow2_loop_returns:
  "2 ^ l < n \<or> l = 0 \<Longrightarrow> n \<le> 2 ^ (l + d + 1) \<Longrightarrow> n > 2 ^ (l + d) \<or> d = 0 \<Longrightarrow> l + d < 62 \<Longrightarrow>
   maxpow2_loop n l = Some (2 ^ (l + d), int (l + d))"
proof (induction d arbitrary: l)
  case 0
  then show ?case using i64_pow2 [of l] i64_pow2 [of "l + 1"] by (subst maxpow2_loop.simps) simp
next
  case (Suc d)
  have "(2::int) ^ (l + 1) \<le> 2 ^ (l + Suc d)" by (rule power_increasing) auto
  moreover have "2 ^ (l + Suc d) < n" using Suc.prems(3) by simp
  ultimately have lt: "2 ^ (l + 1) < n" by (rule le_less_trans)
  then have "maxpow2_loop n (l + 1) = Some (2 ^ (l + Suc d), int (l + Suc d))"
    using Suc.IH [of "l + 1"] Suc.prems by simp
  with lt Suc.prems show ?case using i64_pow2 [of "l + 1"] by (subst maxpow2_loop.simps) simp
qed

lemma maxpow2_returns:
  assumes "n \<le> 2 ^ 62"
  shows "maxpow2 n = Some (2 ^ lg (nat (n - 1)), int (lg (nat (n - 1))))"
proof (cases "n \<le> 2")
  case True
  then have "lg (nat (n - 1)) = 0" by (simp add: lg.simps)
  with True show ?thesis using maxpow2_loop_returns [of 0 n 0] by (simp add: maxpow2_def)
next
  case False
  define j where "j = lg (nat (n - 1))"
  have "2 ^ j \<le> nat (n - 1)" "nat (n - 1) < 2 * 2 ^ j"
    using lg_bounds [of "nat (n - 1)"] False by (auto simp: j_def)
  then have "int (2 ^ j) \<le> int (nat (n - 1))" "int (nat (n - 1)) < int (2 * 2 ^ j)"
    by (simp_all only: of_nat_le_iff of_nat_less_iff)
  then have b: "2 ^ j < n" "n \<le> 2 ^ (0 + j + 1)" using False by simp_all
  with assms have "(2::int) ^ j < 2 ^ 62" by linarith
  then have "j < 62" by (rule power_less_imp_less_exp [rotated]) simp
  with b show ?thesis using maxpow2_loop_returns [of 0 n j] by (simp add: maxpow2_def j_def)
qed

lemma maxpow2_loop_stuck: "maxpow2_loop n l = Some r \<Longrightarrow> n \<le> 2 ^ 62"
proof -
  let ?P = "\<lambda>n (l::nat) (r::int \<times> int). n \<le> (2::int) ^ 62"
  have le: "i64 (2 ^ k) \<le> 2 ^ 62" for k
    using power_increasing [of k 62 "2::int"] by (simp add: i64_pow2 del: power_increasing_iff)
  have step: "n \<le> 2 ^ 62" if "\<not> i64 (2 ^ (k + 1)) < n" for n :: int and k :: nat
    using le [of "k + 1"] that by linarith
  assume "maxpow2_loop n l = Some r"
  then show "n \<le> 2 ^ 62"
  proof (rule maxpow2_loop.raw_induct [where P = ?P, rotated])
    fix f :: "int \<Rightarrow> nat \<Rightarrow> (int \<times> int) option" and n l r
    assume IH: "\<And>n l r. f n l = Some r \<Longrightarrow> n \<le> 2 ^ 62"
      and eq: "(if i64 (2 ^ (l + 1)) < n then f n (l + 1) else Some (i64 (2 ^ l), int l)) = Some r"
    show "n \<le> 2 ^ 62"
      using IH [of n "l + 1" r] eq step [of l n] by (cases "i64 (2 ^ (l + 1)) < n") simp_all
  qed
qed

lemma maxpow2_eq:
  "maxpow2 n = (if n \<le> 2 ^ 62 then Some (2 ^ lg (nat (n - 1)), int (lg (nat (n - 1)))) else None)"
  using maxpow2_returns [of n] maxpow2_loop_stuck [of n 0]
  by (cases "maxpow2_loop n 0") (auto simp: maxpow2_def)

lemma maxpow2_pos: "maxpow2 n = Some (k, l) \<Longrightarrow> 0 < k"
  by (auto simp: maxpow2_eq split: if_splits)

lemma ipos_0 [simp]: "ipos 0 = 0"
  by (simp add: ipos.simps)

lemma ipos_double: "ipos (2 * n) = 2 * n + ipos n"
  by (cases "n = 0") (simp_all add: ipos.simps [of "2 * n"])

lemma ipos_odd: "ipos (Suc (2 * n)) = Suc (2 * n) + ipos n"
  by (simp add: ipos.simps [of "Suc (2 * n)"])

lemma tz_double: "0 < n \<Longrightarrow> tz (2 * n) = Suc (tz n)"
  by (simp add: tz.simps [of "2 * n"])

lemma tz_odd [simp]: "odd n \<Longrightarrow> tz n = 0"
  by (simp add: tz.simps)

lemma ipos_Suc: "ipos (Suc n) = ipos n + 1 + tz (Suc n)"
proof (induction n rule: less_induct)
  case (less n)
  show ?case
  proof (cases "even n")
    case True
    then obtain m where m: "n = 2 * m" by (elim evenE)
    then show ?thesis by (simp add: ipos_odd ipos_double)
  next
    case False
    then obtain m where m: "n = Suc (2 * m)" by (metis oddE Suc_eq_plus1)
    then have e: "Suc n = 2 * Suc m" by simp
    show ?thesis unfolding e ipos_double tz_double [OF zero_less_Suc]
      using less.IH [of m] m by (simp add: ipos_odd)
  qed
qed

lemma ipos_mono: "m \<le> n \<Longrightarrow> ipos m \<le> ipos n"
  by (rule lift_Suc_mono_le) (simp_all add: ipos_Suc)

lemma ipos_strict_mono: "m < n \<Longrightarrow> ipos m < ipos n"
  by (rule lift_Suc_mono_less) (simp_all add: ipos_Suc)

lemma ipos_le: "ipos n \<le> 2 * n"
proof (induction n rule: ipos.induct)
  case (1 n)
  then show ?case by (cases "n = 0") (auto simp: ipos.simps [of n])
qed

lemma ipos_ge: "n \<le> ipos n"
  by (simp add: ipos.simps [of n])

text \<open>\<open>x\<close> is a multiple of \<open>2 ^ l\<close> exactly when \<open>l \<le> tz x\<close>.\<close>

lemma tz_dvd: "0 < x \<Longrightarrow> 2 ^ l dvd x \<longleftrightarrow> l \<le> tz x"
proof (induction x arbitrary: l rule: tz.induct)
  case (1 x)
  show ?case
  proof (cases "odd x")
    case True
    then show ?thesis by (cases l) (auto simp: dvd_def)
  next
    case False
    then obtain y where y: "x = 2 * y" by auto
    show ?thesis
    proof (cases l)
      case 0
      then show ?thesis by simp
    next
      case (Suc i)
      with y "1.IH" [of i] "1.prems" show ?thesis by (simp add: tz_double)
    qed
  qed
qed
text \<open>The loops of \<open>StoredHashIndex\<close> within the \<^verbatim>\<open>int64\<close> range.\<close>

lemma index_down_eq:
  "(int n + 1) * 2 ^ l \<le> 2 ^ 63 \<Longrightarrow> index_down l (int n) = int ((n + 1) * 2 ^ l - 1)"
proof (induction l arbitrary: n)
  case 0
  then show ?case by simp
next
  case (Suc l)
  have "(int n + 1) * 2 * 1 \<le> (int n + 1) * 2 * 2 ^ l" by (rule mult_left_mono) auto
  also have "\<dots> \<le> 2 ^ 63" using Suc.prems by (simp add: algebra_simps)
  finally have "i64 (2 * int n + 1) = int (2 * n + 1)" by (subst i64_id) auto
  with Suc.IH [of "2 * n + 1"] Suc.prems show ?case by (simp add: algebra_simps)
qed

lemma index_sum_eq: "int i + int (ipos n) < 2 ^ 63 \<Longrightarrow> index_sum (int i) (int n) = int (i + ipos n)"
proof (induction n arbitrary: i rule: less_induct)
  case (less n)
  show ?case
  proof (cases "n = 0")
    case True
    then show ?thesis by simp
  next
    case False
    then have p: "ipos n = n + ipos (n div 2)" by (simp add: ipos.simps [of n])
    with less.prems have "i64 (int i + int n) = int (i + n)" by (subst i64_id) auto
    moreover have "drop_bit 1 (int n) = int (n div 2)" by (simp add: drop_bit_eq_div zdiv_int)
    ultimately show ?thesis
      using False p less.prems less.IH [of "n div 2" "i + n"]
      by (subst index_sum.simps) (simp add: add.assoc)
  qed
qed

lemma stored_arg: "0 < x \<Longrightarrow> 2 ^ l dvd x \<Longrightarrow> ipos (x - 1) + l < ipos x"
  using ipos_Suc [of "x - 1"] tz_dvd [of x l] by simp

lemma StoredHashIndex_eq:
  assumes "(n + 1) * 2 ^ l \<le> 2 ^ 62"
  shows "StoredHashIndex (int l) (int n) = int (ipos ((n + 1) * 2 ^ l - 1) + l)"
proof -
  let ?x = "(n + 1) * 2 ^ l"
  have "ipos (?x - 1) + l < ipos ?x" by (rule stored_arg) auto
  then have "ipos (?x - 1) + l < 2 * 2 ^ 62" using ipos_le [of ?x] assms by linarith
  then have lt: "int (ipos (?x - 1) + l) < 2 ^ 63" by simp
  have "int ?x \<le> int (2 ^ 62)" using assms by (simp only: of_nat_le_iff)
  then have "index_down l (int n) = int (?x - 1)" by (intro index_down_eq) (simp add: algebra_simps)
  moreover have "index_sum (int 0) (int (?x - 1)) = int (0 + ipos (?x - 1))"
    using lt by (intro index_sum_eq) simp
  ultimately show ?thesis using lt by (simp add: StoredHashIndex_def)
qed

lemma tz_loop_eq: "0 < x \<Longrightarrow> x < 2 ^ f \<Longrightarrow> tz_loop f x = tz x"
proof (induction f arbitrary: x)
  case 0
  then show ?case by simp
next
  case (Suc f)
  then show ?case by (auto simp: tz.simps [of x])
qed

lemma TrailingZeros64_eq: "0 < x \<Longrightarrow> x < 2 ^ 64 \<Longrightarrow> TrailingZeros64 (int x) = tz x"
proof -
  assume x: "0 < x" "x < 2 ^ 64"
  then have "nat (int x mod 2 ^ 64) = x" by simp
  with x tz_loop_eq [of x 64] show ?thesis by (simp only: TrailingZeros64_def)
qed

lemma ipos_bound: "n \<le> 2 ^ 62 \<Longrightarrow> int (ipos n) < 2 ^ 63"
proof -
  assume n: "n \<le> 2 ^ 62"
  have "ipos (2 ^ j) + 1 = 2 * 2 ^ j" for j
  proof (induction j)
    case 0
    then show ?case by (simp add: ipos.simps)
  next
    case (Suc j)
    then show ?case by (simp add: ipos_double)
  qed
  from this [of 62] ipos_mono [OF n] show ?thesis by simp
qed

lemma ipos_half: "ipos (i div 2) \<le> i"
  using ipos_le [of "i div 2"] by linarith

lemma split_loop_eq:
  "ipos n \<le> i \<Longrightarrow> i < 2 ^ 62 \<Longrightarrow>
   \<exists>m. ipos m \<le> i \<and> i < ipos (Suc m) \<and> split_loop (int i) (int n) (int (ipos n)) = Some (int m, int (ipos m))"
proof (induction "i - n" arbitrary: n rule: less_induct)
  case less
  then have n: "n < 2 ^ 62" using ipos_ge [of n] by linarith
  then have "n + 1 \<le> 2 ^ 62" by simp
  note b = ipos_bound [OF this]
  have "TrailingZeros64 (int (n + 1)) = tz (n + 1)" using n by (intro TrailingZeros64_eq) auto
  then have "TrailingZeros64 (int n + 1) = tz (Suc n)" by (simp add: add.commute)
  then have t: "i64 (int (ipos n) + 1 + int (TrailingZeros64 (int n + 1))) = int (ipos (Suc n))"
    using b by (subst i64_id) (auto simp: ipos_Suc)
  have s: "i64 (int n + 1) = int (Suc n)" using n by (subst i64_id) auto
  show ?case
  proof (cases "ipos (Suc n) > i")
    case True
    with t less.prems show ?thesis by (subst split_loop.simps) auto
  next
    case False
    then have "i - Suc n < i - n" using ipos_ge [of "Suc n"] by linarith
    from less.hyps [OF this] False less.prems obtain m where
      "ipos m \<le> i" "i < ipos (Suc m)" "split_loop (int i) (int (Suc n)) (int (ipos (Suc n))) = Some (int m, int (ipos m))"
      by auto
    with False t s show ?thesis by (subst split_loop.simps) (auto simp: Let_def)
  qed
qed

lemma ipos_interval: "ipos m \<le> i \<Longrightarrow> i < ipos (Suc m) \<Longrightarrow> ipos n \<le> i \<Longrightarrow> i < ipos (Suc n) \<Longrightarrow> m = n"
proof (rule ccontr)
  assume a: "ipos m \<le> i" "i < ipos (Suc m)" "ipos n \<le> i" "i < ipos (Suc n)" and "m \<noteq> n"
  then consider "Suc m \<le> n" | "Suc n \<le> m" by linarith
  then show False using a ipos_mono [of "Suc m" n] ipos_mono [of "Suc n" m] by cases linarith+
qed

lemma Split_eq:
  assumes "ipos m \<le> i" "i < ipos (Suc m)" "i < 2 ^ 62"
  shows "SplitStoredHashIndex (int i) = Some (Ok (int (i - ipos m), int (m div 2 ^ (i - ipos m))))"
proof -
  have lt: "i div 2 < 2 ^ 62" using assms(3) by linarith
  then have n: "StoredHashIndex 0 (int (i div 2)) = int (ipos (i div 2))"
    using StoredHashIndex_eq [of "i div 2" 0] by simp
  obtain m' where m': "ipos m' \<le> i" "i < ipos (Suc m')"
    "split_loop (int i) (int (i div 2)) (int (ipos (i div 2))) = Some (int m', int (ipos m'))"
    using split_loop_eq [OF ipos_half assms(3)] by blast
  have "m' = m" by (rule ipos_interval [OF m'(1,2) assms(1,2)])
  with m' n ipos_half [of i] show ?thesis
    by (simp add: SplitStoredHashIndex_def Let_def zdiv_int drop_bit_eq_div flip: of_nat_diff)
qed

section \<open>Termination\<close>

lemma maxpow2_split: "maxpow2 m = Some (k, l) \<Longrightarrow> 2 \<le> m \<Longrightarrow> 0 < k \<and> k < m"
proof -
  assume a: "maxpow2 m = Some (k, l)" "2 \<le> m"
  then have k: "k = 2 ^ lg (nat (m - 1))" by (simp add: maxpow2_eq split: if_splits)
  have "2 ^ lg (nat (m - 1)) \<le> nat (m - 1)" using lg_bounds [of "nat (m - 1)"] a by simp
  then have "int (2 ^ lg (nat (m - 1))) \<le> int (nat (m - 1))" by (simp only: of_nat_le_iff)
  with a(2) k show ?thesis by simp
qed

termination subTreeIndex
  by (relation "measure (\<lambda>(lo, hi, need). nat (hi - lo))") (auto dest: maxpow2_pos)

termination subTreeCount
  by (relation "measure (\<lambda>(lo, hi, c). nat (hi - lo))") (auto dest: maxpow2_pos)

lemma halves_shrink:
  assumes "maxpow2 (hi - lo) = Some (k, l)" "lo \<le> n" "n < hi" "lo + 1 \<noteq> hi"
  shows "nat (lo + k - lo) < nat (hi - lo)" "nat (hi - (lo + k)) < nat (hi - lo)"
  using maxpow2_split [OF assms(1)] assms(2-4) by auto

termination leafProofIndex
  by (relation "measure (\<lambda>(lo, hi, n, need). nat (hi - lo))") (auto dest: halves_shrink)

termination leafProof
  by (relation "measure (\<lambda>(sha, lo, hi, n, hashes). nat (hi - lo))") (auto dest: halves_shrink)

termination runRecordProof
  by (relation "measure (\<lambda>(sha, p, lo, hi, n, h). nat (hi - lo))") (auto dest: halves_shrink)

termination treeProofIndex
  by (relation "measure (\<lambda>(lo, hi, n, need). nat (hi - lo))") (auto dest: halves_shrink)

termination treeProof
  by (relation "measure (\<lambda>(sha, lo, hi, n, hashes). nat (hi - lo))") (auto dest: halves_shrink)

termination runTreeProof
  by (relation "measure (\<lambda>(sha, p, lo, hi, n, h). nat (hi - lo))") (auto dest: halves_shrink)

section \<open>The Merkle tree of RFC 6962\<close>

definition split_at :: "'a list \<Rightarrow> nat" where
  "split_at hs = 2 ^ lg (length hs - 1)"

lemma split_at_less: "2 \<le> length hs \<Longrightarrow> 0 < split_at hs \<and> split_at hs < length hs"
  using lg_bounds [of "length hs - 1"] by (auto simp: split_at_def)

lemma split_at_pos [simp]: "0 < split_at hs"
  by (simp add: split_at_def)

lemma split_at_rest [simp]: "\<not> length hs \<le> m \<Longrightarrow> length hs - split_at hs < length hs"
  by (rule diff_less) auto

lemma split_at_min [simp]: "\<not> length hs \<le> Suc 0 \<Longrightarrow> min (length hs) (split_at hs) < length hs"
  using split_at_less [of hs] by auto

text \<open>\<open>mth\<close> is the Merkle tree hash of a list of leaf hashes, \<open>audit_path\<close> the path \<open>PATH(m, D)\<close>
  and \<open>subproof\<close> the consistency proof \<open>SUBPROOF(m, D, b)\<close>.\<close>

function mth :: "(bytes \<Rightarrow> hash) \<Rightarrow> hash list \<Rightarrow> hash" where
  "mth sha hs =
     (if length hs = 0 then zero_hash else if length hs \<le> 1 then hs ! 0
      else NodeHash sha (mth sha (take (split_at hs) hs)) (mth sha (drop (split_at hs) hs)))"
  by pat_completeness auto
termination
  by (relation "measure (\<lambda>(sha, hs). length hs)") simp_all

function audit_path :: "(bytes \<Rightarrow> hash) \<Rightarrow> nat \<Rightarrow> hash list \<Rightarrow> hash list" where
  "audit_path sha m hs =
     (if length hs \<le> 1 then []
      else let k = split_at hs in
        if m < k then audit_path sha m (take k hs) @ [mth sha (drop k hs)]
        else audit_path sha (m - k) (drop k hs) @ [mth sha (take k hs)])"
  by pat_completeness auto
termination
  by (relation "measure (\<lambda>(sha, m, hs). length hs)") simp_all

function subproof :: "(bytes \<Rightarrow> hash) \<Rightarrow> nat \<Rightarrow> hash list \<Rightarrow> bool \<Rightarrow> hash list" where
  "subproof sha m hs b =
     (if length hs \<le> m then (if b then [] else [mth sha hs])
      else if length hs \<le> 1 then []
      else let k = split_at hs in
        if m \<le> k then subproof sha m (take k hs) b @ [mth sha (drop k hs)]
        else subproof sha (m - k) (drop k hs) False @ [mth sha (take k hs)])"
  by pat_completeness auto
termination
  by (relation "measure (\<lambda>(sha, m, hs, b). length hs)") simp_all

declare mth.simps [simp del] audit_path.simps [simp del] subproof.simps [simp del]

section \<open>Ranges of leaves\<close>

definition rng :: "'a list \<Rightarrow> nat \<Rightarrow> nat \<Rightarrow> 'a list" where
  "rng ls lo hi = take (hi - lo) (drop lo ls)"

lemma length_rng [simp]: "lo \<le> hi \<Longrightarrow> hi \<le> length ls \<Longrightarrow> length (rng ls lo hi) = hi - lo"
  by (simp add: rng_def)

lemma take_rng: "lo + k \<le> hi \<Longrightarrow> take k (rng ls lo hi) = rng ls lo (lo + k)"
  by (simp add: rng_def min_def)

lemma drop_rng: "drop k (rng ls lo hi) = rng ls (lo + k) hi"
  by (simp add: rng_def drop_take add.commute)

lemma rng_one: "lo < length ls \<Longrightarrow> rng ls lo (Suc lo) = [ls ! lo]"
  by (simp add: rng_def take_Suc_conv_app_nth)

lemma rng_all [simp]: "rng ls 0 (length ls) = ls"
  by (simp add: rng_def)

lemma rng_append: "hi \<le> length ls \<Longrightarrow> rng (ls @ xs) lo hi = rng ls lo hi"
  by (cases "lo \<le> length ls") (auto simp: rng_def)

lemma mth_one: "lo < length ls \<Longrightarrow> mth sha (rng ls lo (Suc lo)) = ls ! lo"
  by (simp add: rng_one mth.simps)

text \<open>The two halves of a range, at the split of the code and of the RFC.\<close>

lemma mth_split:
  assumes "lo + 2 \<le> hi" "hi \<le> length ls"
  defines "k \<equiv> 2 ^ lg (hi - lo - 1)"
  shows "mth sha (rng ls lo hi) = NodeHash sha (mth sha (rng ls lo (lo + k))) (mth sha (rng ls (lo + k) hi))"
    and "lo < lo + k" "lo + k < hi"
proof -
  have k: "split_at (rng ls lo hi) = k" using assms(1,2) by (simp add: split_at_def k_def)
  show "lo < lo + k" by (simp add: k_def)
  show lt: "lo + k < hi" using split_at_less [of "rng ls lo hi"] assms(1,2) k
    by (simp add: less_diff_conv add.commute)
  show "mth sha (rng ls lo hi) = NodeHash sha (mth sha (rng ls lo (lo + k))) (mth sha (rng ls (lo + k) hi))"
    using assms(1,2) lt by (subst mth.simps) (auto simp: k take_rng drop_rng)
qed

text \<open>A range starts at a multiple of a power of two that is at least its length.\<close>

definition aligned :: "nat \<Rightarrow> nat \<Rightarrow> bool" where
  "aligned lo hi \<longleftrightarrow> 2 ^ lg (hi - lo - 1) dvd lo \<and> (2 * 2 ^ lg (hi - lo - 1) dvd lo \<or> hi \<le> lo + 1)"

lemma aligned_0 [simp]: "aligned 0 hi"
  by (simp add: aligned_def)

lemma lg_mono: "m \<le> n \<Longrightarrow> lg m \<le> lg n"
proof (cases "m = 0")
  case True
  then show ?thesis by (simp add: lg.simps)
next
  case False
  assume "m \<le> n"
  with False lg_bounds [of m] lg_bounds [of n] have "(2::nat) ^ lg m < 2 ^ Suc (lg n)" by auto
  then show ?thesis by (subst (asm) power_strict_increasing_iff) auto
qed

lemma alignedI: "2 ^ j dvd lo \<Longrightarrow> hi \<le> lo + 2 ^ j \<Longrightarrow> aligned lo hi"
proof -
  assume a: "2 ^ j dvd lo" "hi \<le> lo + 2 ^ j"
  show "aligned lo hi"
  proof (cases "hi \<le> lo + 1")
    case True
    then show ?thesis by (simp add: aligned_def lg.simps)
  next
    case False
    then have "2 ^ lg (hi - lo - 1) \<le> hi - lo - 1" using lg_bounds [of "hi - lo - 1"] by simp
    with a have "(2::nat) ^ lg (hi - lo - 1) < 2 ^ j" using False by linarith
    then have "Suc (lg (hi - lo - 1)) \<le> j" by (simp add: Suc_le_eq)
    then have "(2::nat) ^ Suc (lg (hi - lo - 1)) dvd 2 ^ j" by (rule le_imp_power_dvd)
    with a(1) have "2 * 2 ^ lg (hi - lo - 1) dvd lo" by (metis dvd_trans power_Suc)
    then show ?thesis by (metis aligned_def dvd_mult_right)
  qed
qed

lemma aligned_halves:
  assumes "aligned lo hi" "lo + 2 \<le> hi"
  defines "k \<equiv> 2 ^ lg (hi - lo - 1)"
  shows "aligned lo (lo + k)" "aligned (lo + k) hi"
proof -
  have d: "k dvd lo" using assms(1) by (simp add: aligned_def k_def)
  show "aligned lo (lo + k)" by (rule alignedI [OF d [unfolded k_def]]) (simp add: k_def)
  have "hi - lo - 1 < 2 * k" using lg_bounds [of "hi - lo - 1"] assms(2) by (simp add: k_def)
  then show "aligned (lo + k) hi"
    using d by (intro alignedI [of "lg (hi - lo - 1)"]) (auto simp: k_def)
qed

text \<open>The largest complete subtree at the start of a range.\<close>

lemma aligned_chunk:
  assumes "aligned lo hi" "lo < hi"
  defines "k \<equiv> 2 ^ lg (hi - lo)"
  shows "k dvd lo" "lo + k \<le> hi" "aligned (lo + k) hi"
proof -
  have b: "k \<le> hi - lo" "hi - lo < 2 * k" using lg_bounds [of "hi - lo"] assms(2) by (auto simp: k_def)
  show le: "lo + k \<le> hi" using b assms(2) by linarith
  show d: "k dvd lo"
  proof (cases "hi \<le> lo + 1")
    case True
    with assms(2) have "hi - lo = 1" by linarith
    then show ?thesis by (simp add: k_def lg.simps)
  next
    case False
    have "2 ^ lg (hi - lo - 1) \<le> hi - lo - 1" "hi - lo - 1 < 2 * 2 ^ lg (hi - lo - 1)"
      using lg_bounds [of "hi - lo - 1"] False by auto
    then have "k \<le> 2 * 2 ^ lg (hi - lo - 1)" using b False by linarith
    then have "lg (hi - lo) \<le> Suc (lg (hi - lo - 1))" by (simp add: k_def flip: power_Suc)
    then have "(2::nat) ^ lg (hi - lo) dvd 2 ^ Suc (lg (hi - lo - 1))" by (rule le_imp_power_dvd)
    with assms(1) False show ?thesis by (auto simp: aligned_def k_def intro: dvd_trans)
  qed
  show "aligned (lo + k) hi"
    using d b le by (intro alignedI [of "lg (hi - lo)"]) (auto simp: k_def)
qed
section \<open>Stored hashes\<close>

definition node_at :: "nat \<Rightarrow> nat \<Rightarrow> nat" where
  "node_at lo l = ipos (lo + 2 ^ l - 1) + l"

text \<open>The storage of a log holds exactly the hashes of its complete subtrees, each at the position
  of its coordinates.\<close>

definition log_ok :: "(bytes \<Rightarrow> hash) \<Rightarrow> hash list \<Rightarrow> hash list \<Rightarrow> bool" where
  "log_ok sha leaves store \<longleftrightarrow> length store = ipos (length leaves) \<and>
     (\<forall>l lo. 2 ^ l dvd lo \<longrightarrow> lo + 2 ^ l \<le> length leaves \<longrightarrow>
        store ! node_at lo l = mth sha (rng leaves lo (lo + 2 ^ l)))"

lemma log_okD:
  "log_ok sha leaves store \<Longrightarrow> 2 ^ l dvd lo \<Longrightarrow> lo + 2 ^ l \<le> length leaves \<Longrightarrow>
   store ! node_at lo l = mth sha (rng leaves lo (lo + 2 ^ l))"
  by (simp add: log_ok_def)

lemma node_at_less: "2 ^ l dvd lo \<Longrightarrow> lo + 2 ^ l \<le> n \<Longrightarrow> node_at lo l < ipos n"
  using stored_arg [of "lo + 2 ^ l" l] ipos_mono [of "lo + 2 ^ l" n] by (simp add: node_at_def)

lemma StoredHashIndex_node:
  assumes "2 ^ l dvd lo" "lo + 2 ^ l \<le> 2 ^ 62"
  shows "StoredHashIndex (int l) (drop_bit l (int lo)) = int (node_at lo l)"
proof -
  have "(lo div 2 ^ l + 1) * 2 ^ l = lo + 2 ^ l" using assms(1) by (simp add: algebra_simps)
  moreover have "drop_bit l (int lo) = int (lo div 2 ^ l)" by (simp add: drop_bit_eq_div zdiv_int)
  ultimately show ?thesis using StoredHashIndex_eq [of "lo div 2 ^ l" l] assms(2)
    by (simp add: node_at_def add.commute)
qed

fun nfold :: "(bytes \<Rightarrow> hash) \<Rightarrow> hash list \<Rightarrow> hash" where
  "nfold sha [] = zero_hash"
| "nfold sha [h] = h"
| "nfold sha (h # hs) = NodeHash sha h (nfold sha hs)"

lemma nfold_snoc2: "nfold sha (hs @ [a, b]) = nfold sha (hs @ [NodeHash sha a b])"
  by (induction sha hs rule: nfold.induct) auto

lemma hash_down_nfold: "hash_down sha (hs @ rest) (length hs) h = nfold sha (hs @ [h])"
proof (induction hs arbitrary: h rest rule: rev_induct)
  case Nil
  then show ?case by simp
next
  case (snoc x xs)
  then show ?case by (simp add: nth_append nfold_snoc2)
qed

lemma maxpow2_chunk:
  "lo \<le> hi \<Longrightarrow> hi - lo < 2 ^ 62 \<Longrightarrow>
   maxpow2 (int hi - int lo + 1) = Some (2 ^ lg (hi - lo), int (lg (hi - lo)))"
  by (subst maxpow2_returns) (simp_all flip: of_nat_diff)

lemma maxpow2_half:
  "lo < hi \<Longrightarrow> hi - lo \<le> 2 ^ 62 \<Longrightarrow>
   maxpow2 (int hi - int lo) = Some (2 ^ lg (hi - lo - 1), int (lg (hi - lo - 1)))"
  by (subst maxpow2_returns) (simp_all flip: of_nat_diff add: nat_diff_distrib)

lemma int_and_mask: "2 ^ l dvd lo \<Longrightarrow> int lo AND (2 ^ l - 1) = 0"
proof -
  assume "2 ^ l dvd lo"
  then have "int (2 ^ l) dvd int lo" by (simp only: of_nat_dvd_iff)
  then have "take_bit l (int lo) = 0" by (simp add: take_bit_eq_mod)
  then show ?thesis by (simp add: take_bit_eq_mask mask_eq_exp_minus_1)
qed

declare subTreeIndex.simps [simp del] subTreeCount.simps [simp del] leafProofIndex.simps [simp del]
  leafProof.simps [simp del] runRecordProof.simps [simp del] treeProofIndex.simps [simp del]
  treeProof.simps [simp del] runTreeProof.simps [simp del]

lemma subTree_step:
  assumes "aligned lo hi" "lo < hi" "hi < 2 ^ 62"
  defines "l \<equiv> lg (hi - lo)"
  shows "subTreeIndex (int lo) (int hi) need = subTreeIndex (int (lo + 2 ^ l)) (int hi) (need @ [int (node_at lo l)])"
    and "subTreeCount (int lo) (int hi) c = subTreeCount (int (lo + 2 ^ l)) (int hi) (c + 1)"
proof -
  have d: "2 ^ l dvd lo" and le: "lo + 2 ^ l \<le> hi" using aligned_chunk [OF assms(1,2)] by (auto simp: l_def)
  have m: "maxpow2 (int hi - int lo + 1) = Some (2 ^ l, int l)"
    using maxpow2_chunk [of lo hi] assms(2,3) by (simp add: l_def)
  note i = StoredHashIndex_node [OF d] and a = int_and_mask [OF d]
  show "subTreeIndex (int lo) (int hi) need = subTreeIndex (int (lo + 2 ^ l)) (int hi) (need @ [int (node_at lo l)])"
    using m i a le assms(2,3) by (subst subTreeIndex.simps) simp
  show "subTreeCount (int lo) (int hi) c = subTreeCount (int (lo + 2 ^ l)) (int hi) (c + 1)"
    using m a assms(2) by (subst subTreeCount.simps) simp
qed

lemma subTree_done:
  "subTreeIndex (int n) (int n) need = Some (Ok need)" "subTreeCount (int n) (int n) c = Some (Ok c)"
  by (simp_all add: subTreeIndex.simps subTreeCount.simps)

text \<open>The indexes of a range, with what their hashes fold to.\<close>

definition covers :: "(bytes \<Rightarrow> hash) \<Rightarrow> hash list \<Rightarrow> hash list \<Rightarrow> nat list \<Rightarrow> nat \<Rightarrow> nat \<Rightarrow> bool" where
  "covers sha leaves store ix lo hi \<longleftrightarrow> ix \<noteq> [] \<and> (\<forall>i \<in> set ix. i < length store) \<and>
     (\<forall>need. subTreeIndex (int lo) (int hi) need = Some (Ok (need @ map int ix))) \<and>
     (\<forall>c. subTreeCount (int lo) (int hi) c = Some (Ok (c + length ix))) \<and>
     nfold sha (map ((!) store) ix) = mth sha (rng leaves lo hi)"

lemma mth_chunk:
  assumes "lo < hi" "hi \<le> length leaves" "lo + 2 ^ lg (hi - lo) < hi"
  shows "mth sha (rng leaves lo hi) =
    NodeHash sha (mth sha (rng leaves lo (lo + 2 ^ lg (hi - lo)))) (mth sha (rng leaves (lo + 2 ^ lg (hi - lo)) hi))"
proof -
  have b: "hi - lo < 2 * 2 ^ lg (hi - lo)" using lg_bounds [of "hi - lo"] assms(1) by simp
  have "2 ^ lg (hi - lo) \<le> hi - lo - 1" using assms(3) by linarith
  then have "lg (hi - lo - 1) = lg (hi - lo)" using b by (intro lg_unique) linarith+
  moreover have "lo + 2 \<le> hi" using assms(3) one_le_power [of "2::nat" "lg (hi - lo)"] by linarith
  ultimately show ?thesis using mth_split(1) [of lo hi leaves sha] assms(2) by simp
qed

lemma covers_ex:
  assumes "log_ok sha leaves store" "length leaves < 2 ^ 62"
  shows "aligned lo hi \<Longrightarrow> lo < hi \<Longrightarrow> hi \<le> length leaves \<Longrightarrow> \<exists>ix. covers sha leaves store ix lo hi"
proof (induction "hi - lo" arbitrary: lo rule: less_induct)
  case less
  let ?k = "2 ^ lg (hi - lo)" and ?l = "lg (hi - lo)"
  note chunk = aligned_chunk [OF less.prems(1,2)]
  have hi: "hi < 2 ^ 62" using assms(2) less.prems(3) by linarith
  note step = subTree_step [OF less.prems(1,2) hi]
  have le: "lo + ?k \<le> length leaves" using chunk(2) less.prems(3) by linarith
  note val = log_okD [OF assms(1) chunk(1) le]
  have pos: "node_at lo ?l < length store"
    using node_at_less [OF chunk(1) le] assms(1) by (simp add: log_ok_def)
  show ?case
  proof (cases "lo + ?k = hi")
    case True
    then have "covers sha leaves store [node_at lo ?l] lo hi"
      using step subTree_done val pos by (simp add: covers_def)
    then show ?thesis by blast
  next
    case False
    with chunk(2) have lt: "lo + ?k < hi" by linarith
    have "hi - (lo + ?k) < hi - lo" using less.prems(2) by (intro diff_less_mono2) auto
    then obtain ix where ix: "covers sha leaves store ix (lo + ?k) hi"
      using less.hyps [of "lo + ?k"] chunk(3) lt less.prems(3) by blast
    then obtain i js where "ix = i # js" by (cases ix) (auto simp: covers_def)
    then have "covers sha leaves store (node_at lo ?l # ix) lo hi"
      using ix step val pos mth_chunk [OF less.prems(2,3) lt] by (simp add: covers_def)
    then show ?thesis by blast
  qed
qed

lemma covers_len: "covers sha leaves store ix lo hi \<Longrightarrow> Suc 0 \<le> length ix"
  by (simp add: covers_def Suc_le_eq)

lemma covers_hash:
  assumes "covers sha leaves store ix lo hi"
  shows "subTreeHash sha (int lo) (int hi) (map ((!) store) ix @ rest) = Some (Ok (mth sha (rng leaves lo hi), rest))"
proof -
  obtain js j where ix: "ix = js @ [j]" using assms by (cases ix rule: rev_cases) (auto simp: covers_def)
  show ?thesis using assms hash_down_nfold [of sha "map ((!) store) js" "store ! j # rest" "store ! j"]
    by (simp add: subTreeHash_def covers_def ix nth_append)
qed
section \<open>Appending a record\<close>

lemma sibling_index:
  assumes "2 ^ Suc i dvd Suc n" "Suc n \<le> 2 ^ 62"
  shows "StoredHashIndex (int i) (drop_bit i (int n) - 1) = int (node_at (Suc n - 2 ^ Suc i) i)"
    and "2 ^ i dvd Suc n - 2 ^ Suc i" and "Suc n - 2 ^ Suc i + 2 ^ i = Suc n - 2 ^ i" and "2 ^ Suc i \<le> Suc n"
proof -
  obtain c where c: "Suc n = 2 ^ Suc i * c" using assms(1) by (elim dvdE)
  then obtain b where b: "c = Suc b" by (cases c) auto
  have lo: "Suc n - 2 ^ Suc i = 2 ^ i * (2 * b)" using c b by (simp add: algebra_simps)
  show "2 ^ Suc i \<le> Suc n" unfolding c by (simp add: b)
  show d: "2 ^ i dvd Suc n - 2 ^ Suc i" unfolding lo by simp
  show e: "Suc n - 2 ^ Suc i + 2 ^ i = Suc n - 2 ^ i" using c b lo by (simp add: algebra_simps)
  have "n = 2 ^ i * (2 * b + 1) + (2 ^ i - 1)"
    using c b one_le_power [of "2::nat" i] by (simp add: algebra_simps)
  moreover have "(2 ^ i - 1) div 2 ^ i = (0::nat)" by simp
  ultimately have "n div 2 ^ i = 2 * b + 1" by (metis add_0 div_mult_self4 power_not_zero zero_neq_numeral add.commute)
  then have "drop_bit i (int n) - 1 = drop_bit i (int (Suc n - 2 ^ Suc i))"
    unfolding lo drop_bit_eq_div using zdiv_int [of n "2 ^ i"] by simp
  then show "StoredHashIndex (int i) (drop_bit i (int n) - 1) = int (node_at (Suc n - 2 ^ Suc i) i)"
    using StoredHashIndex_node [OF d] e assms(2) by simp
qed

text \<open>\<open>tail_node\<close> is the subtree of level \<open>i\<close> that the last record completes.\<close>

definition tail_node :: "(bytes \<Rightarrow> hash) \<Rightarrow> hash list \<Rightarrow> nat \<Rightarrow> hash" where
  "tail_node sha leaves i = mth sha (rng leaves (length leaves - 2 ^ i) (length leaves))"

lemma lg_pow2_pred: "lg (2 ^ Suc i - 1) = i"
  using one_le_power [of "2::nat" i] by (intro lg_unique) simp_all

lemma tail_node_Suc:
  assumes "2 ^ Suc i \<le> length leaves"
  shows "tail_node sha leaves (Suc i) =
    NodeHash sha (mth sha (rng leaves (length leaves - 2 ^ Suc i) (length leaves - 2 ^ i))) (tail_node sha leaves i)"
proof -
  let ?n = "length leaves" and ?lo = "length leaves - 2 ^ Suc i"
  have len: "?n - ?lo = 2 ^ Suc i" and mid: "?lo + 2 ^ i = ?n - 2 ^ i" using assms by auto
  have "2 \<le> (2::nat) ^ Suc i" using one_le_power [of "2::nat" i] by simp
  with assms have "?lo + 2 \<le> ?n" by linarith
  from mth_split(1) [OF this order_refl, of sha] show ?thesis
    by (simp only: len lg_pow2_pred mid tail_node_def)
qed

lemma node_chain_tail:
  assumes "2 ^ m dvd length leaves" "leaves \<noteq> []"
    and old: "\<And>i. i < m \<Longrightarrow> old ! (m - 1 - i) =
      mth sha (rng leaves (length leaves - 2 ^ Suc i) (length leaves - 2 ^ i))"
  shows "node_chain sha old m (last leaves) = map (tail_node sha leaves) [0..<Suc m]"
proof -
  have "fold (\<lambda>i (hashes, h). let h' = NodeHash sha (old ! (m - 1 - i)) h in (hashes @ [h'], h'))
      [0..<j] ([last leaves], last leaves) = (map (tail_node sha leaves) [0..<Suc j], tail_node sha leaves j)"
    if "j \<le> m" for j
    using that
  proof (induction j)
    case 0
    show ?case using mth_one [of "length leaves - 1" leaves sha] assms(2) by (simp add: tail_node_def last_conv_nth)
  next
    case (Suc j)
    have "(2::nat) ^ Suc j dvd 2 ^ m" using Suc.prems by (rule le_imp_power_dvd)
    then have "2 ^ Suc j dvd length leaves" using assms(1) by (rule dvd_trans)
    then have "2 ^ Suc j \<le> length leaves" by (rule dvd_imp_le) (simp add: assms(2))
    from tail_node_Suc [OF this, of sha] old [of j] Suc show ?case by (simp add: Let_def)
  qed
  from this [of m] show ?thesis by (simp only: node_chain_def order_refl fst_conv)
qed

lemma log_ok_append:
  assumes "log_ok sha leaves store"
  shows "log_ok sha (leaves @ [h]) (store @ map (tail_node sha (leaves @ [h])) [0..<Suc (tz (Suc (length leaves)))])"
proof -
  let ?n = "length leaves" and ?ls = "leaves @ [h]"
  let ?new = "map (tail_node sha ?ls) [0..<Suc (tz (Suc ?n))]"
  have len: "length store = ipos ?n" using assms by (simp add: log_ok_def)
  have "(store @ ?new) ! node_at lo l = mth sha (rng ?ls lo (lo + 2 ^ l))"
    if d: "2 ^ l dvd lo" and le: "lo + 2 ^ l \<le> Suc ?n" for l lo
  proof (cases "lo + 2 ^ l \<le> ?n")
    case True
    then show ?thesis using node_at_less [OF d True] log_okD [OF assms d True] len
      by (simp add: nth_append rng_append)
  next
    case False
    with le have e: "lo + 2 ^ l = Suc ?n" by simp
    then have "2 ^ l dvd Suc ?n" using d by (metis dvd_add_triv_right_iff)
    then have "l \<le> tz (Suc ?n)" by (simp add: tz_dvd)
    moreover have "node_at lo l = length store + l" using e len by (simp add: node_at_def)
    moreover have "tail_node sha ?ls l = mth sha (rng ?ls lo (lo + 2 ^ l))"
      using e by (simp add: tail_node_def flip: e)
    ultimately show ?thesis by (simp add: nth_append del: upt_Suc)
  qed
  then show ?thesis using len by (simp add: log_ok_def ipos_Suc del: upt_Suc)
qed

lemma log_ok_empty [simp]: "log_ok sha [] []"
  by (simp add: log_ok_def)
section \<open>Running a proof\<close>

text \<open>One step of each walk, over a range of leaves that is split as in the RFC.\<close>

lemma half_int:
  assumes "lo + 2 \<le> hi" "hi < 2 ^ 62"
  shows "maxpow2 (int hi - int lo) = Some (2 ^ lg (hi - lo - 1), int (lg (hi - lo - 1)))"
  using assms by (intro maxpow2_half) auto

lemma walk_left:
  assumes "lo + 2 \<le> hi" "hi < 2 ^ 62" "lo \<le> n" "n < lo + 2 ^ lg (hi - lo - 1)" "n < hi"
  defines "m \<equiv> lo + 2 ^ lg (hi - lo - 1)"
  shows "leafProofIndex (int lo) (int hi) (int n) need =
      run_bind (leafProofIndex (int lo) (int m) (int n) need) (\<lambda>need. subTreeIndex (int m) (int hi) need)"
    and "leafProof sha (int lo) (int hi) (int n) hs =
      run_bind (leafProof sha (int lo) (int m) (int n) hs) (\<lambda>(p, hs).
      run_bind (subTreeHash sha (int m) (int hi) hs) (\<lambda>(th, hs). Some (Ok (p @ [th], hs))))"
    and "runRecordProof sha (p @ [x]) (int lo) (int hi) (int n) h =
      run_bind (runRecordProof sha p (int lo) (int m) (int n) h) (\<lambda>th. Some (Ok (NodeHash sha th x)))"
proof -
  note h = half_int [OF assms(1,2)]
  have m: "int m = int lo + 2 ^ lg (hi - lo - 1)" by (simp add: m_def)
  have c: "int lo \<le> int n" "int n < int hi" "int lo + 1 \<noteq> int hi" "int n < int lo + 2 ^ lg (hi - lo - 1)"
    unfolding m [symmetric] using assms(1-5) [folded m_def] by simp_all
  show "leafProofIndex (int lo) (int hi) (int n) need =
      run_bind (leafProofIndex (int lo) (int m) (int n) need) (\<lambda>need. subTreeIndex (int m) (int hi) need)"
    unfolding leafProofIndex.simps [of "int lo" "int hi"] m using c by (simp add: h)
  show "leafProof sha (int lo) (int hi) (int n) hs =
      run_bind (leafProof sha (int lo) (int m) (int n) hs) (\<lambda>(p, hs).
      run_bind (subTreeHash sha (int m) (int hi) hs) (\<lambda>(th, hs). Some (Ok (p @ [th], hs))))"
    unfolding leafProof.simps [of sha "int lo" "int hi"] m using c by (simp add: h)
  show "runRecordProof sha (p @ [x]) (int lo) (int hi) (int n) h =
      run_bind (runRecordProof sha p (int lo) (int m) (int n) h) (\<lambda>th. Some (Ok (NodeHash sha th x)))"
    unfolding runRecordProof.simps [of sha "p @ [x]" "int lo" "int hi"] m using c by (simp add: h)
qed

lemma walk_right:
  assumes "lo + 2 \<le> hi" "hi < 2 ^ 62" "lo + 2 ^ lg (hi - lo - 1) \<le> n" "n < hi"
  defines "m \<equiv> lo + 2 ^ lg (hi - lo - 1)"
  shows "leafProofIndex (int lo) (int hi) (int n) need =
      run_bind (subTreeIndex (int lo) (int m) need) (\<lambda>need. leafProofIndex (int m) (int hi) (int n) need)"
    and "leafProof sha (int lo) (int hi) (int n) hs =
      run_bind (subTreeHash sha (int lo) (int m) hs) (\<lambda>(th, hs).
      run_bind (leafProof sha (int m) (int hi) (int n) hs) (\<lambda>(p, hs). Some (Ok (p @ [th], hs))))"
    and "runRecordProof sha (p @ [x]) (int lo) (int hi) (int n) h =
      run_bind (runRecordProof sha p (int m) (int hi) (int n) h) (\<lambda>th. Some (Ok (NodeHash sha x th)))"
proof -
  note h = half_int [OF assms(1,2)]
  have m: "int m = int lo + 2 ^ lg (hi - lo - 1)" by (simp add: m_def)
  have lo: "lo < m" by (simp add: m_def)
  have c: "int lo \<le> int n" "int n < int hi" "int lo + 1 \<noteq> int hi" "\<not> int n < int lo + 2 ^ lg (hi - lo - 1)"
    unfolding m [symmetric] using assms(1-4) [folded m_def] lo by simp_all
  show "leafProofIndex (int lo) (int hi) (int n) need =
      run_bind (subTreeIndex (int lo) (int m) need) (\<lambda>need. leafProofIndex (int m) (int hi) (int n) need)"
    unfolding leafProofIndex.simps [of "int lo" "int hi"] m using c by (simp add: h)
  show "leafProof sha (int lo) (int hi) (int n) hs =
      run_bind (subTreeHash sha (int lo) (int m) hs) (\<lambda>(th, hs).
      run_bind (leafProof sha (int m) (int hi) (int n) hs) (\<lambda>(p, hs). Some (Ok (p @ [th], hs))))"
    unfolding leafProof.simps [of sha "int lo" "int hi"] m using c by (simp add: h)
  show "runRecordProof sha (p @ [x]) (int lo) (int hi) (int n) h =
      run_bind (runRecordProof sha p (int m) (int hi) (int n) h) (\<lambda>th. Some (Ok (NodeHash sha x th)))"
    unfolding runRecordProof.simps [of sha "p @ [x]" "int lo" "int hi"] m using c by (simp add: h)
qed

lemma tree_left:
  assumes "lo + 2 \<le> hi" "hi < 2 ^ 62" "lo < n" "n \<le> lo + 2 ^ lg (hi - lo - 1)" "n < hi"
  defines "m \<equiv> lo + 2 ^ lg (hi - lo - 1)"
  shows "treeProofIndex (int lo) (int hi) (int n) need =
      run_bind (treeProofIndex (int lo) (int m) (int n) need) (\<lambda>need. subTreeIndex (int m) (int hi) need)"
    and "treeProof sha (int lo) (int hi) (int n) hs =
      run_bind (treeProof sha (int lo) (int m) (int n) hs) (\<lambda>(p, hs).
      run_bind (subTreeHash sha (int m) (int hi) hs) (\<lambda>(th, hs). Some (Ok (p @ [th], hs))))"
    and "runTreeProof sha (p @ [x]) (int lo) (int hi) (int n) h =
      run_bind (runTreeProof sha p (int lo) (int m) (int n) h) (\<lambda>(oh, th). Some (Ok (oh, NodeHash sha th x)))"
proof -
  note h = half_int [OF assms(1,2)]
  have m: "int m = int lo + 2 ^ lg (hi - lo - 1)" by (simp add: m_def)
  have c: "int lo < int n" "int n \<le> int hi" "int n \<noteq> int hi" "int n \<le> int lo + 2 ^ lg (hi - lo - 1)"
    unfolding m [symmetric] using assms(1-5) [folded m_def] by simp_all
  show "treeProofIndex (int lo) (int hi) (int n) need =
      run_bind (treeProofIndex (int lo) (int m) (int n) need) (\<lambda>need. subTreeIndex (int m) (int hi) need)"
    unfolding treeProofIndex.simps [of "int lo" "int hi"] m using c by (simp add: h)
  show "treeProof sha (int lo) (int hi) (int n) hs =
      run_bind (treeProof sha (int lo) (int m) (int n) hs) (\<lambda>(p, hs).
      run_bind (subTreeHash sha (int m) (int hi) hs) (\<lambda>(th, hs). Some (Ok (p @ [th], hs))))"
    unfolding treeProof.simps [of sha "int lo" "int hi"] m using c by (simp add: h)
  show "runTreeProof sha (p @ [x]) (int lo) (int hi) (int n) h =
      run_bind (runTreeProof sha p (int lo) (int m) (int n) h) (\<lambda>(oh, th). Some (Ok (oh, NodeHash sha th x)))"
    unfolding runTreeProof.simps [of sha "p @ [x]" "int lo" "int hi"] m using c by (simp add: h)
qed

lemma tree_right:
  assumes "lo + 2 \<le> hi" "hi < 2 ^ 62" "lo + 2 ^ lg (hi - lo - 1) < n" "n < hi"
  defines "m \<equiv> lo + 2 ^ lg (hi - lo - 1)"
  shows "treeProofIndex (int lo) (int hi) (int n) need =
      run_bind (subTreeIndex (int lo) (int m) need) (\<lambda>need. treeProofIndex (int m) (int hi) (int n) need)"
    and "treeProof sha (int lo) (int hi) (int n) hs =
      run_bind (subTreeHash sha (int lo) (int m) hs) (\<lambda>(th, hs).
      run_bind (treeProof sha (int m) (int hi) (int n) hs) (\<lambda>(p, hs). Some (Ok (p @ [th], hs))))"
    and "runTreeProof sha (p @ [x]) (int lo) (int hi) (int n) h =
      run_bind (runTreeProof sha p (int m) (int hi) (int n) h)
        (\<lambda>(oh, th). Some (Ok (NodeHash sha x oh, NodeHash sha x th)))"
proof -
  note h = half_int [OF assms(1,2)]
  have m: "int m = int lo + 2 ^ lg (hi - lo - 1)" by (simp add: m_def)
  have lo: "lo < m" by (simp add: m_def)
  have c: "int lo < int n" "int n \<le> int hi" "int n \<noteq> int hi" "\<not> int n \<le> int lo + 2 ^ lg (hi - lo - 1)"
    unfolding m [symmetric] using assms(1-4) [folded m_def] lo by simp_all
  show "treeProofIndex (int lo) (int hi) (int n) need =
      run_bind (subTreeIndex (int lo) (int m) need) (\<lambda>need. treeProofIndex (int m) (int hi) (int n) need)"
    unfolding treeProofIndex.simps [of "int lo" "int hi"] m using c by (simp add: h)
  show "treeProof sha (int lo) (int hi) (int n) hs =
      run_bind (subTreeHash sha (int lo) (int m) hs) (\<lambda>(th, hs).
      run_bind (treeProof sha (int m) (int hi) (int n) hs) (\<lambda>(p, hs). Some (Ok (p @ [th], hs))))"
    unfolding treeProof.simps [of sha "int lo" "int hi"] m using c by (simp add: h)
  show "runTreeProof sha (p @ [x]) (int lo) (int hi) (int n) h =
      run_bind (runTreeProof sha p (int m) (int hi) (int n) h)
        (\<lambda>(oh, th). Some (Ok (NodeHash sha x oh, NodeHash sha x th)))"
    unfolding runTreeProof.simps [of sha "p @ [x]" "int lo" "int hi"] m using c by (simp add: h)
qed

lemma leaf_done:
  "leafProofIndex (int n) (int (Suc n)) (int n) need = Some (Ok need)"
  "leafProof sha (int n) (int (Suc n)) (int n) hs = Some (Ok ([], hs))"
  "runRecordProof sha p (int n) (int (Suc n)) (int n) h = (if p = [] then Some (Ok h) else Some (Err ErrProofFailed))"
  by (simp_all add: leafProofIndex.simps leafProof.simps runRecordProof.simps)

lemma tree_done:
  assumes "lo < n"
  shows "treeProofIndex (int lo) (int n) (int n) need =
      (if lo = 0 then Some (Ok need) else subTreeIndex (int lo) (int n) need)"
    and "treeProof sha (int lo) (int n) (int n) hs = (if lo = 0 then Some (Ok ([], hs))
      else run_bind (subTreeHash sha (int lo) (int n) hs) (\<lambda>(th, hs). Some (Ok ([th], hs))))"
    and "runTreeProof sha p (int lo) (int n) (int n) h =
      (if lo = 0 then (if p = [] then Some (Ok (h, h)) else Some (Err ErrProofFailed))
       else if length p = 1 then Some (Ok (p ! 0, p ! 0)) else Some (Err ErrProofFailed))"
  using assms by (simp_all add: treeProofIndex.simps treeProof.simps runTreeProof.simps)

text \<open>The RFC's recursion, over the same ranges.\<close>

lemma audit_path_one: "audit_path sha m (rng ls lo (Suc lo)) = []"
  by (simp add: audit_path.simps rng_def)

lemma audit_path_split:
  assumes "lo + 2 \<le> hi" "hi \<le> length ls"
  defines "m \<equiv> lo + 2 ^ lg (hi - lo - 1)"
  shows "lo \<le> n \<Longrightarrow> n < m \<Longrightarrow>
      audit_path sha (n - lo) (rng ls lo hi) = audit_path sha (n - lo) (rng ls lo m) @ [mth sha (rng ls m hi)]"
    and "m \<le> n \<Longrightarrow>
      audit_path sha (n - lo) (rng ls lo hi) = audit_path sha (n - m) (rng ls m hi) @ [mth sha (rng ls lo m)]"
proof -
  have k: "split_at (rng ls lo hi) = 2 ^ lg (hi - lo - 1)" using assms(1,2) by (simp add: split_at_def)
  have lt: "lo + 2 ^ lg (hi - lo - 1) \<le> hi" using mth_split(3) [OF assms(1,2)] by simp
  have l: "\<not> length (rng ls lo hi) \<le> 1" using assms(1,2) by simp
  show "audit_path sha (n - lo) (rng ls lo hi) = audit_path sha (n - lo) (rng ls lo m) @ [mth sha (rng ls m hi)]"
    if "lo \<le> n" "n < m"
    using that l lt by (subst audit_path.simps) (auto simp: Let_def k take_rng drop_rng m_def)
  show "audit_path sha (n - lo) (rng ls lo hi) = audit_path sha (n - m) (rng ls m hi) @ [mth sha (rng ls lo m)]"
    if "m \<le> n"
    using that l lt by (subst audit_path.simps) (auto simp: Let_def k take_rng drop_rng m_def)
qed

lemma subproof_split:
  assumes "lo + 2 \<le> hi" "hi \<le> length ls" "n < hi"
  defines "m \<equiv> lo + 2 ^ lg (hi - lo - 1)"
  shows "lo < n \<Longrightarrow> n \<le> m \<Longrightarrow>
      subproof sha (n - lo) (rng ls lo hi) b = subproof sha (n - lo) (rng ls lo m) b @ [mth sha (rng ls m hi)]"
    and "m < n \<Longrightarrow>
      subproof sha (n - lo) (rng ls lo hi) b = subproof sha (n - m) (rng ls m hi) False @ [mth sha (rng ls lo m)]"
proof -
  have k: "split_at (rng ls lo hi) = 2 ^ lg (hi - lo - 1)" using assms(1,2) by (simp add: split_at_def)
  have lt: "lo + 2 ^ lg (hi - lo - 1) \<le> hi" using mth_split(3) [OF assms(1,2)] by simp
  have l: "\<not> length (rng ls lo hi) \<le> 1" "length (rng ls lo hi) = hi - lo" using assms(1,2) by simp_all
  show "subproof sha (n - lo) (rng ls lo hi) b = subproof sha (n - lo) (rng ls lo m) b @ [mth sha (rng ls m hi)]"
    if "lo < n" "n \<le> m"
    using that l lt assms(3) by (subst subproof.simps) (auto simp: Let_def k take_rng drop_rng m_def)
  show "subproof sha (n - lo) (rng ls lo hi) b = subproof sha (n - m) (rng ls m hi) False @ [mth sha (rng ls lo m)]"
    if "m < n"
    using that l lt assms(3) by (subst subproof.simps) (auto simp: Let_def k take_rng drop_rng m_def)
qed

lemma record_walk:
  assumes "log_ok sha leaves store" "length leaves < 2 ^ 62"
  shows "aligned lo hi \<Longrightarrow> lo \<le> n \<Longrightarrow> n < hi \<Longrightarrow> hi \<le> length leaves \<Longrightarrow>
    \<exists>ix. (\<forall>i \<in> set ix. i < length store) \<and> length (audit_path sha (n - lo) (rng leaves lo hi)) \<le> length ix \<and>
      (\<forall>need. leafProofIndex (int lo) (int hi) (int n) need = Some (Ok (need @ map int ix))) \<and>
      (\<forall>rest. leafProof sha (int lo) (int hi) (int n) (map ((!) store) ix @ rest) =
        Some (Ok (audit_path sha (n - lo) (rng leaves lo hi), rest)))"
proof (induction "hi - lo" arbitrary: lo hi rule: less_induct)
  case less
  show ?case
  proof (cases "hi = Suc lo")
    case 1: True
    with less.prems have "n = lo" by simp
    with 1 show ?thesis by (intro exI [of _ "[]"]) (simp add: leaf_done audit_path_one del: of_nat_Suc)
  next
    case False
    with less.prems have 2: "lo + 2 \<le> hi" by simp
    define m where "m = lo + 2 ^ lg (hi - lo - 1)"
    have m: "lo < m" "m < hi" using mth_split(2,3) [OF 2 less.prems(4)] by (simp_all add: m_def)
    have al: "aligned lo m" "aligned m hi" using aligned_halves [OF less.prems(1) 2] by (simp_all add: m_def)
    have sz: "m - lo < hi - lo" "hi - m < hi - lo" using m by linarith+
    have hi: "hi < 2 ^ 62" using less.prems(4) assms(2) by linarith
    show ?thesis
    proof (cases "n < m")
      case True
      then obtain ix where ix: "\<forall>i \<in> set ix. i < length store" "length (audit_path sha (n - lo) (rng leaves lo m)) \<le> length ix"
          "\<And>need. leafProofIndex (int lo) (int m) (int n) need = Some (Ok (need @ map int ix))"
          "\<And>rest. leafProof sha (int lo) (int m) (int n) (map ((!) store) ix @ rest) =
            Some (Ok (audit_path sha (n - lo) (rng leaves lo m), rest))"
        using less.hyps [OF sz(1) al(1)] m less.prems by auto
      obtain jx where jx: "covers sha leaves store jx m hi" using covers_ex [OF assms al(2) m(2) less.prems(4)] by blast
      have "n < lo + 2 ^ lg (hi - lo - 1)" using True by (simp add: m_def)
      note w = walk_left [OF 2 hi less.prems(2) this less.prems(3), folded m_def]
      show ?thesis
        using ix jx covers_len [OF jx] covers_hash [OF jx] audit_path_split(1) [OF 2 less.prems(4,2), folded m_def, OF True]
        by (intro exI [of _ "ix @ jx"]) (auto simp: w covers_def)
    next
      case False
      then obtain ix where ix: "\<forall>i \<in> set ix. i < length store" "length (audit_path sha (n - m) (rng leaves m hi)) \<le> length ix"
          "\<And>need. leafProofIndex (int m) (int hi) (int n) need = Some (Ok (need @ map int ix))"
          "\<And>rest. leafProof sha (int m) (int hi) (int n) (map ((!) store) ix @ rest) =
            Some (Ok (audit_path sha (n - m) (rng leaves m hi), rest))"
        using less.hyps [OF sz(2) al(2)] m less.prems by auto
      obtain jx where jx: "covers sha leaves store jx lo m"
        using covers_ex [OF assms al(1) m(1)] m less.prems(4) by auto
      have ge: "m \<le> n" using False by simp
      note w = walk_right [OF 2 hi ge [unfolded m_def] less.prems(3), folded m_def]
      show ?thesis
        using ix jx covers_len [OF jx] covers_hash [OF jx] audit_path_split(2) [OF 2 less.prems(4), folded m_def, OF ge]
        by (intro exI [of _ "jx @ ix"]) (auto simp: w covers_def)
    qed
  qed
qed

lemma runRecordProof_audit:
  assumes "length leaves < 2 ^ 62"
  shows "lo \<le> n \<Longrightarrow> n < hi \<Longrightarrow> hi \<le> length leaves \<Longrightarrow>
    runRecordProof sha (audit_path sha (n - lo) (rng leaves lo hi)) (int lo) (int hi) (int n) (leaves ! n) =
      Some (Ok (mth sha (rng leaves lo hi)))"
proof (induction "hi - lo" arbitrary: lo hi rule: less_induct)
  case less
  show ?case
  proof (cases "hi = Suc lo")
    case 1: True
    with less.prems have "n = lo" by simp
    with 1 less.prems show ?thesis by (simp add: leaf_done audit_path_one mth_one del: of_nat_Suc)
  next
    case False
    with less.prems have 2: "lo + 2 \<le> hi" by simp
    define m where "m = lo + 2 ^ lg (hi - lo - 1)"
    note split = mth_split [OF 2 less.prems(3), folded m_def]
    have hi: "hi < 2 ^ 62" using less.prems(3) assms by linarith
    show ?thesis
    proof (cases "n < m")
      case True
      note w = walk_left(3) [OF 2 hi less.prems(1) True [unfolded m_def] less.prems(2), folded m_def]
      show ?thesis using audit_path_split(1) [OF 2 less.prems(3,1), folded m_def, OF True]
          less.hyps [of m lo] True split less.prems by (simp add: w)
    next
      case False
      then have ge: "m \<le> n" by simp
      note w = walk_right(3) [OF 2 hi ge [unfolded m_def] less.prems(2), folded m_def]
      show ?thesis using audit_path_split(2) [OF 2 less.prems(3), folded m_def, OF ge]
          less.hyps [of hi m] ge split less.prems by (simp add: w)
    qed
  qed
qed


lemma subproof_done: "lo < hi \<Longrightarrow> hi \<le> length ls \<Longrightarrow>
    subproof sha (hi - lo) (rng ls lo hi) b = (if b then [] else [mth sha (rng ls lo hi)])"
  by (simp add: subproof.simps)

lemma tree_walk:
  assumes "log_ok sha leaves store" "length leaves < 2 ^ 62"
  shows "aligned lo hi \<Longrightarrow> lo < n \<Longrightarrow> n \<le> hi \<Longrightarrow> hi \<le> length leaves \<Longrightarrow>
    \<exists>ix. (\<forall>i \<in> set ix. i < length store) \<and> length (subproof sha (n - lo) (rng leaves lo hi) (lo = 0)) \<le> length ix \<and>
      (\<forall>need. treeProofIndex (int lo) (int hi) (int n) need = Some (Ok (need @ map int ix))) \<and>
      (\<forall>rest. treeProof sha (int lo) (int hi) (int n) (map ((!) store) ix @ rest) =
        Some (Ok (subproof sha (n - lo) (rng leaves lo hi) (lo = 0), rest)))"
proof (induction "hi - lo" arbitrary: lo hi rule: less_induct)
  case less
  show ?case
  proof (cases "n = hi")
    case True
    with less.prems have lt: "lo < hi" by simp
    from lt True show ?thesis
    proof (cases "lo = 0")
      case True
      then show ?thesis using \<open>n = hi\<close> subproof_done [OF lt less.prems(4)] tree_done [OF lt]
        by (intro exI [of _ "[]"]) simp
    next
      case False
      obtain jx where jx: "covers sha leaves store jx lo hi"
        using covers_ex [OF assms less.prems(1) lt less.prems(4)] by blast
      then show ?thesis using \<open>n = hi\<close> False covers_len [OF jx] subproof_done [OF lt less.prems(4)] covers_hash [OF jx]
        by (intro exI [of _ jx]) (simp add: tree_done [OF lt] covers_def)
    qed
  next
    case False
    with less.prems have 2: "lo + 2 \<le> hi" and n: "n < hi" by simp_all
    define m where "m = lo + 2 ^ lg (hi - lo - 1)"
    have m: "lo < m" "m < hi" using mth_split(2,3) [OF 2 less.prems(4)] by (simp_all add: m_def)
    have al: "aligned lo m" "aligned m hi" using aligned_halves [OF less.prems(1) 2] by (simp_all add: m_def)
    have sz: "m - lo < hi - lo" "hi - m < hi - lo" using m by linarith+
    have hi: "hi < 2 ^ 62" using less.prems(4) assms(2) by linarith
    note sp = subproof_split [OF 2 less.prems(4) n, folded m_def]
    show ?thesis
    proof (cases "n \<le> m")
      case True
      then obtain ix where ix: "\<forall>i \<in> set ix. i < length store" "length (subproof sha (n - lo) (rng leaves lo m) (lo = 0)) \<le> length ix"
          "\<And>need. treeProofIndex (int lo) (int m) (int n) need = Some (Ok (need @ map int ix))"
          "\<And>rest. treeProof sha (int lo) (int m) (int n) (map ((!) store) ix @ rest) =
            Some (Ok (subproof sha (n - lo) (rng leaves lo m) (lo = 0), rest))"
        using less.hyps [OF sz(1) al(1)] m less.prems by auto
      obtain jx where jx: "covers sha leaves store jx m hi" using covers_ex [OF assms al(2) m(2) less.prems(4)] by blast
      note w = tree_left [OF 2 hi less.prems(2) True [unfolded m_def] n, folded m_def]
      show ?thesis using ix jx covers_len [OF jx] covers_hash [OF jx] sp(1) [OF less.prems(2) True]
        by (intro exI [of _ "ix @ jx"]) (auto simp: w covers_def)
    next
      case False
      then have gt: "m < n" by simp
      then obtain ix where ix: "\<forall>i \<in> set ix. i < length store" "length (subproof sha (n - m) (rng leaves m hi) False) \<le> length ix"
          "\<And>need. treeProofIndex (int m) (int hi) (int n) need = Some (Ok (need @ map int ix))"
          "\<And>rest. treeProof sha (int m) (int hi) (int n) (map ((!) store) ix @ rest) =
            Some (Ok (subproof sha (n - m) (rng leaves m hi) False, rest))"
        using less.hyps [OF sz(2) al(2)] m less.prems by auto
      obtain jx where jx: "covers sha leaves store jx lo m"
        using covers_ex [OF assms al(1) m(1)] m less.prems(4) by auto
      note w = tree_right [OF 2 hi gt [unfolded m_def] n, folded m_def]
      show ?thesis using ix jx covers_len [OF jx] covers_hash [OF jx] sp(2) [OF gt]
        by (intro exI [of _ "jx @ ix"]) (auto simp: w covers_def)
    qed
  qed
qed

text \<open>A prefix that reaches into the right half is split where the whole range is split.\<close>

lemma mth_prefix:
  assumes "lo + 2 \<le> hi" "hi \<le> length ls" "lo + 2 ^ lg (hi - lo - 1) < n" "n \<le> hi"
  shows "mth sha (rng ls lo n) =
    NodeHash sha (mth sha (rng ls lo (lo + 2 ^ lg (hi - lo - 1)))) (mth sha (rng ls (lo + 2 ^ lg (hi - lo - 1)) n))"
proof -
  have b: "hi - lo - 1 < 2 * 2 ^ lg (hi - lo - 1)" using lg_bounds [of "hi - lo - 1"] assms(1) by simp
  have e: "lg (n - lo - 1) = lg (hi - lo - 1)" using assms(3,4) b by (intro lg_unique) linarith+
  have "lo + 2 \<le> n" using assms(3) one_le_power [of "2::nat" "lg (hi - lo - 1)"] by linarith
  from mth_split(1) [OF this, of ls sha] assms(2,4) show ?thesis unfolding e by simp
qed

lemma runTreeProof_subproof:
  assumes "length leaves < 2 ^ 62"
  shows "lo < n \<Longrightarrow> n \<le> hi \<Longrightarrow> hi \<le> length leaves \<Longrightarrow>
    runTreeProof sha (subproof sha (n - lo) (rng leaves lo hi) (lo = 0)) (int lo) (int hi) (int n) (mth sha (rng leaves 0 n)) =
      Some (Ok (mth sha (rng leaves lo n), mth sha (rng leaves lo hi)))"
proof (induction "hi - lo" arbitrary: lo hi rule: less_induct)
  case less
  show ?case
  proof (cases "n = hi")
    case True
    with less.prems have lt: "lo < hi" by simp
    with True show ?thesis using subproof_done [OF lt less.prems(3)] by (simp add: tree_done [OF lt])
  next
    case False
    with less.prems have 2: "lo + 2 \<le> hi" and n: "n < hi" by simp_all
    define m where "m = lo + 2 ^ lg (hi - lo - 1)"
    note split = mth_split [OF 2 less.prems(3), folded m_def]
    have hi: "hi < 2 ^ 62" using less.prems(3) assms by linarith
    note sp = subproof_split [OF 2 less.prems(3) n, folded m_def]
    show ?thesis
    proof (cases "n \<le> m")
      case True
      note w = tree_left(3) [OF 2 hi less.prems(1) True [unfolded m_def] n, folded m_def]
      show ?thesis using sp(1) [OF less.prems(1) True] less.hyps [of m lo] True split less.prems by (simp add: w)
    next
      case False
      then have gt: "m < n" by simp
      note w = tree_right(3) [OF 2 hi gt [unfolded m_def] n, folded m_def]
      show ?thesis using sp(2) [OF gt] less.hyps [of hi m] gt split less.prems
          mth_prefix [OF 2 less.prems(3) gt [unfolded m_def] less.prems(2), folded m_def]
        by (simp add: w)
    qed
  qed
qed


section \<open>What a client relies on: a reader of stored hashes\<close>

locale hash_reader =
  fixes r :: hash_reader and store :: "hash list"
  assumes read_ok: "(\<forall>i \<in> set ix. i < length store) \<Longrightarrow> r (map int ix) = Ok (map ((!) store) ix)"
begin

lemma read_all_ok: "(\<forall>i \<in> set ix. i < length store) \<Longrightarrow> read_all r (map int ix) = Some (Ok (map ((!) store) ix))"
  by (simp add: read_all_def read_ok)

lemma stored_hashes:
  assumes ok: "log_ok sha leaves store" and n: "length leaves < 2 ^ 62"
  shows "StoredHashesForRecordHash sha (int (length leaves)) h r =
    Ok (map (tail_node sha (leaves @ [h])) [0..<Suc (tz (Suc (length leaves)))])"
proof -
  let ?n = "length leaves" and ?ls = "leaves @ [h]" and ?m = "tz (Suc (length leaves))"
  define sib where "sib i = node_at (Suc ?n - 2 ^ Suc i) i" for i
  have d: "2 ^ Suc i dvd Suc ?n" if "i < ?m" for i using that by (simp add: tz_dvd del: power_Suc)
  note sibling = sibling_index [OF d]
  have m: "TrailingZeros64 (int ?n + 1) = ?m" using TrailingZeros64_eq [of "Suc ?n"] n by (simp add: add.commute)
  have le: "Suc ?n - 2 ^ Suc i + 2 ^ i \<le> ?n" if "i < ?m" for i
    using sibling(3,4) [OF that] n that by (simp add: le_diff_conv)
  have ix: "map (\<lambda>j. let i = ?m - 1 - j in StoredHashIndex (int i) (drop_bit i (int ?n) - 1)) [0..<?m] =
      map int (map (\<lambda>j. sib (?m - 1 - j)) [0..<?m])"
    using sibling(1) n by (auto simp: sib_def Let_def simp del: of_nat_diff)
  have "sib i < length store" if "i < ?m" for i
    using node_at_less [OF sibling(2) le] that n ok by (simp add: sib_def log_ok_def)
  then have r: "r (map int (map (\<lambda>j. sib (?m - 1 - j)) [0..<?m])) = Ok (map ((!) store) (map (\<lambda>j. sib (?m - 1 - j)) [0..<?m]))"
    by (intro read_ok) auto
  have "node_chain sha (map ((!) store) (map (\<lambda>j. sib (?m - 1 - j)) [0..<?m])) ?m (last ?ls) =
      map (tail_node sha ?ls) [0..<Suc ?m]"
  proof (rule node_chain_tail)
    show "2 ^ ?m dvd length ?ls" by (simp add: tz_dvd)
    fix i assume i: "i < ?m"
    have "store ! sib i = mth sha (rng leaves (Suc ?n - 2 ^ Suc i) (Suc ?n - 2 ^ Suc i + 2 ^ i))"
      unfolding sib_def using sibling(2) le i n by (intro log_okD [OF ok]) simp_all
    also have "\<dots> = mth sha (rng ?ls (Suc ?n - 2 ^ Suc i) (Suc ?n - 2 ^ i))"
      using sibling(3) le i n by (simp add: rng_append)
    finally show "map ((!) store) (map (\<lambda>j. sib (?m - 1 - j)) [0..<?m]) ! (?m - 1 - i) =
        mth sha (rng ?ls (length ?ls - 2 ^ Suc i) (length ?ls - 2 ^ i))"
      using i by simp
  qed simp
  with r show ?thesis unfolding StoredHashesForRecordHash_def m ix Let_def [of ?m] Let_def [of "map f xs" for f xs]
    by (simp del: upt_Suc)
qed

lemma tree_hash:
  assumes "log_ok sha leaves store" "length leaves < 2 ^ 62" "t \<le> length leaves"
  shows "TreeHash sha (int t) r = Some (Ok (mth sha (take t leaves)))"
proof (cases "t = 0")
  case True
  then show ?thesis by (simp add: TreeHash_def mth.simps)
next
  case False
  obtain ix where ix: "covers sha leaves store ix 0 t" using covers_ex [OF assms(1,2), of 0 t] False assms(3) by auto
  have t: "rng leaves 0 t = take t leaves" by (simp add: rng_def)
  from ix have "read_all r (map int ix) = Some (Ok (map ((!) store) ix))" by (intro read_all_ok) (simp add: covers_def)
  then show ?thesis using False ix covers_hash [OF ix, of "[]"] by (simp add: TreeHash_def covers_def t)
qed

lemma prove_record:
  assumes "log_ok sha leaves store" "length leaves < 2 ^ 62" "n < t" "t \<le> length leaves"
  shows "ProveRecord sha (int t) (int n) r = Some (Ok (audit_path sha n (take t leaves)))"
proof -
  have t: "rng leaves 0 t = take t leaves" by (simp add: rng_def)
  obtain ix where ix: "\<forall>i \<in> set ix. i < length store" "length (audit_path sha n (take t leaves)) \<le> length ix"
      "\<And>need. leafProofIndex 0 (int t) (int n) need = Some (Ok (need @ map int ix))"
      "\<And>rest. leafProof sha 0 (int t) (int n) (map ((!) store) ix @ rest) = Some (Ok (audit_path sha n (take t leaves), rest))"
    using record_walk [OF assms(1,2) aligned_0 _ assms(3,4)] by (auto simp: t)
  with ix(3) [of "[]"] ix(4) [of "[]"] read_all_ok [OF ix(1)] assms(3) show ?thesis
    by (cases "ix = []") (simp_all add: ProveRecord_def)
qed

lemma prove_tree:
  assumes "log_ok sha leaves store" "length leaves < 2 ^ 62" "0 < n" "n \<le> t" "t \<le> length leaves"
  shows "ProveTree sha (int t) (int n) r = Some (Ok (subproof sha n (take t leaves) True))"
proof -
  have t: "rng leaves 0 t = take t leaves" by (simp add: rng_def)
  obtain ix where ix: "\<forall>i \<in> set ix. i < length store" "length (subproof sha n (take t leaves) True) \<le> length ix"
      "\<And>need. treeProofIndex 0 (int t) (int n) need = Some (Ok (need @ map int ix))"
      "\<And>rest. treeProof sha 0 (int t) (int n) (map ((!) store) ix @ rest) = Some (Ok (subproof sha n (take t leaves) True, rest))"
    using tree_walk [OF assms(1,2) aligned_0 assms(3-5)] by (auto simp: t)
  with ix(3) [of "[]"] ix(4) [of "[]"] read_all_ok [OF ix(1)] assms(3,4) show ?thesis
    by (cases "ix = []") (simp_all add: ProveTree_def)
qed

end

section \<open>The file as a reader\<close>

lemma fhs_ReadHashes_eq:
  "(\<forall>i \<in> set ix. i < length (fhs_f f)) \<Longrightarrow> fhs_ReadHashes f (map int ix) = Ok (map ((!) (fhs_f f)) ix)"
  by (induction ix) (simp_all add: fhs_At_def)

interpretation fhs: hash_reader "fhs_ReadHashes f" "fhs_f f" for f
  by unfold_locales (rule fhs_ReadHashes_eq)

text \<open>The write offset stands at the end of the file until a rollback.\<close>

definition at_end :: "fileHashStorage \<Rightarrow> bool" where
  "at_end f \<longleftrightarrow> fhs_off f = length (fhs_f f)"

lemma fhs_Append_at_end: "at_end f \<Longrightarrow> at_end (fhs_Append hs f) \<and> fhs_f (fhs_Append hs f) = fhs_f f @ hs"
proof (induction hs arbitrary: f)
  case Nil
  then show ?case by (simp add: fhs_Append_def)
next
  case (Cons h hs)
  have "at_end (file_write h f) \<and> fhs_f (file_write h f) = fhs_f f @ [h]"
    using Cons.prems by (simp add: at_end_def file_write_def file_pad_def Let_def)
  with Cons.IH [of "file_write h f"] show ?case by (simp add: fhs_Append_def)
qed

text \<open>Writing a sequence of records to a file, one \<open>StoredHashes\<close> and \<open>Append\<close> each.\<close>

fun log_of :: "(bytes \<Rightarrow> hash) \<Rightarrow> bytes list \<Rightarrow> nat \<Rightarrow> fileHashStorage \<Rightarrow> (tlog_err, fileHashStorage) res" where
  "log_of sha [] n f = Ok f"
| "log_of sha (d # ds) n f =
     res_bind (StoredHashes sha (int n) d (fhs_ReadHashes f)) (\<lambda>hs. log_of sha ds (n + 1) (fhs_Append hs f))"

lemma log_step:
  assumes "log_ok sha leaves (fhs_f f)" "at_end f" "length leaves < 2 ^ 62"
  shows "\<exists>hs. StoredHashes sha (int (length leaves)) d (fhs_ReadHashes f) = Ok hs \<and>
    log_ok sha (leaves @ [RecordHash sha d]) (fhs_f (fhs_Append hs f)) \<and> at_end (fhs_Append hs f)"
  using fhs.stored_hashes [OF assms(1,3)] log_ok_append [OF assms(1)] fhs_Append_at_end [OF assms(2)]
  by (simp add: StoredHashes_def del: upt_Suc)

lemma log_of_ok:
  "log_ok sha leaves (fhs_f f) \<Longrightarrow> at_end f \<Longrightarrow> length leaves + length ds \<le> 2 ^ 62 \<Longrightarrow>
   \<exists>f'. log_of sha ds (length leaves) f = Ok f' \<and> log_ok sha (leaves @ map (RecordHash sha) ds) (fhs_f f') \<and> at_end f'"
proof (induction ds arbitrary: leaves f)
  case Nil
  then show ?case by simp
next
  case (Cons d ds)
  from Cons.prems have lt: "length leaves < 2 ^ 62" by simp
  obtain hs where hs: "StoredHashes sha (int (length leaves)) d (fhs_ReadHashes f) = Ok hs"
    "log_ok sha (leaves @ [RecordHash sha d]) (fhs_f (fhs_Append hs f))" "at_end (fhs_Append hs f)"
    using log_step [OF Cons.prems(1,2) lt] by blast
  from Cons.IH [OF hs(2,3)] Cons.prems(3) hs(1) show ?case by auto
qed

section \<open>Soundness: an accepted proof of a wrong hash exhibits a collision\<close>

text \<open>A node input that differs from the one of the tree and hashes to the same value.\<close>

definition node_input :: "hash \<Rightarrow> hash \<Rightarrow> bytes" where
  "node_input left right = 1 # left @ right"

definition clash :: "(bytes \<Rightarrow> hash) \<Rightarrow> bytes \<Rightarrow> bytes \<Rightarrow> bool" where
  "clash sha a b \<longleftrightarrow> a \<noteq> b \<and> sha a = sha b"

text \<open>\<open>record_clash\<close> and \<open>tree_clash\<close> walk an accepted proof against the leaves and return the first
  such pair.\<close>

function record_clash ::
  "(bytes \<Rightarrow> hash) \<Rightarrow> hash list \<Rightarrow> hash list \<Rightarrow> nat \<Rightarrow> nat \<Rightarrow> nat \<Rightarrow> hash \<Rightarrow> (bytes \<times> bytes) option" where
  "record_clash sha p ls lo hi n h =
     (if hi \<le> lo + 1 \<or> p = [] then None
      else let m = lo + 2 ^ lg (hi - lo - 1); b = node_input (mth sha (rng ls lo m)) (mth sha (rng ls m hi)) in
        if n < m then
          (case runRecordProof sha (butlast p) (int lo) (int m) (int n) h of
             Some (Ok th) \<Rightarrow> if clash sha (node_input th (last p)) b then Some (node_input th (last p), b)
                             else record_clash sha (butlast p) ls lo m n h
           | _ \<Rightarrow> None)
        else
          (case runRecordProof sha (butlast p) (int m) (int hi) (int n) h of
             Some (Ok th) \<Rightarrow> if clash sha (node_input (last p) th) b then Some (node_input (last p) th, b)
                             else record_clash sha (butlast p) ls m hi n h
           | _ \<Rightarrow> None))"
  by pat_completeness auto
termination
  by (relation "measure (\<lambda>(sha, p, ls, lo, hi, n, h). length p)") auto

function tree_clash ::
  "(bytes \<Rightarrow> hash) \<Rightarrow> hash list \<Rightarrow> hash list \<Rightarrow> nat \<Rightarrow> nat \<Rightarrow> nat \<Rightarrow> hash \<Rightarrow> (bytes \<times> bytes) option" where
  "tree_clash sha p ls lo hi n h =
     (if hi \<le> n \<or> p = [] then None
      else let m = lo + 2 ^ lg (hi - lo - 1); b = node_input (mth sha (rng ls lo m)) (mth sha (rng ls m hi)) in
        if n \<le> m then
          (case runTreeProof sha (butlast p) (int lo) (int m) (int n) h of
             Some (Ok (oh, th)) \<Rightarrow> if clash sha (node_input th (last p)) b then Some (node_input th (last p), b)
                             else tree_clash sha (butlast p) ls lo m n h
           | _ \<Rightarrow> None)
        else
          (case runTreeProof sha (butlast p) (int m) (int hi) (int n) h of
             Some (Ok (oh, th)) \<Rightarrow> if clash sha (node_input (last p) th) b then Some (node_input (last p) th, b)
                             else tree_clash sha (butlast p) ls m hi n h
           | _ \<Rightarrow> None))"
  by pat_completeness auto
termination
  by (relation "measure (\<lambda>(sha, p, ls, lo, hi, n, h). length p)") auto

declare record_clash.simps [simp del] tree_clash.simps [simp del]

definition found :: "(bytes \<Rightarrow> hash) \<Rightarrow> (bytes \<times> bytes) option \<Rightarrow> bool" where
  "found sha c \<longleftrightarrow> (case c of None \<Rightarrow> False | Some (a, b) \<Rightarrow> clash sha a b)"

text \<open>All hashes have the size of a \<^verbatim>\<open>Hash\<close>.\<close>

definition sized :: "hash list \<Rightarrow> bool" where
  "sized hs \<longleftrightarrow> (\<forall>h \<in> set hs. length h = HashSize)"

lemma sized_nth: "sized hs \<Longrightarrow> i < length hs \<Longrightarrow> length (hs ! i) = HashSize"
  by (simp add: sized_def)

lemma sized_simps [simp]: "sized []" "sized (xs @ [x]) \<longleftrightarrow> sized xs \<and> length x = HashSize"
  by (auto simp: sized_def)

lemma NodeHash_input: "NodeHash sha l r = sha (node_input l r)"
  by (simp add: NodeHash_def node_input_def)

lemma mth_sized:
  assumes "\<And>x. length (sha x) = HashSize" "sized ls" "lo < hi" "hi \<le> length ls"
  shows "length (mth sha (rng ls lo hi)) = HashSize"
proof (cases "hi = Suc lo")
  case True
  then show ?thesis using assms by (simp add: mth_one sized_nth)
next
  case False
  then show ?thesis using mth_split(1) [of lo hi ls sha] assms by (simp add: NodeHash_def)
qed

text \<open>The node equation at one step: a clash, or both children agree.\<close>

lemma node_agree:
  assumes "NodeHash sha l r = NodeHash sha l' r'" "length l = length l'"
  shows "clash sha (node_input l r) (node_input l' r') \<or> l = l' \<and> r = r'"
  using assms by (auto simp: clash_def NodeHash_input node_input_def)
lemma runRecordProof_sized:
  assumes "runRecordProof sha p lo hi n h = Some (Ok th)" "\<And>x. length (sha x) = HashSize" "length h = HashSize"
  shows "length th = HashSize"
  using assms
  by (subst (asm) runRecordProof.simps) (auto simp: run_bind_Ok NodeHash_def split: if_splits option.splits)

lemma runTreeProof_sized:
  assumes "runTreeProof sha p lo hi n h = Some (Ok (oh, th))" "\<And>x. length (sha x) = HashSize"
    "length h = HashSize" "sized p"
  shows "length th = HashSize"
  using assms
  by (subst (asm) runTreeProof.simps) (auto simp: run_bind_Ok sized_def length_Suc_conv NodeHash_def split: if_splits option.splits)

lemma runRecordProof_sound:
  assumes sha: "\<And>x. length (sha x) = HashSize" and ls: "sized ls" "length ls < 2 ^ 62" and h: "length h = HashSize"
  shows "lo \<le> n \<Longrightarrow> n < hi \<Longrightarrow> hi \<le> length ls \<Longrightarrow> sized p \<Longrightarrow>
    runRecordProof sha p (int lo) (int hi) (int n) h = Some (Ok (mth sha (rng ls lo hi))) \<Longrightarrow>
    h = ls ! n \<or> found sha (record_clash sha p ls lo hi n h)"
proof (induction p arbitrary: lo hi rule: rev_induct)
  case Nil
  then have hi: "hi = Suc lo" by (subst (asm) runRecordProof.simps) (auto split: if_splits)
  with Nil.prems(1,2) have n: "n = lo" by simp
  from Nil.prems(3,5) show ?case unfolding hi n by (simp add: leaf_done mth_one del: of_nat_Suc)
next
  case (snoc x p)
  show ?case
  proof (cases "hi = Suc lo")
    case True
    with snoc.prems have "n = lo" by simp
    with True snoc.prems show ?thesis by (simp add: leaf_done del: of_nat_Suc)
  next
    case False
    with snoc.prems have 2: "lo + 2 \<le> hi" by simp
    define m where "m = lo + 2 ^ lg (hi - lo - 1)"
    note split = mth_split [OF 2 snoc.prems(3), folded m_def]
    have hi: "hi < 2 ^ 62" using snoc.prems(3) ls(2) by linarith
    have "\<not> hi \<le> lo + 1" using 2 by simp
    note clash = record_clash.simps [of sha "p @ [x]" ls lo hi n h, folded m_def]
    show ?thesis
    proof (cases "n < m")
      case True
      note w = walk_left(3) [OF 2 hi snoc.prems(1) True [unfolded m_def] snoc.prems(2), folded m_def]
      obtain th where th: "runRecordProof sha p (int lo) (int m) (int n) h = Some (Ok th)"
        "NodeHash sha th x = mth sha (rng ls lo hi)" using snoc.prems(5) by (auto simp: w run_bind_Ok)
      have "length th = length (mth sha (rng ls lo m))"
        using runRecordProof_sized [OF th(1) sha h] mth_sized [OF sha ls(1) split(2)] split(3) snoc.prems(3) by simp
      from node_agree [OF th(2) [unfolded split(1)] this]
      show ?thesis using snoc.IH [OF snoc.prems(1) True] th(1) split(3) snoc.prems(3,4) True 2
        by (auto simp: clash Let_def found_def)
    next
      case False
      then have ge: "m \<le> n" by simp
      note w = walk_right(3) [OF 2 hi ge [unfolded m_def] snoc.prems(2), folded m_def]
      obtain th where th: "runRecordProof sha p (int m) (int hi) (int n) h = Some (Ok th)"
        "NodeHash sha x th = mth sha (rng ls lo hi)" using snoc.prems(5) by (auto simp: w run_bind_Ok)
      have "length x = length (mth sha (rng ls lo m))"
        using snoc.prems(4) mth_sized [OF sha ls(1) split(2)] split(3) snoc.prems(3) by simp
      from node_agree [OF th(2) [unfolded split(1)] this]
      show ?thesis using snoc.IH [OF ge snoc.prems(2,3)] th(1) snoc.prems(4) False 2
        by (auto simp: clash Let_def found_def)
    qed
  qed
qed

lemma runTreeProof_sound:
  assumes sha: "\<And>x. length (sha x) = HashSize" and ls: "sized ls" "length ls < 2 ^ 62" and h: "length h = HashSize"
  shows "lo < n \<Longrightarrow> n \<le> hi \<Longrightarrow> hi \<le> length ls \<Longrightarrow> sized p \<Longrightarrow>
    runTreeProof sha p (int lo) (int hi) (int n) h = Some (Ok (oh, mth sha (rng ls lo hi))) \<Longrightarrow>
    oh = mth sha (rng ls lo n) \<or> found sha (tree_clash sha p ls lo hi n h)"
proof (induction p arbitrary: lo hi oh rule: rev_induct)
  case Nil
  then have "n = hi \<and> lo = 0" by (subst (asm) runTreeProof.simps) (auto split: if_splits)
  with Nil show ?case by (auto simp: tree_done(3) [of 0 hi, simplified])
next
  case (snoc x p)
  show ?case
  proof (cases "n = hi")
    case True
    with snoc.prems tree_done(3) [of lo hi sha "p @ [x]" h] show ?thesis by (auto split: if_splits)
  next
    case False
    with snoc.prems have 2: "lo + 2 \<le> hi" and n: "n < hi" by simp_all
    define m where "m = lo + 2 ^ lg (hi - lo - 1)"
    note split = mth_split [OF 2 snoc.prems(3), folded m_def]
    have hi: "hi < 2 ^ 62" using snoc.prems(3) ls(2) by linarith
    note clash = tree_clash.simps [of sha "p @ [x]" ls lo hi n h, folded m_def]
    show ?thesis
    proof (cases "n \<le> m")
      case True
      note w = tree_left(3) [OF 2 hi snoc.prems(1) True [unfolded m_def] n, folded m_def]
      obtain th where th: "runTreeProof sha p (int lo) (int m) (int n) h = Some (Ok (oh, th))"
        "NodeHash sha th x = mth sha (rng ls lo hi)" using snoc.prems(5) by (auto simp: w run_bind_Ok)
      have "length th = length (mth sha (rng ls lo m))"
        using runTreeProof_sized [OF th(1) sha h] snoc.prems(4) mth_sized [OF sha ls(1) split(2)] split(3) snoc.prems(3)
        by simp
      from node_agree [OF th(2) [unfolded split(1)] this]
      show ?thesis using snoc.IH [OF snoc.prems(1) True] th(1) split(3) snoc.prems(3,4) True n
        by (auto simp: clash Let_def found_def)
    next
      case False
      then have gt: "m < n" by simp
      note w = tree_right(3) [OF 2 hi gt [unfolded m_def] n, folded m_def]
      obtain oh' th where th: "runTreeProof sha p (int m) (int hi) (int n) h = Some (Ok (oh', th))"
        "NodeHash sha x th = mth sha (rng ls lo hi)" "oh = NodeHash sha x oh'"
        using snoc.prems(5) by (auto simp: w run_bind_Ok)
      have "length x = length (mth sha (rng ls lo m))"
        using snoc.prems(4) mth_sized [OF sha ls(1) split(2)] split(3) snoc.prems(3) by simp
      from node_agree [OF th(2) [unfolded split(1)] this]
      show ?thesis using snoc.IH [OF gt snoc.prems(2,3)] th(1,3) snoc.prems(4) False n
          mth_prefix [OF 2 snoc.prems(3) gt [unfolded m_def] snoc.prems(2), folded m_def, of sha]
        by (auto simp: clash Let_def found_def)
    qed
  qed
qed
section \<open>Bounds, rollback and counts\<close>

lemma maxpow2_bound:
  assumes "maxpow2 d = Some (k, l)" "2 \<le> d" "d \<le> 2 ^ Suc L"
  shows "k \<le> 2 ^ L" "d - k \<le> 2 ^ L"
proof -
  define m where "m = nat (d - 1)"
  have k: "k = int (2 ^ lg m)" using assms(1) by (simp add: maxpow2_eq m_def split: if_splits)
  have b: "2 ^ lg m \<le> m" "m < 2 * 2 ^ lg m" using lg_bounds [of m] assms(2) by (simp_all add: m_def)
  have d: "d = int m + 1" using assms(2) by (simp add: m_def)
  with assms(3) have "int m < int (2 ^ Suc L)" by simp
  then have "m < 2 ^ Suc L" by (simp only: of_nat_less_iff)
  with b(1) have "(2::nat) ^ lg m < 2 ^ Suc L" by linarith
  then have "lg m \<le> L" by (subst (asm) power_strict_increasing_iff) auto
  then have le: "(2::nat) ^ lg m \<le> 2 ^ L" by (rule power_increasing) simp
  then have "int (2 ^ lg m) \<le> int (2 ^ L)" by (simp only: of_nat_le_iff)
  then show "k \<le> 2 ^ L" using k by simp
  have "m + 1 - 2 ^ lg m \<le> 2 ^ L" using b le by linarith
  then have "int (m + 1) - int (2 ^ lg m) \<le> int (2 ^ L)" using b(1) by linarith
  then show "d - k \<le> 2 ^ L" using k d by simp
qed

lemma maxpow2_bound_pos: "(2::int) \<le> d \<Longrightarrow> d \<le> 2 ^ L \<Longrightarrow> \<exists>K. L = Suc K"
  by (cases L) simp_all

lemma runRecordProof_length:
  "runRecordProof sha p lo hi n h = Some (Ok th) \<Longrightarrow> hi - lo \<le> 2 ^ L \<Longrightarrow> length p \<le> L"
proof (induction p arbitrary: lo hi L th rule: rev_induct)
  case Nil
  then show ?case by simp
next
  case (snoc x p)
  from snoc.prems(1) have c: "lo \<le> n" "n < hi" "lo + 1 \<noteq> hi"
    by (subst (asm) runRecordProof.simps, simp split: if_splits)+
  then have two: "2 \<le> hi - lo" by linarith
  obtain K where K: "L = Suc K" using maxpow2_bound_pos [OF two snoc.prems(2)] by blast
  obtain k l where k: "maxpow2 (hi - lo) = Some (k, l)"
    using snoc.prems(1) c by (subst (asm) runRecordProof.simps) (auto split: option.splits)
  note b = maxpow2_bound [OF k two snoc.prems(2) [unfolded K]]
  consider th' where "runRecordProof sha p lo (lo + k) n h = Some (Ok th')"
    | th' where "runRecordProof sha p (lo + k) hi n h = Some (Ok th')"
    using snoc.prems(1) c k by (subst (asm) runRecordProof.simps) (auto simp: run_bind_Ok split: if_splits)
  then have "length p \<le> K"
  proof cases
    case 1
    show ?thesis by (rule snoc.IH [OF 1]) (use b in simp)
  next
    case 2
    show ?thesis by (rule snoc.IH [OF 2]) (use b in simp)
  qed
  then show ?case by (simp add: K)
qed

lemma log_ok_take:
  assumes "log_ok sha leaves store" "n \<le> length leaves"
  shows "log_ok sha (take n leaves) (take (ipos n) store)"
proof -
  have "take (ipos n) store ! node_at lo l = mth sha (rng (take n leaves) lo (lo + 2 ^ l))"
    if "2 ^ l dvd lo" "lo + 2 ^ l \<le> n" for l lo
  proof -
    have "rng (take n leaves) lo (lo + 2 ^ l) = rng leaves lo (lo + 2 ^ l)"
      using that(2) by (simp add: rng_def drop_take min_def)
    then show ?thesis using log_okD [OF assms(1) that(1)] node_at_less [OF that] that(2) assms(2) by simp
  qed
  then show ?thesis using assms ipos_mono [OF assms(2)] by (simp add: log_ok_def)
qed

lemma fhs_Append_below:
  "i < fhs_off f \<Longrightarrow> fhs_off f \<le> length (fhs_f f) \<Longrightarrow>
   i < length (fhs_f (fhs_Append hs f)) \<and> fhs_f (fhs_Append hs f) ! i = fhs_f f ! i"
proof (induction hs arbitrary: f)
  case Nil
  then show ?case by (simp add: fhs_Append_def)
next
  case (Cons h hs)
  let ?f = "file_write h f"
  have "fhs_off ?f = Suc (fhs_off f)" "Suc (fhs_off f) \<le> length (fhs_f ?f)" "fhs_f ?f ! i = fhs_f f ! i"
    using Cons.prems by (simp_all add: file_write_def file_pad_def Let_def nth_append)
  with Cons.IH [of ?f] Cons.prems show ?case by (simp add: fhs_Append_def)
qed

lemma fhs_Append_hole:
  assumes "length (fhs_f f) \<le> i" "i < fhs_off f"
  shows "i < length (fhs_f (fhs_Append (h # hs) f)) \<and> fhs_f (fhs_Append (h # hs) f) ! i = zero_hash"
proof -
  have "fhs_off (file_write h f) = Suc (fhs_off f)" "length (fhs_f (file_write h f)) = Suc (fhs_off f)"
    "fhs_f (file_write h f) ! i = zero_hash"
    using assms by (auto simp: file_write_def file_pad_def Let_def nth_append)
  then show ?thesis using fhs_Append_below [of i "file_write h f" hs] assms by (simp add: fhs_Append_def)
qed

lemma count_ones_eq: "count_ones c (int n) = c + int (tz (Suc n))"
proof (induction n arbitrary: c rule: less_induct)
  case (less n)
  have a: "int n AND 1 = int (n mod 2)" by (simp add: and_one_eq zmod_int)
  show ?case
  proof (cases "even n")
    case True
    then have "int n AND 1 = 0" using a by simp
    with True show ?thesis by (subst count_ones.simps) simp
  next
    case False
    then obtain m where m: "n = Suc (2 * m)" by (metis oddE Suc_eq_plus1)
    have "int n AND 1 = 1" using a False by (simp add: odd_iff_mod_2_eq_one)
    moreover have "drop_bit 1 (int n) = int m" using m by (simp add: drop_bit_eq_div)
    moreover have "tz (Suc n) = Suc (tz (Suc m))" using tz_double [of "Suc m"] m by simp
    ultimately show ?thesis using less.IH [of m "c + 1"] m by (subst count_ones.simps) simp
  qed
qed

lemma StoredHashCount_eq: "n \<le> 2 ^ 62 \<Longrightarrow> StoredHashCount (int n) = int (ipos n)"
proof (cases n)
  case 0
  then show ?thesis by (simp add: StoredHashCount_def)
next
  case (Suc m)
  assume n: "n \<le> 2 ^ 62"
  have "StoredHashIndex 0 (int m) = int (ipos m)" using StoredHashIndex_eq [of m 0] n Suc by simp
  moreover have "int m mod 2 ^ 64 = int m" using n Suc by simp
  ultimately show ?thesis using Suc count_ones_eq [of "int (ipos m) + 1" m]
    by (simp add: StoredHashCount_def ipos_Suc)
qed
section \<open>Properties\<close>

declare log_of.simps [simp del]

lemma log_from_empty:
  assumes "length ds < 2 ^ 62"
  obtains f where "log_of sha ds 0 newFileHashStorage = Ok f" "at_end f"
    "log_ok sha (map (RecordHash sha) ds) (fhs_f f)" "length (map (RecordHash sha) ds) < 2 ^ 62"
proof -
  have "log_ok sha [] (fhs_f newFileHashStorage)" "at_end newFileHashStorage"
    by (simp_all add: newFileHashStorage_def at_end_def)
  from log_of_ok [OF this, of ds] assms that show thesis by auto
qed

text \<open>\<^verbatim>\<open>SplitStoredHashIndex\<close> inverts \<^verbatim>\<open>StoredHashIndex\<close>, as its comment says, and its search loop
  ends without a panic: for every level and offset whose subtree lies within the first \<open>2 ^ 61\<close>
  records, splitting the storage index returns the level and the offset.\<close>

theorem split_stored_hash_index:
  assumes "(n + 1) * 2 ^ l \<le> 2 ^ 61"
  shows "SplitStoredHashIndex (StoredHashIndex (int l) (int n)) = Some (Ok (int l, int n))"
proof -
  let ?x = "(n + 1) * 2 ^ l"
  have lt: "ipos (?x - 1) + l < ipos (Suc (?x - 1))" using stored_arg [of ?x l] by simp
  have "ipos (?x - 1) + l < 2 ^ 62" using lt ipos_le [of ?x] assms by simp
  from Split_eq [OF _ lt this] have "SplitStoredHashIndex (int (ipos (?x - 1) + l)) = Some (Ok (int l, int ((?x - 1) div 2 ^ l)))"
    by simp
  moreover have "(?x - 1) div 2 ^ l = n"
  proof (rule div_nat_eqI)
    have "2 ^ l * n + 1 \<le> 2 ^ l * n + 2 ^ l" by (intro add_left_mono) simp
    also have "\<dots> = ?x" by (simp add: algebra_simps)
    finally show "2 ^ l * n \<le> ?x - 1" by linarith
  qed (simp add: algebra_simps)
  moreover have "StoredHashIndex (int l) (int n) = int (ipos (?x - 1) + l)"
    by (rule StoredHashIndex_eq, rule order_trans [OF assms]) simp
  ultimately show ?thesis by simp
qed

theorem split_stored_hash_index_witness:
  "SplitStoredHashIndex (StoredHashIndex (int 3) (int 5)) = Some (Ok (int 3, int 5))"
  by (rule split_stored_hash_index) simp

text \<open>C16. Writing records one after the other with \<^verbatim>\<open>StoredHashes\<close> and \<^verbatim>\<open>Append\<close>, from a new file,
  always succeeds, leaves \<^verbatim>\<open>StoredHashCount\<close> hashes in the file, and then \<^verbatim>\<open>TreeHash\<close> returns for
  every size up to that of the log the Merkle tree hash of RFC 6962 over the records' hashes.\<close>

theorem log_refines_merkle_tree:
  assumes "length ds < 2 ^ 62"
  shows "\<exists>f. log_of sha ds 0 newFileHashStorage = Ok f \<and> fhs_Len f = StoredHashCount (int (length ds)) \<and>
    (\<forall>t \<le> length ds. TreeHash sha (int t) (fhs_ReadHashes f) = Some (Ok (mth sha (map (RecordHash sha) (take t ds)))))"
proof -
  obtain f where f: "log_of sha ds 0 newFileHashStorage = Ok f" "at_end f"
    "log_ok sha (map (RecordHash sha) ds) (fhs_f f)" "length (map (RecordHash sha) ds) < 2 ^ 62"
    using log_from_empty [OF assms] by blast
  have "fhs_Len f = StoredHashCount (int (length ds))"
    using f(2,3) assms by (simp add: fhs_Len_def at_end_def log_ok_def StoredHashCount_eq)
  with f(1) fhs.tree_hash [OF f(3,4)] show ?thesis by (simp add: take_map)
qed

theorem log_refines_merkle_tree_witness:
  "\<exists>f. log_of (\<lambda>x. x) [[1], [2], [3]] 0 newFileHashStorage = Ok f \<and> fhs_Len f = StoredHashCount (int (length [[1::byte], [2], [3]])) \<and>
    (\<forall>t \<le> length [[1::byte], [2], [3]]. TreeHash (\<lambda>x. x) (int t) (fhs_ReadHashes f) =
       Some (Ok (mth (\<lambda>x. x) (map (RecordHash (\<lambda>x. x)) (take t [[1], [2], [3]])))))"
  by (rule log_refines_merkle_tree) simp

text \<open>C17. Every record of a log has a proof: \<^verbatim>\<open>ProveRecord\<close> returns the audit path of RFC 6962 and
  \<^verbatim>\<open>CheckRecord\<close> accepts it for the tree hash of that size and the record's hash.\<close>

theorem record_proof_accepted:
  assumes "log_of sha ds 0 newFileHashStorage = Ok f" "length ds < 2 ^ 62" "n < t" "t \<le> length ds"
  shows "\<exists>p th. ProveRecord sha (int t) (int n) (fhs_ReadHashes f) = Some (Ok p) \<and>
    p = audit_path sha n (map (RecordHash sha) (take t ds)) \<and>
    TreeHash sha (int t) (fhs_ReadHashes f) = Some (Ok th) \<and>
    CheckRecord sha p (int t) th (int n) (RecordHash sha (ds ! n)) = Some (Ok ())"
proof -
  let ?ls = "map (RecordHash sha) ds"
  have ok: "log_ok sha ?ls (fhs_f f)" and len: "length ?ls < 2 ^ 62"
    using log_from_empty [OF assms(2), of sha] assms(1) by auto
  have t: "t \<le> length ?ls" and r: "rng ?ls 0 t = take t ?ls" using assms(4) by (simp_all add: rng_def)
  have "runRecordProof sha (audit_path sha n (take t ?ls)) 0 (int t) (int n) (RecordHash sha (ds ! n)) =
      Some (Ok (mth sha (take t ?ls)))"
    using runRecordProof_audit [OF len, of 0 n t sha] assms(3,4) by (simp add: r)
  then show ?thesis using fhs.prove_record [OF ok len assms(3) t] fhs.tree_hash [OF ok len t] assms(3)
    by (simp add: CheckRecord_def take_map)
qed

theorem record_proof_accepted_witness:
  "\<exists>f p th. log_of (\<lambda>x. x) [[1], [2], [3]] 0 newFileHashStorage = Ok f \<and>
    ProveRecord (\<lambda>x. x) 3 1 (fhs_ReadHashes f) = Some (Ok p) \<and> CheckRecord (\<lambda>x. x) p 3 th 1 (RecordHash (\<lambda>x. x) [2]) = Some (Ok ())"
proof -
  obtain f where f: "log_of (\<lambda>x. x) [[1], [2], [3]] 0 newFileHashStorage = Ok f"
    using log_from_empty [of "[[1], [2], [3]]" "\<lambda>x. x"] by auto
  from record_proof_accepted [OF f, of 1 3] f show ?thesis by auto
qed

text \<open>C18. An accepted record proof is right up to a hash collision that can be computed from it: when
  \<^verbatim>\<open>CheckRecord\<close> accepts a proof against the tree hash of some leaves, the hash it was given is the
  hash of that leaf, or \<open>record_clash\<close> returns two different inputs with the same SHA-256 value.\<close>

theorem record_proof_sound:
  assumes "\<And>x. length (sha x) = HashSize" "sized leaves" "length leaves < 2 ^ 62" "sized p" "length h = HashSize"
    and "CheckRecord sha p (int (length leaves)) (mth sha leaves) n h = Some (Ok ())"
  shows "0 \<le> n \<and> n < int (length leaves) \<and>
    (h = leaves ! nat n \<or> found sha (record_clash sha p leaves 0 (length leaves) (nat n) h))"
proof -
  from assms(6) have n: "0 \<le> n" "n < int (length leaves)" by (auto simp: CheckRecord_def split: if_splits)
  with assms(6) have "runRecordProof sha p (int 0) (int (length leaves)) (int (nat n)) h = Some (Ok (mth sha (rng leaves 0 (length leaves))))"
    by (auto simp: CheckRecord_def run_bind_Ok split: if_splits)
  from runRecordProof_sound [OF assms(1-3,5) _ _ _ assms(4) this] n show ?thesis by auto
qed

theorem record_proof_sound_witness:
  "0 \<le> (0::int) \<and> (0::int) < int (length [zero_hash]) \<and>
    (zero_hash = [zero_hash] ! nat 0 \<or> found (\<lambda>x. zero_hash) (record_clash (\<lambda>x. zero_hash) [] [zero_hash] 0 (length [zero_hash]) (nat 0) zero_hash))"
  by (rule record_proof_sound)
    (simp_all add: zero_hash_def sized_def CheckRecord_def runRecordProof.simps mth.simps)

text \<open>C19. For every earlier size of a log \<^verbatim>\<open>ProveTree\<close> returns the consistency proof of RFC 6962 and
  \<^verbatim>\<open>CheckTree\<close> accepts it for the two tree hashes.\<close>

theorem tree_proof_accepted:
  assumes "log_of sha ds 0 newFileHashStorage = Ok f" "length ds < 2 ^ 62" "0 < n" "n \<le> t" "t \<le> length ds"
  shows "\<exists>p th h. ProveTree sha (int t) (int n) (fhs_ReadHashes f) = Some (Ok p) \<and>
    p = subproof sha n (map (RecordHash sha) (take t ds)) True \<and>
    TreeHash sha (int t) (fhs_ReadHashes f) = Some (Ok th) \<and> TreeHash sha (int n) (fhs_ReadHashes f) = Some (Ok h) \<and>
    CheckTree sha p (int t) th (int n) h = Some (Ok ())"
proof -
  let ?ls = "map (RecordHash sha) ds"
  have ok: "log_ok sha ?ls (fhs_f f)" and len: "length ?ls < 2 ^ 62"
    using log_from_empty [OF assms(2), of sha] assms(1) by auto
  have t: "t \<le> length ?ls" "n \<le> length ?ls" and r: "\<And>i. rng ?ls 0 i = take i ?ls" using assms(4,5) by (simp_all add: rng_def)
  have "runTreeProof sha (subproof sha n (take t ?ls) True) 0 (int t) (int n) (mth sha (take n ?ls)) =
      Some (Ok (mth sha (take n ?ls), mth sha (take t ?ls)))"
    using runTreeProof_subproof [OF len, of 0 n t sha] assms(3-5) by (simp add: r)
  then show ?thesis
    using fhs.prove_tree [OF ok len assms(3,4) t(1)] fhs.tree_hash [OF ok len t(1)] fhs.tree_hash [OF ok len t(2)] assms(3,4)
    by (simp add: CheckTree_def take_map)
qed

theorem tree_proof_accepted_witness:
  "\<exists>f p th h. log_of (\<lambda>x. x) [[1], [2], [3]] 0 newFileHashStorage = Ok f \<and>
    ProveTree (\<lambda>x. x) 3 2 (fhs_ReadHashes f) = Some (Ok p) \<and> CheckTree (\<lambda>x. x) p 3 th 2 h = Some (Ok ())"
proof -
  obtain f where f: "log_of (\<lambda>x. x) [[1], [2], [3]] 0 newFileHashStorage = Ok f"
    using log_from_empty [of "[[1], [2], [3]]" "\<lambda>x. x"] by auto
  from tree_proof_accepted [OF f, of 2 3] f show ?thesis by auto
qed

text \<open>C20. An accepted tree proof is right up to a hash collision that can be computed from it: when
  \<^verbatim>\<open>CheckTree\<close> accepts a proof against the tree hash of some leaves, the old hash it was given is the
  tree hash of the first \<open>n\<close> of those leaves, or \<open>tree_clash\<close> returns a collision.\<close>

theorem tree_proof_sound:
  assumes "\<And>x. length (sha x) = HashSize" "sized leaves" "length leaves < 2 ^ 62" "sized p" "length h = HashSize"
    and "CheckTree sha p (int (length leaves)) (mth sha leaves) n h = Some (Ok ())"
  shows "0 < n \<and> n \<le> int (length leaves) \<and>
    (h = mth sha (take (nat n) leaves) \<or> found sha (tree_clash sha p leaves 0 (length leaves) (nat n) h))"
proof -
  from assms(6) have n: "0 < n" "n \<le> int (length leaves)" by (auto simp: CheckTree_def split: if_splits)
  with assms(6) have "runTreeProof sha p (int 0) (int (length leaves)) (int (nat n)) h = Some (Ok (h, mth sha (rng leaves 0 (length leaves))))"
    by (auto simp: CheckTree_def run_bind_Ok split: if_splits)
  from runTreeProof_sound [OF assms(1-3,5) _ _ _ assms(4) this] n show ?thesis by (auto simp: rng_def)
qed

theorem tree_proof_sound_witness:
  "0 < (1::int) \<and> (1::int) \<le> int (length [zero_hash]) \<and>
    (zero_hash = mth (\<lambda>x. zero_hash) (take (nat 1) [zero_hash]) \<or>
     found (\<lambda>x. zero_hash) (tree_clash (\<lambda>x. zero_hash) [] [zero_hash] 0 (length [zero_hash]) (nat 1) zero_hash))"
  by (rule tree_proof_sound)
    (simp_all add: zero_hash_def sized_def CheckTree_def runTreeProof.simps mth.simps)

text \<open>\<^verbatim>\<open>CheckRecord\<close> bounds the proofs it accepts: for a tree of at most \<open>2 ^ L\<close> records an
  accepted proof has at most \<open>L\<close> hashes.\<close>

theorem record_proof_length:
  assumes "CheckRecord sha p t th n h = Some (Ok ())" "t \<le> 2 ^ L"
  shows "length p \<le> L"
proof -
  obtain th' where "runRecordProof sha p 0 t n h = Some (Ok th')"
    using assms(1) by (auto simp: CheckRecord_def run_bind_Ok split: if_splits)
  from runRecordProof_length [OF this] assms(2) show ?thesis by simp
qed

theorem record_proof_length_witness:
  "CheckRecord (\<lambda>x. x) [[9]] 2 [1, 7, 9] 0 [7] = Some (Ok ()) \<and> length [[9::byte]] \<le> 1"
proof -
  have "maxpow2 2 = Some (1, 0)" by (simp add: maxpow2_eq lg.simps)
  then have c: "CheckRecord (\<lambda>x. x) [[9]] 2 [1, 7, 9] 0 [7] = Some (Ok ())"
    by (simp add: CheckRecord_def runRecordProof.simps NodeHash_def)
  from record_proof_length [OF c, of 1] c show ?thesis by simp
qed

text \<open>\<^verbatim>\<open>CheckRecord\<close> does not return for a claimed tree size above \<open>2 ^ 62\<close>: the shift in \<^verbatim>\<open>maxpow2\<close>
  turns negative and then zero, and stays below the size forever. The size comes from the prover.\<close>

theorem check_record_hangs:
  assumes "2 ^ 62 < t" "0 \<le> n" "n < t" "p \<noteq> []"
  shows "CheckRecord sha p t th n h = None"
  using assms by (simp add: CheckRecord_def runRecordProof.simps maxpow2_eq)

theorem check_record_hangs_witness:
  "CheckRecord (\<lambda>x. x) [[]] (2 ^ 62 + 1) [] 5 [] = None"
  by (rule check_record_hangs) simp_all

text \<open>\<^verbatim>\<open>Rollback\<close> keeps the log of the first records intact, but it does not move the write offset:
  whatever is appended next lands behind the old end, and reading the new record's own index returns
  the zero hash of the gap.\<close>

theorem rollback_then_append:
  assumes "log_ok sha leaves (fhs_f f)" "at_end f" "n < length leaves" "length leaves < 2 ^ 62"
  shows "\<exists>f'. fhs_Rollback (int n) f = Ok f' \<and> log_ok sha (take n leaves) (fhs_f f') \<and>
    (\<forall>h hs. fhs_At (fhs_Append (h # hs) f') (StoredHashIndex 0 (int n)) = Ok zero_hash)"
proof -
  have lt: "ipos n < length (fhs_f f)" using ipos_strict_mono [OF assms(3)] assms(1) by (simp add: log_ok_def)
  let ?f = "f\<lparr>fhs_f := take (ipos n) (fhs_f f)\<rparr>"
  have x: "StoredHashIndex 0 (int n) = int (ipos n)" using StoredHashIndex_eq [of n 0] assms(3,4) by simp
  have "fhs_Rollback (int n) f = Ok ?f" using lt by (simp add: fhs_Rollback_def x file_pad_def Let_def)
  moreover have "log_ok sha (take n leaves) (fhs_f ?f)" using log_ok_take [OF assms(1)] assms(3) by simp
  moreover have "fhs_At (fhs_Append (h # hs) ?f) (int (ipos n)) = Ok zero_hash" for h hs
    using fhs_Append_hole [of ?f "ipos n" h hs] lt assms(2) by (simp add: fhs_At_def at_end_def)
  ultimately show ?thesis unfolding x by blast
qed

theorem rollback_then_append_witness:
  "\<exists>f f'. log_of (\<lambda>x. x) [[1], [2]] 0 newFileHashStorage = Ok f \<and> fhs_Rollback 1 f = Ok f' \<and>
    fhs_At (fhs_Append [[5]] f') (StoredHashIndex 0 1) = Ok zero_hash"
proof -
  obtain f where f: "log_of (\<lambda>x. x) [[1], [2]] 0 newFileHashStorage = Ok f" "at_end f"
      "log_ok (\<lambda>x. x) (map (RecordHash (\<lambda>x. x)) [[1], [2]]) (fhs_f f)"
    using log_from_empty [of "[[1], [2]]" "\<lambda>x. x"] by auto
  from rollback_then_append [OF f(3,2), of 1] f(1) show ?thesis by auto
qed
end
