(* ===== verification/Tlog_Tile.thy ===== *)
theory Tlog_Tile
  imports Tlog "HOL-Library.Signed_Division"
begin

unbundle bit_operations_syntax

text \<open>
  The tiles of the tamper-evident log (\<^verbatim>\<open>src/exp/onl/tlog/tile.go\<close> and the tile directory of
  \<^verbatim>\<open>storage.go\<close>): the tile that holds a stored hash, the data of a tile, the tiles to publish when a
  log grows, tile paths, and the reader that serves stored hashes from tiles it checks against the
  hash of the tree.

  Shift counts outside \<open>0 \<dots> 63\<close> shift everything out, as for Go's unsigned counts. Error values carry
  the constant part of the message. A \<^verbatim>\<open>TileReader\<close> is the record \<open>tile_reader\<close> of its height and its
  \<^verbatim>\<open>ReadTiles\<close>; what a reader is told to save is returned beside the hashes.
\<close>

section \<open>Tiles\<close>

record Tile =
  tile_H :: int
  tile_L :: int
  tile_N :: int
  tile_W :: int

definition zero_tile :: Tile where
  "zero_tile = \<lparr>tile_H = 0, tile_L = 0, tile_N = 0, tile_W = 0\<rparr>"

definition shl :: "int \<Rightarrow> int \<Rightarrow> int" where
  "shl x k = (if k < 0 \<or> 64 \<le> k then 0 else i64 (push_bit (nat k) x))"

definition shr :: "int \<Rightarrow> int \<Rightarrow> int" where
  "shr x k = (if k < 0 \<or> 64 \<le> k then (if x < 0 then - 1 else 0) else drop_bit (nat k) x)"

definition tileForIndex :: "int \<Rightarrow> int \<Rightarrow> (Tile \<times> int \<times> int) run" where
  "tileForIndex h index = run_bind (SplitStoredHashIndex index) (\<lambda>(level, n).
     if h = 0 then Some Panic
     else let L = level sdiv h; level = level - L * h; N = shr (shl n level) h;
              n = n - shr (shl N h) level; W = shl (n + 1) level
          in Some (Ok (\<lparr>tile_H = h, tile_L = L, tile_N = N, tile_W = W\<rparr>,
                       shl n level * int HashSize, shl (n + 1) level * int HashSize)))"

definition TileForIndex :: "int \<Rightarrow> int \<Rightarrow> Tile run" where
  "TileForIndex h index =
     (if h \<le> 0 then Some Panic else run_bind (tileForIndex h index) (\<lambda>(t, start, end). Some (Ok t)))"

text \<open>The recursive call on the first half panics before the second is evaluated when that half is
  empty.\<close>

function tileHash :: "(bytes \<Rightarrow> hash) \<Rightarrow> bytes \<Rightarrow> (tlog_err, hash) res" where
  "tileHash sha data =
     (if length data = 0 then Panic
      else if length data = HashSize then Ok data
      else if length data div 2 = 0 then Panic
      else res_bind (tileHash sha (take (length data div 2) data)) (\<lambda>l.
           res_bind (tileHash sha (drop (length data div 2) data)) (\<lambda>r. Ok (NodeHash sha l r))))"
  by pat_completeness auto
termination
  by (relation "measure (\<lambda>(sha, data). length data)") auto

declare tileHash.simps [simp del]

text \<open>A slice expression panics outside the slice.\<close>

definition slice :: "bytes \<Rightarrow> int \<Rightarrow> int \<Rightarrow> (tlog_err, bytes) res" where
  "slice data start end = (if 0 \<le> start \<and> start \<le> end \<and> end \<le> int (length data)
     then Ok (take (nat (end - start)) (drop (nat start) data)) else Panic)"

definition HashFromTile :: "(bytes \<Rightarrow> hash) \<Rightarrow> Tile \<Rightarrow> bytes \<Rightarrow> int \<Rightarrow> hash run" where
  "HashFromTile sha t data index =
     (if tile_H t < 1 \<or> tile_H t > 30 \<or> tile_L t < 0 \<or> tile_L t \<ge> 64 \<or> tile_W t < 1 \<or> tile_W t > shl 1 (tile_H t)
      then Some (Err (ReaderError ''invalid tile''))
      else if int (length data) < tile_W t * int HashSize then Some (Err (ReaderError ''data len too short for tile''))
      else run_bind (tileForIndex (tile_H t) index) (\<lambda>(t1, start, end).
        if tile_L t \<noteq> tile_L t1 \<or> tile_N t \<noteq> tile_N t1 \<or> tile_W t < tile_W t1
        then Some (Err (ReaderError ''index is in tile not tile''))
        else Some (res_bind (slice data start end) (tileHash sha))))"

definition level_tiles :: "int \<Rightarrow> int \<Rightarrow> int \<Rightarrow> int \<Rightarrow> Tile list" where
  "level_tiles h level oldN newN =
     (let n = shr newN h; maxW = newN - shl n h; minW = (if oldN > shl n h then oldN - shl n h else 1)
      in map (\<lambda>n. \<lparr>tile_H = h, tile_L = level, tile_N = n, tile_W = shl 1 h\<rparr>) [shr oldN h..shr newN h - 1] @
         map (\<lambda>w. \<lparr>tile_H = h, tile_L = level, tile_N = n, tile_W = w\<rparr>) [minW..maxW])"

function NewTiles_loop :: "int \<Rightarrow> int \<Rightarrow> int \<Rightarrow> nat \<Rightarrow> Tile list" where
  "NewTiles_loop h oldTreeSize newTreeSize level =
     (if 0 < h \<and> shr newTreeSize (h * int level) > 0
      then level_tiles h (int level) (shr oldTreeSize (h * int level)) (shr newTreeSize (h * int level)) @
           NewTiles_loop h oldTreeSize newTreeSize (level + 1)
      else [])"
  by pat_completeness auto
termination
proof (relation "measure (\<lambda>(h, old, new, level). 64 - level)")
  fix h old new :: int and level :: nat
  assume a: "0 < h \<and> 0 < shr new (h * int level)"
  then have "h * int level < 64" by (auto simp: shr_def split: if_splits)
  moreover have "1 * int level \<le> h * int level" using a by (intro mult_right_mono) auto
  ultimately show "((h, old, new, level + 1), h, old, new, level) \<in> measure (\<lambda>(h, old, new, level). 64 - level)"
    by simp
qed simp

definition NewTiles :: "int \<Rightarrow> int \<Rightarrow> int \<Rightarrow> (tlog_err, Tile list) res" where
  "NewTiles h oldTreeSize newTreeSize =
     (if h \<le> 0 then Panic else Ok (NewTiles_loop h oldTreeSize newTreeSize 0))"

definition ReadTileData :: "Tile \<Rightarrow> hash_reader \<Rightarrow> (tlog_err, bytes) res" where
  "ReadTileData t r =
     (let size = (if tile_W t = 0 then shl 1 (tile_H t) else tile_W t); start = shl (tile_N t) (tile_H t)
      in if size < 0 then Panic
         else let indexes = map (\<lambda>i. StoredHashIndex (tile_H t * tile_L t) (start + int i)) [0..<nat size]
              in res_bind (r indexes) (\<lambda>hashes.
                   if length hashes \<noteq> length indexes then Err (ReadCount (length indexes) (length hashes))
                   else Ok (concat hashes)))"

section \<open>Tile paths\<close>

text \<open>Decimal numbers, \<^verbatim>\<open>%03d\<close> and \<^verbatim>\<open>strconv.Atoi\<close> on 64-bit integers.\<close>

definition digit :: "nat \<Rightarrow> char" where
  "digit d = char_of (48 + d)"

fun dec :: "nat \<Rightarrow> string" where
  "dec n = (if n < 10 then [digit n] else dec (n div 10) @ [digit (n mod 10)])"

definition dec_int :: "int \<Rightarrow> string" where
  "dec_int i = (if i < 0 then CHR ''-'' # dec (nat (- i)) else dec (nat i))"

definition pad_left :: "nat \<Rightarrow> string \<Rightarrow> string" where
  "pad_left w s = replicate (w - length s) CHR ''0'' @ s"

definition dec03 :: "int \<Rightarrow> string" where
  "dec03 i = (if i < 0 then CHR ''-'' # pad_left 2 (dec (nat (- i))) else pad_left 3 (dec (nat i)))"

fun parse_digits :: "nat \<Rightarrow> string \<Rightarrow> nat option" where
  "parse_digits acc [] = Some acc"
| "parse_digits acc (c # cs) =
     (if 48 \<le> (of_char c :: nat) \<and> (of_char c :: nat) \<le> 57 then parse_digits (acc * 10 + (of_char c - 48)) cs else None)"

definition Atoi :: "string \<Rightarrow> int option" where
  "Atoi s =
     (let neg = (s \<noteq> [] \<and> hd s = CHR ''-''); ds = (if s \<noteq> [] \<and> (hd s = CHR ''-'' \<or> hd s = CHR ''+'') then tl s else s)
      in if ds = [] then None
         else case parse_digits 0 ds of None \<Rightarrow> None
              | Some n \<Rightarrow> if neg then (if n \<le> 2 ^ 63 then Some (- int n) else None)
                          else if n < 2 ^ 63 then Some (int n) else None)"

function Path_loop :: "int \<Rightarrow> string \<Rightarrow> string" where
  "Path_loop n nStr =
     (if n \<ge> 1000 then Path_loop (n div 1000) (''x'' @ dec03 (n div 1000 mod 1000) @ ''/'' @ nStr) else nStr)"
  by pat_completeness auto
termination
  by (relation "measure (\<lambda>(n, s). nat n)") auto

definition Path :: "Tile \<Rightarrow> string" where
  "Path t =
     (let nStr = Path_loop (tile_N t) (dec03 (tile_N t smod 1000));
          pStr = (if tile_W t \<noteq> shl 1 (tile_H t) then ''.p/'' @ dec_int (tile_W t) else '''');
          L = (if tile_L t = - 1 then ''data'' else dec_int (tile_L t))
      in ''tile/'' @ dec_int (tile_H t) @ ''/'' @ L @ ''/'' @ nStr @ pStr)"

fun split_slash :: "string \<Rightarrow> string list" where
  "split_slash [] = [[]]"
| "split_slash (c # s) =
     (if c = CHR ''/'' then [] # split_slash s
      else case split_slash s of f # fs \<Rightarrow> (c # f) # fs | [] \<Rightarrow> [[c]])"

definition trim_x :: "string \<Rightarrow> string" where
  "trim_x s = (if s \<noteq> [] \<and> hd s = CHR ''x'' then tl s else s)"

fun parse_n :: "int \<Rightarrow> string list \<Rightarrow> int option" where
  "parse_n n [] = Some n"
| "parse_n n (s # f) =
     (case Atoi (trim_x s) of None \<Rightarrow> None
      | Some nn \<Rightarrow> if nn < 0 \<or> nn \<ge> 1000 then None else parse_n (i64 (i64 (n * 1000) + nn)) f)"

definition has_dotP :: "string \<Rightarrow> bool" where
  "has_dotP s \<longleftrightarrow> 2 \<le> length s \<and> drop (length s - 2) s = ''.p''"

text \<open>The last two fields: the width and the fields that are left.\<close>

definition parse_w :: "int \<Rightarrow> string list \<Rightarrow> (int \<times> string list) option" where
  "parse_w w f =
     (let dotP = f ! (length f - 2)
      in if has_dotP dotP then
           (case Atoi (last f) of None \<Rightarrow> None
            | Some ww \<Rightarrow> if ww \<le> 0 \<or> ww \<ge> w then None
                else Some (ww, butlast (f[length f - 2 := take (length dotP - 2) dotP])))
         else Some (w, f))"

definition badPathError :: "string \<Rightarrow> tlog_err" where
  "badPathError path = ReaderError (''malformed tile path '' @ path)"

definition ParseTilePath :: "string \<Rightarrow> (tlog_err, Tile) res" where
  "ParseTilePath path =
     (let f = split_slash path; bad = Err (badPathError path)
      in if length f < 4 \<or> f ! 0 \<noteq> ''tile'' then bad
         else let isData = (f ! 2 = ''data''); f = (if isData then f[2 := ''0''] else f)
              in case (Atoi (f ! 1), Atoi (f ! 2)) of
                   (Some h, Some l) \<Rightarrow>
                     if h < 1 \<or> l < 0 \<or> h > 30 then bad
                     else (case parse_w (shl 1 h) f of None \<Rightarrow> bad
                           | Some (w, f) \<Rightarrow>
                               (case parse_n 0 (drop 3 f) of None \<Rightarrow> bad
                                | Some n \<Rightarrow>
                                    let t = \<lparr>tile_H = h, tile_L = (if isData then - 1 else l), tile_N = n, tile_W = w\<rparr>
                                    in if path \<noteq> Path t then bad else Ok t))
                 | _ \<Rightarrow> bad)"

section \<open>Reading hashes from tiles\<close>

record tile_reader =
  tr_Height :: int
  tr_ReadTiles :: "Tile list \<Rightarrow> (tlog_err, bytes list) res"

record Tree =
  tree_N :: int
  tree_Hash :: hash

definition tileParent :: "Tile \<Rightarrow> int \<Rightarrow> int \<Rightarrow> Tile" where
  "tileParent t k n =
     (let H = tile_H t; L = tile_L t + k; N = shr (tile_N t) (k * H); W = shl 1 H; max = shr n (L * H)
      in if shl N H + W \<ge> max then
           (if shl N H \<ge> max then zero_tile
            else \<lparr>tile_H = H, tile_L = L, tile_N = N, tile_W = max - shl N H\<rparr>)
         else \<lparr>tile_H = H, tile_L = L, tile_N = N, tile_W = W\<rparr>)"

type_synonym tile_order = "Tile \<rightharpoonup> nat"

fun plan_stx :: "int \<Rightarrow> int \<Rightarrow> int list \<Rightarrow> tile_order \<Rightarrow> Tile list \<Rightarrow> nat list \<Rightarrow>
    (tile_order \<times> Tile list \<times> nat list) run" where
  "plan_stx h n [] ord tiles so = Some (Ok (ord, tiles, so))"
| "plan_stx h n (x # xs) ord tiles so = run_bind (tileForIndex h x) (\<lambda>(tile, start, end).
     let tile = tileParent tile 0 n
     in case ord tile of
          Some j \<Rightarrow> plan_stx h n xs ord tiles (so @ [j])
        | None \<Rightarrow> plan_stx h n xs (ord(tile \<mapsto> length tiles)) (tiles @ [tile]) (so @ [length tiles]))"

partial_function (option) find_parent :: "tile_order \<Rightarrow> Tile \<Rightarrow> int \<Rightarrow> nat \<Rightarrow> (nat \<times> nat) option" where
  "find_parent ord tile n k =
     (case ord (tileParent tile (int k) n) of Some j \<Rightarrow> Some (k, j) | None \<Rightarrow> find_parent ord tile n (k + 1))"

fun plan_down :: "Tile \<Rightarrow> int \<Rightarrow> nat \<Rightarrow> tile_order \<Rightarrow> Tile list \<Rightarrow> nat \<Rightarrow>
    (tlog_err, tile_order \<times> Tile list \<times> nat) res" where
  "plan_down tile n 0 ord tiles i = Ok (ord, tiles, i)"
| "plan_down tile n (Suc k) ord tiles i =
     (let p = tileParent tile (int k) n
      in if tile_W p \<noteq> shl 1 (tile_H p) then Err (ReaderError ''bad math in tileHashReader'')
         else plan_down tile n k (ord(p \<mapsto> length tiles)) (tiles @ [p]) (length tiles))"

fun plan_indexes :: "int \<Rightarrow> int \<Rightarrow> int list \<Rightarrow> tile_order \<Rightarrow> Tile list \<Rightarrow> nat list \<Rightarrow>
    (tile_order \<times> Tile list \<times> nat list) run" where
  "plan_indexes h n [] ord tiles io = Some (Ok (ord, tiles, io))"
| "plan_indexes h n (x # xs) ord tiles io =
     (if x \<ge> StoredHashIndex 0 n then Some (Err (ReaderError ''indexes not in tree''))
      else run_bind (tileForIndex h x) (\<lambda>(tile, start, end).
        case find_parent ord tile n 0 of None \<Rightarrow> None
        | Some (k, j) \<Rightarrow>
            run_bind (Some (plan_down tile n k ord tiles j)) (\<lambda>(ord, tiles, i). plan_indexes h n xs ord tiles (io @ [i]))))"

definition check_lengths :: "Tile list \<Rightarrow> bytes list \<Rightarrow> (tlog_err, unit) res" where
  "check_lengths tiles data =
     (if length data \<noteq> length tiles \<or>
         (\<exists>(tile, d) \<in> set (zip tiles data). int (length d) \<noteq> tile_W tile * int HashSize)
      then Err (ReaderError ''TileReader returned bad result slice'') else Ok ())"

text \<open>The hash of the tree from the tiles of the subtrees, from the last one to the first.\<close>

fun tiles_tree_hash :: "(bytes \<Rightarrow> hash) \<Rightarrow> Tile list \<Rightarrow> bytes list \<Rightarrow> (int \<times> nat) list \<Rightarrow> hash run" where
  "tiles_tree_hash sha tiles data [] = Some Panic"
| "tiles_tree_hash sha tiles data [(x, j)] = HashFromTile sha (tiles ! j) (data ! j) x"
| "tiles_tree_hash sha tiles data ((x, j) # y # ys) =
     run_bind (tiles_tree_hash sha tiles data (y # ys)) (\<lambda>th.
     run_bind (HashFromTile sha (tiles ! j) (data ! j) x) (\<lambda>h. Some (Ok (NodeHash sha h th))))"

fun bad_math :: "'a run \<Rightarrow> 'a run" where
  "bad_math (Some (Err e)) = Some (Err (ReaderError ''bad math in tileHashReader: lost hash''))"
| "bad_math r = r"

fun auth_tiles :: "(bytes \<Rightarrow> hash) \<Rightarrow> int \<Rightarrow> tile_order \<Rightarrow> bytes list \<Rightarrow> (Tile \<times> bytes) list \<Rightarrow> unit run" where
  "auth_tiles sha n ord data [] = Some (Ok ())"
| "auth_tiles sha n ord data ((tile, d) # rest) =
     (let p = tileParent tile 1 n
      in case ord p of
           None \<Rightarrow> Some (Err (ReaderError ''bad math in tileHashReader: lost parent''))
         | Some j \<Rightarrow>
             run_bind (bad_math (HashFromTile sha p (data ! j) (StoredHashIndex (tile_L p * tile_H p) (tile_N tile)))) (\<lambda>h.
             run_bind (Some (tileHash sha d)) (\<lambda>th.
             if h \<noteq> th then Some (Err (ReaderError ''downloaded inconsistent tile''))
             else auth_tiles sha n ord data rest)))"

fun pull_hashes :: "(bytes \<Rightarrow> hash) \<Rightarrow> Tile list \<Rightarrow> bytes list \<Rightarrow> (int \<times> nat) list \<Rightarrow> hash list run" where
  "pull_hashes sha tiles data [] = Some (Ok [])"
| "pull_hashes sha tiles data ((x, j) # rest) =
     run_bind (bad_math (HashFromTile sha (tiles ! j) (data ! j) x)) (\<lambda>h.
     run_bind (pull_hashes sha tiles data rest) (\<lambda>hs. Some (Ok (h # hs))))"

text \<open>\<^verbatim>\<open>tileHashReader.ReadHashes\<close>; the second part of the result is the argument of \<^verbatim>\<open>SaveTiles\<close>. The
  loop that authenticates tiles against their parents starts at \<^verbatim>\<open>len(stx)\<close>.\<close>

definition tile_ReadHashes :: "(bytes \<Rightarrow> hash) \<Rightarrow> Tree \<Rightarrow> tile_reader \<Rightarrow> int list \<Rightarrow>
    (hash list \<times> Tile list \<times> bytes list) run" where
  "tile_ReadHashes sha tree tr indexes =
     (let h = tr_Height tr; n = tree_N tree
      in run_bind (subTreeIndex 0 n []) (\<lambda>stx.
         run_bind (plan_stx h n stx Map.empty [] []) (\<lambda>(ord, tiles, so).
         run_bind (plan_indexes h n indexes ord tiles []) (\<lambda>(ord, tiles, io).
         run_bind (Some (tr_ReadTiles tr tiles)) (\<lambda>data.
         run_bind (Some (check_lengths tiles data)) (\<lambda>u.
         run_bind (tiles_tree_hash sha tiles data (zip stx so)) (\<lambda>th.
         if th \<noteq> tree_Hash tree then Some (Err (ReaderError ''downloaded inconsistent tile''))
         else run_bind (auth_tiles sha n ord data (drop (length stx) (zip tiles data))) (\<lambda>u.
              run_bind (pull_hashes sha tiles data (zip indexes io)) (\<lambda>hashes.
              Some (Ok (hashes, tiles, data)))))))))))"

section \<open>The tile directory\<close>

text \<open>\<^verbatim>\<open>dirTileStorage\<close>: the files of its directory by path. A file that exists is not written again; a
  missing file makes \<^verbatim>\<open>ReadTiles\<close> panic. \<^verbatim>\<open>ReadTiles\<close> counts what it returned, \<^verbatim>\<open>SaveTiles\<close> uncounts it.\<close>

record dirTileStorage =
  dts_height :: int
  dts_unsaved :: int
  dts_dir :: "string \<rightharpoonup> bytes"

fun write_tiles :: "(Tile \<times> bytes) list \<Rightarrow> (string \<rightharpoonup> bytes) \<Rightarrow> (string \<rightharpoonup> bytes)" where
  "write_tiles [] dir = dir"
| "write_tiles ((tile, data) # tiles) dir =
     write_tiles tiles (if dir (Path tile) \<noteq> None then dir else dir(Path tile \<mapsto> data))"

definition newDirTileStorage :: "int \<Rightarrow> (string \<rightharpoonup> bytes) \<Rightarrow> (Tile \<times> bytes) list \<Rightarrow> dirTileStorage" where
  "newDirTileStorage h dir tiles = \<lparr>dts_height = h, dts_unsaved = 0, dts_dir = write_tiles tiles dir\<rparr>"

definition dts_Height :: "dirTileStorage \<Rightarrow> int" where
  "dts_Height t = dts_height t"

definition dts_SaveTiles :: "Tile list \<Rightarrow> bytes list \<Rightarrow> dirTileStorage \<Rightarrow> dirTileStorage" where
  "dts_SaveTiles tiles data t = t\<lparr>dts_unsaved := dts_unsaved t - int (length tiles)\<rparr>"

definition dts_Unsaved :: "dirTileStorage \<Rightarrow> int" where
  "dts_Unsaved t = dts_unsaved t"

fun read_files :: "(string \<rightharpoonup> bytes) \<Rightarrow> Tile list \<Rightarrow> (tlog_err, bytes list) res" where
  "read_files dir [] = Ok []"
| "read_files dir (tile # tiles) =
     (case dir (Path tile) of None \<Rightarrow> Panic
      | Some d \<Rightarrow> res_bind (read_files dir tiles) (\<lambda>out. Ok (d # out)))"

definition dts_ReadTiles :: "Tile list \<Rightarrow> dirTileStorage \<Rightarrow> (tlog_err, bytes list \<times> dirTileStorage) res" where
  "dts_ReadTiles tiles t = res_bind (read_files (dts_dir t) tiles) (\<lambda>out.
     Ok (out, t\<lparr>dts_unsaved := dts_unsaved t + int (length tiles)\<rparr>))"

text \<open>The storage as the reader that \<^verbatim>\<open>TileHashReader\<close> is given.\<close>

definition dts_reader :: "dirTileStorage \<Rightarrow> tile_reader" where
  "dts_reader t = \<lparr>tr_Height = dts_Height t, tr_ReadTiles = read_files (dts_dir t)\<rparr>"

section \<open>Shifts within range\<close>

lemma shl_nat: "k < 64 \<Longrightarrow> x * 2 ^ k < 2 ^ 63 \<Longrightarrow> shl (int x) (int k) = int (x * 2 ^ k)"
proof -
  assume "k < 64" and lt: "x * 2 ^ k < 2 ^ 63"
  have "int (x * 2 ^ k) < int (2 ^ 63)" using lt by (simp only: of_nat_less_iff)
  then have "i64 (int (x * 2 ^ k)) = int (x * 2 ^ k)" by (intro i64_id) (auto intro: order_trans [of _ 0])
  with \<open>k < 64\<close> show ?thesis by (simp add: shl_def push_bit_eq_mult)
qed

lemma shr_nat: "k < 64 \<Longrightarrow> shr (int x) (int k) = int (x div 2 ^ k)"
  by (simp add: shr_def drop_bit_eq_div zdiv_int)

lemma sdiv_nat: "int a sdiv int b = int (a div b)"
  by (simp add: signed_divide_int_def sgn_if zdiv_int)

section \<open>The tile of a stored hash\<close>

text \<open>Every stored position is that of a complete subtree.\<close>

lemma ipos_between: "\<exists>m. ipos m \<le> i \<and> i < ipos (Suc m)"
proof (induction i)
  case 0
  then show ?case by (intro exI [of _ 0]) (simp add: ipos_Suc)
next
  case (Suc i)
  then obtain m where m: "ipos m \<le> i" "i < ipos (Suc m)" by blast
  show ?case
  proof (cases "Suc i < ipos (Suc m)")
    case True
    with m show ?thesis by (intro exI [of _ m]) simp
  next
    case False
    with m have "Suc i = ipos (Suc m)" by simp
    then show ?thesis using ipos_strict_mono [of "Suc m" "Suc (Suc m)"] by (intro exI [of _ "Suc m"]) simp
  qed
qed

lemma stored_coordinates:
  assumes "i < ipos n" "n < 2 ^ 61"
  obtains l c where "(c + 1) * 2 ^ l \<le> n" "i = node_at (c * 2 ^ l) l"
    "SplitStoredHashIndex (int i) = Some (Ok (int l, int c))"
proof -
  obtain m where m: "ipos m \<le> i" "i < ipos (Suc m)" using ipos_between by blast
  define l where "l = i - ipos m"
  have mn: "Suc m \<le> n" using m assms(1) ipos_mono [of n m] by (intro leI notI) simp
  have "l \<le> tz (Suc m)" using m by (simp add: l_def ipos_Suc)
  then have "2 ^ l dvd Suc m" by (simp add: tz_dvd)
  then obtain b where b: "Suc m = 2 ^ l * b" by (elim dvdE)
  then obtain c where c: "b = Suc c" by (cases b) auto
  have "m = 2 ^ l * c + (2 ^ l - 1)" using b c one_le_power [of "2::nat" l] by (simp add: algebra_simps)
  moreover have "(2::nat) ^ l - 1 < 2 ^ l" by simp
  moreover have "(2 ^ l * c + r) div 2 ^ l = c" if "r < 2 ^ l" for r
    using that by (intro div_nat_eqI) simp_all
  ultimately have d: "m div 2 ^ l = c" by metis
  have "i < 2 ^ 62" using assms ipos_le [of n] by simp
  from Split_eq [OF m this] d have "SplitStoredHashIndex (int i) = Some (Ok (int l, int c))" by (simp add: l_def)
  moreover have e: "(c + 1) * 2 ^ l = Suc m" using b c by (simp add: algebra_simps)
  moreover have "i = node_at (c * 2 ^ l) l"
    using m(1) e by (simp add: node_at_def l_def algebra_simps)
  ultimately show ?thesis using that [of c l] mn by simp
qed

definition tile_of :: "nat \<Rightarrow> nat \<Rightarrow> nat \<Rightarrow> nat \<Rightarrow> Tile" where
  "tile_of h L N W = \<lparr>tile_H = int h, tile_L = int L, tile_N = int N, tile_W = int W\<rparr>"

lemma tileForIndex_eq:
  assumes "SplitStoredHashIndex i = Some (Ok (int l, int c))" "0 < h" "h \<le> 30" "(c + 1) * 2 ^ l \<le> 2 ^ 61"
  defines "e \<equiv> l mod h"
  defines "j \<equiv> c mod 2 ^ (h - e)"
  shows "tileForIndex (int h) i = Some (Ok (tile_of h (l div h) (c div 2 ^ (h - e)) ((j + 1) * 2 ^ e),
      int (j * 2 ^ e * HashSize), int ((j + 1) * 2 ^ e * HashSize)))"
    and "(j + 1) * 2 ^ e \<le> 2 ^ h" and "c = c div 2 ^ (h - e) * 2 ^ (h - e) + j"
proof -
  have eh: "e < h" using assms(2) by (simp add: e_def)
  have el: "e \<le> l" by (simp add: e_def)
  have pe: "(2::nat) ^ h = 2 ^ (h - e) * 2 ^ e" using eh by (simp flip: power_add)
  have j: "j + 1 \<le> 2 ^ (h - e)" by (simp add: j_def Suc_le_eq)
  then have jw: "(j + 1) * 2 ^ e \<le> 2 ^ (h - e) * 2 ^ e" by (rule mult_right_mono) simp
  then show w: "(j + 1) * 2 ^ e \<le> 2 ^ h" by (simp only: pe)
  show cj: "c = c div 2 ^ (h - e) * 2 ^ (h - e) + j" unfolding j_def by (rule div_mult_mod_eq [symmetric])
  have "(2::nat) ^ e \<le> 2 ^ l" using el by (rule power_increasing) simp
  then have "(c + 1) * 2 ^ e \<le> (c + 1) * 2 ^ l" by (rule mult_left_mono) simp
  with assms(4) have ce: "(c + 1) * 2 ^ e \<le> 2 ^ 61" by linarith
  then have "c * 2 ^ e < 2 ^ 63" by simp
  then have s1: "shl (int c) (int e) = int (c * 2 ^ e)" using eh assms(3) by (intro shl_nat) simp_all
  have "c * 2 ^ e div 2 ^ h = c div 2 ^ (h - e)" unfolding pe by simp
  then have s2: "shr (int (c * 2 ^ e)) (int h) = int (c div 2 ^ (h - e))" using assms(3) by (simp add: shr_nat del: of_nat_mult)
  have "c div 2 ^ (h - e) * 2 ^ (h - e) * 2 ^ e \<le> c * 2 ^ e" by simp
  then have "c div 2 ^ (h - e) * 2 ^ h \<le> c * 2 ^ e" unfolding pe by (simp only: mult.assoc)
  with ce have "c div 2 ^ (h - e) * 2 ^ h < 2 ^ 63" by simp
  then have s3: "shl (int (c div 2 ^ (h - e))) (int h) = int (c div 2 ^ (h - e) * 2 ^ h)"
    using assms(3) by (intro shl_nat) simp_all
  have "c div 2 ^ (h - e) * 2 ^ h div 2 ^ e = c div 2 ^ (h - e) * 2 ^ (h - e)"
    unfolding pe by (simp only: mult.assoc [symmetric] nonzero_mult_div_cancel_right power_not_zero) simp
  then have s4: "shr (int (c div 2 ^ (h - e) * 2 ^ h)) (int e) = int (c div 2 ^ (h - e) * 2 ^ (h - e))"
    using eh assms(3) by (simp add: shr_nat del: of_nat_mult)
  have s5: "int c - int (c div 2 ^ (h - e) * 2 ^ (h - e)) = int j" using cj by linarith
  have hh: "(2::nat) ^ h \<le> 2 ^ 30" using assms(3) by (rule power_increasing) simp
  have s6: "shl (int j) (int e) = int (j * 2 ^ e)" "shl (int j + 1) (int e) = int ((j + 1) * 2 ^ e)"
    using shl_nat [of e j] shl_nat [of e "j + 1"] w hh eh assms(3) by (simp_all add: add.commute)
  have lv: "int l - int (l div h) * int h = int e" by (simp add: e_def modulo_nat_def zmod_int flip: minus_div_mult_eq_mod zdiv_int)
  show "tileForIndex (int h) i = Some (Ok (tile_of h (l div h) (c div 2 ^ (h - e)) ((j + 1) * 2 ^ e),
      int (j * 2 ^ e * HashSize), int ((j + 1) * 2 ^ e * HashSize)))"
    unfolding tileForIndex_def using assms(1,2)
    by (simp only: run_bind.simps prod.case Let_def sdiv_nat lv s1 s2 s3 s4 s5 s6) (simp add: tile_of_def)
qed
section \<open>The data of a tile\<close>

text \<open>The hashes of level \<open>k\<close> from subtree \<open>a\<close> on.\<close>

definition row :: "(bytes \<Rightarrow> hash) \<Rightarrow> hash list \<Rightarrow> nat \<Rightarrow> nat \<Rightarrow> nat \<Rightarrow> hash list" where
  "row sha leaves k a w = map (\<lambda>i. mth sha (rng leaves ((a + i) * 2 ^ k) ((a + i + 1) * 2 ^ k))) [0..<w]"

lemma length_row [simp]: "length (row sha leaves k a w) = w"
  by (simp add: row_def)

lemma take_row: "v \<le> w \<Longrightarrow> take v (row sha leaves k a w) = row sha leaves k a v"
  by (simp add: row_def take_map take_upt)

lemma drop_row: "drop v (row sha leaves k a w) = row sha leaves k (a + v) (w - v)"
proof -
  have "[v..<w] = map (\<lambda>i. i + v) [0..<w - v]" by (cases "v \<le> w") (simp_all add: map_add_upt)
  then show ?thesis by (simp add: row_def drop_map comp_def ac_simps)
qed

lemma sized_row:
  assumes "\<And>x. length (sha x) = HashSize" "sized leaves" "(a + w) * 2 ^ k \<le> length leaves"
  shows "sized (row sha leaves k a w)"
proof -
  have "length (mth sha (rng leaves ((a + i) * 2 ^ k) ((a + i + 1) * 2 ^ k))) = HashSize" if "i < w" for i
  proof (rule mth_sized [OF assms(1,2)])
    have "(a + i + 1) * 2 ^ k \<le> (a + w) * 2 ^ k" using that by (intro mult_right_mono) simp_all
    then show "(a + i + 1) * 2 ^ k \<le> length leaves" using assms(3) by linarith
  qed simp
  then show ?thesis by (auto simp: sized_def row_def)
qed

text \<open>A row of \<open>2 ^ e\<close> subtrees hashes to the subtree that they form.\<close>

lemma mth_pow2:
  assumes "length hs = 2 ^ Suc e"
  shows "mth sha hs = NodeHash sha (mth sha (take (2 ^ e) hs)) (mth sha (drop (2 ^ e) hs))"
proof -
  have "2 \<le> length hs" using assms one_le_power [of "2::nat" e] by simp
  moreover have "split_at hs = 2 ^ e" using lg_pow2_pred [of e] by (simp add: split_at_def assms)
  ultimately show ?thesis by (subst mth.simps) auto
qed

lemma mth_row:
  "(a + 2 ^ e) * 2 ^ k \<le> length leaves \<Longrightarrow>
   mth sha (row sha leaves k a (2 ^ e)) = mth sha (rng leaves (a * 2 ^ k) ((a + 2 ^ e) * 2 ^ k))"
proof (induction e arbitrary: a)
  case 0
  then show ?case by (simp add: row_def mth.simps [of sha "[x]" for x])
next
  case (Suc e)
  let ?lo = "a * 2 ^ k" and ?hi = "(a + 2 ^ Suc e) * 2 ^ k" and ?m = "(a + 2 ^ e) * 2 ^ k"
  have p: "length (row sha leaves k a (2 ^ Suc e)) = 2 ^ Suc e" by simp
  have "?m \<le> ?hi" by (intro mult_right_mono) simp_all
  with Suc.prems have le: "?m \<le> length leaves" by linarith
  have len: "length (rng leaves ?lo ?hi) = 2 ^ Suc (e + k)" using Suc.prems by (simp add: algebra_simps power_add)
  have mid: "?lo + 2 ^ (e + k) = ?m" by (simp add: algebra_simps power_add)
  have "mth sha (rng leaves ?lo ?hi) = NodeHash sha (mth sha (rng leaves ?lo ?m)) (mth sha (rng leaves ?m ?hi))"
    using mth_pow2 [OF len, of sha] mid \<open>?m \<le> ?hi\<close> by (simp add: take_rng drop_rng)
  moreover have e2: "a + 2 ^ e + 2 ^ e = a + 2 ^ Suc e" by simp
  ultimately show ?case
    using mth_pow2 [OF p, of sha] Suc.IH [of a] Suc.IH [of "a + 2 ^ e", unfolded e2] Suc.prems le
    by (simp add: take_row drop_row)
qed

lemma length_concat_sized: "sized hs \<Longrightarrow> length (concat hs) = length hs * HashSize"
  by (induction hs) (simp_all add: sized_def)

lemma concat_take_sized: "sized hs \<Longrightarrow> take (n * HashSize) (concat hs) = concat (take n hs)"
proof (induction hs arbitrary: n)
  case Nil
  then show ?case by simp
next
  case (Cons h hs)
  then show ?case by (cases n) (simp_all add: sized_def)
qed

lemma concat_drop_sized: "sized hs \<Longrightarrow> drop (n * HashSize) (concat hs) = concat (drop n hs)"
proof (induction hs arbitrary: n)
  case Nil
  then show ?case by simp
next
  case (Cons h hs)
  then show ?case by (cases n) (simp_all add: sized_def)
qed

lemma sized_take: "sized hs \<Longrightarrow> sized (take n hs)" and sized_drop: "sized hs \<Longrightarrow> sized (drop n hs)"
  by (auto simp: sized_def dest: in_set_takeD in_set_dropD)

lemma tileHash_mth: "sized hs \<Longrightarrow> length hs = 2 ^ e \<Longrightarrow> tileHash sha (concat hs) = Ok (mth sha hs)"
proof (induction e arbitrary: hs)
  case 0
  then obtain h where "hs = [h]" by (auto simp: length_Suc_conv)
  with 0 show ?case by (simp add: tileHash.simps sized_def HashSize_def mth.simps)
next
  case (Suc e)
  let ?d = "concat hs"
  have len: "length ?d = 2 ^ Suc e * HashSize" using Suc.prems by (simp add: length_concat_sized)
  then have half: "length ?d div 2 = 2 ^ e * HashSize" by simp
  have c: "length ?d \<noteq> 0" "length ?d \<noteq> HashSize" "length ?d div 2 \<noteq> 0"
    unfolding half using len by (simp_all add: HashSize_def)
  have "tileHash sha (concat (take (2 ^ e) hs)) = Ok (mth sha (take (2 ^ e) hs))"
    "tileHash sha (concat (drop (2 ^ e) hs)) = Ok (mth sha (drop (2 ^ e) hs))"
    using Suc.prems by (intro Suc.IH; simp add: sized_take sized_drop)+
  then show ?case unfolding tileHash.simps [of sha ?d] half
    using c half mth_pow2 [OF Suc.prems(2)] Suc.prems(1) by (simp add: concat_take_sized concat_drop_sized)
qed
context hash_reader
begin

lemma tile_data:
  assumes ok: "log_ok sha leaves store" and n: "length leaves < 2 ^ 61"
    and w: "0 < W" "h \<le> 30" "(N * 2 ^ h + W) * 2 ^ (h * L) \<le> length leaves"
  shows "ReadTileData (tile_of h L N W) r = Ok (concat (row sha leaves (h * L) (N * 2 ^ h) W))"
proof -
  let ?k = "h * L" and ?a = "N * 2 ^ h"
  have le: "(?a + i + 1) * 2 ^ ?k \<le> length leaves" if "i < W" for i
  proof -
    have "(?a + i + 1) * 2 ^ ?k \<le> (?a + W) * 2 ^ ?k" using that by (intro mult_right_mono) simp_all
    with w(3) show ?thesis by linarith
  qed
  have "?a * 1 \<le> (?a + W) * 2 ^ ?k" by (intro mult_mono) simp_all
  with w(3) n have "?a < 2 ^ 63" by simp
  then have s: "shl (int N) (int h) = int ?a" using w(2) by (intro shl_nat) simp_all
  have i: "StoredHashIndex (int h * int L) (int ?a + int i) = int (node_at ((?a + i) * 2 ^ ?k) ?k)" if "i < W" for i
  proof -
    have "(?a + i + 1) * 2 ^ ?k \<le> 2 ^ 62" using le [OF that] n by simp
    then have "StoredHashIndex (int ?k) (int (?a + i)) = int (ipos ((?a + i + 1) * 2 ^ ?k - 1) + ?k)"
      by (rule StoredHashIndex_eq)
    then show ?thesis by (simp add: node_at_def algebra_simps)
  qed
  define ix where "ix = map (\<lambda>i. node_at ((?a + i) * 2 ^ ?k) ?k) [0..<W]"
  have e: "(?a + i) * 2 ^ ?k + 2 ^ ?k = (?a + i + 1) * 2 ^ ?k" for i by (simp add: algebra_simps)
  have pos: "node_at ((?a + i) * 2 ^ ?k) ?k < length store" if "i < W" for i
    using node_at_less [of ?k "(?a + i) * 2 ^ ?k" "length leaves"] le [OF that] ok by (simp only: e dvd_triv_right log_ok_def)
  have val: "store ! node_at ((?a + i) * 2 ^ ?k) ?k = mth sha (rng leaves ((?a + i) * 2 ^ ?k) ((?a + i + 1) * 2 ^ ?k))"
    if "i < W" for i
    using log_okD [OF ok, of ?k "(?a + i) * 2 ^ ?k"] le [OF that] by (simp only: e dvd_triv_right)
  have "r (map int ix) = Ok (map ((!) store) ix)" by (rule read_ok) (auto simp: ix_def pos)
  moreover have "map ((!) store) ix = row sha leaves ?k ?a W" using val by (simp add: ix_def row_def)
  moreover have "map (\<lambda>i. StoredHashIndex (int h * int L) (int ?a + int i)) [0..<W] = map int ix"
    using i by (simp add: ix_def)
  ultimately have "r (map (\<lambda>i. StoredHashIndex (int h * int L) (int ?a + int i)) [0..<W]) = Ok (row sha leaves ?k ?a W)"
    by simp
  then show ?thesis using w(1) by (simp add: ReadTileData_def tile_of_def Let_def s)
qed

end

text \<open>Reading a stored hash out of the data of its tile, also out of a wider version of the tile.\<close>

lemma slice_nat:
  "a \<le> b \<Longrightarrow> b \<le> length d \<Longrightarrow> slice d (int a) (int b) = Ok (take (b - a) (drop a d))"
  by (simp add: slice_def flip: of_nat_diff)

lemma HashFromTile_row:
  assumes sha: "\<And>x. length (sha x) = HashSize" and ls: "sized leaves" "length leaves < 2 ^ 61"
    and ok: "log_ok sha leaves store" and i: "i < length store" and h: "0 < h" "h \<le> 30"
  shows "\<exists>L N W1. TileForIndex (int h) (int i) = Some (Ok (tile_of h L N W1)) \<and>
    (\<forall>W. W1 \<le> W \<longrightarrow> W \<le> 2 ^ h \<longrightarrow> (N * 2 ^ h + W) * 2 ^ (h * L) \<le> length leaves \<longrightarrow>
      HashFromTile sha (tile_of h L N W) (concat (row sha leaves (h * L) (N * 2 ^ h) W)) (int i) = Some (Ok (store ! i)))
    \<and> 0 < W1"
proof -
  have "i < ipos (length leaves)" using i ok by (simp add: log_ok_def)
  then obtain l c where c: "(c + 1) * 2 ^ l \<le> length leaves" "i = node_at (c * 2 ^ l) l"
    "SplitStoredHashIndex (int i) = Some (Ok (int l, int c))"
    using stored_coordinates ls(2) by metis
  define e j L N where "e = l mod h" and "j = c mod 2 ^ (h - e)" and "L = l div h" and "N = c div 2 ^ (h - e)"
  have "(c + 1) * 2 ^ l \<le> 2 ^ 61" using c(1) ls(2) by linarith
  note t = tileForIndex_eq [OF c(3) h this, folded e_def, folded j_def N_def L_def]
  have eh: "e < h" using h by (simp add: e_def)
  have lh: "l = e + h * L" by (simp add: e_def L_def)
  have ph: "(2::nat) ^ h = 2 ^ (h - e) * 2 ^ e" using eh by (simp flip: power_add)
  have base: "N * 2 ^ h + j * 2 ^ e = c * 2 ^ e"
  proof -
    have "N * 2 ^ h + j * 2 ^ e = (N * 2 ^ (h - e) + j) * 2 ^ e" by (simp add: ph algebra_simps)
    then show ?thesis using t(3) by simp
  qed
  have lo: "c * 2 ^ e * 2 ^ (h * L) = c * 2 ^ l" "(c * 2 ^ e + 2 ^ e) * 2 ^ (h * L) = c * 2 ^ l + 2 ^ l"
    by (simp_all add: lh power_add algebra_simps)
  have L64: "L < 64"
  proof -
    have "(2::nat) ^ l < 2 ^ 61" using c(1) ls(2) by (simp add: algebra_simps)
    then have "l < 61" by (rule power_less_imp_less_exp [rotated]) simp
    moreover have "L \<le> l" by (simp add: L_def)
    ultimately show ?thesis by linarith
  qed
  have "HashFromTile sha (tile_of h L N W) (concat (row sha leaves (h * L) (N * 2 ^ h) W)) (int i) = Some (Ok (store ! i))"
    if W: "(j + 1) * 2 ^ e \<le> W" "W \<le> 2 ^ h" "(N * 2 ^ h + W) * 2 ^ (h * L) \<le> length leaves" for W
  proof -
    let ?row = "row sha leaves (h * L) (N * 2 ^ h) W"
    note sz = sized_row [OF sha ls(1) W(3)]
    have len: "length (concat ?row) = W * HashSize" using sz by (simp add: length_concat_sized)
    have "0 < (j + 1) * 2 ^ e" by simp
    with W(1) have W0: "0 < W" by linarith
    have hh: "(2::nat) ^ h \<le> 2 ^ 30" using h(2) by (rule power_increasing) simp
    then have one: "shl 1 (int h) = int (2 ^ h)" using shl_nat [of h 1] h(2) by simp
    have b: "(j + 1) * 2 ^ e * HashSize \<le> length (concat ?row)" unfolding len using W(1) by (rule mult_right_mono) simp
    have d: "(j + 1) * 2 ^ e * HashSize - j * 2 ^ e * HashSize = 2 ^ e * HashSize" by (simp add: algebra_simps)
    have "take (2 ^ e * HashSize) (drop (j * 2 ^ e * HashSize) (concat ?row)) = concat (take (2 ^ e) (drop (j * 2 ^ e) ?row))"
      using sz by (simp only: concat_drop_sized concat_take_sized sized_drop)
    also have "take (2 ^ e) (drop (j * 2 ^ e) ?row) = row sha leaves (h * L) (c * 2 ^ e) (2 ^ e)"
      using W(1) by (simp add: drop_row take_row base algebra_simps)
    finally have tk: "take (2 ^ e * HashSize) (drop (j * 2 ^ e * HashSize) (concat ?row)) =
      concat (row sha leaves (h * L) (c * 2 ^ e) (2 ^ e))" .
    have "j * 2 ^ e * HashSize \<le> (j + 1) * 2 ^ e * HashSize" by simp
    from slice_nat [OF this b]
    have sl: "slice (concat ?row) (int (j * 2 ^ e * HashSize)) (int ((j + 1) * 2 ^ e * HashSize)) =
        Ok (concat (row sha leaves (h * L) (c * 2 ^ e) (2 ^ e)))"
      by (simp only: d tk)
    have le: "(c * 2 ^ e + 2 ^ e) * 2 ^ (h * L) \<le> length leaves" unfolding lo(2) using c(1) by (simp add: algebra_simps)
    have "tileHash sha (concat (row sha leaves (h * L) (c * 2 ^ e) (2 ^ e))) =
        Ok (mth sha (rng leaves (c * 2 ^ l) (c * 2 ^ l + 2 ^ l)))"
      using tileHash_mth [OF sized_row [OF sha ls(1) le]] mth_row [OF le, of sha] by (simp add: lo)
    moreover have "store ! i = mth sha (rng leaves (c * 2 ^ l) (c * 2 ^ l + 2 ^ l))"
      unfolding c(2) using c(1) by (intro log_okD [OF ok]) (simp_all add: algebra_simps)
    moreover have "int W \<le> int (2 ^ h)" "int ((j + 1) * 2 ^ e) \<le> int W" using W(1,2) by (simp_all only: of_nat_le_iff)
    ultimately show ?thesis
      unfolding HashFromTile_def using t(1) sl h W0 L64 len one by (simp add: tile_of_def)
  qed
  moreover have "TileForIndex (int h) (int i) = Some (Ok (tile_of h L N ((j + 1) * 2 ^ e)))"
    using t(1) h(1) by (simp add: TileForIndex_def)
  ultimately show ?thesis by (intro exI [of _ L] exI [of _ N] exI [of _ "(j + 1) * 2 ^ e"]) simp
qed
section \<open>The authentication of tiles\<close>

lemma log_ok_ex: "\<exists>store. log_ok sha leaves store"
proof (induction leaves rule: rev_induct)
  case Nil
  then show ?case using log_ok_empty by blast
next
  case (snoc h leaves)
  then show ?case using log_ok_append by blast
qed

lemma tile_of_inject [simp]: "tile_of h L N W = tile_of h' L' N' W' \<longleftrightarrow> h = h' \<and> L = L' \<and> N = N' \<and> W = W'"
  by (simp add: tile_of_def)

lemma HashFromTile_at:
  assumes "\<And>x. length (sha x) = HashSize" "sized leaves" "length leaves < 2 ^ 61" "log_ok sha leaves store"
    "i < length store" "0 < h" "h \<le> 30" "TileForIndex (int h) (int i) = Some (Ok (tile_of h L N W1))"
    "W1 \<le> W" "W \<le> 2 ^ h" "(N * 2 ^ h + W) * 2 ^ (h * L) \<le> length leaves"
  shows "HashFromTile sha (tile_of h L N W) (concat (row sha leaves (h * L) (N * 2 ^ h) W)) (int i) = Some (Ok (store ! i))"
  using HashFromTile_row [OF assms(1-7)] assms(8-11) by auto

lemma tileForIndex_at:
  assumes "ipos m \<le> i" "i < ipos (Suc m)" "m < 2 ^ 60" "0 < h" "h \<le> 30"
  defines "l \<equiv> i - ipos m"
  defines "c \<equiv> m div 2 ^ l" and "e \<equiv> l mod h"
  defines "j \<equiv> c mod 2 ^ (h - e)"
  shows "tileForIndex (int h) (int i) = Some (Ok (tile_of h (l div h) (c div 2 ^ (h - e)) ((j + 1) * 2 ^ e),
      int (j * 2 ^ e * HashSize), int ((j + 1) * 2 ^ e * HashSize)))"
proof -
  have "ipos (Suc m) \<le> 2 * Suc m" by (rule ipos_le)
  then have "i < 2 ^ 62" using assms(2,3) by simp
  from Split_eq [OF assms(1,2) this] have s: "SplitStoredHashIndex (int i) = Some (Ok (int l, int c))"
    by (simp add: l_def c_def)
  have "l \<le> tz (Suc m)" using assms(1,2) by (simp add: l_def ipos_Suc)
  then have "2 ^ l dvd Suc m" by (simp add: tz_dvd)
  then have "2 ^ l \<le> Suc m" by (rule dvd_imp_le) simp
  moreover have "c * 2 ^ l \<le> m" by (simp add: c_def)
  ultimately have "(c + 1) * 2 ^ l \<le> 2 ^ 61" using assms(3) by (simp add: algebra_simps)
  from tileForIndex_eq(1) [OF s assms(4,5) this] show ?thesis by (simp only: e_def j_def)
qed

text \<open>A tree of seven records and tiles of height two: the second and the third subtree of the tree hash
  lie in the same tile, so that the tile of the first four records is number two of the tiles, below
  \<^verbatim>\<open>len(stx)\<close>.\<close>

lemmas ipos_compute = ipos.simps [of "numeral n" for n] ipos.simps [of "Suc 0"]

lemma seven_tiles:
  "tileForIndex 2 6 = Some (Ok (tile_of 2 1 0 1, 0, 32))"
  "tileForIndex 2 9 = Some (Ok (tile_of 2 0 1 2, 0, 64))"
  "tileForIndex 2 10 = Some (Ok (tile_of 2 0 1 3, 64, 96))"
  "tileForIndex 2 0 = Some (Ok (tile_of 2 0 0 1, 0, 32))"
  using tileForIndex_at [of 3 6 2] tileForIndex_at [of 5 9 2] tileForIndex_at [of 6 10 2] tileForIndex_at [of 0 0 2]
  by (simp_all add: ipos_compute HashSize_def)

lemma seven_indexes: "subTreeIndex 0 7 [] = Some (Ok [6, 9, 10])"
proof -
  have al: "aligned 4 7" "aligned 6 7" by (rule alignedI [of 2], simp, simp) (rule alignedI [of 0], simp, simp)
  have lg: "lg 7 = 2" "lg 3 = 1" "lg (Suc 0) = 0" by (simp_all add: lg.simps)
  show ?thesis
    using subTree_step(1) [of 0 7 "[]"] subTree_step(1) [OF al(1), of "[6]"] subTree_step(1) [OF al(2), of "[6, 9]"]
      subTree_done(1) [of 7 "[6, 9, 10]"]
    by (simp add: lg node_at_def ipos_compute)
qed

lemma seven_parents:
  "tileParent (tile_of 2 1 0 1) 0 7 = tile_of 2 1 0 1"
  "tileParent (tile_of 2 0 1 2) 0 7 = tile_of 2 0 1 3"
  "tileParent (tile_of 2 0 1 3) 0 7 = tile_of 2 0 1 3"
  "tileParent (tile_of 2 0 0 1) 0 7 = tile_of 2 0 0 4"
  "tileParent (tile_of 2 0 0 1) 1 7 = tile_of 2 1 0 1"
  by (simp_all add: tileParent_def tile_of_def shl_def shr_def i64_def push_bit_eq_mult drop_bit_eq_div)

lemma tile_of_fields [simp]:
  "tile_H (tile_of h L N W) = int h" "tile_L (tile_of h L N W) = int L"
  "tile_N (tile_of h L N W) = int N" "tile_W (tile_of h L N W) = int W"
  by (simp_all add: tile_of_def)

lemma seven_plan:
  "run_bind (plan_stx 2 7 [6, 9, 10] Map.empty [] []) (\<lambda>(ord, tiles, so).
     run_bind (plan_indexes 2 7 [0] ord tiles []) (\<lambda>(ord, tiles, io). Some (Ok (so, tiles, io)))) =
   Some (Ok ([0, 1, 1], [tile_of 2 1 0 1, tile_of 2 0 1 3, tile_of 2 0 0 4], [2]))"
proof -
  let ?ord = "[tile_of 2 1 0 1 \<mapsto> 0, tile_of 2 0 1 3 \<mapsto> 1 :: nat]"
  have p: "plan_stx 2 7 [6, 9, 10] Map.empty [] [] =
      Some (Ok (?ord, [tile_of 2 1 0 1, tile_of 2 0 1 3], [0, 1, 1]))"
    by (simp add: seven_tiles seven_parents Let_def del: One_nat_def) simp
  have "find_parent ?ord (tile_of 2 0 0 1) 7 1 = Some (1, 0)"
    by (subst find_parent.simps) (simp add: seven_parents del: One_nat_def)
  then have "find_parent ?ord (tile_of 2 0 0 1) 7 0 = Some (1, 0)"
    by (subst find_parent.simps) (simp add: seven_parents del: One_nat_def)
  moreover have "StoredHashIndex 0 7 = 11" using StoredHashIndex_eq [of 7 0] by (simp add: ipos_compute)
  moreover have "shl 1 2 = 4" by (simp add: shl_def i64_def push_bit_eq_mult)
  moreover from this have "plan_down (tile_of 2 0 0 1) 7 1 ord tiles i =
      Ok (ord(tile_of 2 0 0 4 \<mapsto> length tiles), tiles @ [tile_of 2 0 0 4], length tiles)" for ord tiles i
    using seven_parents(4) by (simp add: Let_def)
  ultimately show ?thesis unfolding p by (simp add: seven_tiles seven_parents del: One_nat_def)
qed
text \<open>The data an honest server holds for a tile.\<close>

definition honest_tile :: "(bytes \<Rightarrow> hash) \<Rightarrow> hash list \<Rightarrow> Tile \<Rightarrow> bytes" where
  "honest_tile sha leaves t =
     concat (row sha leaves (nat (tile_H t * tile_L t)) (nat (tile_N t) * 2 ^ nat (tile_H t)) (nat (tile_W t)))"

lemma honest_tile_of: "honest_tile sha leaves (tile_of h L N W) = concat (row sha leaves (h * L) (N * 2 ^ h) W)"
  by (simp add: honest_tile_def nat_mult_distrib)

lemma seven_hashes:
  assumes "\<And>x. length (sha x) = HashSize" "sized leaves" "length leaves = 7"
  defines "data \<equiv> \<lambda>t. honest_tile sha leaves t"
  shows "HashFromTile sha (tile_of 2 1 0 1) (data (tile_of 2 1 0 1)) 6 = Some (Ok (mth sha (rng leaves 0 4)))"
    and "HashFromTile sha (tile_of 2 0 1 3) (data (tile_of 2 0 1 3)) 9 = Some (Ok (mth sha (rng leaves 4 6)))"
    and "HashFromTile sha (tile_of 2 0 1 3) (data (tile_of 2 0 1 3)) 10 = Some (Ok (mth sha (rng leaves 6 7)))"
proof -
  obtain store where ok: "log_ok sha leaves store" using log_ok_ex by blast
  then have len: "length store = 11" using assms(3) by (simp add: log_ok_def ipos_compute)
  have lt: "length leaves < 2 ^ 61" using assms(3) by simp
  have v: "store ! 6 = mth sha (rng leaves 0 4)" "store ! 9 = mth sha (rng leaves 4 6)" "store ! 10 = mth sha (rng leaves 6 7)"
    using log_okD [OF ok, of 2 0] log_okD [OF ok, of 1 4] log_okD [OF ok, of 0 6] assms(3)
    by (simp_all add: node_at_def ipos_compute)
  have T: "TileForIndex 2 6 = Some (Ok (tile_of 2 1 0 1))" "TileForIndex 2 9 = Some (Ok (tile_of 2 0 1 2))"
    "TileForIndex 2 10 = Some (Ok (tile_of 2 0 1 3))"
    by (simp_all add: TileForIndex_def seven_tiles)
  note at = HashFromTile_at [OF assms(1,2) lt ok]
  show "HashFromTile sha (tile_of 2 1 0 1) (data (tile_of 2 1 0 1)) 6 = Some (Ok (mth sha (rng leaves 0 4)))"
    using at [of 6 2 1 0 1 1] T v len assms(3) by (simp add: data_def honest_tile_of del: One_nat_def)
  show "HashFromTile sha (tile_of 2 0 1 3) (data (tile_of 2 0 1 3)) 9 = Some (Ok (mth sha (rng leaves 4 6)))"
    using at [of 9 2 0 1 2 3] T v len assms(3) by (simp add: data_def honest_tile_of del: One_nat_def)
  show "HashFromTile sha (tile_of 2 0 1 3) (data (tile_of 2 0 1 3)) 10 = Some (Ok (mth sha (rng leaves 6 7)))"
    using at [of 10 2 0 1 3 3] T v len assms(3) by (simp add: data_def honest_tile_of del: One_nat_def)
qed

lemma forged_hash:
  assumes "sized forged" "length forged = 4"
  shows "HashFromTile sha (tile_of 2 0 0 4) (concat forged) 0 = Some (Ok (forged ! 0))"
proof -
  obtain a hs where f: "forged = a # hs" using assms(2) by (cases forged) auto
  then have a: "length a = 32" using assms(1) by (simp add: sized_def HashSize_def)
  have len: "length (concat forged) = 128" using assms by (simp add: length_concat_sized HashSize_def)
  have "slice (concat forged) 0 32 = Ok a" using len a f by (simp add: slice_def)
  moreover have "tileHash sha a = Ok a" using a by (simp add: tileHash.simps HashSize_def)
  moreover have "shl 1 2 = 4" by (simp add: shl_def i64_def push_bit_eq_mult)
  ultimately show ?thesis using len f by (simp add: HashFromTile_def seven_tiles HashSize_def)
qed

text \<open>C21. The reader that checks tiles against the tree hash returns hashes it has not checked: for every
  tree of seven records and tiles of height two, a server that answers the tile of the first four records
  with any four hashes makes \<^verbatim>\<open>tileHashReader.ReadHashes\<close> return the first of them as the hash of
  record zero, although every other tile is right and the tree hash is the one of the log.\<close>

theorem forged_tile_accepted:
  assumes "\<And>x. length (sha x) = HashSize" "sized leaves" "length leaves = 7" "sized forged" "length forged = 4"
  shows "\<exists>saved. tile_ReadHashes sha \<lparr>tree_N = 7, tree_Hash = mth sha leaves\<rparr>
      \<lparr>tr_Height = 2, tr_ReadTiles = (\<lambda>ts. Ok (map (\<lambda>t. if t = tile_of 2 0 0 4 then concat forged
         else honest_tile sha leaves t) ts))\<rparr> [0] = Some (Ok ([forged ! 0], saved))"
proof -
  let ?h = "honest_tile sha leaves"
  let ?data = "[?h (tile_of 2 1 0 1), ?h (tile_of 2 0 1 3), concat forged]"
  let ?tiles = "[tile_of 2 1 0 1, tile_of 2 0 1 3, tile_of 2 0 0 4]"
  obtain ord tiles so where p1: "plan_stx 2 7 [6, 9, 10] Map.empty [] [] = Some (Ok (ord, tiles, so))"
    and p2: "\<exists>ord'. plan_indexes 2 7 [0] ord tiles [] = Some (Ok (ord', ?tiles, [2]))" and so: "so = [0, 1, 1]"
    using seven_plan by (auto simp: run_bind_Ok)
  from p2 obtain ord' where p2': "plan_indexes 2 7 [0] ord tiles [] = Some (Ok (ord', ?tiles, [2]))" by blast
  have len: "length (concat forged) = 128" "length (?h (tile_of 2 1 0 1)) = 32" "length (?h (tile_of 2 0 1 3)) = 96"
    using assms sized_row [OF assms(1,2), of 0 1 2] sized_row [OF assms(1,2), of 4 3 0]
    by (simp_all add: length_concat_sized HashSize_def honest_tile_of)
  then have c: "check_lengths ?tiles ?data = Ok ()" by (simp add: check_lengths_def HashSize_def)
  have lg: "lg 6 = 2" "lg 2 = 1" by (simp_all add: lg.simps)
  have "mth sha (rng leaves 0 7) = NodeHash sha (mth sha (rng leaves 0 4)) (mth sha (rng leaves 4 7))"
    "mth sha (rng leaves 4 7) = NodeHash sha (mth sha (rng leaves 4 6)) (mth sha (rng leaves 6 7))"
    using mth_split(1) [of 0 7 leaves sha] mth_split(1) [of 4 7 leaves sha] assms(3) lg by simp_all
  moreover have "rng leaves 0 7 = leaves" using assms(3) by (simp add: rng_def)
  ultimately have th: "tiles_tree_hash sha ?tiles ?data (zip [6, 9, 10] so) = Some (Ok (mth sha leaves))"
    using seven_hashes [OF assms(1-3)] by (simp add: so del: One_nat_def)
  have pull: "pull_hashes sha ?tiles ?data (zip [0] [2]) = Some (Ok [forged ! 0])"
    using forged_hash [OF assms(4,5)] by simp
  show ?thesis
    using p1 p2' c th pull seven_indexes by (simp add: tile_ReadHashes_def Let_def del: One_nat_def)
qed

theorem forged_tile_accepted_witness:
  "\<exists>saved. tile_ReadHashes (\<lambda>x. zero_hash) \<lparr>tree_N = 7, tree_Hash = mth (\<lambda>x. zero_hash) (replicate 7 zero_hash)\<rparr>
      \<lparr>tr_Height = 2, tr_ReadTiles = (\<lambda>ts. Ok (map (\<lambda>t. if t = tile_of 2 0 0 4 then concat (replicate 4 (replicate 32 1))
         else honest_tile (\<lambda>x. zero_hash) (replicate 7 zero_hash) t) ts))\<rparr> [0] = Some (Ok ([replicate 4 (replicate 32 1) ! 0], saved))"
  by (rule forged_tile_accepted) (simp_all add: sized_def zero_hash_def HashSize_def)
section \<open>Printing and parsing tile paths\<close>

definition is_digit :: "char \<Rightarrow> bool" where
  "is_digit c \<longleftrightarrow> 48 \<le> (of_char c :: nat) \<and> (of_char c :: nat) \<le> 57"

declare dec.simps [simp del]

lemma of_char_digit [simp]: "d < 10 \<Longrightarrow> of_char (digit d) = 48 + d"
  by (simp add: digit_def)

lemma is_digit_digit [simp]: "d < 10 \<Longrightarrow> is_digit (digit d)"
  by (simp add: is_digit_def)

lemma dec_digits: "c \<in> set (dec n) \<Longrightarrow> is_digit c"
proof (induction n rule: dec.induct)
  case (1 n)
  then show ?case by (cases "n < 10") (auto simp: dec.simps [of n])
qed

lemma dec_nonempty [simp]: "dec n \<noteq> []"
  by (simp add: dec.simps [of n])

lemma parse_digits_append: "parse_digits acc (xs @ ys) = (case parse_digits acc xs of None \<Rightarrow> None | Some a \<Rightarrow> parse_digits a ys)"
  by (induction acc xs rule: parse_digits.induct) auto

lemma parse_dec: "parse_digits 0 (dec n) = Some n"
proof (induction n rule: dec.induct)
  case (1 n)
  then show ?case by (cases "n < 10") (auto simp: dec.simps [of n] parse_digits_append)
qed

lemma parse_zeros: "parse_digits 0 (replicate k CHR ''0'' @ s) = parse_digits 0 s"
  by (induction k) simp_all

lemma digits_plain:
  assumes "\<forall>c \<in> set s. is_digit c"
  shows "CHR ''/'' \<notin> set s" "CHR ''p'' \<notin> set s" "s \<noteq> [] \<Longrightarrow> hd s \<noteq> CHR ''-''" "s \<noteq> [] \<Longrightarrow> hd s \<noteq> CHR ''+''"
    "s \<noteq> [] \<Longrightarrow> hd s \<noteq> CHR ''x''"
  using assms by (cases s; auto simp: is_digit_def)+

lemma Atoi_digits:
  assumes "\<forall>c \<in> set s. is_digit c" "s \<noteq> []" "parse_digits 0 s = Some n" "n < 2 ^ 63"
  shows "Atoi s = Some (int n)"
  using assms digits_plain(3,4) [OF assms(1,2)] by (simp add: Atoi_def)

lemma Atoi_dec: "n < 2 ^ 63 \<Longrightarrow> Atoi (dec n) = Some (int n)"
  by (intro Atoi_digits) (simp_all add: dec_digits parse_dec)

lemma dec03_digits: "c \<in> set (dec03 (int n)) \<Longrightarrow> is_digit c"
  using dec_digits [of c n] by (auto simp: dec03_def pad_left_def is_digit_def)

lemma dec03_nonempty [simp]: "dec03 (int n) \<noteq> []"
  by (simp add: dec03_def pad_left_def)

lemma Atoi_dec03: "n < 2 ^ 63 \<Longrightarrow> Atoi (dec03 (int n)) = Some (int n)"
  by (intro Atoi_digits) (simp_all add: dec03_digits parse_dec dec03_def pad_left_def parse_zeros)

lemma split_slash_plain: "CHR ''/'' \<notin> set s \<Longrightarrow> split_slash s = [s]"
  by (induction s) auto

lemma split_slash_append: "CHR ''/'' \<notin> set a \<Longrightarrow> split_slash (a @ CHR ''/'' # b) = a # split_slash b"
  by (induction a) auto

text \<open>The fields of the number, all but the last.\<close>

fun n_fields :: "nat \<Rightarrow> string list" where
  "n_fields n = (if n \<ge> 1000 then n_fields (n div 1000) @ [CHR ''x'' # dec03 (int (n div 1000 mod 1000))] else [])"

declare n_fields.simps [simp del] Path_loop.simps [simp del]

lemma x_field_plain: "CHR ''/'' \<notin> set (CHR ''x'' # dec03 (int n))"
  using digits_plain(1) [of "dec03 (int n)"] by (simp add: dec03_digits)

lemma split_Path_loop: "split_slash (Path_loop (int n) s) = n_fields n @ split_slash s"
proof (induction n arbitrary: s rule: n_fields.induct)
  case (1 n)
  show ?case
  proof (cases "n \<ge> 1000")
    case True
    have d: "int n div 1000 = int (n div 1000)" "int (n div 1000) mod 1000 = int (n div 1000 mod 1000)"
      by (simp_all add: zdiv_int zmod_int)
    have "Path_loop (int n) s = Path_loop (int (n div 1000)) ((CHR ''x'' # dec03 (int (n div 1000 mod 1000))) @ CHR ''/'' # s)"
      using True by (subst Path_loop.simps) (simp add: d)
    then show ?thesis using 1 [OF True] split_slash_append [OF x_field_plain] True
      by (simp add: n_fields.simps [of n] del: append_Cons)
  next
    case False
    then show ?thesis by (subst Path_loop.simps, subst n_fields.simps) simp
  qed
qed

lemma trim_x_digits: "trim_x (dec03 (int n)) = dec03 (int n)"
  using digits_plain(5) [of "dec03 (int n)"] by (simp add: trim_x_def dec03_digits)

lemma parse_n_field:
  assumes "q * 1000 + d < 2 ^ 63" "d < 1000" "trim_x s = dec03 (int d)"
  shows "parse_n (int q) (s # r) = parse_n (int (q * 1000 + d)) r"
proof -
  have "int (q * 1000 + d) < int (2 ^ 63)" using assms(1) by (simp only: of_nat_less_iff)
  then have "i64 (int q * 1000) = int (q * 1000)" "i64 (int (q * 1000) + int d) = int (q * 1000 + d)"
    by (subst i64_id; simp)+
  with assms(2,3) Atoi_dec03 [of d] show ?thesis by simp
qed

lemma parse_n_fields: "n < 2 ^ 63 \<Longrightarrow> parse_n 0 (n_fields n @ r) = parse_n (int (n div 1000)) r"
proof (induction n arbitrary: r rule: n_fields.induct)
  case (1 n)
  show ?case
  proof (cases "n \<ge> 1000")
    case True
    have d: "n div 1000 div 1000 * 1000 + n div 1000 mod 1000 = n div 1000" by (rule div_mult_mod_eq)
    have "parse_n (int (n div 1000 div 1000)) ((CHR ''x'' # dec03 (int (n div 1000 mod 1000))) # r) =
        parse_n (int (n div 1000)) r"
      using parse_n_field [of "n div 1000 div 1000" "n div 1000 mod 1000" "CHR ''x'' # dec03 (int (n div 1000 mod 1000))" r]
        1(2) by (simp only: d) (simp add: trim_x_def)
    then show ?thesis using 1(1) [OF True] 1(2) True by (simp add: n_fields.simps [of n])
  next
    case False
    then show ?thesis by (subst n_fields.simps) simp
  qed
qed

lemma parse_n_all: "n < 2 ^ 63 \<Longrightarrow> parse_n 0 (n_fields n @ [dec03 (int (n mod 1000))]) = Some (int n)"
  using parse_n_fields [of n] parse_n_field [of "n div 1000" "n mod 1000" "dec03 (int (n mod 1000))" "[]"]
  by (simp add: trim_x_digits)
definition valid_tile :: "Tile \<Rightarrow> bool" where
  "valid_tile t \<longleftrightarrow> 1 \<le> tile_H t \<and> tile_H t \<le> 30 \<and> - 1 \<le> tile_L t \<and> tile_L t < 2 ^ 63 \<and>
     0 \<le> tile_N t \<and> tile_N t < 2 ^ 63 \<and> 1 \<le> tile_W t \<and> tile_W t \<le> shl 1 (tile_H t)"

definition L_field :: "Tile \<Rightarrow> string" where
  "L_field t = (if tile_L t = - 1 then ''data'' else dec (nat (tile_L t)))"

lemma last_field:
  "split_slash (dec03 (int n)) = [dec03 (int n)]"
  "split_slash (dec03 (int n) @ ''.p/'' @ dec w) = [dec03 (int n) @ ''.p'', dec w]"
proof -
  have d: "CHR ''/'' \<notin> set (dec03 (int n))" "CHR ''/'' \<notin> set (dec w)"
    using digits_plain(1) [of "dec03 (int n)"] digits_plain(1) [of "dec w"] by (simp_all add: dec03_digits dec_digits)
  then show "split_slash (dec03 (int n)) = [dec03 (int n)]" by (simp add: split_slash_plain)
  show "split_slash (dec03 (int n) @ ''.p/'' @ dec w) = [dec03 (int n) @ ''.p'', dec w]"
    using split_slash_append [of "dec03 (int n) @ ''.p''" "dec w"] d by (simp add: split_slash_plain)
qed

lemma Path_loop_append: "Path_loop n (s @ r) = Path_loop n s @ r"
proof (induction n s rule: Path_loop.induct)
  case (1 n s)
  then show ?case
    by (cases "n \<ge> 1000") (simp_all add: Path_loop.simps [of n "s @ r"] Path_loop.simps [of n s])
qed

lemma split_Path:
  assumes "valid_tile t"
  defines "n \<equiv> nat (tile_N t)"
  shows "split_slash (Path t) = [''tile'', dec (nat (tile_H t)), L_field t] @ n_fields n @
    (if tile_W t = shl 1 (tile_H t) then [dec03 (int (n mod 1000))]
     else [dec03 (int (n mod 1000)) @ ''.p'', dec (nat (tile_W t))])"
proof -
  have n: "tile_N t = int n" "tile_N t smod 1000 = int (n mod 1000)"
    using assms(1) by (simp_all add: valid_tile_def n_def signed_modulo_int_def sgn_if zmod_int)
  have pos: "\<not> tile_H t < 0" "\<not> tile_W t < 0" "tile_L t < 0 \<longleftrightarrow> tile_L t = - 1" using assms(1) by (auto simp: valid_tile_def)
  have ns: "CHR ''/'' \<notin> set ''tile''" "CHR ''/'' \<notin> set (dec (nat (tile_H t)))" "CHR ''/'' \<notin> set (L_field t)"
    using digits_plain(1) [of "dec k" for k] by (auto simp: L_field_def dec_digits)
  let ?tail = "Path_loop (int n) (dec03 (int (n mod 1000)) @ (if tile_W t = shl 1 (tile_H t) then '''' else ''.p/'' @ dec (nat (tile_W t))))"
  have "Path t = ''tile'' @ CHR ''/'' # dec (nat (tile_H t)) @ CHR ''/'' # L_field t @ CHR ''/'' # ?tail"
    unfolding Path_def Let_def n(2) unfolding n(1) using pos
    by (auto simp: dec_int_def L_field_def Path_loop_append)
  then have "split_slash (Path t) = ''tile'' # dec (nat (tile_H t)) # L_field t # split_slash ?tail"
    by (simp only: split_slash_append [OF ns(1)] split_slash_append [OF ns(2)] split_slash_append [OF ns(3)])
  then show ?thesis using last_field(1) [of "n mod 1000"] last_field(2) [of "n mod 1000" "nat (tile_W t)"]
    by (simp add: split_Path_loop)
qed

lemma no_dotP: "CHR ''p'' \<notin> set s \<Longrightarrow> \<not> has_dotP s"
  by (auto simp: has_dotP_def dest: arg_cong [where f = set] in_set_dropD)
    (metis in_set_dropD list.set_intros)

lemma n_fields_plain: "s \<in> set (n_fields n) \<Longrightarrow> CHR ''p'' \<notin> set s"
proof (induction n rule: n_fields.induct)
  case (1 n)
  then show ?case using digits_plain(2) [of "dec03 (int (n div 1000 mod 1000))"]
    by (cases "n \<ge> 1000") (auto simp: n_fields.simps [of n] dec03_digits)
qed

lemma parse_w_full:
  assumes "L \<noteq> []" "CHR ''p'' \<notin> set L"
  shows "parse_w w ([a, b, L] @ n_fields n @ [s]) = Some (w, [a, b, L] @ n_fields n @ [s])"
proof -
  have "([a, b, L] @ n_fields n @ [s]) ! (length ([a, b, L] @ n_fields n @ [s]) - 2) = last (L # n_fields n)"
    by (cases "n_fields n" rule: rev_cases) (simp_all add: nth_append)
  moreover have "\<not> has_dotP (last (L # n_fields n))"
    using assms(2) n_fields_plain [of "last (n_fields n)" n] by (intro no_dotP) auto
  ultimately show ?thesis by (simp only: parse_w_def Let_def if_False)
qed

lemma parse_w_partial:
  assumes "0 < v" "int v < w" "v < 2 ^ 63"
  shows "parse_w w (xs @ [s @ ''.p'', dec v]) = Some (int v, xs @ [s])"
  using assms Atoi_dec [of v]
  by (simp add: parse_w_def Let_def nth_append has_dotP_def list_update_append butlast_append)
section \<open>Properties\<close>

text \<open>Tile paths: \<^verbatim>\<open>ParseTilePath\<close> inverts \<^verbatim>\<open>Path\<close> on every tile within the documented ranges (height
  1 to 30, level from -1, any number, any width of that height), and a path it accepts is the path of
  the tile it returns.\<close>

theorem tile_path_roundtrip:
  assumes "valid_tile t"
  shows "ParseTilePath (Path t) = Ok t \<and> (\<forall>path u. ParseTilePath path = Ok u \<longrightarrow> path = Path u)"
proof
  define n where "n = nat (tile_N t)"
  have v: "1 \<le> tile_H t" "tile_H t \<le> 30" "- 1 \<le> tile_L t" "tile_L t < 2 ^ 63" "tile_N t = int n" "n < 2 ^ 63"
    "1 \<le> tile_W t" "tile_W t \<le> shl 1 (tile_H t)"
    using assms by (auto simp: valid_tile_def n_def nat_less_iff)
  define f where "f = split_slash (Path t)"
  define g where "g = f[2 := (if tile_L t = - 1 then ''0'' else f ! 2)]"
  define L where "L = (if tile_L t = - 1 then ''0'' else dec (nat (tile_L t)))"
  define ws where "ws = (if tile_W t = shl 1 (tile_H t) then [dec03 (int (n mod 1000))]
     else [dec03 (int (n mod 1000)) @ ''.p'', dec (nat (tile_W t))])"
  have f: "f = [''tile'', dec (nat (tile_H t)), L_field t] @ n_fields n @ ws"
    using split_Path [OF assms] by (simp add: f_def ws_def n_def)
  then have g: "g = [''tile'', dec (nat (tile_H t)), L] @ n_fields n @ ws"
    by (simp add: g_def L_def L_field_def numeral_2_eq_2)
  have len: "\<not> length f < 4" "f ! 0 = ''tile''" by (simp_all add: f ws_def)
  have "dec k \<noteq> ''data''" for k using dec_digits [of "CHR ''d''" k] by (auto simp: is_digit_def)
  then have data: "f ! 2 = ''data'' \<longleftrightarrow> tile_L t = - 1" by (simp add: f L_field_def numeral_2_eq_2)
  have "nat (tile_H t) < 2 ^ 63" "nat (tile_L t) < 2 ^ 63" using v by (simp_all add: nat_less_iff)
  then have a: "Atoi (g ! 1) = Some (tile_H t)" "Atoi (g ! 2) = Some (if tile_L t = - 1 then 0 else tile_L t)"
    using v(1,3) Atoi_dec [of "nat (tile_H t)"] Atoi_dec [of "nat (tile_L t)"]
    by (simp_all add: g L_def numeral_2_eq_2 Atoi_def [of "''0''"])
  have Lp: "L \<noteq> []" "CHR ''p'' \<notin> set L" using digits_plain(2) [of "dec k" for k] by (auto simp: L_def dec_digits)
  have sh: "shl 1 (tile_H t) \<le> 2 ^ 30"
  proof -
    have p: "(2::nat) ^ nat (tile_H t) \<le> 2 ^ 30" using v(2) by (intro power_increasing) simp_all
    have "shl (int 1) (int (nat (tile_H t))) = int (1 * 2 ^ nat (tile_H t))"
      using v(2) p by (intro shl_nat) simp_all
    moreover have "int (2 ^ nat (tile_H t)) \<le> int (2 ^ 30)" using p by (simp only: of_nat_le_iff)
    ultimately show ?thesis using v(1) by simp
  qed
  have w: "parse_w (shl 1 (tile_H t)) g = Some (tile_W t, [''tile'', dec (nat (tile_H t)), L] @ n_fields n @ [dec03 (int (n mod 1000))])"
  proof (cases "tile_W t = shl 1 (tile_H t)")
    case True
    then show ?thesis using parse_w_full [OF Lp] by (simp add: g ws_def)
  next
    case False
    have "nat (tile_W t) < 2 ^ 63" using v(8) sh by (simp add: nat_less_iff)
    then show ?thesis
      using False v(7,8) parse_w_partial [of "nat (tile_W t)" "shl 1 (tile_H t)" "[''tile'', dec (nat (tile_H t)), L] @ n_fields n"]
      by (simp add: g ws_def)
  qed
  have ft: "(if f ! 2 = ''data'' then f[2 := ''0''] else f) = g" by (simp add: g_def data list_update_id)
  have "\<lparr>tile_H = tile_H t, tile_L = (if tile_L t = - 1 then - 1 else (if tile_L t = - 1 then 0 else tile_L t)),
      tile_N = int n, tile_W = tile_W t\<rparr> = t" using v(5) by (simp add: Tile.defs)
  then show "ParseTilePath (Path t) = Ok t"
    unfolding ParseTilePath_def Let_def f_def [symmetric] ft using len a w v(1-3) parse_n_all [OF v(6)]
    by (auto simp: data)
  show "\<forall>path u. ParseTilePath path = Ok u \<longrightarrow> path = Path u"
    by (auto simp: ParseTilePath_def Let_def split: if_splits option.splits prod.splits)
qed

theorem tile_path_roundtrip_witness:
  "ParseTilePath (Path \<lparr>tile_H = 3, tile_L = 4, tile_N = 1234067, tile_W = 1\<rparr>) =
     Ok \<lparr>tile_H = 3, tile_L = 4, tile_N = 1234067, tile_W = 1\<rparr>"
  by (rule conjunct1 [OF tile_path_roundtrip])
    (simp add: valid_tile_def shl_def i64_def push_bit_eq_mult)

text \<open>A stored hash can be read back from tiles: for every index of a log there is a tile
  \<^verbatim>\<open>TileForIndex\<close>, and for that tile and every wider version of it that the log fills, \<^verbatim>\<open>ReadTileData\<close>
  returns data from which \<^verbatim>\<open>HashFromTile\<close> computes exactly the hash stored at the index.\<close>

theorem hash_from_tile:
  assumes "\<And>x. length (sha x) = HashSize" "sized leaves" "length leaves < 2 ^ 61"
    "log_ok sha leaves (fhs_f f)" "i < length (fhs_f f)" "0 < h" "h \<le> 30"
  shows "\<exists>L N W1. TileForIndex (int h) (int i) = Some (Ok (tile_of h L N W1)) \<and>
    (\<forall>W. W1 \<le> W \<longrightarrow> W \<le> 2 ^ h \<longrightarrow> (N * 2 ^ h + W) * 2 ^ (h * L) \<le> length leaves \<longrightarrow>
      (\<exists>data. ReadTileData (tile_of h L N W) (fhs_ReadHashes f) = Ok data \<and>
        HashFromTile sha (tile_of h L N W) data (int i) = Some (Ok (fhs_f f ! i))))"
proof -
  obtain L N W1 where t: "TileForIndex (int h) (int i) = Some (Ok (tile_of h L N W1))" "0 < W1"
    "\<And>W. W1 \<le> W \<Longrightarrow> W \<le> 2 ^ h \<Longrightarrow> (N * 2 ^ h + W) * 2 ^ (h * L) \<le> length leaves \<Longrightarrow>
      HashFromTile sha (tile_of h L N W) (concat (row sha leaves (h * L) (N * 2 ^ h) W)) (int i) = Some (Ok (fhs_f f ! i))"
    using HashFromTile_row [OF assms] by blast
  have "\<exists>data. ReadTileData (tile_of h L N W) (fhs_ReadHashes f) = Ok data \<and>
      HashFromTile sha (tile_of h L N W) data (int i) = Some (Ok (fhs_f f ! i))"
    if "W1 \<le> W" "W \<le> 2 ^ h" "(N * 2 ^ h + W) * 2 ^ (h * L) \<le> length leaves" for W
    using t(2) t(3) [OF that] fhs.tile_data [OF assms(4,3) _ assms(7) that(3)] that(1) by auto
  with t(1) show ?thesis by blast
qed

theorem hash_from_tile_witness:
  "\<exists>f L N W1. TileForIndex (int 2) (int 0) = Some (Ok (tile_of 2 L N W1)) \<and>
    (\<forall>W. W1 \<le> W \<longrightarrow> W \<le> 2 ^ 2 \<longrightarrow>
      (N * 2 ^ 2 + W) * 2 ^ (2 * L) \<le> length (map (RecordHash (\<lambda>x. zero_hash)) [[1], [2], [3 :: byte]]) \<longrightarrow>
      (\<exists>data. ReadTileData (tile_of 2 L N W) (fhs_ReadHashes f) = Ok data \<and>
        HashFromTile (\<lambda>x. zero_hash) (tile_of 2 L N W) data (int 0) = Some (Ok (fhs_f f ! 0))))"
proof -
  let ?sha = "\<lambda>x :: bytes. zero_hash" and ?ds = "[[1], [2], [3 :: byte]]"
  obtain store where "log_ok ?sha (map (RecordHash ?sha) ?ds) store" using log_ok_ex by blast
  then have f: "log_ok ?sha (map (RecordHash ?sha) ?ds) (fhs_f \<lparr>fhs_f = store, fhs_off = 0\<rparr>)"
    by (simp only: fileHashStorage.simps)
  then have pos: "0 < length (fhs_f \<lparr>fhs_f = store, fhs_off = 0\<rparr>)" by (simp add: log_ok_def ipos_Suc)
  have z: "\<And>x. length (?sha x) = HashSize" and sz: "sized (map (RecordHash ?sha) ?ds)"
    and len: "length (map (RecordHash ?sha) ?ds) < 2 ^ 61"
    by (simp_all add: zero_hash_def sized_def RecordHash_def)
  have two: "(0::nat) < 2" "(2::nat) \<le> 30" by simp_all
  show ?thesis by (rule exI, rule hash_from_tile [OF z sz len f pos two])
qed
end
