(* ===== verification/Slot.thy ===== *)
theory Slot
  imports Prelude Complex_Main
begin

text \<open>
  The voting engine of package \<open>slot\<close>: \<^verbatim>\<open>src/exp/slot/msg.go\<close> (blocks, votes, messages), \<^verbatim>\<open>seed.go\<close>,
  \<^verbatim>\<open>chain.go\<close> (rounds, ranks, strength and the tip), \<^verbatim>\<open>voter.go\<close> (the candidates of a round), \<^verbatim>\<open>ooo.go\<close>
  (messages that wait for a block) and \<^verbatim>\<open>engine.go\<close> (the member process).

  Parameters: SHA-256, the VRF, the order in which \<^verbatim>\<open>sort.Slice\<close> leaves blocks, and whether a write to
  the broadcast succeeds. The engine's mutex is part of the state: locking it while it is held never
  returns, which is the value \<open>None\<close>. What the engine writes to the broadcast is the list \<open>se_out\<close>.
  The sets of ids that Go keeps as maps are lists without repetition.
\<close>

section \<open>Blocks, votes and messages\<close>

type_synonym sid = bytes

record SBlock =
  sb_Round :: u64
  sb_Prev :: sid
  sb_Ticket :: bytes
  sb_Proof :: bytes
  sb_PK :: bytes

record SVote =
  sv_Block :: SBlock
  sv_VoteTicket :: bytes
  sv_VoteProof :: bytes
  sv_VotePK :: bytes

record SMsg =
  sm_Proposal :: "SBlock option"
  sm_Vote :: "SVote option"

datatype MsgType = MsgTypeUnkown | MsgTypeVote | MsgTypeProposal

definition Msg_Type :: "SMsg \<Rightarrow> MsgType" where
  "Msg_Type m =
     (if sm_Proposal m \<noteq> None then MsgTypeProposal else if sm_Vote m \<noteq> None then MsgTypeVote else MsgTypeUnkown)"

abbreviation IDSize :: nat where "IDSize \<equiv> 32"
abbreviation TicketSize :: nat where "TicketSize \<equiv> 32"
abbreviation ProofSize :: nat where "ProofSize \<equiv> 96"
abbreviation PKSize :: nat where "PKSize \<equiv> 32"

definition SNilID :: sid where
  "SNilID = replicate IDSize 0"

datatype slot_err = ErrPrevNotExist | ErrPrevNotRank1 | ErrWrongRound | ErrProposeProof | ErrVoteProof
  | ErrUnknownMessage | ErrDrawTicket | ErrReadBinary | ResolveErr "slot_err list"

record slot_env =
  sl_sha :: "bytes \<Rightarrow> bytes"
  sl_vrf_Verify :: "bytes \<Rightarrow> bytes \<Rightarrow> bytes \<Rightarrow> bytes \<Rightarrow> bool"
  sl_vrf_Prove :: "bytes \<Rightarrow> bytes \<Rightarrow> bytes \<times> bytes"
  sl_sort :: "SBlock list \<Rightarrow> SBlock list"
  sl_write_ok :: "SMsg \<Rightarrow> bool"

definition NewBlock :: "u64 \<Rightarrow> sid \<Rightarrow> bytes \<Rightarrow> bytes \<Rightarrow> bytes \<Rightarrow> ('e, SBlock) res" where
  "NewBlock rnd prev ticket proof pk =
     (if length ticket \<noteq> TicketSize \<or> length proof \<noteq> ProofSize \<or> length pk \<noteq> PKSize then Panic
      else Ok \<lparr>sb_Round = rnd, sb_Prev = prev, sb_Ticket = ticket, sb_Proof = proof, sb_PK = pk\<rparr>)"

text \<open>\<^verbatim>\<open>binary.Write\<close> and \<^verbatim>\<open>binary.Read\<close> of the fields one after the other, in little-endian order.\<close>

definition Block_Encode :: "SBlock \<Rightarrow> bytes" where
  "Block_Encode b = le_uint64 (sb_Round b) @ sb_Prev b @ sb_Ticket b @ sb_Proof b @ sb_PK b"

definition read_n :: "nat \<Rightarrow> bytes \<Rightarrow> (slot_err, bytes \<times> bytes) res" where
  "read_n n r = (if length r < n then Err ErrReadBinary else Ok (take n r, drop n r))"

definition DecodeBlock :: "bytes \<Rightarrow> (slot_err, SBlock \<times> bytes) res" where
  "DecodeBlock r =
     res_bind (read_n 8 r) (\<lambda>(rnd, r). res_bind (read_n IDSize r) (\<lambda>(prev, r).
     res_bind (read_n TicketSize r) (\<lambda>(ticket, r). res_bind (read_n ProofSize r) (\<lambda>(proof, r).
     res_bind (read_n PKSize r) (\<lambda>(pk, r).
     Ok (\<lparr>sb_Round = u64_of (rev rnd), sb_Prev = prev, sb_Ticket = ticket, sb_Proof = proof, sb_PK = pk\<rparr>, r))))))"

definition SBlock_Hash :: "slot_env \<Rightarrow> SBlock \<Rightarrow> sid" where
  "SBlock_Hash env b = sl_sha env (Block_Encode b)"

definition Block_Strength :: "SBlock \<Rightarrow> nat \<Rightarrow> rat" where
  "Block_Strength b rank = of_nat (be_nat (sb_Ticket b)) / of_nat rank"

text \<open>\<^verbatim>\<open>Rank\<close> sorts by ticket, the largest first.\<close>

definition Rank :: "slot_env \<Rightarrow> SBlock list \<Rightarrow> SBlock list" where
  "Rank env blocks = sl_sort env blocks"

definition Seed :: "SBlock \<Rightarrow> u64 \<Rightarrow> bytes" where
  "Seed prevb rnd = le_uint64 rnd @ sb_Ticket prevb"

section \<open>The chain\<close>

record Ticket =
  t_Data :: bytes
  t_Proof :: bytes
  t_Vote :: bool
  t_Propose :: bool

record SChain =
  sc_tip :: sid
  sc_blocks :: "sid \<rightharpoonup> SBlock"
  sc_rounds :: "u64 \<rightharpoonup> sid list"
  sc_ranks :: "sid \<rightharpoonup> nat"
  sc_votes :: "sid \<rightharpoonup> bytes list"
  sc_gen :: SBlock

definition genesis_block :: SBlock where
  "genesis_block = \<lparr>sb_Round = 0, sb_Prev = SNilID, sb_Ticket = replicate TicketSize 0,
     sb_Proof = replicate ProofSize 0, sb_PK = replicate PKSize 0\<rparr>"

definition SNewChain :: "slot_env \<Rightarrow> SChain" where
  "SNewChain env =
     (let tip = SBlock_Hash env genesis_block
      in \<lparr>sc_tip = tip, sc_blocks = [tip \<mapsto> genesis_block], sc_rounds = [0 \<mapsto> [tip]], sc_ranks = [tip \<mapsto> 1],
          sc_votes = Map.empty, sc_gen = genesis_block\<rparr>)"

definition SChain_Tip :: "SChain \<Rightarrow> sid" where
  "SChain_Tip c = sc_tip c"

definition SChain_Read :: "SChain \<Rightarrow> sid \<Rightarrow> SBlock option" where
  "SChain_Read c bid = sc_blocks c bid"

definition Tally :: "slot_env \<Rightarrow> SChain \<Rightarrow> SVote \<Rightarrow> nat \<times> SChain" where
  "Tally env c v =
     (let bid = SBlock_Hash env (sv_Block v);
          votes = List.insert (sv_VoteTicket v) (case sc_votes c bid of None \<Rightarrow> [] | Some vs \<Rightarrow> vs)
      in (length votes, c\<lparr>sc_votes := (sc_votes c)(bid \<mapsto> votes)\<rparr>))"

definition SChain_rank :: "SChain \<Rightarrow> sid \<Rightarrow> (slot_err, nat) res" where
  "SChain_rank c bid = (case sc_ranks c bid of None \<Rightarrow> Panic | Some r \<Rightarrow> if r < 1 then Panic else Ok r)"

definition SChain_Verify :: "slot_env \<Rightarrow> SChain \<Rightarrow> SVote \<Rightarrow> (slot_err, unit) res" where
  "SChain_Verify env c v =
     (let b = sv_Block v
      in if SChain_Read c (sb_Prev b) = None then Err ErrPrevNotExist
         else res_bind (SChain_rank c (sb_Prev b)) (\<lambda>rank.
           if rank \<noteq> 1 then Err ErrPrevNotRank1
           else let seed = Seed (sc_gen c) (sb_Round b)
           in if \<not> sl_vrf_Verify env (sb_PK b) seed (sb_Ticket b) (sb_Proof b) then Err ErrProposeProof
              else if \<not> sl_vrf_Verify env (sv_VotePK v) seed (sv_VoteTicket v) (sv_VoteProof v) then Err ErrVoteProof
              else Ok ()))"

text \<open>\<^verbatim>\<open>Threshold\<close> is not implemented in the code and its zero result is not used.\<close>

definition Draw :: "slot_env \<Rightarrow> SChain \<Rightarrow> bytes \<Rightarrow> sid \<Rightarrow> u64 \<Rightarrow> (slot_err, Ticket) res" where
  "Draw env c sk prev rnd =
     (if SChain_Read c prev = None then Err ErrPrevNotExist
      else let (data, proof) = sl_vrf_Prove env (Seed (sc_gen c) rnd) sk
           in Ok \<lparr>t_Data = data, t_Proof = proof, t_Vote = True, t_Propose = True\<rparr>)"

partial_function (option) SChain_walk ::
  "SChain \<Rightarrow> (sid \<Rightarrow> SBlock \<Rightarrow> nat \<Rightarrow> 'a \<Rightarrow> (slot_err, 'a) res) \<Rightarrow> sid \<Rightarrow> 'a \<Rightarrow> (slot_err, 'a) res option" where
  "SChain_walk c f bid s =
     (case SChain_Read c bid of
        None \<Rightarrow> Some (Err ErrPrevNotExist)
      | Some b \<Rightarrow>
          (case SChain_rank c bid of
             Panic \<Rightarrow> Some Panic
           | Err e \<Rightarrow> Some (Err e)
           | Ok rank \<Rightarrow>
               (case f bid b rank s of
                  Panic \<Rightarrow> Some Panic
                | Err e \<Rightarrow> Some (Err e)
                | Ok s' \<Rightarrow> if sb_Prev b = SNilID then Some (Ok s') else SChain_walk c f (sb_Prev b) s')))"

definition SChain_strength :: "SChain \<Rightarrow> sid \<Rightarrow> (slot_err, rat) res option" where
  "SChain_strength c bid = SChain_walk c (\<lambda>bid b rank s. Ok (s + Block_Strength b rank)) bid 0"

fun set_ranks :: "slot_env \<Rightarrow> nat \<Rightarrow> SBlock list \<Rightarrow> (sid \<rightharpoonup> nat) \<Rightarrow> (sid \<rightharpoonup> nat)" where
  "set_ranks env i [] ranks = ranks"
| "set_ranks env i (b # bs) ranks = set_ranks env (i + 1) bs (ranks(SBlock_Hash env b \<mapsto> i + 1))"

definition store_block :: "slot_env \<Rightarrow> SChain \<Rightarrow> SBlock \<Rightarrow> (slot_err, SChain) res" where
  "store_block env c b =
     (let bid = SBlock_Hash env b; blocks = (sc_blocks c)(bid \<mapsto> b);
          ids = List.insert bid (case sc_rounds c (sb_Round b) of None \<Rightarrow> [] | Some ids \<Rightarrow> ids)
      in if \<exists>i \<in> set ids. blocks i = None then Panic
         else Ok (c\<lparr>sc_blocks := blocks, sc_rounds := (sc_rounds c)(sb_Round b \<mapsto> ids),
                    sc_ranks := set_ranks env 0 (Rank env (map (the \<circ> blocks) ids)) (sc_ranks c)\<rparr>))"

definition SChain_Append ::
  "slot_env \<Rightarrow> SChain \<Rightarrow> SBlock \<Rightarrow> (slot_err, (sid \<times> bool \<times> bool) \<times> SChain) res option" where
  "SChain_Append env c b =
     run_bind (err_panic (SChain_strength c (sb_Prev b))) (\<lambda>prevStrength.
     run_bind (Some (store_block env c b)) (\<lambda>c1.
     run_bind (err_panic (SChain_strength c1 (sc_tip c1))) (\<lambda>tipStrength.
       case SChain_Read c1 (sc_tip c1) of
         None \<Rightarrow> Some Panic
       | Some lastt \<Rightarrow>
           let newheight = sb_Round b > sb_Round lastt;
               newtip = tipStrength < prevStrength + Block_Strength b 1
           in Some (Ok ((SBlock_Hash env b, newheight, newtip),
                        if newtip then c1\<lparr>sc_tip := SBlock_Hash env b\<rparr> else c1)))))"

section \<open>The voter of a round\<close>

record Voter =
  vo_round :: u64
  vo_votes :: "(sid \<times> SBlock) list"
  vo_ticket :: Ticket
  vo_pk :: bytes
  vo_bw :: bool
  vo_gen :: SBlock

definition NewVoter :: "u64 \<Rightarrow> Ticket \<Rightarrow> bytes \<Rightarrow> SBlock \<Rightarrow> Voter" where
  "NewVoter rnd t pk gen = \<lparr>vo_round = rnd, vo_votes = [], vo_ticket = t, vo_pk = pk, vo_bw = False, vo_gen = gen\<rparr>"

definition Voter_Verify :: "slot_env \<Rightarrow> SChain \<Rightarrow> Voter \<Rightarrow> SBlock \<Rightarrow> (slot_err, unit) res" where
  "Voter_Verify env c v b =
     (if sb_Round b \<noteq> vo_round v then Err ErrWrongRound
      else if SChain_Read c (sb_Prev b) = None then Err ErrPrevNotExist
      else if \<not> sl_vrf_Verify env (sb_PK b) (Seed (vo_gen v) (sb_Round b)) (sb_Ticket b) (sb_Proof b) then Err ErrProposeProof
      else Ok ())"

definition Voter_vote :: "Voter \<Rightarrow> SBlock \<Rightarrow> (slot_err, SVote) res" where
  "Voter_vote v b =
     (if length (t_Data (vo_ticket v)) \<noteq> TicketSize \<or> length (t_Proof (vo_ticket v)) \<noteq> ProofSize \<or> length (vo_pk v) \<noteq> PKSize
      then Panic
      else Ok \<lparr>sv_Block = b, sv_VoteTicket = t_Data (vo_ticket v), sv_VoteProof = t_Proof (vo_ticket v), sv_VotePK = vo_pk v\<rparr>)"

definition vote_msg :: "SVote \<Rightarrow> SMsg" where
  "vote_msg v = \<lparr>sm_Proposal = None, sm_Vote = Some v\<rparr>"

definition proposal_msg :: "SBlock \<Rightarrow> SMsg" where
  "proposal_msg b = \<lparr>sm_Proposal = Some b, sm_Vote = None\<rparr>"

text \<open>A vote is written right away once the voter has a broadcast.\<close>

definition write_vote :: "bool \<Rightarrow> Voter \<Rightarrow> SBlock \<Rightarrow> (slot_err, SMsg list) res" where
  "write_vote new v b = (if new \<and> vo_bw v then res_bind (Voter_vote v b) (\<lambda>bv. Ok [vote_msg bv]) else Ok [])"

definition Voter_Propose :: "slot_env \<Rightarrow> Voter \<Rightarrow> SBlock \<Rightarrow> (slot_err, (bool \<times> nat) \<times> Voter \<times> SMsg list) res" where
  "Voter_Propose env v b =
     (let bid = SBlock_Hash env b
      in case vo_votes v of
           [] \<Rightarrow> res_bind (write_vote True v b) (\<lambda>ms. Ok ((True, 1), v\<lparr>vo_votes := [(bid, b)]\<rparr>, ms))
         | (i, b0) # rest \<Rightarrow>
             let curr = Block_Strength b0 1; new = Block_Strength b 1
             in if new > curr then
                  res_bind (write_vote True v b) (\<lambda>ms. Ok ((True, 1), v\<lparr>vo_votes := [(bid, b)]\<rparr>, ms))
                else if new = curr then
                  let known = (map_of (vo_votes v) bid \<noteq> None); votes = AList.update bid b (vo_votes v)
                  in res_bind (write_vote (\<not> known) v b) (\<lambda>ms. Ok ((\<not> known, length votes), v\<lparr>vo_votes := votes\<rparr>, ms))
                else Ok ((False, length (vo_votes v)), v, []))"

fun cast_all :: "Voter \<Rightarrow> (sid \<times> SBlock) list \<Rightarrow> (slot_err, SVote list) res" where
  "cast_all v [] = Ok []"
| "cast_all v ((i, b) # bs) = res_bind (Voter_vote v b) (\<lambda>bv. res_bind (cast_all v bs) (\<lambda>vs. Ok (bv # vs)))"

definition Voter_Cast :: "Voter \<Rightarrow> (slot_err, SVote list \<times> Voter) res" where
  "Voter_Cast v = res_bind (cast_all v (vo_votes v)) (\<lambda>votes. Ok (votes, v\<lparr>vo_bw := True\<rparr>))"

section \<open>The engine\<close>

record SEngine =
  se_vrfSK :: bytes
  se_vrfPK :: bytes
  se_rxMsg :: u64
  se_txMsg :: u64
  se_minVotes :: u64
  se_blockTime :: int
  se_lastTicket :: bytes
  se_chain :: SChain
  se_voter :: "Voter option"
  se_orphans :: "sid \<rightharpoonup> SMsg list"
  se_locked :: bool
  se_timers :: nat
  se_out :: "SMsg list"

definition NewEngine :: "SChain \<Rightarrow> bytes \<Rightarrow> bytes \<Rightarrow> int \<Rightarrow> u64 \<Rightarrow> SEngine" where
  "NewEngine chain vrfpk vrfsk bt minVotes =
     \<lparr>se_vrfSK = vrfsk, se_vrfPK = vrfpk, se_rxMsg = 0, se_txMsg = 0, se_minVotes = minVotes, se_blockTime = bt,
      se_lastTicket = [], se_chain = chain, se_voter = None, se_orphans = Map.empty, se_locked = False,
      se_timers = 0, se_out = []\<rparr>"

type_synonym 'a eff = "(slot_err, 'a) res option"

definition metrics_Write :: "slot_env \<Rightarrow> SMsg \<Rightarrow> SEngine \<Rightarrow> SEngine" where
  "metrics_Write env m e =
     e\<lparr>se_out := se_out e @ [m], se_txMsg := (if sl_write_ok env m then se_txMsg e + 1 else se_txMsg e)\<rparr>"

definition unlocked :: "SEngine \<Rightarrow> SEngine" where
  "unlocked e = e\<lparr>se_locked := False\<rparr>"

text \<open>\<^verbatim>\<open>e.Handle\<close> while the engine's mutex is held: votes and proposals wait for it forever.\<close>

definition Handle_held :: "SMsg \<Rightarrow> SEngine \<Rightarrow> (slot_err option \<times> SEngine) eff" where
  "Handle_held m e = (if Msg_Type m = MsgTypeUnkown then Some (Ok (Some ErrUnknownMessage, e)) else None)"

fun resolve_all :: "(SMsg \<Rightarrow> SEngine \<Rightarrow> (slot_err option \<times> SEngine) eff) \<Rightarrow> SMsg list \<Rightarrow> SEngine \<Rightarrow>
    (slot_err list \<times> SEngine) eff" where
  "resolve_all handle [] e = Some (Ok ([], e))"
| "resolve_all handle (m # ms) e = run_bind (handle m e) (\<lambda>(err, e).
     run_bind (resolve_all handle ms e) (\<lambda>(errs, e).
     Some (Ok ((case err of None \<Rightarrow> errs | Some x \<Rightarrow> x # errs), e))))"

definition SOOO_Resolve :: "(SMsg \<Rightarrow> SEngine \<Rightarrow> (slot_err option \<times> SEngine) eff) \<Rightarrow> slot_env \<Rightarrow> SBlock \<Rightarrow> SEngine \<Rightarrow>
    ((nat \<times> slot_err option) \<times> SEngine) eff" where
  "SOOO_Resolve handle env b e =
     (let bid = SBlock_Hash env b
      in case se_orphans e bid of
           None \<Rightarrow> Some (Ok ((0, None), e))
         | Some orphans \<Rightarrow> run_bind (resolve_all handle orphans e) (\<lambda>(errs, e).
             Some (Ok ((length orphans, if errs = [] then None else Some (ResolveErr errs)),
                       e\<lparr>se_orphans := (se_orphans e)(bid := None)\<rparr>))))"

definition WorkNewTip :: "slot_env \<Rightarrow> SEngine \<Rightarrow> (slot_err option \<times> SEngine) eff" where
  "WorkNewTip env e =
     (let c = se_chain e; tip = SChain_Tip c
      in case SChain_Read c tip of
           None \<Rightarrow> Some Panic
         | Some tipb \<Rightarrow>
             let newround = sb_Round tipb + 1
             in case Draw env c (se_vrfSK e) tip newround of
                  Panic \<Rightarrow> Some Panic
                | Err x \<Rightarrow> Some (Ok (Some ErrDrawTicket, e))
                | Ok ticket \<Rightarrow>
                    run_bind (if t_Propose ticket
                        then Some (res_bind (NewBlock newround tip (t_Data ticket) (t_Proof ticket) (se_vrfPK e))
                               (\<lambda>block. Ok (metrics_Write env (proposal_msg block) e)))
                        else Some (Ok e)) (\<lambda>e.
                    if se_lastTicket e = t_Data ticket then Some (Ok (None, e))
                    else let e = e\<lparr>se_lastTicket := t_Data ticket\<rparr>
                    in if t_Vote ticket then
                         Some (Ok (None, e\<lparr>se_voter := Some (NewVoter newround ticket (se_vrfPK e) (sc_gen c)),
                           se_timers := (if se_blockTime e > 0 then se_timers e + 1 else se_timers e)\<rparr>))
                       else if se_voter e = None then Some Panic
                       else Some (Ok (None, e\<lparr>se_voter := None\<rparr>))))"

text \<open>A voter that is torn down casts its votes first.\<close>

definition tear_down :: "slot_env \<Rightarrow> SBlock \<Rightarrow> SEngine \<Rightarrow> (slot_err, SEngine) res" where
  "tear_down env b e =
     (case se_voter e of
        None \<Rightarrow> Ok e
      | Some vo \<Rightarrow>
          if sb_Round b \<ge> vo_round vo then
            res_bind (Voter_Cast vo) (\<lambda>(votes, vo).
              Ok ((fold (metrics_Write env) (map vote_msg votes) e)\<lparr>se_voter := None\<rparr>))
          else Ok e)"

definition HandleVote :: "slot_env \<Rightarrow> SVote \<Rightarrow> SEngine \<Rightarrow> (slot_err option \<times> SEngine) eff" where
  "HandleVote env v e =
     (if se_locked e then None
      else let e = e\<lparr>se_locked := True\<rparr>; b = sv_Block v
      in case SChain_Verify env (se_chain e) v of
           Panic \<Rightarrow> Some Panic
         | Err x \<Rightarrow> Some (Ok (None, unlocked e))
         | Ok _ \<Rightarrow>
             let e = metrics_Write env (vote_msg v) e; (nvotes, c) = Tally env (se_chain e) v; e = e\<lparr>se_chain := c\<rparr>
             in if nvotes \<le> unat (se_minVotes e) then Some (Ok (None, unlocked e))
                else run_bind (Some (tear_down env b e)) (\<lambda>e.
                     run_bind (SChain_Append env (se_chain e) b) (\<lambda>((bid, newh, newt), c).
                     run_bind (SOOO_Resolve Handle_held env b (e\<lparr>se_chain := c\<rparr>)) (\<lambda>(nresv, e).
                     if \<not> newt then Some (Ok (None, unlocked e))
                     else run_bind (WorkNewTip env e) (\<lambda>(err, e). Some (Ok (err, unlocked e)))))))"

definition HandleProposal :: "slot_env \<Rightarrow> SBlock \<Rightarrow> SEngine \<Rightarrow> (slot_err option \<times> SEngine) eff" where
  "HandleProposal env b e =
     (if se_locked e then None
      else case SChain_Read (se_chain e) (SChain_Tip (se_chain e)) of
        None \<Rightarrow> Some (Ok (None, e))
      | Some tipb \<Rightarrow>
          if sb_Round b \<noteq> sb_Round tipb + 1 then Some (Ok (None, e))
          else let e = metrics_Write env (proposal_msg b) e
          in case se_voter e of
               None \<Rightarrow> Some (Ok (None, e))
             | Some vo \<Rightarrow>
                 (case Voter_Verify env (se_chain e) vo b of
                    Ok _ \<Rightarrow> Some (res_bind (Voter_Propose env vo b) (\<lambda>(r, vo, ms).
                      Ok (None, (fold (metrics_Write env) ms e)\<lparr>se_voter := Some vo\<rparr>)))
                  | _ \<Rightarrow> Some (Ok (None, e))))"

definition SEngine_Handle :: "slot_env \<Rightarrow> SMsg \<Rightarrow> SEngine \<Rightarrow> (slot_err option \<times> SEngine) eff" where
  "SEngine_Handle env m e =
     (case Msg_Type m of
        MsgTypeVote \<Rightarrow> HandleVote env (the (sm_Vote m)) e
      | MsgTypeProposal \<Rightarrow> HandleProposal env (the (sm_Proposal m)) e
      | MsgTypeUnkown \<Rightarrow> Some (Ok (Some ErrUnknownMessage, e)))"

definition SOOO_Handle :: "slot_env \<Rightarrow> SMsg \<Rightarrow> SEngine \<Rightarrow> (slot_err option \<times> SEngine) eff" where
  "SOOO_Handle env m e =
     (case Msg_Type m of
        MsgTypeUnkown \<Rightarrow> SEngine_Handle env m e
      | ty \<Rightarrow>
          let prev = (if ty = MsgTypeProposal then sb_Prev (the (sm_Proposal m)) else sb_Prev (sv_Block (the (sm_Vote m))))
          in if prev = SNilID then SEngine_Handle env m e
             else if SChain_Read (se_chain e) prev = None then
               Some (Ok (None, e\<lparr>se_orphans := (se_orphans e)
                 (prev \<mapsto> (case se_orphans e prev of None \<Rightarrow> [] | Some ms \<Rightarrow> ms) @ [m])\<rparr>))
             else SEngine_Handle env m e)"

text \<open>One turn of \<^verbatim>\<open>Run\<close> on a message that was read, and the callback of the block timer.\<close>

definition Run_step :: "slot_env \<Rightarrow> SMsg \<Rightarrow> SEngine \<Rightarrow> (slot_err option \<times> SEngine) eff" where
  "Run_step env m e = SOOO_Handle env m (e\<lparr>se_rxMsg := se_rxMsg e + 1\<rparr>)"

definition timer_cast :: "slot_env \<Rightarrow> SEngine \<Rightarrow> SEngine eff" where
  "timer_cast env e =
     (if se_locked e then None
      else case se_voter e of
        None \<Rightarrow> Some (Ok e)
      | Some vo \<Rightarrow> Some (res_bind (Voter_Cast vo) (\<lambda>(votes, vo).
          Ok ((fold (metrics_Write env) (map vote_msg votes) e)\<lparr>se_voter := Some vo\<rparr>))))"

section \<open>Encoding\<close>

definition sized_block :: "SBlock \<Rightarrow> bool" where
  "sized_block b \<longleftrightarrow> length (sb_Prev b) = IDSize \<and> length (sb_Ticket b) = TicketSize \<and>
     length (sb_Proof b) = ProofSize \<and> length (sb_PK b) = PKSize"

lemma read_n_append: "length x = n \<Longrightarrow> read_n n (x @ r) = Ok (x, r)"
  by (simp add: read_n_def)

section \<open>The invariant of the chain\<close>

definition sort_ok :: "slot_env \<Rightarrow> bool" where
  "sort_ok env \<longleftrightarrow> (\<forall>bs. mset (sl_sort env bs) = mset bs \<and>
     sorted_wrt (\<lambda>x y. be_nat (sb_Ticket y) \<le> be_nat (sb_Ticket x)) (sl_sort env bs))"

definition slinked :: "SChain \<Rightarrow> bool" where
  "slinked c \<longleftrightarrow> linked_map SNilID sb_Prev (sc_blocks c)"

text \<open>The blocks \<open>bs\<close> of a round in the order of their ranks.\<close>

definition round_ranked :: "slot_env \<Rightarrow> SChain \<Rightarrow> u64 \<Rightarrow> sid list \<Rightarrow> SBlock list \<Rightarrow> bool" where
  "round_ranked env c r ids bs \<longleftrightarrow> mset (map (SBlock_Hash env) bs) = mset ids \<and> distinct ids \<and>
     sorted_wrt (\<lambda>x y. be_nat (sb_Ticket y) \<le> be_nat (sb_Ticket x)) bs \<and>
     (\<forall>i < length bs. sc_ranks c (SBlock_Hash env (bs ! i)) = Some (i + 1)) \<and>
     (\<forall>b \<in> set bs. sc_blocks c (SBlock_Hash env b) = Some b \<and> sb_Round b = r)"

definition schain_ok :: "slot_env \<Rightarrow> SChain \<Rightarrow> bool" where
  "schain_ok env c \<longleftrightarrow> slinked c \<and> sc_blocks c (sc_tip c) \<noteq> None \<and>
     (\<forall>i b. sc_blocks c i = Some b \<longrightarrow> i = SBlock_Hash env b \<and> (\<exists>ids. sc_rounds c (sb_Round b) = Some ids \<and> i \<in> set ids)) \<and>
     (\<forall>r ids. sc_rounds c r = Some ids \<longrightarrow> (\<exists>bs. round_ranked env c r ids bs))"

lemma schain_okD:
  assumes "schain_ok env c"
  shows "slinked c" and "sc_blocks c (sc_tip c) \<noteq> None"
    and "sc_blocks c i = Some b \<Longrightarrow> i = SBlock_Hash env b"
    and "sc_blocks c i = Some b \<Longrightarrow> \<exists>ids. sc_rounds c (sb_Round b) = Some ids \<and> i \<in> set ids"
    and "sc_rounds c r = Some ids \<Longrightarrow> \<exists>bs. round_ranked env c r ids bs"
  using assms by (auto simp: schain_ok_def)

lemma block_rank:
  assumes "schain_ok env c" "sc_blocks c i = Some b"
  shows "\<exists>r. SChain_rank c i = Ok r"
proof -
  obtain ids bs where ids: "sc_rounds c (sb_Round b) = Some ids" "i \<in> set ids" "round_ranked env c (sb_Round b) ids bs"
    using schain_okD(4,5) [OF assms(1)] assms(2) by blast
  then have "i \<in> set (map (SBlock_Hash env) bs)" by (metis round_ranked_def set_mset_mset)
  then obtain k where "k < length bs" "SBlock_Hash env (bs ! k) = i" by (auto simp: in_set_conv_nth)
  with ids(3) have "sc_ranks c i = Some (k + 1)" by (auto simp: round_ranked_def)
  then show ?thesis by (simp add: SChain_rank_def)
qed

text \<open>Walks end: the distance to the root decreases.\<close>

lemma slot_walk_total:
  assumes "schain_ok env c" "\<And>i b r s. \<exists>s'. f i b r s = Ok s'" "sc_blocks c i \<noteq> None"
  shows "\<exists>s'. SChain_walk c f i s = Some (Ok s')"
proof -
  obtain b where "sc_blocks c i = Some b" using assms(3) by blast
  have "linked_map SNilID sb_Prev (sc_blocks c)" using schain_okD(1) [OF assms(1)] by (simp add: slinked_def)
  then have "\<forall>s. \<exists>s'. SChain_walk c f i s = Some (Ok s')" using \<open>sc_blocks c i = Some b\<close>
  proof (rule linked_induct)
    fix i b
    assume b: "sc_blocks c i = Some b"
      and IH: "\<And>b'. sb_Prev b \<noteq> SNilID \<Longrightarrow> sc_blocks c (sb_Prev b) = Some b' \<Longrightarrow>
        \<forall>s. \<exists>s'. SChain_walk c f (sb_Prev b) s = Some (Ok s')"
    have IH: "\<exists>s'. SChain_walk c f (sb_Prev b) s = Some (Ok s')" if "sb_Prev b \<noteq> SNilID" for s
      using IH linked_map_prev [OF \<open>linked_map SNilID sb_Prev (sc_blocks c)\<close> b] that by blast
    show "\<forall>s. \<exists>s'. SChain_walk c f i s = Some (Ok s')"
    proof
      fix s
      obtain r where r: "SChain_rank c i = Ok r" using block_rank [OF assms(1) b] by blast
      obtain s' where s': "f i b r s = Ok s'" using assms(2) by blast
      show "\<exists>s'. SChain_walk c f i s = Some (Ok s')"
        using IH [of s'] by (subst SChain_walk.simps) (auto simp: SChain_Read_def b r s')
    qed
  qed
  then show ?thesis by blast
qed

lemma strength_total: "schain_ok env c \<Longrightarrow> sc_blocks c i \<noteq> None \<Longrightarrow> \<exists>s. SChain_strength c i = Some (Ok s)"
  unfolding SChain_strength_def by (rule slot_walk_total) auto

lemma slinked_upd:
  assumes "slinked c" "sc_blocks c (sb_Prev b) \<noteq> None" "sc_blocks c i = None \<or> sc_blocks c i = Some b"
    "sc_blocks c' = (sc_blocks c)(i \<mapsto> b)"
  shows "slinked c'"
  using linked_upd [of SNilID sb_Prev "sc_blocks c" b i] assms by (simp add: slinked_def)

lemma set_ranks_other: "x \<notin> set (map (SBlock_Hash env) bs) \<Longrightarrow> set_ranks env k bs rk x = rk x"
  by (induction env k bs rk rule: set_ranks.induct) auto

lemma set_ranks_nth:
  "distinct (map (SBlock_Hash env) bs) \<Longrightarrow> i < length bs \<Longrightarrow> set_ranks env k bs rk (SBlock_Hash env (bs ! i)) = Some (k + i + 1)"
proof (induction env k bs rk arbitrary: i rule: set_ranks.induct)
  case (2 env k b bs rk)
  then show ?case
  proof (cases i)
    case 0
    with 2 show ?thesis using set_ranks_other [of "SBlock_Hash env b" env bs "k + 1"] by simp
  next
    case (Suc j)
    have "set_ranks env (k + 1) bs (rk(SBlock_Hash env b \<mapsto> k + 1)) (SBlock_Hash env (bs ! j)) = Some (k + 1 + j + 1)"
      by (rule "2.IH") (use "2.prems" Suc in simp_all)
    with Suc show ?thesis by simp
  qed
qed simp
lemma store_block_ok:
  assumes ok: "schain_ok env c" and srt: "sort_ok env" and prev: "sc_blocks c (sb_Prev b) \<noteq> None"
    and fresh: "sc_blocks c (SBlock_Hash env b) = None \<or> sc_blocks c (SBlock_Hash env b) = Some b"
  shows "\<exists>c'. store_block env c b = Ok c' \<and> schain_ok env c' \<and>
    sc_blocks c' = (sc_blocks c)(SBlock_Hash env b \<mapsto> b) \<and> sc_tip c' = sc_tip c \<and> sc_votes c' = sc_votes c \<and> sc_gen c' = sc_gen c"
proof -
  let ?i = "SBlock_Hash env b" and ?r = "sb_Round b"
  let ?blocks = "(sc_blocks c)(SBlock_Hash env b \<mapsto> b)"
  define old where "old = (case sc_rounds c ?r of None \<Rightarrow> [] | Some ids \<Rightarrow> ids)"
  define ids where "ids = List.insert ?i old"
  have old: "distinct old \<and> (\<forall>j \<in> set old. \<exists>x. sc_blocks c j = Some x \<and> sb_Round x = ?r)"
  proof (cases "sc_rounds c ?r")
    case None
    then show ?thesis by (simp add: old_def)
  next
    case (Some os)
    then obtain bs where bs: "round_ranked env c ?r os bs" using schain_okD(5) [OF ok] by blast
    then have "set os = SBlock_Hash env ` set bs" by (metis round_ranked_def set_map set_mset_mset)
    with bs Some show ?thesis by (auto simp: old_def round_ranked_def)
  qed
  have known: "\<exists>x. ?blocks j = Some x \<and> sb_Round x = ?r \<and> SBlock_Hash env x = j" if "j \<in> set ids" for j
    using that old schain_okD(3) [OF ok] by (cases "j = ?i") (auto simp: ids_def)
  define bl where "bl = map (the \<circ> ?blocks) ids"
  define bs where "bs = sl_sort env bl"
  have hash: "map (SBlock_Hash env) bl = ids" unfolding bl_def map_map by (rule map_idI) (use known in force)
  have bl: "?blocks (SBlock_Hash env x) = Some x \<and> sb_Round x = ?r" if x: "x \<in> set bl" for x
  proof -
    obtain j where j: "j \<in> set ids" "x = the (?blocks j)" using x by (auto simp: bl_def)
    with known [OF j(1)] show ?thesis by auto
  qed
  have perm: "mset bs = mset bl" using srt by (simp add: sort_ok_def bs_def)
  then have sets: "set bs = set bl" by (metis set_mset_mset)
  have mh: "mset (map (SBlock_Hash env) bs) = mset ids" using perm hash by (metis mset_map)
  have dist: "distinct ids" using old by (simp add: ids_def)
  then have dh: "distinct (map (SBlock_Hash env) bs)" using mh by (metis mset_eq_imp_distinct_iff)
  define ranks where "ranks = set_ranks env 0 bs (sc_ranks c)"
  define c' where "c' = c\<lparr>sc_blocks := ?blocks, sc_rounds := (sc_rounds c)(?r \<mapsto> ids), sc_ranks := ranks\<rparr>"
  have st: "store_block env c b = Ok c'"
  proof -
    have "\<not> (\<exists>j \<in> set ids. ?blocks j = None)" using known by force
    then show ?thesis
      by (simp add: store_block_def Let_def Rank_def c'_def ranks_def bs_def bl_def ids_def old_def comp_def)
  qed
  have rr: "round_ranked env c' ?r ids bs"
    using mh dist srt sets bl set_ranks_nth [OF dh, of _ 0] by (auto simp: round_ranked_def c'_def ranks_def sort_ok_def bs_def)
  have oth: "\<exists>xs. round_ranked env c' r js xs" if js: "sc_rounds c r = Some js" "r \<noteq> ?r" for r js
  proof -
    obtain xs where xs: "round_ranked env c r js xs" using schain_okD(5) [OF ok js(1)] by blast
    have b: "sc_blocks c (SBlock_Hash env x) = Some x" "sb_Round x = r" if "x \<in> set xs" for x
      using xs that by (auto simp: round_ranked_def)
    have keep: "?blocks (SBlock_Hash env x) = Some x" if "x \<in> set xs" for x
      using b [OF that] fresh js(2) by auto
    have "SBlock_Hash env x \<notin> set (map (SBlock_Hash env) bs)" if x: "x \<in> set xs" for x
    proof
      assume "SBlock_Hash env x \<in> set (map (SBlock_Hash env) bs)"
      then obtain y where y: "y \<in> set bl" "SBlock_Hash env y = SBlock_Hash env x" using sets by auto
      with bl [OF y(1)] keep [OF x] b [OF x] js(2) show False by auto
    qed
    then have "ranks (SBlock_Hash env x) = sc_ranks c (SBlock_Hash env x)" if "x \<in> set xs" for x
      using set_ranks_other that by (simp add: ranks_def)
    then have "round_ranked env c' r js xs"
      using xs keep by (auto simp: round_ranked_def c'_def)
    then show ?thesis by blast
  qed
  have sl: "slinked c'" by (rule slinked_upd [OF schain_okD(1) [OF ok] prev fresh]) (simp add: c'_def)
  have ky: "j = SBlock_Hash env x \<and> (\<exists>js. sc_rounds c' (sb_Round x) = Some js \<and> j \<in> set js)" if x: "?blocks j = Some x" for j x
  proof (cases "j = ?i")
    case True
    with x show ?thesis by (simp add: c'_def ids_def)
  next
    case False
    with x have y: "sc_blocks c j = Some x" by simp
    from schain_okD(3,4) [OF ok y] show ?thesis by (cases "sb_Round x = ?r") (auto simp: c'_def ids_def old_def)
  qed
  have "schain_ok env c'" unfolding schain_ok_def
  proof (intro conjI allI impI)
    show "slinked c'" by (rule sl)
    show "sc_blocks c' (sc_tip c') \<noteq> None" using schain_okD(2) [OF ok] by (simp add: c'_def)
  next
    fix j x assume "sc_blocks c' j = Some x"
    then have "?blocks j = Some x" by (simp add: c'_def)
    from ky [OF this] show "j = SBlock_Hash env x" "\<exists>js. sc_rounds c' (sb_Round x) = Some js \<and> j \<in> set js" by blast+
  next
    fix r js assume "sc_rounds c' r = Some js"
    then show "\<exists>xs. round_ranked env c' r js xs" using rr oth [of r js] by (cases "r = ?r") (auto simp: c'_def)
  qed
  with st show ?thesis by (intro exI [of _ c']) (simp add: c'_def)
qed
lemma append_total:
  assumes "schain_ok env c" "sort_ok env" "sc_blocks c (sb_Prev b) \<noteq> None"
    "sc_blocks c (SBlock_Hash env b) = None \<or> sc_blocks c (SBlock_Hash env b) = Some b"
  obtains c1 ps ts nh nt where "store_block env c b = Ok c1" "SChain_strength c (sb_Prev b) = Some (Ok ps)"
    "SChain_strength c1 (sc_tip c) = Some (Ok ts)" "nt \<longleftrightarrow> ts < ps + Block_Strength b 1"
    "SChain_Append env c b = Some (Ok ((SBlock_Hash env b, nh, nt), if nt then c1\<lparr>sc_tip := SBlock_Hash env b\<rparr> else c1))"
    "schain_ok env c1" "sc_blocks c1 = (sc_blocks c)(SBlock_Hash env b \<mapsto> b)" "sc_tip c1 = sc_tip c"
    "sc_votes c1 = sc_votes c" "sc_gen c1 = sc_gen c"
proof -
  obtain ps where ps: "SChain_strength c (sb_Prev b) = Some (Ok ps)" using strength_total [OF assms(1,3)] by blast
  obtain c1 where c1: "store_block env c b = Ok c1" "schain_ok env c1" "sc_blocks c1 = (sc_blocks c)(SBlock_Hash env b \<mapsto> b)"
      "sc_tip c1 = sc_tip c" "sc_votes c1 = sc_votes c" "sc_gen c1 = sc_gen c"
    using store_block_ok [OF assms] by blast
  obtain lastt where l: "sc_blocks c1 (sc_tip c1) = Some lastt" using schain_okD(2) [OF c1(2)] by blast
  obtain ts where ts: "SChain_strength c1 (sc_tip c1) = Some (Ok ts)"
    using strength_total [OF c1(2) schain_okD(2) [OF c1(2)]] by blast
  have "SChain_Append env c b = Some (Ok ((SBlock_Hash env b, sb_Round b > sb_Round lastt, ts < ps + Block_Strength b 1),
      if ts < ps + Block_Strength b 1 then c1\<lparr>sc_tip := SBlock_Hash env b\<rparr> else c1))"
    by (simp add: SChain_Append_def ps ts c1(1) err_panic_def SChain_Read_def l Let_def)
  with that c1 ps ts show thesis by simp
qed

lemma schain_ok_tip:
  assumes "schain_ok env c" "sc_blocks c i \<noteq> None"
  shows "schain_ok env (c\<lparr>sc_tip := i\<rparr>)"
proof -
  have "round_ranked env (c\<lparr>sc_tip := i\<rparr>) = round_ranked env c" by (simp add: round_ranked_def fun_eq_iff)
  with assms show ?thesis by (simp add: schain_ok_def slinked_def)
qed

lemma schain_ok_votes:
  assumes "schain_ok env c"
  shows "schain_ok env (c\<lparr>sc_votes := v\<rparr>)"
proof -
  have "round_ranked env (c\<lparr>sc_votes := v\<rparr>) = round_ranked env c" by (simp add: round_ranked_def fun_eq_iff)
  with assms show ?thesis by (simp add: schain_ok_def slinked_def)
qed

lemma new_chain_ok: "schain_ok env (SNewChain env)"
proof -
  let ?c = "SNewChain env" and ?g = genesis_block
  have f: "sc_blocks ?c = [SBlock_Hash env ?g \<mapsto> ?g]" "sc_rounds ?c = [0 \<mapsto> [SBlock_Hash env ?g]]"
    "sc_ranks ?c = [SBlock_Hash env ?g \<mapsto> 1]" "sc_tip ?c = SBlock_Hash env ?g"
    by (simp_all add: SNewChain_def Let_def)
  have g: "sb_Prev ?g = SNilID" "sb_Round ?g = 0" by (simp_all add: genesis_block_def)
  have "round_ranked env ?c 0 [SBlock_Hash env ?g] [?g]" by (simp add: round_ranked_def f g)
  moreover have "slinked ?c" unfolding slinked_def f by (rule linked_upd [OF linked_empty]) (simp_all add: g)
  ultimately show ?thesis by (auto simp: schain_ok_def f g split: if_splits)
qed

section \<open>What the handlers keep\<close>

lemma metrics_Write_keeps [simp]:
  "se_chain (metrics_Write env m e) = se_chain e" "se_minVotes (metrics_Write env m e) = se_minVotes e"
  "se_locked (metrics_Write env m e) = se_locked e" "se_orphans (metrics_Write env m e) = se_orphans e"
  "se_voter (metrics_Write env m e) = se_voter e"
  by (simp_all add: metrics_Write_def)

lemma fold_Write_keeps [simp]:
  "se_chain (fold (metrics_Write env) ms e) = se_chain e" "se_minVotes (fold (metrics_Write env) ms e) = se_minVotes e"
  "se_locked (fold (metrics_Write env) ms e) = se_locked e" "se_orphans (fold (metrics_Write env) ms e) = se_orphans e"
  by (induction ms arbitrary: e) simp_all

lemma tear_down_keeps:
  "tear_down env b e = Ok e' \<Longrightarrow> se_chain e' = se_chain e \<and> se_minVotes e' = se_minVotes e \<and> se_orphans e' = se_orphans e"
  by (auto simp: tear_down_def split: option.splits if_splits)

lemma resolve_all_keeps:
  "resolve_all Handle_held ms e = Some (Ok (errs, e')) \<Longrightarrow> e' = e"
  by (induction ms arbitrary: errs e') (auto simp: run_bind_Ok Handle_held_def split: if_splits)

lemma Resolve_keeps:
  "SOOO_Resolve Handle_held env b e = Some (Ok (r, e')) \<Longrightarrow> se_chain e' = se_chain e \<and> se_minVotes e' = se_minVotes e"
  by (auto simp: SOOO_Resolve_def Let_def run_bind_Ok dest: resolve_all_keeps split: option.splits)

lemma WorkNewTip_keeps:
  "WorkNewTip env e = Some (Ok (err, e')) \<Longrightarrow> se_chain e' = se_chain e \<and> se_minVotes e' = se_minVotes e"
  by (auto simp: WorkNewTip_def Let_def run_bind_Ok split: option.splits res.splits if_splits)

lemma HandleProposal_keeps:
  "HandleProposal env b e = Some (Ok (err, e')) \<Longrightarrow>
   se_chain e' = se_chain e \<and> se_minVotes e' = se_minVotes e \<and> se_locked e' = se_locked e"
  by (auto simp: HandleProposal_def Let_def split: option.splits res.splits if_splits)

lemma timer_cast_keeps:
  "timer_cast env e = Some (Ok e') \<Longrightarrow> se_chain e' = se_chain e \<and> se_minVotes e' = se_minVotes e \<and> se_locked e' = se_locked e"
  by (auto simp: timer_cast_def split: option.splits if_splits)
section \<open>Votes behind every block\<close>

text \<open>The tickets counted for an id are distinct and each was verified in a vote for a block with that id.\<close>

definition tallied :: "slot_env \<Rightarrow> SBlock \<Rightarrow> (sid \<rightharpoonup> bytes list) \<Rightarrow> bool" where
  "tallied env gen votes \<longleftrightarrow> (\<forall>i vs. votes i = Some vs \<longrightarrow> distinct vs \<and>
     (\<forall>t \<in> set vs. \<exists>b pk proof. SBlock_Hash env b = i \<and> sl_vrf_Verify env pk (Seed gen (sb_Round b)) t proof))"

definition notarized :: "slot_env \<Rightarrow> u64 \<Rightarrow> SChain \<Rightarrow> bool" where
  "notarized env mv c \<longleftrightarrow> tallied env (sc_gen c) (sc_votes c) \<and>
     (\<forall>i b. sc_blocks c i = Some b \<longrightarrow>
        i = SBlock_Hash env (sc_gen c) \<or> (\<exists>vs. sc_votes c i = Some vs \<and> unat mv < length vs))"

definition slot_ok :: "slot_env \<Rightarrow> SEngine \<Rightarrow> bool" where
  "slot_ok env e \<longleftrightarrow> \<not> se_locked e \<and> schain_ok env (se_chain e) \<and> notarized env (se_minVotes e) (se_chain e)"

lemma Tally_notarized:
  assumes "notarized env mv c" "Tally env c v = (n, c')"
    "sl_vrf_Verify env (sv_VotePK v) (Seed (sc_gen c) (sb_Round (sv_Block v))) (sv_VoteTicket v) (sv_VoteProof v)"
  shows "notarized env mv c'" and "\<exists>vs. sc_votes c' (SBlock_Hash env (sv_Block v)) = Some vs \<and> length vs = n"
    and "sc_blocks c' = sc_blocks c" and "sc_gen c' = sc_gen c"
proof -
  let ?i = "SBlock_Hash env (sv_Block v)"
  define old where "old = (case sc_votes c ?i of None \<Rightarrow> [] | Some vs \<Rightarrow> vs)"
  let ?vs = "List.insert (sv_VoteTicket v) old"
  have c': "c' = c\<lparr>sc_votes := (sc_votes c)(?i \<mapsto> ?vs)\<rparr>" "n = length ?vs"
    using assms(2) by (simp_all add: Tally_def Let_def old_def)
  have ta: "tallied env (sc_gen c) (sc_votes c)" using assms(1) by (simp add: notarized_def)
  have o: "distinct old \<and> (\<forall>t \<in> set old. \<exists>b pk proof. SBlock_Hash env b = ?i \<and> sl_vrf_Verify env pk (Seed (sc_gen c) (sb_Round b)) t proof)"
    using ta by (cases "sc_votes c ?i") (simp_all add: tallied_def old_def)
  have new: "distinct ?vs \<and> (\<forall>t \<in> set ?vs. \<exists>b pk proof. SBlock_Hash env b = ?i \<and> sl_vrf_Verify env pk (Seed (sc_gen c) (sb_Round b)) t proof)"
    using o assms(3) by auto
  then have t1: "tallied env (sc_gen c) ((sc_votes c)(?i \<mapsto> ?vs))" using ta by (simp add: tallied_def)
  have "length old \<le> length ?vs" by (simp add: List.insert_def)
  then have t2: "\<exists>vs. ((sc_votes c)(?i \<mapsto> ?vs)) i = Some vs \<and> unat mv < length vs"
    if "\<exists>vs. sc_votes c i = Some vs \<and> unat mv < length vs" for i
    using that by (cases "i = ?i") (auto simp: old_def)
  have "i = SBlock_Hash env (sc_gen c) \<or> (\<exists>vs. ((sc_votes c)(?i \<mapsto> ?vs)) i = Some vs \<and> unat mv < length vs)"
    if "sc_blocks c i = Some b" for i b using assms(1) that t2 [of i] by (simp only: notarized_def) blast
  with t1 show "notarized env mv c'" by (simp add: notarized_def c'(1))
  show "\<exists>vs. sc_votes c' ?i = Some vs \<and> length vs = n" "sc_blocks c' = sc_blocks c" "sc_gen c' = sc_gen c"
    by (simp_all add: c')
qed

definition no_clash :: "slot_env \<Rightarrow> SMsg \<Rightarrow> SEngine \<Rightarrow> bool" where
  "no_clash env m e \<longleftrightarrow> (case sm_Vote m of None \<Rightarrow> True
     | Some v \<Rightarrow> sc_blocks (se_chain e) (SBlock_Hash env (sv_Block v)) \<in> {None, Some (sv_Block v)})"

lemma verify_facts:
  assumes "SChain_Verify env c v = Ok u"
  shows "sc_blocks c (sb_Prev (sv_Block v)) \<noteq> None"
    and "sl_vrf_Verify env (sv_VotePK v) (Seed (sc_gen c) (sb_Round (sv_Block v))) (sv_VoteTicket v) (sv_VoteProof v)"
  using assms by (auto simp: SChain_Verify_def Let_def SChain_Read_def split: if_splits)

lemma HandleVote_ok:
  assumes e: "slot_ok env e" and srt: "sort_ok env"
    and fresh: "sc_blocks (se_chain e) (SBlock_Hash env (sv_Block v)) \<in> {None, Some (sv_Block v)}"
    and h: "HandleVote env v e = Some (Ok (err, e'))"
  shows "slot_ok env e' \<and> se_minVotes e' = se_minVotes e \<and> sc_gen (se_chain e') = sc_gen (se_chain e)"
proof -
  let ?e1 = "e\<lparr>se_locked := True\<rparr>" and ?b = "sv_Block v" and ?c = "se_chain e"
  have ok: "schain_ok env ?c" and nt: "notarized env (se_minVotes e) ?c" and nl: "\<not> se_locked e" using e by (auto simp: slot_ok_def)
  obtain n c1 where ta: "Tally env ?c v = (n, c1)" by (cases "Tally env ?c v")
  show ?thesis
  proof (cases "SChain_Verify env ?c v")
    case (Err x)
    with h nl have "e' = unlocked ?e1" by (simp add: HandleVote_def Let_def)
    with e show ?thesis by (simp add: slot_ok_def unlocked_def)
  next
    case Panic
    with h nl show ?thesis by (simp add: HandleVote_def Let_def)
  next
    case (Ok u)
    note vf = verify_facts [OF Ok]
    note tn = Tally_notarized [OF nt ta vf(2)]
    have ok1: "schain_ok env c1" using schain_ok_votes [OF ok] ta by (auto simp: Tally_def Let_def)
    let ?e2 = "(metrics_Write env (vote_msg v) ?e1)\<lparr>se_chain := c1\<rparr>"
    show ?thesis
    proof (cases "n \<le> unat (se_minVotes e)")
      case True
      with h nl Ok ta have "e' = unlocked ?e2" by (simp add: HandleVote_def Let_def)
      with tn ok1 show ?thesis by (simp add: slot_ok_def unlocked_def)
    next
      case False
      have p1: "sc_blocks c1 (sb_Prev ?b) \<noteq> None" using vf(1) tn(3) by simp
      have p2: "sc_blocks c1 (SBlock_Hash env ?b) = None \<or> sc_blocks c1 (SBlock_Hash env ?b) = Some ?b"
        using fresh tn(3) by auto
      obtain c2 ps ts nh newt where a: "SChain_Append env c1 ?b = Some (Ok ((SBlock_Hash env ?b, nh, newt),
          if newt then c2\<lparr>sc_tip := SBlock_Hash env ?b\<rparr> else c2))"
        and c2: "schain_ok env c2" "sc_blocks c2 = (sc_blocks c1)(SBlock_Hash env ?b \<mapsto> ?b)"
          "sc_votes c2 = sc_votes c1" "sc_gen c2 = sc_gen c1"
        by (rule append_total [OF ok1 srt p1 p2])
      define c3 where "c3 = (if newt then c2\<lparr>sc_tip := SBlock_Hash env ?b\<rparr> else c2)"
      have ok3: "schain_ok env c3" using schain_ok_tip [OF c2(1)] c2(1,2) by (simp add: c3_def)
      have nt3: "notarized env (se_minVotes e) c3"
        using tn(1,2) c2(2-4) False by (auto simp: notarized_def c3_def)
      obtain e3 e4 r where e3: "tear_down env ?b ?e2 = Ok e3"
        and e4: "SOOO_Resolve Handle_held env ?b (e3\<lparr>se_chain := c3\<rparr>) = Some (Ok (r, e4))"
        and e': "if newt then \<exists>e5. WorkNewTip env e4 = Some (Ok (err, e5)) \<and> e' = unlocked e5 else e' = unlocked e4"
        using h nl Ok ta False a tear_down_keeps [of env ?b ?e2]
        by (auto simp: HandleVote_def Let_def run_bind_Ok c3_def split: if_splits)
      have "se_chain e4 = c3 \<and> se_minVotes e4 = se_minVotes e" using Resolve_keeps [OF e4] tear_down_keeps [OF e3] by simp
      then have "se_chain e' = c3 \<and> se_minVotes e' = se_minVotes e \<and> \<not> se_locked e'"
        using e' by (auto simp: unlocked_def dest: WorkNewTip_keeps split: if_splits)
      moreover have "sc_gen c3 = sc_gen ?c" using c2(4) tn(4) by (simp add: c3_def)
      ultimately show ?thesis using ok3 nt3 by (simp add: slot_ok_def)
    qed
  qed
qed
lemma slot_ok_cong:
  "slot_ok env e \<Longrightarrow> se_chain e' = se_chain e \<Longrightarrow> se_minVotes e' = se_minVotes e \<Longrightarrow> se_locked e' = se_locked e \<Longrightarrow> slot_ok env e'"
  by (simp add: slot_ok_def)

lemma SEngine_Handle_ok:
  assumes "slot_ok env e" "sort_ok env" "no_clash env m e" "SEngine_Handle env m e = Some (Ok (err, e'))"
  shows "slot_ok env e' \<and> se_minVotes e' = se_minVotes e \<and> sc_gen (se_chain e') = sc_gen (se_chain e)"
proof (cases "Msg_Type m")
  case MsgTypeUnkown
  with assms show ?thesis by (simp add: SEngine_Handle_def)
next
  case MsgTypeVote
  then obtain v where v: "sm_Vote m = Some v" by (auto simp: Msg_Type_def split: if_splits)
  then have "sc_blocks (se_chain e) (SBlock_Hash env (sv_Block v)) \<in> {None, Some (sv_Block v)}" "HandleVote env v e = Some (Ok (err, e'))"
    using assms(3,4) MsgTypeVote by (simp_all add: no_clash_def SEngine_Handle_def)
  from HandleVote_ok [OF assms(1,2) this] show ?thesis .
next
  case MsgTypeProposal
  with assms(4) have "HandleProposal env (the (sm_Proposal m)) e = Some (Ok (err, e'))" by (simp add: SEngine_Handle_def)
  from HandleProposal_keeps [OF this] show ?thesis using slot_ok_cong [OF assms(1)] by simp
qed

lemma Run_step_ok:
  assumes "slot_ok env e" "sort_ok env" "no_clash env m e" "Run_step env m e = Some (Ok (err, e'))"
  shows "slot_ok env e' \<and> se_minVotes e' = se_minVotes e \<and> sc_gen (se_chain e') = sc_gen (se_chain e)"
proof -
  let ?e = "e\<lparr>se_rxMsg := se_rxMsg e + 1\<rparr>"
  have ok: "slot_ok env ?e" by (rule slot_ok_cong [OF assms(1)]) simp_all
  have nc: "no_clash env m ?e" using assms(3) by (auto simp: no_clash_def split: option.splits)
  consider "SEngine_Handle env m ?e = Some (Ok (err, e'))"
    | "se_chain e' = se_chain e" "se_minVotes e' = se_minVotes e" "se_locked e' = se_locked e"
    using assms(4) by (auto simp: Run_step_def SOOO_Handle_def Let_def split: MsgType.splits if_splits)
  then show ?thesis
  proof cases
    case 1
    from SEngine_Handle_ok [OF ok assms(2) nc 1] show ?thesis by simp
  next
    case 2
    with slot_ok_cong [OF assms(1)] show ?thesis by simp
  qed
qed

text \<open>The runs of a member: messages that do not collide with a stored block, and block timers.\<close>

inductive slot_run :: "slot_env \<Rightarrow> SEngine \<Rightarrow> SEngine \<Rightarrow> bool" for env e0 where
  start: "slot_run env e0 e0"
| message: "slot_run env e0 e \<Longrightarrow> no_clash env m e \<Longrightarrow> Run_step env m e = Some (Ok (err, e')) \<Longrightarrow> slot_run env e0 e'"
| timer: "slot_run env e0 e \<Longrightarrow> timer_cast env e = Some (Ok e') \<Longrightarrow> slot_run env e0 e'"

lemma slot_run_ok:
  assumes "slot_run env e0 e" "slot_ok env e0" "sort_ok env"
  shows "slot_ok env e \<and> se_minVotes e = se_minVotes e0 \<and> sc_gen (se_chain e) = sc_gen (se_chain e0)"
  using assms
proof (induction rule: slot_run.induct)
  case start
  then show ?case by simp
next
  case (message e m err e')
  from Run_step_ok [OF _ message.prems(2) message.hyps(2,3)] message show ?case by simp
next
  case (timer e e')
  from timer_cast_keeps [OF timer.hyps(2)] timer slot_ok_cong [of env e e'] show ?case by simp
qed

lemma new_engine_ok: "slot_ok env (NewEngine (SNewChain env) pk sk bt mv)"
proof -
  have "notarized env mv (SNewChain env)" by (simp add: notarized_def tallied_def SNewChain_def Let_def)
  then show ?thesis using new_chain_ok by (simp add: slot_ok_def NewEngine_def)
qed

section \<open>The candidates of a voter\<close>

abbreviation prio :: "SBlock \<Rightarrow> nat" where
  "prio b \<equiv> be_nat (sb_Ticket b)"

lemma Block_Strength_1 [simp]:
  "Block_Strength a (Suc 0) < Block_Strength b (Suc 0) \<longleftrightarrow> prio a < prio b"
  "Block_Strength a (Suc 0) = Block_Strength b (Suc 0) \<longleftrightarrow> prio a = prio b"
  by (simp_all add: Block_Strength_def)

fun propose_all :: "slot_env \<Rightarrow> Voter \<Rightarrow> SBlock list \<Rightarrow> (slot_err, Voter \<times> SMsg list) res" where
  "propose_all env v [] = Ok (v, [])"
| "propose_all env v (b # bs) = res_bind (Voter_Propose env v b) (\<lambda>(r, v, ms).
     res_bind (propose_all env v bs) (\<lambda>(v, ms'). Ok (v, ms @ ms')))"

definition ticket_sized :: "Voter \<Rightarrow> bool" where
  "ticket_sized v \<longleftrightarrow> length (t_Data (vo_ticket v)) = TicketSize \<and> length (t_Proof (vo_ticket v)) = ProofSize \<and> length (vo_pk v) = PKSize"

definition leads :: "slot_env \<Rightarrow> Voter \<Rightarrow> SBlock set \<Rightarrow> bool" where
  "leads env v B \<longleftrightarrow> (\<forall>(i, b) \<in> set (vo_votes v). i = SBlock_Hash env b) \<and> wf_amap (vo_votes v) \<and>
     snd ` set (vo_votes v) = {b \<in> B. \<forall>x \<in> B. prio x \<le> prio b}"

lemma write_vote_ok: "ticket_sized v \<Longrightarrow> \<exists>ms. write_vote new v b = Ok ms"
  by (simp add: write_vote_def Voter_vote_def ticket_sized_def)

lemma Voter_Propose_leads:
  assumes "leads env v B" "finite B" "ticket_sized v" "inj_on (SBlock_Hash env) (insert b B)"
  shows "\<exists>r v' ms. Voter_Propose env v b = Ok (r, v', ms) \<and> leads env v' (insert b B) \<and>
    vo_ticket v' = vo_ticket v \<and> vo_pk v' = vo_pk v"
proof (cases "vo_votes v")
  case Nil
  then have "{x \<in> B. \<forall>y \<in> B. prio y \<le> prio x} = {}" using assms(1) by (simp add: leads_def)
  moreover have "\<exists>x \<in> B. \<forall>y \<in> B. prio y \<le> prio x" if "B \<noteq> {}"
  proof -
    have "Max (prio ` B) \<in> prio ` B" using assms(2) that by (intro Max_in) auto
    then obtain x where "x \<in> B" "prio x = Max (prio ` B)" by auto
    with assms(2) show ?thesis by (intro bexI [of _ x]) auto
  qed
  ultimately have "B = {}" by blast
  then show ?thesis using Nil write_vote_ok [OF assms(3), of True b]
    by (auto simp: Voter_Propose_def Let_def leads_def wf_amap_def)
next
  case (Cons p rest)
  obtain i b0 where p: "p = (i, b0)" by (cases p)
  have "b0 \<in> snd ` set (vo_votes v)" using Cons p by simp
  then have b0: "b0 \<in> B" "\<And>x. x \<in> B \<Longrightarrow> prio x \<le> prio b0" using assms(1) by (auto simp: leads_def)
  consider "prio b > prio b0" | "prio b = prio b0" | "prio b < prio b0" by linarith
  then show ?thesis
  proof cases
    case 1
    have m: "{x \<in> insert b B. \<forall>y \<in> insert b B. prio y \<le> prio x} = {b}"
    proof (intro equalityI subsetI)
      fix x assume "x \<in> {x \<in> insert b B. \<forall>y \<in> insert b B. prio y \<le> prio x}"
      then show "x \<in> {b}" using 1 b0(2) [of x] by auto
    next
      fix x assume "x \<in> {b}"
      then show "x \<in> {x \<in> insert b B. \<forall>y \<in> insert b B. prio y \<le> prio x}" using 1 b0(2) by (auto intro: order_trans less_imp_le)
    qed
    obtain ms where ms: "write_vote True v b = Ok ms" using write_vote_ok [OF assms(3)] by blast
    have "Voter_Propose env v b = Ok ((True, 1), v\<lparr>vo_votes := [(SBlock_Hash env b, b)]\<rparr>, ms)"
      using 1 Cons p ms by (simp add: Voter_Propose_def Let_def)
    moreover have "leads env (v\<lparr>vo_votes := [(SBlock_Hash env b, b)]\<rparr>) (insert b B)"
      unfolding leads_def m by (simp add: wf_amap_def)
    ultimately show ?thesis by (intro exI conjI) (assumption | simp)+
  next
    case 2
    have key: "i = SBlock_Hash env x" if "(i, x) \<in> set (vo_votes v)" for i x using assms(1) that by (auto simp: leads_def)
    have m: "{x \<in> insert b B. \<forall>y \<in> insert b B. prio y \<le> prio x} = insert b {x \<in> B. \<forall>y \<in> B. prio y \<le> prio x}"
      unfolding set_eq_iff using 2 b0 by (auto intro: order_trans)
    have wf: "wf_amap (vo_votes v)" using assms(1) by (simp add: leads_def)
    have inB: "x \<in> B" if "(j, x) \<in> set (vo_votes v)" for j x
    proof -
      have "x \<in> snd ` set (vo_votes v)" using that by force
      then show ?thesis using assms(1) by (auto simp: leads_def)
    qed
    have up: "set (AList.update (SBlock_Hash env b) b (vo_votes v)) = insert (SBlock_Hash env b, b) (set (vo_votes v))"
    proof -
      have "x = b" if "(SBlock_Hash env b, x) \<in> set (vo_votes v)" for x
        using assms(4) inB [OF that] key [OF that] by (auto dest: inj_onD)
      then show ?thesis unfolding set_alist_update [OF wf] by auto
    qed
    let ?new = "map_of (vo_votes v) (SBlock_Hash env b) = None" and ?up = "AList.update (SBlock_Hash env b) b (vo_votes v)"
    obtain ms where ms: "write_vote ?new v b = Ok ms" using write_vote_ok [OF assms(3)] by blast
    have "Voter_Propose env v b = Ok ((?new, length ?up), v\<lparr>vo_votes := ?up\<rparr>, ms)"
      using 2 Cons p ms by (simp add: Voter_Propose_def Let_def)
    moreover have "leads env (v\<lparr>vo_votes := ?up\<rparr>) (insert b B)"
      using assms(1) wf_amap_update [OF wf] unfolding leads_def m by (simp add: up)
    ultimately show ?thesis by (intro exI conjI) (assumption | simp)+
  next
    case 3
    have m: "{x \<in> insert b B. \<forall>y \<in> insert b B. prio y \<le> prio x} = {x \<in> B. \<forall>y \<in> B. prio y \<le> prio x}"
    proof (intro equalityI subsetI)
      fix x assume "x \<in> {x \<in> insert b B. \<forall>y \<in> insert b B. prio y \<le> prio x}"
      then show "x \<in> {x \<in> B. \<forall>y \<in> B. prio y \<le> prio x}" using 3 b0(1) by auto
    next
      fix x assume x: "x \<in> {x \<in> B. \<forall>y \<in> B. prio y \<le> prio x}"
      then have "prio b0 \<le> prio x" using b0(1) by blast
      with x 3 show "x \<in> {x \<in> insert b B. \<forall>y \<in> insert b B. prio y \<le> prio x}" by auto
    qed
    have "Voter_Propose env v b = Ok ((False, length (vo_votes v)), v, [])"
      using 3 Cons p by (simp add: Voter_Propose_def Let_def)
    moreover have "leads env v (insert b B)" using assms(1) unfolding leads_def m .
    ultimately show ?thesis by (intro exI conjI) (assumption | simp)+
  qed
qed
lemma propose_all_leads:
  "leads env v B \<Longrightarrow> finite B \<Longrightarrow> ticket_sized v \<Longrightarrow> inj_on (SBlock_Hash env) (set bs \<union> B) \<Longrightarrow>
   \<exists>v' ms. propose_all env v bs = Ok (v', ms) \<and> leads env v' (set bs \<union> B)"
proof (induction bs arbitrary: v B)
  case Nil
  then show ?case by simp
next
  case (Cons b bs)
  have "inj_on (SBlock_Hash env) (insert b B)" using Cons.prems(4) by (rule inj_on_subset) auto
  then obtain r v1 ms where v1: "Voter_Propose env v b = Ok (r, v1, ms)" "leads env v1 (insert b B)"
      "vo_ticket v1 = vo_ticket v" "vo_pk v1 = vo_pk v"
    using Voter_Propose_leads [OF Cons.prems(1-3)] by blast
  have "ticket_sized v1" using Cons.prems(3) v1(3,4) by (simp add: ticket_sized_def)
  then obtain v' ms' where "propose_all env v1 bs = Ok (v', ms')" "leads env v' (set bs \<union> insert b B)"
    using Cons.IH [OF v1(2)] Cons.prems(2,4) by auto
  with v1(1) show ?case by auto
qed

section \<open>Properties\<close>

definition ex_env :: slot_env where
  "ex_env = \<lparr>sl_sha = (\<lambda>x. x), sl_vrf_Verify = (\<lambda>pk seed t p. True), sl_vrf_Prove = (\<lambda>seed sk. (replicate 32 0, replicate 96 0)),
     sl_sort = rev \<circ> sort_key (\<lambda>b. be_nat (sb_Ticket b)), sl_write_ok = (\<lambda>m. True)\<rparr>"

definition ex_block :: "u64 \<Rightarrow> SBlock" where
  "ex_block r = \<lparr>sb_Round = r, sb_Prev = SBlock_Hash ex_env genesis_block, sb_Ticket = replicate 32 1,
     sb_Proof = replicate 96 0, sb_PK = replicate 32 2\<rparr>"

lemma ex_sort_ok: "sort_ok ex_env"
proof -
  have "sorted_wrt (\<lambda>x y. f y \<le> f x) (rev (sort_key f bs))" for f :: "SBlock \<Rightarrow> nat" and bs
    using sorted_sort_key [of f bs] by (simp add: sorted_wrt_rev sorted_map)
  then show ?thesis by (simp add: sort_ok_def ex_env_def)
qed

abbreviation ex_hash :: sid where
  "ex_hash \<equiv> SBlock_Hash ex_env genesis_block"

definition ex_vote :: SVote where
  "ex_vote = \<lparr>sv_Block = ex_block 1, sv_VoteTicket = replicate 32 5, sv_VoteProof = replicate 96 0, sv_VotePK = replicate 32 4\<rparr>"

definition ex_engine :: SEngine where
  "ex_engine = NewEngine (SNewChain ex_env) (replicate 32 3) [] 0 0"

lemma ex_prev: "sc_blocks (SNewChain ex_env) (sb_Prev (ex_block r)) = Some genesis_block"
  by (simp add: SNewChain_def Let_def ex_block_def)

lemma ex_hash_eq: "SBlock_Hash ex_env b = Block_Encode b"
  by (simp add: SBlock_Hash_def ex_env_def)

lemma ex_vote_block: "sv_Block ex_vote = ex_block 1"
  by (simp add: ex_vote_def)

lemma ex_fresh: "sc_blocks (SNewChain ex_env) (SBlock_Hash ex_env (ex_block r)) = None"
proof -
  have len: "length ex_hash = 200" by (simp add: SBlock_Hash_def ex_env_def Block_Encode_def genesis_block_def SNilID_def)
  have "length (SBlock_Hash ex_env (ex_block r)) = 8 + length ex_hash + 160"
    unfolding ex_hash_eq [of "ex_block r"] by (simp add: Block_Encode_def ex_block_def)
  then have "SBlock_Hash ex_env (ex_block r) \<noteq> ex_hash" using len by auto
  then show ?thesis by (simp add: SNewChain_def Let_def)
qed

lemma ex_chain: "se_chain ex_engine = SNewChain ex_env" "se_voter ex_engine = None" "se_orphans ex_engine = Map.empty"
  "se_minVotes ex_engine = 0" "se_vrfPK ex_engine = replicate 32 3"
  by (simp_all add: ex_engine_def NewEngine_def)

lemma ex_verify: "SChain_Verify ex_env (SNewChain ex_env) ex_vote = Ok ()"
  using ex_prev [of 1] by (simp add: SChain_Verify_def SChain_Read_def SChain_rank_def ex_vote_def Let_def)
    (simp add: SNewChain_def Let_def ex_block_def ex_env_def)

lemma ex_tally: "\<exists>c. Tally ex_env (SNewChain ex_env) ex_vote = (1, c)"
  by (simp add: Tally_def Let_def SNewChain_def)

text \<open>A vote that suffices is handled to the end when nothing waits for its block.\<close>

lemma HandleVote_returns:
  assumes "slot_ok env e" "sort_ok env" "SChain_Verify env (se_chain e) v = Ok u"
    "Tally env (se_chain e) v = (n, c)" "unat (se_minVotes e) < n"
    "sc_blocks (se_chain e) (SBlock_Hash env (sv_Block v)) = None" "se_voter e = None"
    "se_orphans e (SBlock_Hash env (sv_Block v)) = None" "length (se_vrfPK e) = PKSize"
    "\<And>seed sk. length (fst (sl_vrf_Prove env seed sk)) = TicketSize \<and> length (snd (sl_vrf_Prove env seed sk)) = ProofSize"
  shows "\<exists>err e'. HandleVote env v e = Some (Ok (err, e')) \<and> sc_blocks (se_chain e') (SBlock_Hash env (sv_Block v)) = Some (sv_Block v)"
proof -
  let ?b = "sv_Block v" and ?e2 = "(metrics_Write env (vote_msg v) (e\<lparr>se_locked := True\<rparr>))\<lparr>se_chain := c\<rparr>"
  have nl: "\<not> se_locked e" and ok: "schain_ok env (se_chain e)" and nt: "notarized env (se_minVotes e) (se_chain e)"
    using assms(1) by (auto simp: slot_ok_def)
  note vf = verify_facts [OF assms(3)]
  note tn = Tally_notarized [OF nt assms(4) vf(2)]
  have ok1: "schain_ok env c" using schain_ok_votes [OF ok] assms(4) by (auto simp: Tally_def Let_def)
  have p: "sc_blocks c (sb_Prev ?b) \<noteq> None" using vf(1) tn(3) by simp
  have q: "sc_blocks c (SBlock_Hash env ?b) = None \<or> sc_blocks c (SBlock_Hash env ?b) = Some ?b" using assms(6) tn(3) by simp
  obtain c2 ps ts nh newt where a: "SChain_Append env c ?b = Some (Ok ((SBlock_Hash env ?b, nh, newt),
      if newt then c2\<lparr>sc_tip := SBlock_Hash env ?b\<rparr> else c2))" and bl: "sc_blocks c2 = (sc_blocks c)(SBlock_Hash env ?b \<mapsto> ?b)"
    by (rule append_total [OF ok1 assms(2) p q])
  define c3 where "c3 = (if newt then c2\<lparr>sc_tip := SBlock_Hash env ?b\<rparr> else c2)"
  have t: "tear_down env ?b ?e2 = Ok ?e2" using assms(7) by (simp add: tear_down_def)
  have s: "SOOO_Resolve Handle_held env ?b (?e2\<lparr>se_chain := c3\<rparr>) = Some (Ok ((0, None), ?e2\<lparr>se_chain := c3\<rparr>))"
    using assms(8) by (simp add: SOOO_Resolve_def)
  have w: "\<exists>err e'. WorkNewTip env (?e2\<lparr>se_chain := c3\<rparr>) = Some (Ok (err, e')) \<and> se_chain e' = c3" if newt
    using that bl assms(9,10)
    by (auto simp: WorkNewTip_def c3_def Let_def SChain_Read_def SChain_Tip_def Draw_def NewBlock_def metrics_Write_def split: prod.splits)
      (metis fst_conv snd_conv)+
  have b3: "sc_blocks c3 (SBlock_Hash env ?b) = Some ?b" using bl by (simp add: c3_def)
  show ?thesis
  proof (cases newt)
    case True
    with w obtain err e' where e': "WorkNewTip env (?e2\<lparr>se_chain := c3\<rparr>) = Some (Ok (err, e'))" "se_chain e' = c3" by blast
    have "HandleVote env v e = Some (Ok (err, unlocked e'))"
      using nl assms(3-5) a t s e'(1) True by (simp add: HandleVote_def Let_def c3_def)
    with e'(2) b3 show ?thesis by (intro exI conjI) (assumption, simp add: unlocked_def)
  next
    case False
    have "HandleVote env v e = Some (Ok (None, unlocked (?e2\<lparr>se_chain := c3\<rparr>)))"
      using nl assms(3-5) a t s False by (simp add: HandleVote_def Let_def c3_def)
    with b3 show ?thesis by (intro exI conjI) (assumption, simp add: unlocked_def)
  qed
qed

text \<open>A block survives encoding: \<^verbatim>\<open>DecodeBlock\<close> reads back what \<^verbatim>\<open>Encode\<close> wrote and leaves the rest of
  the input unread.\<close>

theorem block_roundtrip:
  assumes "sized_block b"
  shows "DecodeBlock (Block_Encode b @ rest) = Ok (b, rest)"
  using assms by (simp add: sized_block_def Block_Encode_def DecodeBlock_def read_n_append) (simp add: le_uint64_def)

theorem block_roundtrip_witness: "DecodeBlock (Block_Encode genesis_block @ [7]) = Ok (genesis_block, [7])"
  by (rule block_roundtrip) (simp add: sized_block_def genesis_block_def SNilID_def)

text \<open>Appending keeps the chain in order: for a chain whose blocks are linked, keyed by their hash and
  ranked in their rounds by descending ticket, appending a block with a known predecessor never panics
  and always returns, stores exactly that block, re-ranks its round, and moves the tip to it exactly when
  the strength of its chain at rank one exceeds the strength of the old tip after the re-ranking.\<close>

theorem slot_append:
  assumes "schain_ok env c" "sort_ok env" "sc_blocks c (sb_Prev b) \<noteq> None"
    "sc_blocks c (SBlock_Hash env b) = None \<or> sc_blocks c (SBlock_Hash env b) = Some b"
  shows "\<exists>c1 c' nh nt ps ts. SChain_Append env c b = Some (Ok ((SBlock_Hash env b, nh, nt), c')) \<and> schain_ok env c' \<and>
    sc_blocks c' = (sc_blocks c)(SBlock_Hash env b \<mapsto> b) \<and> sc_tip c' = (if nt then SBlock_Hash env b else sc_tip c) \<and>
    store_block env c b = Ok c1 \<and> SChain_strength c (sb_Prev b) = Some (Ok ps) \<and> SChain_strength c1 (sc_tip c) = Some (Ok ts) \<and>
    (nt \<longleftrightarrow> ts < ps + Block_Strength b 1)"
proof -
  obtain c1 ps ts nh nt where a: "store_block env c b = Ok c1" "SChain_strength c (sb_Prev b) = Some (Ok ps)"
    "SChain_strength c1 (sc_tip c) = Some (Ok ts)" "nt \<longleftrightarrow> ts < ps + Block_Strength b 1"
    "SChain_Append env c b = Some (Ok ((SBlock_Hash env b, nh, nt), if nt then c1\<lparr>sc_tip := SBlock_Hash env b\<rparr> else c1))"
    "schain_ok env c1" "sc_blocks c1 = (sc_blocks c)(SBlock_Hash env b \<mapsto> b)" "sc_tip c1 = sc_tip c"
    by (rule append_total [OF assms])
  let ?c' = "if nt then c1\<lparr>sc_tip := SBlock_Hash env b\<rparr> else c1"
  have "schain_ok env ?c'" using schain_ok_tip [OF a(6)] a(6,7) by simp
  with a show ?thesis by (intro exI [of _ c1] exI [of _ ?c'] exI [of _ nh] exI [of _ nt] exI [of _ ps] exI [of _ ts]) simp
qed

theorem slot_append_witness:
  "\<exists>c' nh nt. SChain_Append ex_env (SNewChain ex_env) (ex_block 1) = Some (Ok ((SBlock_Hash ex_env (ex_block 1), nh, nt), c')) \<and>
    schain_ok ex_env c'"
  using slot_append [OF new_chain_ok ex_sort_ok, of "ex_block 1"] ex_prev [of 1] ex_fresh [of 1] by blast

text \<open>C22. Votes behind every block: in every run of a member that starts from a new chain, each stored block
  other than the genesis has more than \<^verbatim>\<open>minVotes\<close> different vote tickets, and each of them was verified in a
  vote for a block of that hash. (Messages whose block collides with a stored block are left out.)\<close>

theorem every_block_notarized:
  assumes "sort_ok env" "slot_run env (NewEngine (SNewChain env) pk sk bt mv) e" "sc_blocks (se_chain e) i = Some b"
    "i \<noteq> SBlock_Hash env genesis_block"
  shows "\<exists>vs. sc_votes (se_chain e) i = Some vs \<and> distinct vs \<and> unat mv < length vs \<and>
    (\<forall>t \<in> set vs. \<exists>b pk proof. SBlock_Hash env b = i \<and> sl_vrf_Verify env pk (Seed genesis_block (sb_Round b)) t proof)"
proof -
  let ?e0 = "NewEngine (SNewChain env) pk sk bt mv"
  have f: "se_minVotes ?e0 = mv" "sc_gen (se_chain ?e0) = genesis_block" by (simp_all add: NewEngine_def SNewChain_def Let_def)
  from slot_run_ok [OF assms(2) new_engine_ok assms(1)] f
  have n: "notarized env mv (se_chain e)" and g: "sc_gen (se_chain e) = genesis_block" by (auto simp: slot_ok_def)
  then obtain vs where "sc_votes (se_chain e) i = Some vs" "unat mv < length vs"
    using assms(3,4) by (auto simp: notarized_def)
  moreover have "tallied env genesis_block (sc_votes (se_chain e))" using n g by (simp add: notarized_def)
  ultimately show ?thesis by (auto simp: tallied_def)
qed

theorem every_block_notarized_witness:
  "\<exists>(e :: SEngine) vs. sc_blocks (se_chain e) (SBlock_Hash ex_env (ex_block 1)) = Some (ex_block 1) \<and>
    sc_votes (se_chain e) (SBlock_Hash ex_env (ex_block 1)) = Some vs \<and> 0 < length vs"
proof -
  have ok: "slot_ok ex_env ex_engine" unfolding ex_engine_def by (rule new_engine_ok)
  obtain c where ta: "Tally ex_env (SNewChain ex_env) ex_vote = (1, c)" using ex_tally by blast
  note b = ex_vote_block
  let ?e1 = "ex_engine\<lparr>se_rxMsg := se_rxMsg ex_engine + 1\<rparr>"
  have ok1: "slot_ok ex_env ?e1" by (rule slot_ok_cong [OF ok]) simp_all
  have pr: "length (fst (sl_vrf_Prove ex_env seed sk)) = TicketSize \<and> length (snd (sl_vrf_Prove ex_env seed sk)) = ProofSize" for seed sk
    by (simp add: ex_env_def)
  obtain err e where e: "HandleVote ex_env ex_vote ?e1 = Some (Ok (err, e))"
      "sc_blocks (se_chain e) (SBlock_Hash ex_env (ex_block 1)) = Some (ex_block 1)"
    using HandleVote_returns [OF ok1 ex_sort_ok, of ex_vote "()" 1 c] ta ex_verify ex_fresh [of 1] pr
    by (auto simp: b ex_chain)
  have "Run_step ex_env (vote_msg ex_vote) ex_engine = Some (Ok (err, e))"
    using e(1) ex_prev [of 1]
    by (simp add: Run_step_def SOOO_Handle_def SEngine_Handle_def Msg_Type_def vote_msg_def Let_def SChain_Read_def b ex_chain)
  moreover have "no_clash ex_env (vote_msg ex_vote) ex_engine"
    using ex_fresh [of 1] by (simp add: no_clash_def vote_msg_def b ex_chain)
  ultimately have run: "slot_run ex_env (NewEngine (SNewChain ex_env) (replicate 32 3) [] 0 0) e"
    using slot_run.message [OF slot_run.start] by (simp add: ex_engine_def)
  have "SBlock_Hash ex_env (ex_block 1) \<noteq> ex_hash" using ex_fresh [of 1] by (auto simp: SNewChain_def Let_def)
  then obtain vs where "sc_votes (se_chain e) (SBlock_Hash ex_env (ex_block 1)) = Some vs" "unat (0 :: u64) < length vs"
    using every_block_notarized [OF ex_sort_ok run e(2)] by blast
  with e(2) show ?thesis by (intro exI [of _ e] exI [of _ vs]) simp
qed

text \<open>The engine blocks itself: when a vote is the one that lets its block be appended and a vote or a
  proposal waits for that block, \<^verbatim>\<open>HandleVote\<close> never returns, because it resolves the waiting messages while
  it holds the mutex that their handlers lock.\<close>

theorem resolve_deadlocks:
  assumes "slot_ok env e" "sort_ok env" "SChain_Verify env (se_chain e) v = Ok u"
    "Tally env (se_chain e) v = (n, c)" "unat (se_minVotes e) < n"
    "sc_blocks (se_chain e) (SBlock_Hash env (sv_Block v)) = None" "se_voter e = None"
    "se_orphans e (SBlock_Hash env (sv_Block v)) = Some (m # ms)" "Msg_Type m \<noteq> MsgTypeUnkown"
  shows "HandleVote env v e = None"
proof -
  let ?b = "sv_Block v" and ?e2 = "(metrics_Write env (vote_msg v) (e\<lparr>se_locked := True\<rparr>))\<lparr>se_chain := c\<rparr>"
  have nl: "\<not> se_locked e" and ok: "schain_ok env (se_chain e)" and nt: "notarized env (se_minVotes e) (se_chain e)"
    using assms(1) by (auto simp: slot_ok_def)
  note vf = verify_facts [OF assms(3)]
  note tn = Tally_notarized [OF nt assms(4) vf(2)]
  have ok1: "schain_ok env c" using schain_ok_votes [OF ok] assms(4) by (auto simp: Tally_def Let_def)
  have p: "sc_blocks c (sb_Prev ?b) \<noteq> None" using vf(1) tn(3) by simp
  have q: "sc_blocks c (SBlock_Hash env ?b) = None \<or> sc_blocks c (SBlock_Hash env ?b) = Some ?b" using assms(6) tn(3) by simp
  obtain c2 ps ts nh newt where a: "SChain_Append env c ?b = Some (Ok ((SBlock_Hash env ?b, nh, newt),
      if newt then c2\<lparr>sc_tip := SBlock_Hash env ?b\<rparr> else c2))"
    by (rule append_total [OF ok1 assms(2) p q])
  have "tear_down env ?b ?e2 = Ok ?e2" using assms(7) by (simp add: tear_down_def)
  moreover have "SOOO_Resolve Handle_held env ?b (?e2\<lparr>se_chain := x\<rparr>) = None" for x
    using assms(8,9) by (simp add: SOOO_Resolve_def Handle_held_def)
  ultimately show ?thesis using nl assms(3-5) a by (simp add: HandleVote_def Let_def)
qed

theorem resolve_deadlocks_witness:
  "HandleVote ex_env ex_vote (ex_engine\<lparr>se_orphans := [SBlock_Hash ex_env (ex_block 1) \<mapsto> [proposal_msg (ex_block 2)]]\<rparr>) = None"
proof -
  let ?e = "ex_engine\<lparr>se_orphans := [SBlock_Hash ex_env (ex_block 1) \<mapsto> [proposal_msg (ex_block 2)]]\<rparr>"
  have "slot_ok ex_env ex_engine" unfolding ex_engine_def by (rule new_engine_ok)
  then have ok: "slot_ok ex_env ?e" by (rule slot_ok_cong) simp_all
  obtain c where ta: "Tally ex_env (SNewChain ex_env) ex_vote = (1, c)" using ex_tally by blast
  show ?thesis
    by (rule resolve_deadlocks [OF ok ex_sort_ok, of ex_vote "()" 1 c "proposal_msg (ex_block 2)" "[]"])
      (simp_all add: ex_chain ta ex_verify ex_fresh ex_vote_block Msg_Type_def proposal_msg_def)
qed

text \<open>A voter's candidates are the highest proposals: after any sequence of proposals to a new voter whose
  ticket has the right sizes (and whose blocks do not collide), its votes are exactly the proposals with the
  largest ticket, each once.\<close>

theorem voter_keeps_highest:
  assumes "length (t_Data t) = TicketSize" "length (t_Proof t) = ProofSize" "length pk = PKSize"
    "inj_on (SBlock_Hash env) (set bs)"
  shows "\<exists>v ms. propose_all env (NewVoter rnd t pk gen) bs = Ok (v, ms) \<and> distinct (map fst (vo_votes v)) \<and>
    snd ` set (vo_votes v) = {b \<in> set bs. \<forall>x \<in> set bs. be_nat (sb_Ticket x) \<le> be_nat (sb_Ticket b)}"
proof -
  have "leads env (NewVoter rnd t pk gen) {}" by (simp add: leads_def NewVoter_def wf_amap_def)
  moreover have "ticket_sized (NewVoter rnd t pk gen)" using assms(1-3) by (simp add: ticket_sized_def NewVoter_def)
  ultimately obtain v ms where "propose_all env (NewVoter rnd t pk gen) bs = Ok (v, ms)" "leads env v (set bs)"
    using propose_all_leads [of env "NewVoter rnd t pk gen" "{}" bs] assms(4) by auto
  then show ?thesis by (auto simp: leads_def wf_amap_def)
qed

theorem voter_keeps_highest_witness:
  "\<exists>v ms. propose_all ex_env (NewVoter 1 \<lparr>t_Data = replicate 32 0, t_Proof = replicate 96 0, t_Vote = True, t_Propose = True\<rparr>
      (replicate 32 0) genesis_block) [genesis_block] = Ok (v, ms) \<and> distinct (map fst (vo_votes v)) \<and>
    snd ` set (vo_votes v) = {b \<in> set [genesis_block]. \<forall>x \<in> set [genesis_block]. be_nat (sb_Ticket x) \<le> be_nat (sb_Ticket b)}"
  by (rule voter_keeps_highest) simp_all

end
