(* ===== verification/Slot_Round.thy ===== *)
theory Slot_Round
  imports Slot
begin

text \<open>
  The second design of the voting rounds of package \<open>slot\<close>: \<^verbatim>\<open>src/exp/slot/round.go\<close> (proposals, votes, the
  proposer filter, the voter and the ballot of a round, the lottery, rounds) and \<^verbatim>\<open>broadcast2.go\<close> (the
  in-memory broadcast with a channel per round).

  Parameters: SHA-256, the VRF with its key generation, gob, and the error of a write to the broadcast.
  What a part writes to the broadcast is its list of attempted writes. The goroutine that reads messages,
  the timer of the voter and \<^verbatim>\<open>Run\<close> are the steps of the relation \<open>round_step\<close>. The channel \<^verbatim>\<open>accepted\<close> of a
  ballot has no buffer: a handler that sends on it holds the mutex of the ballot until \<^verbatim>\<open>Run\<close> receives,
  and this is the state with \<open>bl_accepted\<close> set.
\<close>

section \<open>Blocks, proposals and votes\<close>

record Block2 =
  b2_Prev :: sid
  b2_Data :: bytes

record Proposal2 =
  p2_Token :: bytes
  p2_PK :: bytes
  p2_Proof :: bytes
  p2_Block :: "Block2 option"

record Vote2 =
  v2_Token :: bytes
  v2_PK :: bytes
  v2_Proof :: bytes
  v2_Proposal :: "Proposal2 option"

record Msg2 =
  m2_Proposal :: "Proposal2 option"
  m2_Vote :: "Vote2 option"

datatype slot_err2 = ErrInvalidBlockNilPrev | ErrInvalidProposalTokenLen | ErrInvalidProposalProofLen
  | ErrInvalidProposalPKLen | ErrInvalidProposalNoBlock | ErrInvalidVoteTokenLen | ErrInvalidVoteProofLen
  | ErrInvalidVotePKLen | ErrInvalidVoteNoProposal

record round_env =
  rv_sha :: "bytes \<Rightarrow> bytes"
  rv_GenerateKey :: "bytes \<Rightarrow> (bytes \<times> bytes) option"
  rv_Verify :: "bytes \<Rightarrow> bytes \<Rightarrow> bytes \<Rightarrow> bytes \<Rightarrow> bool"
  rv_Prove :: "bytes \<Rightarrow> bytes \<Rightarrow> bytes \<times> bytes"
  rv_write_err :: "u64 \<Rightarrow> Msg2 \<Rightarrow> string option"

definition GenesisBlock :: Block2 where
  "GenesisBlock = \<lparr>b2_Prev = SNilID, b2_Data = str_bytes ''vi veri veniversum vivus vici''\<rparr>"

definition Block2_Hash :: "round_env \<Rightarrow> Block2 \<Rightarrow> sid" where
  "Block2_Hash env b = rv_sha env (b2_Prev b @ b2_Data b)"

text \<open>The validations return \<open>None\<close> for \<^verbatim>\<open>(true, nil)\<close>, and the error that comes with \<^verbatim>\<open>false\<close> otherwise.\<close>

definition Block2_Validate :: "Block2 \<Rightarrow> slot_err2 option" where
  "Block2_Validate b = (if b2_Prev b = SNilID then Some ErrInvalidBlockNilPrev else None)"

definition Proposal2_Hash :: "round_env \<Rightarrow> Proposal2 \<Rightarrow> sid" where
  "Proposal2_Hash env p =
     (let bid = (case p2_Block p of None \<Rightarrow> SNilID | Some b \<Rightarrow> Block2_Hash env b)
      in rv_sha env (p2_Token p @ p2_PK p @ p2_Proof p @ bid))"

definition Proposal2_Validate :: "Proposal2 \<Rightarrow> slot_err2 option" where
  "Proposal2_Validate p =
     (if length (p2_Token p) \<noteq> TicketSize then Some ErrInvalidProposalTokenLen
      else if length (p2_PK p) \<noteq> PKSize then Some ErrInvalidProposalPKLen
      else if length (p2_Proof p) \<noteq> ProofSize then Some ErrInvalidProposalProofLen
      else case p2_Block p of None \<Rightarrow> Some ErrInvalidProposalNoBlock | Some b \<Rightarrow> Block2_Validate b)"

definition Proposal2_Rank :: "Proposal2 \<Rightarrow> nat" where
  "Proposal2_Rank p = be_nat (p2_Token p)"

definition RanksGtOrEqThen :: "Proposal2 \<Rightarrow> Proposal2 \<Rightarrow> bool" where
  "RanksGtOrEqThen p other \<longleftrightarrow> Proposal2_Rank p \<ge> Proposal2_Rank other"

definition Vote2_Validate :: "Vote2 \<Rightarrow> slot_err2 option" where
  "Vote2_Validate v =
     (if length (v2_Token v) \<noteq> TicketSize then Some ErrInvalidVoteTokenLen
      else if length (v2_PK v) \<noteq> PKSize then Some ErrInvalidVotePKLen
      else if length (v2_Proof v) \<noteq> ProofSize then Some ErrInvalidVoteProofLen
      else case v2_Proposal v of None \<Rightarrow> Some ErrInvalidVoteNoProposal | Some p \<Rightarrow> Proposal2_Validate p)"

definition proposal2_msg :: "Proposal2 \<Rightarrow> Msg2" where
  "proposal2_msg p = \<lparr>m2_Proposal = Some p, m2_Vote = None\<rparr>"

definition vote2_msg :: "Vote2 \<Rightarrow> Msg2" where
  "vote2_msg v = \<lparr>m2_Proposal = None, m2_Vote = Some v\<rparr>"

section \<open>The proposer filter\<close>

type_synonym ProposerFilter = "bytes \<rightharpoonup> bytes list"

text \<open>\<^verbatim>\<open>copy\<close> of a slice into a zeroed array of \<open>n\<close> bytes.\<close>

definition array_of :: "nat \<Rightarrow> bytes \<Rightarrow> bytes" where
  "array_of n xs = take n (xs @ replicate n 0)"

definition NewProposerFilter :: ProposerFilter where
  "NewProposerFilter = Map.empty"

definition pf_Add :: "ProposerFilter \<Rightarrow> bytes \<Rightarrow> bytes \<Rightarrow> nat \<times> ProposerFilter" where
  "pf_Add pf pkb token =
     (let pk = array_of PKSize pkb; t = array_of TicketSize token;
          pids = List.insert t (case pf pk of None \<Rightarrow> [] | Some ts \<Rightarrow> ts)
      in (length pids, pf(pk \<mapsto> pids)))"

section \<open>The lottery\<close>

record Lottery =
  lt_pk :: bytes
  lt_sk :: bytes

definition NewLottery :: "round_env \<Rightarrow> bytes \<Rightarrow> ('e, Lottery) res" where
  "NewLottery env rnd = (case rv_GenerateKey env rnd of None \<Rightarrow> Panic | Some (pk, sk) \<Rightarrow> Ok \<lparr>lt_pk = pk, lt_sk = sk\<rparr>)"

definition lt_seed :: "u64 \<Rightarrow> bytes" where
  "lt_seed rnd = le_uint64 rnd"

definition Lottery_Draw :: "round_env \<Rightarrow> Lottery \<Rightarrow> u64 \<Rightarrow> bytes \<times> bytes \<times> bytes" where
  "Lottery_Draw env lt rnd = (let (token, proof) = rv_Prove env (lt_seed rnd) (lt_sk lt) in (token, proof, lt_pk lt))"

text \<open>The receiver of \<^verbatim>\<open>Verify\<close> is not used: anyone can verify.\<close>

definition Lottery_Verify :: "round_env \<Rightarrow> u64 \<Rightarrow> bytes \<Rightarrow> bytes \<Rightarrow> bytes \<Rightarrow> bool" where
  "Lottery_Verify env rnd pk token proof = rv_Verify env pk (lt_seed rnd) token proof"

section \<open>The voter of a round\<close>

record Voter2 =
  vr_ltop :: "Proposal2 option"
  vr_round :: u64
  vr_pf :: ProposerFilter
  vr_top :: nat
  vr_candidates :: "Proposal2 list"
  vr_casted :: bool
  vr_timer :: bool
  vr_out :: "Msg2 list"

definition NewVoter2 :: "u64 \<Rightarrow> Proposal2 option \<Rightarrow> Voter2" where
  "NewVoter2 rnd ltop = \<lparr>vr_ltop = ltop, vr_round = rnd, vr_pf = NewProposerFilter, vr_top = 0, vr_candidates = [],
     vr_casted = False, vr_timer = True, vr_out = []\<rparr>"

text \<open>\<^verbatim>\<open>ltop.Block.Hash()\<close>, which panics on a nil pointer.\<close>

definition top_hash :: "round_env \<Rightarrow> Proposal2 option \<Rightarrow> (slot_err2, sid) res" where
  "top_hash env ltop =
     (case ltop of None \<Rightarrow> Panic | Some p \<Rightarrow> case p2_Block p of None \<Rightarrow> Panic | Some b \<Rightarrow> Ok (Block2_Hash env b))"

definition cast_vote :: "Proposal2 \<Rightarrow> Vote2" where
  "cast_vote p = \<lparr>v2_Token = [], v2_PK = [], v2_Proof = [], v2_Proposal = Some p\<rparr>"

text \<open>The loop over the candidates keeps the error of the last write.\<close>

fun cast_writes :: "round_env \<Rightarrow> u64 \<Rightarrow> Proposal2 list \<Rightarrow> string option \<Rightarrow> Msg2 list \<Rightarrow> string option \<times> Msg2 list" where
  "cast_writes env rnd [] err out = (err, out)"
| "cast_writes env rnd (p # ps) err out =
     (let m = vote2_msg (cast_vote p) in cast_writes env rnd ps (rv_write_err env rnd m) (out @ [m]))"

definition Voter2_cast :: "round_env \<Rightarrow> Voter2 \<Rightarrow> string option \<times> Voter2" where
  "Voter2_cast env v =
     (case cast_writes env (vr_round v) (vr_candidates v) None (vr_out v) of
        (Some e, out) \<Rightarrow> (Some e, v\<lparr>vr_out := out\<rparr>)
      | (None, out) \<Rightarrow> (None, v\<lparr>vr_out := out, vr_candidates := []\<rparr>))"

text \<open>The goroutine of \<^verbatim>\<open>NewVoter2\<close>, when the timer expires.\<close>

definition Voter2_expire :: "round_env \<Rightarrow> Voter2 \<Rightarrow> (slot_err2, Voter2) res" where
  "Voter2_expire env v =
     (case Voter2_cast env (v\<lparr>vr_timer := False\<rparr>) of (Some e, v) \<Rightarrow> Panic | (None, v) \<Rightarrow> Ok (v\<lparr>vr_casted := True\<rparr>))"

record ProposalResult =
  SyntaxInvalid :: bool
  SyntaxValidationErr :: "slot_err2 option"
  ProposalTokenInvalid :: bool
  UnexpectedPrev :: bool
  ProposerAlreadyProposed :: bool
  ProposalRankNotHigher :: bool
  RelayFailure :: "string option"
  ImmediateCast :: bool
  ImmediateCastFailure :: "string option"

definition no_result :: ProposalResult where
  "no_result = \<lparr>SyntaxInvalid = False, SyntaxValidationErr = None, ProposalTokenInvalid = False, UnexpectedPrev = False,
     ProposerAlreadyProposed = False, ProposalRankNotHigher = False, RelayFailure = None, ImmediateCast = False,
     ImmediateCastFailure = None\<rparr>"

text \<open>The end of \<^verbatim>\<open>Handle\<close>: relay the proposal, and vote for it when votes were cast before.\<close>

definition relay_proposal :: "round_env \<Rightarrow> Proposal2 \<Rightarrow> Voter2 \<Rightarrow> ProposalResult \<times> Voter2" where
  "relay_proposal env p v =
     (let m = proposal2_msg p; res = no_result\<lparr>RelayFailure := rv_write_err env (vr_round v) m\<rparr>;
          v = v\<lparr>vr_out := vr_out v @ [m]\<rparr>
      in if vr_casted v then
           let (err, v) = Voter2_cast env v in (res\<lparr>ImmediateCast := True, ImmediateCastFailure := err\<rparr>, v)
         else (res, v))"

definition Voter2_Handle :: "round_env \<Rightarrow> Proposal2 \<Rightarrow> Voter2 \<Rightarrow> (slot_err2, ProposalResult \<times> Voter2) res" where
  "Voter2_Handle env p v =
     (case Proposal2_Validate p of
        Some err \<Rightarrow> Ok (no_result\<lparr>SyntaxInvalid := True, SyntaxValidationErr := Some err\<rparr>, v)
      | None \<Rightarrow>
          if \<not> Lottery_Verify env (vr_round v) (p2_PK p) (p2_Token p) (p2_Proof p)
          then Ok (no_result\<lparr>ProposalTokenInvalid := True\<rparr>, v)
          else res_bind (top_hash env (vr_ltop v)) (\<lambda>prev.
            if b2_Prev (the (p2_Block p)) \<noteq> prev then Ok (no_result\<lparr>UnexpectedPrev := True\<rparr>, v)
            else let (npro, pf) = pf_Add (vr_pf v) (p2_PK p) (p2_Token p); v = v\<lparr>vr_pf := pf\<rparr>
            in if npro > 1 then Ok (no_result\<lparr>ProposerAlreadyProposed := True\<rparr>, v)
               else let rank = be_nat (p2_Token p)
               in if rank > vr_top v then Ok (relay_proposal env p (v\<lparr>vr_candidates := [p], vr_top := rank\<rparr>))
                  else if rank = vr_top v then Ok (relay_proposal env p (v\<lparr>vr_candidates := vr_candidates v @ [p]\<rparr>))
                  else Ok (no_result\<lparr>ProposalRankNotHigher := True\<rparr>, v)))"

section \<open>The ballot of a round\<close>

record Ballot =
  bl_ltop :: "Proposal2 option"
  bl_round :: u64
  bl_votes :: "sid \<rightharpoonup> bytes list"
  bl_pf :: ProposerFilter
  bl_minv :: u64
  bl_top :: nat
  bl_accepted :: "Proposal2 option"
  bl_closed :: bool
  bl_out :: "Msg2 list"

definition NewBallot :: "u64 \<Rightarrow> Proposal2 option \<Rightarrow> u64 \<Rightarrow> Ballot" where
  "NewBallot rnd ltop minv = \<lparr>bl_ltop = ltop, bl_round = rnd, bl_votes = Map.empty, bl_pf = NewProposerFilter,
     bl_minv = minv, bl_top = 0, bl_accepted = None, bl_closed = False, bl_out = []\<rparr>"

text \<open>Counting a vote, and the send on \<^verbatim>\<open>accepted\<close> that it may end with.\<close>

definition count_vote :: "round_env \<Rightarrow> Vote2 \<Rightarrow> Proposal2 \<Rightarrow> Ballot \<Rightarrow> (slot_err2, Ballot) res" where
  "count_vote env v p b =
     (let pid = Proposal2_Hash env p;
          votes = List.insert (array_of PKSize (v2_PK v)) (case bl_votes b pid of None \<Rightarrow> [] | Some vs \<Rightarrow> vs);
          b = b\<lparr>bl_votes := (bl_votes b)(pid \<mapsto> votes)\<rparr>
      in if word_of_nat (length votes) = bl_minv b + 1 then
           if bl_closed b then Panic else Ok (b\<lparr>bl_accepted := Some p\<rparr>)
         else Ok b)"

definition Ballot_Handle :: "round_env \<Rightarrow> Vote2 \<Rightarrow> Ballot \<Rightarrow> (slot_err2, Ballot) res option" where
  "Ballot_Handle env v b =
     (if Vote2_Validate v \<noteq> None then Some Panic
      else if bl_accepted b \<noteq> None then None
      else let p = the (v2_Proposal v)
      in if \<not> Lottery_Verify env (bl_round b) (v2_PK v) (v2_Token v) (v2_Proof v) then Some Panic
         else if \<not> Lottery_Verify env (bl_round b) (p2_PK p) (p2_Token p) (p2_Proof p) then Some Panic
         else run_bind (Some (top_hash env (bl_ltop b))) (\<lambda>_.
           let rank = be_nat (p2_Token p)
           in if rank < bl_top b then Some Panic
              else let b = b\<lparr>bl_top := rank\<rparr>; (npro, pf) = pf_Add (bl_pf b) (p2_PK p) (p2_Token p); b = b\<lparr>bl_pf := pf\<rparr>
              in if npro > 1 then Some Panic
                 else if rv_write_err env (bl_round b) (vote2_msg v) \<noteq> None then Some Panic
                 else Some (count_vote env v p (b\<lparr>bl_out := bl_out b @ [vote2_msg v]\<rparr>))))"

text \<open>Receiving from \<^verbatim>\<open>Accepted()\<close>: the value of the waiting handler, which then closes the channel; nil from
  a closed channel; otherwise the receiver waits.\<close>

definition Ballot_receive :: "Ballot \<Rightarrow> (Proposal2 option \<times> Ballot) option" where
  "Ballot_receive b =
     (case bl_accepted b of
        Some p \<Rightarrow> Some (Some p, b\<lparr>bl_accepted := None, bl_closed := True\<rparr>)
      | None \<Rightarrow> if bl_closed b then Some (None, b) else None)"

section \<open>Rounds\<close>

record Round =
  rd_bt :: int
  rd_minv :: u64
  rd_num :: u64
  rd_lt :: Lottery
  rd_top :: "Proposal2 option"
  rd_ballot :: Ballot
  rd_voter :: Voter2
  rd_token :: bytes
  rd_proof :: bytes
  rd_pk :: bytes
  rd_out :: "Msg2 list"

definition NewRound :: "round_env \<Rightarrow> Lottery \<Rightarrow> u64 \<Rightarrow> Proposal2 option \<Rightarrow> int \<Rightarrow> u64 \<Rightarrow> Round" where
  "NewRound env lt num ltop bt minv =
     (let (token, proof, pk) = Lottery_Draw env lt num
      in \<lparr>rd_bt = bt, rd_minv = minv, rd_num = num, rd_lt = lt, rd_top = ltop, rd_ballot = NewBallot num ltop minv,
          rd_voter = NewVoter2 num ltop, rd_token = token, rd_proof = proof, rd_pk = pk, rd_out = []\<rparr>)"

text \<open>One turn of the loop that reads messages. It waits while its last vote waits to be received.\<close>

definition Round_ingress :: "round_env \<Rightarrow> Msg2 \<Rightarrow> Round \<Rightarrow> (slot_err2, Round) res option" where
  "Round_ingress env m r =
     (if bl_accepted (rd_ballot r) \<noteq> None then None
      else case m2_Proposal m of
        Some p \<Rightarrow> Some (res_bind (Voter2_Handle env p (rd_voter r)) (\<lambda>(res, v). Ok (r\<lparr>rd_voter := v\<rparr>)))
      | None \<Rightarrow>
          (case m2_Vote m of
             Some v \<Rightarrow> run_bind (Ballot_Handle env v (rd_ballot r)) (\<lambda>b. Some (Ok (r\<lparr>rd_ballot := b\<rparr>)))
           | None \<Rightarrow> Some Panic))"

text \<open>\<^verbatim>\<open>Run\<close> writes the proposal of the member and then waits for an accepted one.\<close>

definition Run_propose :: "round_env \<Rightarrow> Round \<Rightarrow> (slot_err2, Round) res" where
  "Run_propose env r =
     res_bind (top_hash env (rd_top r)) (\<lambda>prev.
       let m = proposal2_msg \<lparr>p2_Token = rd_token r, p2_PK = rd_pk r, p2_Proof = rd_proof r,
                 p2_Block = Some \<lparr>b2_Prev = prev, b2_Data = rd_pk r\<rparr>\<rparr>
       in if rv_write_err env (rd_num r) m \<noteq> None then Panic else Ok (r\<lparr>rd_out := rd_out r @ [m]\<rparr>))"

definition Run_accept :: "round_env \<Rightarrow> Round \<Rightarrow> (Round \<times> Round) option" where
  "Run_accept env r =
     (case Ballot_receive (rd_ballot r) of
        None \<Rightarrow> None
      | Some (p, b) \<Rightarrow> Some (NewRound env (rd_lt r) (rd_num r + 1) p (rd_bt r) (rd_minv r), r\<lparr>rd_ballot := b\<rparr>))"

section \<open>The in-memory broadcast\<close>

record Chan2 =
  ch_buf :: "bytes list"
  ch_closed :: bool

record MemBroadcast2 =
  mb_closed :: bool
  mb_peers :: "nat list"
  mb_chans :: "u64 \<rightharpoonup> Chan2"

text \<open>Endpoints refer to each other: they live in a store. gob is a pair of partial functions.\<close>

type_synonym bc_net = "nat \<Rightarrow> MemBroadcast2"

record gob2 =
  g2_enc :: "Msg2 \<Rightarrow> bytes option"
  g2_dec :: "bytes \<Rightarrow> Msg2 option"

datatype bc_err = EncodeErr | DecodeErr | EOF

definition NewMemBroadcast2 :: MemBroadcast2 where
  "NewMemBroadcast2 = \<lparr>mb_closed = False, mb_peers = [], mb_chans = Map.empty\<rparr>"

definition bc_Relay :: "nat \<Rightarrow> nat list \<Rightarrow> bc_net \<Rightarrow> bc_net" where
  "bc_Relay i peers net = net(i := (net i)\<lparr>mb_peers := fold List.insert peers (mb_peers (net i))\<rparr>)"

definition roundChan :: "u64 \<Rightarrow> MemBroadcast2 \<Rightarrow> Chan2 \<times> MemBroadcast2" where
  "roundChan rnd bc =
     (case mb_chans bc rnd of
        Some c \<Rightarrow> (c, bc)
      | None \<Rightarrow> let c = \<lparr>ch_buf = [], ch_closed = False\<rparr> in (c, bc\<lparr>mb_chans := (mb_chans bc)(rnd \<mapsto> c)\<rparr>))"

definition bc_Close :: "nat \<Rightarrow> bc_net \<Rightarrow> (bc_err, bc_net) res" where
  "bc_Close i net =
     (if \<exists>c \<in> ran (mb_chans (net i)). ch_closed c then Panic
      else Ok (net(i := (net i)\<lparr>mb_closed := True,
        mb_chans := (\<lambda>rnd. map_option (\<lambda>c. c\<lparr>ch_closed := True\<rparr>) (mb_chans (net i) rnd))\<rparr>)))"

definition bc_Read :: "gob2 \<Rightarrow> nat \<Rightarrow> u64 \<Rightarrow> bc_net \<Rightarrow> (bc_err, Msg2 \<times> bc_net) res option" where
  "bc_Read g i rnd net =
     (let (c, bc) = roundChan rnd (net i)
      in case ch_buf c of
           [] \<Rightarrow> if ch_closed c then Some (Err EOF) else None
         | rmsg # buf \<Rightarrow>
             (case g2_dec g rmsg of
                None \<Rightarrow> Some (Err DecodeErr)
              | Some m \<Rightarrow> Some (Ok (m, net(i := bc\<lparr>mb_chans := (mb_chans bc)(rnd \<mapsto> c\<lparr>ch_buf := buf\<rparr>)\<rparr>)))))"

text \<open>A channel holds one message: the write waits for a peer that has not read its last one.\<close>

fun write_peers :: "bytes \<Rightarrow> u64 \<Rightarrow> nat list \<Rightarrow> bc_net \<Rightarrow> (bc_err, bc_net) res option" where
  "write_peers buf rnd [] net = Some (Ok net)"
| "write_peers buf rnd (peer # peers) net =
     (if mb_closed (net peer) then write_peers buf rnd peers net
      else let (c, bc) = roundChan rnd (net peer)
      in if ch_closed c then Some Panic
         else if length (ch_buf c) \<ge> 1 then None
         else write_peers buf rnd peers
           (net(peer := bc\<lparr>mb_chans := (mb_chans bc)(rnd \<mapsto> c\<lparr>ch_buf := ch_buf c @ [buf]\<rparr>)\<rparr>)))"

definition bc_Write :: "gob2 \<Rightarrow> nat \<Rightarrow> u64 \<Rightarrow> Msg2 \<Rightarrow> bc_net \<Rightarrow> (bc_err, bc_net) res option" where
  "bc_Write g i rnd m net =
     (case g2_enc g m of None \<Rightarrow> Some (Err EncodeErr) | Some buf \<Rightarrow> write_peers buf rnd (mb_peers (net i)) net)"

section \<open>Runs of a round\<close>

text \<open>The steps of the goroutines of a round: a message is read, the voter's timer expires, \<^verbatim>\<open>Run\<close> writes its
  proposal, \<^verbatim>\<open>Run\<close> receives the accepted proposal. The list holds the messages that were read.\<close>

inductive round_run :: "round_env \<Rightarrow> Round \<Rightarrow> Msg2 list \<Rightarrow> Round \<Rightarrow> bool" for env r0 where
  start: "round_run env r0 [] r0"
| message: "round_run env r0 ms r \<Longrightarrow> Round_ingress env m r = Some (Ok r') \<Longrightarrow> round_run env r0 (ms @ [m]) r'"
| timer: "round_run env r0 ms r \<Longrightarrow> vr_timer (rd_voter r) \<Longrightarrow> Voter2_expire env (rd_voter r) = Ok v \<Longrightarrow>
    round_run env r0 ms (r\<lparr>rd_voter := v\<rparr>)"
| propose: "round_run env r0 ms r \<Longrightarrow> Run_propose env r = Ok r' \<Longrightarrow> round_run env r0 ms r'"
| accept: "round_run env r0 ms r \<Longrightarrow> Run_accept env r = Some (next, r') \<Longrightarrow> round_run env r0 ms r'"

lemma array_of_id [simp]: "length xs = n \<Longrightarrow> array_of n xs = xs"
  by (simp add: array_of_def)

lemma length_array_of [simp]: "length (array_of n xs) = n"
  by (simp add: array_of_def)

lemma Vote2_Validate_None:
  assumes "Vote2_Validate v = None"
  shows "length (v2_PK v) = PKSize" and "length (v2_Token v) = TicketSize" and "\<exists>p. v2_Proposal v = Some p \<and> Proposal2_Validate p = None"
  using assms by (auto simp: Vote2_Validate_def split: if_splits option.splits)

lemma Proposal2_Validate_None:
  assumes "Proposal2_Validate p = None"
  shows "length (p2_PK p) = PKSize" and "length (p2_Token p) = TicketSize" and "\<exists>b. p2_Block p = Some b"
  using assms by (auto simp: Proposal2_Validate_def split: if_splits option.splits)

section \<open>The invariant of the ballot\<close>

text \<open>A vote for \<open>p\<close> that was read and passed the checks.\<close>

definition counted :: "round_env \<Rightarrow> u64 \<Rightarrow> Msg2 list \<Rightarrow> Vote2 \<Rightarrow> Proposal2 \<Rightarrow> bool" where
  "counted env num ms v p \<longleftrightarrow> (\<exists>m \<in> set ms. m2_Proposal m = None \<and> m2_Vote m = Some v) \<and> v2_Proposal v = Some p \<and>
     Vote2_Validate v = None \<and> Lottery_Verify env num (v2_PK v) (v2_Token v) (v2_Proof v) \<and>
     Lottery_Verify env num (p2_PK p) (p2_Token p) (p2_Proof p)"

lemma counted_mono: "counted env num ms v p \<Longrightarrow> counted env num (ms @ [m]) v p"
  by (auto simp: counted_def)

definition tallies :: "round_env \<Rightarrow> u64 \<Rightarrow> Msg2 list \<Rightarrow> Ballot \<Rightarrow> bool" where
  "tallies env num ms b \<longleftrightarrow> (\<forall>pid vs. bl_votes b pid = Some vs \<longrightarrow> distinct vs \<and>
     (\<forall>pk \<in> set vs. \<exists>v p. counted env num ms v p \<and> v2_PK v = pk \<and> Proposal2_Hash env p = pid))"

definition leads_votes :: "Msg2 list \<Rightarrow> Ballot \<Rightarrow> bool" where
  "leads_votes ms b \<longleftrightarrow> (\<forall>m \<in> set ms. \<forall>v p. m2_Proposal m = None \<longrightarrow> m2_Vote m = Some v \<longrightarrow> v2_Proposal v = Some p \<longrightarrow>
     Proposal2_Rank p \<le> bl_top b)"

definition undecided :: "u64 \<Rightarrow> Ballot \<Rightarrow> bool" where
  "undecided minv b \<longleftrightarrow> (bl_accepted b = None \<and> \<not> bl_closed b \<longrightarrow> (\<forall>pid vs. bl_votes b pid = Some vs \<longrightarrow> length vs \<le> unat minv))"

definition decided :: "round_env \<Rightarrow> u64 \<Rightarrow> u64 \<Rightarrow> Msg2 list \<Rightarrow> Ballot \<Rightarrow> bool" where
  "decided env num minv ms b \<longleftrightarrow> (\<forall>p. bl_accepted b = Some p \<longrightarrow> \<not> bl_closed b \<and> Proposal2_Rank p = bl_top b \<and>
     (\<exists>v. counted env num ms v p) \<and> (\<exists>vs. bl_votes b (Proposal2_Hash env p) = Some vs \<and> length vs = Suc (unat minv)))"

definition ballot_ok :: "round_env \<Rightarrow> u64 \<Rightarrow> u64 \<Rightarrow> Msg2 list \<Rightarrow> Ballot \<Rightarrow> bool" where
  "ballot_ok env num minv ms b \<longleftrightarrow> bl_round b = num \<and> bl_minv b = minv \<and> tallies env num ms b \<and> leads_votes ms b \<and>
     undecided minv b \<and> decided env num minv ms b"

lemma Ballot_Handle_Ok:
  assumes "Ballot_Handle env v b = Some (Ok b')"
  obtains p pf where "Vote2_Validate v = None" "bl_accepted b = None" "v2_Proposal v = Some p"
    "Lottery_Verify env (bl_round b) (v2_PK v) (v2_Token v) (v2_Proof v)"
    "Lottery_Verify env (bl_round b) (p2_PK p) (p2_Token p) (p2_Proof p)" "bl_top b \<le> Proposal2_Rank p"
    "count_vote env v p (b\<lparr>bl_top := Proposal2_Rank p, bl_pf := pf, bl_out := bl_out b @ [vote2_msg v]\<rparr>) = Ok b'"
proof -
  have val: "Vote2_Validate v = None" using assms by (auto simp: Ballot_Handle_def split: if_splits)
  then obtain p where p: "v2_Proposal v = Some p" using Vote2_Validate_None(3) by blast
  show ?thesis
  proof (rule that [OF val _ p, of "snd (pf_Add (bl_pf b) (p2_PK p) (p2_Token p))"])
  qed (use assms val p in \<open>auto simp: Ballot_Handle_def Let_def run_bind_Ok Proposal2_Rank_def split: if_splits prod.splits\<close>)
qed

text \<open>A count that was never above the threshold reaches it exactly.\<close>

lemma count_threshold:
  assumes "n \<le> Suc (unat (minv :: u64))" "0 < n"
  shows "word_of_nat n = minv + 1 \<longleftrightarrow> n = Suc (unat minv)"
proof
  assume "word_of_nat n = minv + 1"
  then have "word_of_nat (n - 1) = minv" using assms(2) by (cases n) auto
  moreover have "n - 1 < 2 ^ LENGTH(64)" using assms(1) unat_u64_less [of minv] by (simp del: unat_u64_less)
  ultimately have "n - 1 = unat minv" by (auto simp: unat_of_nat)
  then show "n = Suc (unat minv)" using assms(2) by simp
qed simp

lemma count_vote_ok:
  assumes ok: "tallies env num ms b" "undecided minv b" "bl_minv b = minv" "bl_accepted b = None"
    and c: "counted env num ms v p" and r: "bl_top b = Proposal2_Rank p" and b': "count_vote env v p b = Ok b'"
  shows "tallies env num ms b'" and "undecided minv b'" and "decided env num minv ms b'"
    and "bl_round b' = bl_round b" and "bl_minv b' = bl_minv b" and "bl_top b' = bl_top b"
proof -
  define pid where "pid = Proposal2_Hash env p"
  define old where "old = (case bl_votes b pid of None \<Rightarrow> [] | Some vs \<Rightarrow> vs)"
  define votes where "votes = List.insert (v2_PK v) old"
  have pk: "array_of PKSize (v2_PK v) = v2_PK v" using c Vote2_Validate_None(1) by (auto simp: counted_def)
  have oldd: "distinct old \<and> (\<forall>pk \<in> set old. \<exists>v p. counted env num ms v p \<and> v2_PK v = pk \<and> Proposal2_Hash env p = pid)"
    using ok(1) by (auto simp: old_def tallies_def split: option.split)
  have b1: "b' = b\<lparr>bl_votes := (bl_votes b)(pid \<mapsto> votes)\<rparr> \<and> word_of_nat (length votes) \<noteq> minv + 1 \<or>
      b' = b\<lparr>bl_votes := (bl_votes b)(pid \<mapsto> votes), bl_accepted := Some p\<rparr> \<and> word_of_nat (length votes) = minv + 1 \<and> \<not> bl_closed b"
    using b' unfolding count_vote_def Let_def pk ok(3) pid_def [symmetric] old_def [symmetric] votes_def [symmetric]
    by (simp add: ok(3) split: if_splits)
  have nd: "distinct votes" using oldd by (simp add: votes_def)
  have bk: "\<exists>v p. counted env num ms v p \<and> v2_PK v = k \<and> Proposal2_Hash env p = pid" if "k \<in> set votes" for k
    using that oldd c by (auto simp: votes_def pid_def)
  have bv: "bl_votes b' = (bl_votes b)(pid \<mapsto> votes)" using b1 by auto
  show "tallies env num ms b'" using ok(1) nd bk unfolding tallies_def bv fun_upd_def by (simp split: if_splits)
  have le: "length votes \<le> Suc (unat minv)" if "\<not> bl_closed b"
  proof -
    have "length old \<le> unat minv" using that ok(2,4) by (auto simp: undecided_def old_def split: option.split)
    then show ?thesis by (simp add: votes_def List.insert_def)
  qed
  have eq: "word_of_nat (length votes) = minv + 1 \<longleftrightarrow> length votes = Suc (unat minv)" if "\<not> bl_closed b"
    using le [OF that] by (rule count_threshold) (auto simp: votes_def List.insert_def)
  have small: "length vs \<le> unat minv" if "bl_accepted b' = None" "\<not> bl_closed b'" "bl_votes b' i = Some vs" for i vs
    using b1 eq le ok(2,4) that unfolding undecided_def bv fun_upd_def
    by (cases "i = pid") (auto simp: le_Suc_eq)
  then show "undecided minv b'" by (auto simp: undecided_def)
  show "decided env num minv ms b'" using b1 eq r c ok(4) by (auto simp: decided_def pid_def)
  show "bl_round b' = bl_round b" "bl_minv b' = bl_minv b" "bl_top b' = bl_top b" using b1 by auto
qed

lemma Ballot_Handle_keeps:
  assumes ok: "ballot_ok env num minv ms b" and h: "Ballot_Handle env v b = Some (Ok b')"
    and m: "m2_Proposal m = None" "m2_Vote m = Some v"
  shows "ballot_ok env num minv (ms @ [m]) b'"
proof -
  obtain p pf where v: "Vote2_Validate v = None" "bl_accepted b = None" "v2_Proposal v = Some p"
      "Lottery_Verify env (bl_round b) (v2_PK v) (v2_Token v) (v2_Proof v)"
      "Lottery_Verify env (bl_round b) (p2_PK p) (p2_Token p) (p2_Proof p)" and top: "bl_top b \<le> Proposal2_Rank p"
    and c: "count_vote env v p (b\<lparr>bl_top := Proposal2_Rank p, bl_pf := pf, bl_out := bl_out b @ [vote2_msg v]\<rparr>) = Ok b'"
    using Ballot_Handle_Ok [OF h] by metis
  let ?b = "b\<lparr>bl_top := Proposal2_Rank p, bl_pf := pf, bl_out := bl_out b @ [vote2_msg v]\<rparr>"
  have num: "bl_round b = num" "bl_minv b = minv" using ok by (auto simp: ballot_ok_def)
  have cn: "counted env num (ms @ [m]) v p" using v m num by (auto simp: counted_def)
  have t: "tallies env num (ms @ [m]) ?b" using ok counted_mono by (fastforce simp: ballot_ok_def tallies_def)
  have u: "undecided minv ?b" using ok by (simp add: ballot_ok_def undecided_def)
  note k = count_vote_ok [OF t u _ _ cn _ c]
  have "leads_votes (ms @ [m]) b'"
    using ok top k(6) v m num by (fastforce simp: ballot_ok_def leads_votes_def)
  with k num v(2) show ?thesis by (simp add: ballot_ok_def)
qed

lemma ballot_ok_read:
  assumes "ballot_ok env num minv ms b" "m2_Proposal m \<noteq> None"
  shows "ballot_ok env num minv (ms @ [m]) b"
proof -
  have "tallies env num (ms @ [m]) b" using assms(1) counted_mono by (fastforce simp: ballot_ok_def tallies_def)
  moreover have "decided env num minv (ms @ [m]) b" using assms(1) counted_mono by (fastforce simp: ballot_ok_def decided_def)
  moreover have "leads_votes (ms @ [m]) b" using assms by (auto simp: ballot_ok_def leads_votes_def)
  ultimately show ?thesis using assms(1) by (simp add: ballot_ok_def)
qed

lemma Ballot_receive_keeps:
  "ballot_ok env num minv ms b \<Longrightarrow> Ballot_receive b = Some (p, b') \<Longrightarrow> ballot_ok env num minv ms b'"
  by (auto simp: Ballot_receive_def ballot_ok_def tallies_def leads_votes_def undecided_def decided_def split: option.splits if_splits)

lemma NewBallot_ok: "ballot_ok env num minv [] (NewBallot num ltop minv)"
  by (simp add: NewBallot_def ballot_ok_def tallies_def leads_votes_def undecided_def decided_def)

section \<open>The invariant of the voter\<close>

text \<open>A proposal that was read and that a member may vote for.\<close>

definition eligible :: "round_env \<Rightarrow> u64 \<Rightarrow> Proposal2 option \<Rightarrow> Msg2 list \<Rightarrow> Proposal2 \<Rightarrow> bool" where
  "eligible env num ltop ms p \<longleftrightarrow> (\<exists>m \<in> set ms. m2_Proposal m = Some p) \<and> Proposal2_Validate p = None \<and>
     Lottery_Verify env num (p2_PK p) (p2_Token p) (p2_Proof p) \<and>
     (\<exists>b. p2_Block p = Some b \<and> top_hash env ltop = Ok (b2_Prev b))"

lemma eligible_mono: "eligible env num ltop ms p \<Longrightarrow> eligible env num ltop (ms @ [m]) p"
  by (auto simp: eligible_def)

definition sends :: "Proposal2 \<Rightarrow> Msg2 set" where
  "sends p = {proposal2_msg p, vote2_msg (cast_vote p)}"

definition voter_ok :: "round_env \<Rightarrow> u64 \<Rightarrow> Proposal2 option \<Rightarrow> Msg2 list \<Rightarrow> Voter2 \<Rightarrow> bool" where
  "voter_ok env num ltop ms v \<longleftrightarrow> vr_round v = num \<and> vr_ltop v = ltop \<and>
     (\<forall>p \<in> set (vr_candidates v). eligible env num ltop ms p \<and> Proposal2_Rank p = vr_top v) \<and>
     (\<forall>m \<in> set (vr_out v). \<exists>p. m \<in> sends p \<and> eligible env num ltop ms p \<and> Proposal2_Rank p \<le> vr_top v)"

lemma cast_writes_out: "snd (cast_writes env num ps err out) = out @ map (vote2_msg \<circ> cast_vote) ps"
  by (induction ps arbitrary: err out) (auto simp: Let_def)

lemma Voter2_cast_ok:
  assumes "voter_ok env num ltop ms v" "Voter2_cast env v = (err, v')"
  shows "voter_ok env num ltop ms v'"
proof -
  obtain e out where c: "cast_writes env (vr_round v) (vr_candidates v) None (vr_out v) = (e, out)" by fastforce
  then have out: "out = vr_out v @ map (vote2_msg \<circ> cast_vote) (vr_candidates v)"
    using cast_writes_out [of env "vr_round v" "vr_candidates v" None "vr_out v"] by simp
  have "\<exists>p. m \<in> sends p \<and> eligible env num ltop ms p \<and> Proposal2_Rank p \<le> vr_top v" if "m \<in> set out" for m
    using assms(1) that by (fastforce simp: out voter_ok_def sends_def)
  then show ?thesis using assms c by (auto simp: Voter2_cast_def voter_ok_def split: option.splits)
qed

lemma relay_proposal_ok:
  assumes "voter_ok env num ltop ms v" "p \<in> set (vr_candidates v)"
  shows "voter_ok env num ltop ms (snd (relay_proposal env p v))"
proof -
  let ?v = "v\<lparr>vr_out := vr_out v @ [proposal2_msg p]\<rparr>"
  have "voter_ok env num ltop ms ?v" using assms by (auto simp: voter_ok_def sends_def)
  then show ?thesis using Voter2_cast_ok [of env num ltop ms ?v]
    by (auto simp: relay_proposal_def Let_def split: prod.split)
qed

lemma Voter2_Handle_ok:
  assumes ok: "voter_ok env num ltop ms v" and h: "Voter2_Handle env p v = Ok (res, v')" and m: "m2_Proposal m = Some p"
  shows "voter_ok env num ltop (ms @ [m]) v'"
proof -
  let ?ms = "ms @ [m]" and ?pf = "snd (pf_Add (vr_pf v) (p2_PK p) (p2_Token p))"
  have ok: "voter_ok env num ltop ?ms v" and okpf: "voter_ok env num ltop ?ms (v\<lparr>vr_pf := ?pf\<rparr>)"
    using ok eligible_mono by (fastforce simp: voter_ok_def)+
  consider "v' = v" | "v' = v\<lparr>vr_pf := ?pf\<rparr>"
    | c t where "eligible env num ltop ?ms p" "t = Proposal2_Rank p"
        "t > vr_top v \<and> c = [p] \<or> t = vr_top v \<and> c = vr_candidates v @ [p]"
        "v' = snd (relay_proposal env p (v\<lparr>vr_pf := ?pf, vr_candidates := c, vr_top := t\<rparr>))"
    using h m ok Proposal2_Validate_None(3) [of p]
    by (auto simp: Voter2_Handle_def eligible_def Let_def voter_ok_def Proposal2_Rank_def
        split: option.splits if_splits prod.splits)
  then show ?thesis
  proof cases
    case (3 c t)
    have "voter_ok env num ltop ?ms (v\<lparr>vr_pf := ?pf, vr_candidates := c, vr_top := t\<rparr>)"
      using ok 3 by (fastforce simp: voter_ok_def)
    with 3 show ?thesis by (auto intro: relay_proposal_ok)
  qed (use ok okpf in simp_all)
qed

lemma voter_ok_read:
  "voter_ok env num ltop ms v \<Longrightarrow> voter_ok env num ltop (ms @ [m]) v"
  using eligible_mono by (fastforce simp: voter_ok_def)

lemma Voter2_expire_ok:
  assumes "voter_ok env num ltop ms v" "Voter2_expire env v = Ok v'"
  shows "voter_ok env num ltop ms v'"
proof -
  obtain v1 where c: "Voter2_cast env (v\<lparr>vr_timer := False\<rparr>) = (None, v1)" "v' = v1\<lparr>vr_casted := True\<rparr>"
    using assms(2) by (auto simp: Voter2_expire_def split: prod.splits option.splits)
  have "voter_ok env num ltop ms (v\<lparr>vr_timer := False\<rparr>)" using assms(1) by (simp add: voter_ok_def)
  from Voter2_cast_ok [OF this c(1)] show ?thesis by (simp add: c(2) voter_ok_def)
qed

lemma NewVoter2_ok: "voter_ok env num ltop [] (NewVoter2 num ltop)"
  by (simp add: NewVoter2_def voter_ok_def)

lemma NewRound_simps [simp]:
  "rd_ballot (NewRound env lt num ltop bt minv) = NewBallot num ltop minv"
  "rd_voter (NewRound env lt num ltop bt minv) = NewVoter2 num ltop"
  "rd_num (NewRound env lt num ltop bt minv) = num" "rd_top (NewRound env lt num ltop bt minv) = ltop"
  by (simp_all add: NewRound_def split: prod.split)

text \<open>Both invariants hold in all runs of a round.\<close>

lemma round_run_ok:
  assumes "round_run env (NewRound env lt num ltop bt minv) ms r"
  shows "ballot_ok env num minv ms (rd_ballot r) \<and> voter_ok env num ltop ms (rd_voter r)"
  using assms
proof (induction rule: round_run.induct)
  case start
  then show ?case by (simp add: NewBallot_ok NewVoter2_ok)
next
  case (message ms r m r')
  show ?case
  proof (cases "m2_Proposal m")
    case None
    with message obtain v b where "m2_Vote m = Some v" "Ballot_Handle env v (rd_ballot r) = Some (Ok b)" "r' = r\<lparr>rd_ballot := b\<rparr>"
      by (auto simp: Round_ingress_def run_bind_Ok split: if_splits option.splits)
    with None message.IH show ?thesis by (auto intro: Ballot_Handle_keeps voter_ok_read)
  next
    case (Some p)
    with message obtain res v where "Voter2_Handle env p (rd_voter r) = Ok (res, v)" "r' = r\<lparr>rd_voter := v\<rparr>"
      by (auto simp: Round_ingress_def split: if_splits)
    with Some message.IH show ?thesis by (auto intro: ballot_ok_read Voter2_Handle_ok)
  qed
next
  case (timer ms r v)
  then show ?case by (auto intro: Voter2_expire_ok)
next
  case (propose ms r r')
  then show ?case by (auto simp: Run_propose_def Let_def split: if_splits)
next
  case (accept ms r nxt r')
  then show ?case by (auto simp: Run_accept_def intro: Ballot_receive_keeps split: option.splits)
qed

section \<open>Counting to the threshold\<close>

text \<open>A vote for \<open>p\<close> that passes the checks of round \<open>num\<close>.\<close>

definition good_vote :: "round_env \<Rightarrow> u64 \<Rightarrow> Proposal2 \<Rightarrow> Vote2 \<Rightarrow> bool" where
  "good_vote env num p v \<longleftrightarrow> v2_Proposal v = Some p \<and> Vote2_Validate v = None \<and>
     Lottery_Verify env num (v2_PK v) (v2_Token v) (v2_Proof v) \<and> rv_write_err env num (vote2_msg v) = None"

definition good_proposal :: "round_env \<Rightarrow> u64 \<Rightarrow> Proposal2 \<Rightarrow> bool" where
  "good_proposal env num p \<longleftrightarrow> Proposal2_Validate p = None \<and> Lottery_Verify env num (p2_PK p) (p2_Token p) (p2_Proof p)"

text \<open>A ballot that has only seen the votes \<open>vs\<close>, all for \<open>p\<close>.\<close>

definition counting :: "round_env \<Rightarrow> u64 \<Rightarrow> u64 \<Rightarrow> Proposal2 \<Rightarrow> Vote2 list \<Rightarrow> Ballot \<Rightarrow> bool" where
  "counting env num minv p vs b \<longleftrightarrow> bl_round b = num \<and> bl_minv b = minv \<and> (\<exists>h. top_hash env (bl_ltop b) = Ok h) \<and>
     bl_top b \<le> Proposal2_Rank p \<and> bl_pf b (p2_PK p) = (if vs = [] then None else Some [p2_Token p]) \<and>
     bl_votes b (Proposal2_Hash env p) = (if vs = [] then None else Some (rev (map v2_PK vs)))"

lemma Ballot_Handle_good:
  assumes b: "counting env num minv p vs b" "bl_accepted b = None" and v: "good_vote env num p v" and p: "good_proposal env num p"
  shows "\<exists>pf. Ballot_Handle env v b =
      Some (count_vote env v p (b\<lparr>bl_top := Proposal2_Rank p, bl_pf := pf, bl_out := bl_out b @ [vote2_msg v]\<rparr>)) \<and>
      pf (p2_PK p) = Some [p2_Token p]"
proof -
  have len: "length (p2_PK p) = PKSize" "length (p2_Token p) = TicketSize"
    using p Proposal2_Validate_None by (auto simp: good_proposal_def)
  have pf: "pf_Add (bl_pf b) (p2_PK p) (p2_Token p) = (1, (bl_pf b)(p2_PK p \<mapsto> [p2_Token p]))"
    using b(1) len by (auto simp: pf_Add_def Let_def counting_def List.insert_def)
  show ?thesis using b v p pf
    by (auto simp: Ballot_Handle_def Let_def counting_def good_vote_def good_proposal_def Proposal2_Rank_def)
qed

lemma ingress_vote:
  assumes "counting env num minv p vs (rd_ballot r)" "bl_accepted (rd_ballot r) = None" "\<not> bl_closed (rd_ballot r)"
    and "good_vote env num p v" "good_proposal env num p" "v2_PK v \<notin> set (map v2_PK vs)" "length vs \<le> unat minv"
  shows "\<exists>b. Round_ingress env (vote2_msg v) r = Some (Ok (r\<lparr>rd_ballot := b\<rparr>)) \<and> counting env num minv p (vs @ [v]) b \<and>
    \<not> bl_closed b \<and> bl_accepted b = (if length vs = unat minv then Some p else None)"
proof -
  obtain pf where h: "Ballot_Handle env v (rd_ballot r) = Some (count_vote env v p
      ((rd_ballot r)\<lparr>bl_top := Proposal2_Rank p, bl_pf := pf, bl_out := bl_out (rd_ballot r) @ [vote2_msg v]\<rparr>))"
      and pf: "pf (p2_PK p) = Some [p2_Token p]"
    using Ballot_Handle_good [OF assms(1,2,4,5)] by blast
  have len: "length (v2_PK v) = PKSize" using assms(4) Vote2_Validate_None(1) by (auto simp: good_vote_def)
  have votes: "List.insert (v2_PK v) (case bl_votes (rd_ballot r) (Proposal2_Hash env p) of None \<Rightarrow> [] | Some vs \<Rightarrow> vs) =
      rev (map v2_PK (vs @ [v]))"
    using assms(1,6) by (auto simp: counting_def List.insert_def)
  have th: "word_of_nat (Suc (length vs)) = minv + 1 \<longleftrightarrow> length vs = unat minv"
    using count_threshold [of "Suc (length vs)" minv] assms(7) by simp
  let ?b = "(rd_ballot r)\<lparr>bl_top := Proposal2_Rank p, bl_pf := pf, bl_out := bl_out (rd_ballot r) @ [vote2_msg v],
      bl_votes := (bl_votes (rd_ballot r))(Proposal2_Hash env p \<mapsto> rev (map v2_PK (vs @ [v])))\<rparr>"
  let ?b' = "if length vs = unat minv then ?b\<lparr>bl_accepted := Some p\<rparr> else ?b"
  have mv: "bl_minv (rd_ballot r) = minv" using assms(1) by (simp add: counting_def)
  have "Ballot_Handle env v (rd_ballot r) = Some (Ok ?b')"
    unfolding h count_vote_def Let_def array_of_id [OF len] by (simp add: votes th mv assms(3) del: of_nat_Suc)
  then have "Round_ingress env (vote2_msg v) r = Some (Ok (r\<lparr>rd_ballot := ?b'\<rparr>))"
    by (simp add: Round_ingress_def vote2_msg_def assms(2))
  moreover have "counting env num minv p (vs @ [v]) ?b'" using assms(1) pf by (simp add: counting_def)
  ultimately show ?thesis using assms(2,3) by (intro exI [of _ ?b']) simp
qed

fun ingress_all :: "round_env \<Rightarrow> Msg2 list \<Rightarrow> Round \<Rightarrow> (slot_err2, Round) res option" where
  "ingress_all env [] r = Some (Ok r)"
| "ingress_all env (m # ms) r = run_bind (Round_ingress env m r) (ingress_all env ms)"

lemma ingress_votes:
  assumes "counting env num minv p us (rd_ballot r)" "bl_accepted (rd_ballot r) = None" "\<not> bl_closed (rd_ballot r)"
    and "\<forall>v \<in> set vs. good_vote env num p v" "good_proposal env num p" "distinct (map v2_PK (us @ vs))"
    and "length (us @ vs) = Suc (unat minv)" "vs \<noteq> []"
  shows "\<exists>b. ingress_all env (map vote2_msg vs) r = Some (Ok (r\<lparr>rd_ballot := b\<rparr>)) \<and> counting env num minv p (us @ vs) b \<and>
    \<not> bl_closed b \<and> bl_accepted b = Some p"
  using assms
proof (induction vs arbitrary: us r)
  case Nil
  then show ?case by simp
next
  case (Cons v vs)
  have "\<exists>b. Round_ingress env (vote2_msg v) r = Some (Ok (r\<lparr>rd_ballot := b\<rparr>)) \<and> counting env num minv p (us @ [v]) b \<and>
      \<not> bl_closed b \<and> bl_accepted b = (if length us = unat minv then Some p else None)"
    using Cons.prems by (intro ingress_vote) auto
  then obtain b where b: "Round_ingress env (vote2_msg v) r = Some (Ok (r\<lparr>rd_ballot := b\<rparr>))" "counting env num minv p (us @ [v]) b"
      "\<not> bl_closed b" "bl_accepted b = (if length us = unat minv then Some p else None)" by blast
  show ?case
  proof (cases "vs = []")
    case True
    with b Cons.prems(7) show ?thesis by auto
  next
    case False
    then have "length us \<noteq> unat minv" using Cons.prems(7) by (cases vs) auto
    with b False Cons.prems show ?thesis using Cons.IH [of "us @ [v]" "r\<lparr>rd_ballot := b\<rparr>"] by auto
  qed
qed

section \<open>The filter as a set of pairs\<close>

text \<open>What the voter and the ballot rely on: a filter is a set of pairs of a proposer and a token, and adding
  one returns how many tokens the proposer has then.\<close>

locale proposer_filter =
  fixes emp :: 'f and add :: "'f \<Rightarrow> bytes \<Rightarrow> bytes \<Rightarrow> nat \<times> 'f" and inv :: "'f \<Rightarrow> bool" and abs :: "'f \<Rightarrow> (bytes \<times> bytes) set"
  assumes inv_emp: "inv emp" and abs_emp: "abs emp = {}"
    and inv_add: "inv f \<Longrightarrow> inv (snd (add f pk t))"
    and abs_add: "inv f \<Longrightarrow> abs (snd (add f pk t)) = insert (array_of PKSize pk, array_of TicketSize t) (abs f)"
    and count_add: "inv f \<Longrightarrow> fst (add f pk t) = card {u. (array_of PKSize pk, u) \<in> abs (snd (add f pk t))}"
begin

definition add_all :: "(bytes \<times> bytes) list \<Rightarrow> 'f \<Rightarrow> 'f" where
  "add_all xs f = fold (\<lambda>(pk, t) f. snd (add f pk t)) xs f"

lemma add_all_abs:
  "inv f \<Longrightarrow> inv (add_all xs f) \<and> abs (add_all xs f) = abs f \<union> (\<lambda>(pk, t). (array_of PKSize pk, array_of TicketSize t)) ` set xs"
  by (induction xs arbitrary: f) (auto simp: add_all_def inv_add abs_add)

lemma count_all:
  "fst (add (add_all xs emp) pk t) =
     card {array_of TicketSize u |u. \<exists>k. (k, u) \<in> set (xs @ [(pk, t)]) \<and> array_of PKSize k = array_of PKSize pk}"
proof -
  have "inv (add_all xs emp)" "abs (add_all xs emp) = (\<lambda>(pk, t). (array_of PKSize pk, array_of TicketSize t)) ` set xs"
    using add_all_abs [OF inv_emp] abs_emp by auto
  moreover have "{u. (array_of PKSize pk, u) \<in> insert (array_of PKSize pk, array_of TicketSize t)
      ((\<lambda>(pk, t). (array_of PKSize pk, array_of TicketSize t)) ` set xs)} =
      {array_of TicketSize u |u. \<exists>k. (k, u) \<in> set (xs @ [(pk, t)]) \<and> array_of PKSize k = array_of PKSize pk}"
    (is "?A = ?B")
  proof (intro subset_antisym subsetI)
    show "u \<in> ?B" if "u \<in> ?A" for u using that by auto blast+
    show "u \<in> ?A" if "u \<in> ?B" for u using that by (force simp: image_iff)
  qed
  ultimately show ?thesis by (simp add: count_add abs_add)
qed

end

definition pf_inv :: "ProposerFilter \<Rightarrow> bool" where
  "pf_inv pf \<longleftrightarrow> (\<forall>pk ts. pf pk = Some ts \<longrightarrow> distinct ts)"

definition pf_abs :: "ProposerFilter \<Rightarrow> (bytes \<times> bytes) set" where
  "pf_abs pf = {(pk, t). \<exists>ts. pf pk = Some ts \<and> t \<in> set ts}"

lemma pf_Add_abs:
  "pf_abs (snd (pf_Add pf pk t)) = insert (array_of PKSize pk, array_of TicketSize t) (pf_abs pf)"
  by (auto simp: pf_Add_def pf_abs_def Let_def split: option.splits if_splits)

lemma pf_Add_inv: "pf_inv pf \<Longrightarrow> pf_inv (snd (pf_Add pf pk t))"
  by (auto simp: pf_Add_def pf_inv_def Let_def split: option.split)

interpretation pf: proposer_filter NewProposerFilter pf_Add pf_inv pf_abs
proof
  fix f pk t
  assume inv: "pf_inv f"
  let ?ts = "List.insert (array_of TicketSize t) (case f (array_of PKSize pk) of None \<Rightarrow> [] | Some ts \<Rightarrow> ts)"
  have d: "distinct ?ts" using inv by (auto simp: pf_inv_def split: option.split)
  have e: "{u. (array_of PKSize pk, u) \<in> pf_abs (snd (pf_Add f pk t))} = set ?ts"
    by (auto simp: pf_abs_def pf_Add_def Let_def)
  have l: "fst (pf_Add f pk t) = length ?ts" by (simp add: pf_Add_def Let_def)
  show "fst (pf_Add f pk t) = card {u. (array_of PKSize pk, u) \<in> pf_abs (snd (pf_Add f pk t))}"
    by (simp only: e l distinct_card [OF d])
qed (simp_all only: pf_Add_abs pf_Add_inv, simp_all add: pf_inv_def pf_abs_def NewProposerFilter_def)

text \<open>The proposer filter counts: after any sequence of additions to a new filter, adding a token returns the
  number of different tokens that were added for that public key, the new one included.\<close>

theorem filter_counts_tokens:
  "fst (pf_Add (fold (\<lambda>(pk, t) pf. snd (pf_Add pf pk t)) xs NewProposerFilter) pk t) =
     card {array_of TicketSize u |u. \<exists>k. (k, u) \<in> set (xs @ [(pk, t)]) \<and> array_of PKSize k = array_of PKSize pk}"
  using pf.count_all [of xs pk t] by (simp add: pf.add_all_def)

section \<open>Accepted proposals\<close>

text \<open>C23. A majority behind the accepted proposal: in every run of a round, when the ballot accepts a proposal
  it has one vote more than \<^verbatim>\<open>minv\<close> from different public keys, each of them read in a message whose vote
  token and proposal token verify for the round, and no vote that was read is for a proposal of a higher rank.\<close>

theorem accepted_has_majority:
  assumes "round_run env (NewRound env lt num ltop bt minv) ms r" "bl_accepted (rd_ballot r) = Some p"
  shows "(\<exists>vs. bl_votes (rd_ballot r) (Proposal2_Hash env p) = Some vs \<and> distinct vs \<and> length vs = Suc (unat minv) \<and>
      (\<forall>pk \<in> set vs. \<exists>v q. counted env num ms v q \<and> v2_PK v = pk \<and> Proposal2_Hash env q = Proposal2_Hash env p)) \<and>
    (\<exists>v. counted env num ms v p) \<and> (\<forall>v q. counted env num ms v q \<longrightarrow> Proposal2_Rank q \<le> Proposal2_Rank p)"
proof -
  let ?b = "rd_ballot r"
  have ok: "tallies env num ms ?b" "leads_votes ms ?b" "decided env num minv ms ?b"
    using round_run_ok [OF assms(1)] by (auto simp: ballot_ok_def)
  obtain vs where vs: "bl_votes ?b (Proposal2_Hash env p) = Some vs" "length vs = Suc (unat minv)"
    using ok(3) assms(2) by (auto simp: decided_def)
  have "Proposal2_Rank q \<le> Proposal2_Rank p" if "counted env num ms v q" for v q
    using ok(2,3) assms(2) that by (auto simp: counted_def leads_votes_def decided_def)
  then show ?thesis using ok(1,3) vs assms(2) by (auto simp: tallies_def decided_def)
qed

section \<open>A concrete round\<close>

text \<open>An environment whose hash keeps its input apart from the nil id and whose VRF proves everything.\<close>

definition ex_renv :: round_env where
  "ex_renv = \<lparr>rv_sha = (\<lambda>x. 7 # x), rv_GenerateKey = (\<lambda>r. Some (replicate 32 1, r)), rv_Verify = (\<lambda>pk seed t pr. True),
     rv_Prove = (\<lambda>seed sk. (replicate 32 5, replicate 96 0)), rv_write_err = (\<lambda>n m. None)\<rparr>"

definition ex_top :: Proposal2 where
  "ex_top = \<lparr>p2_Token = [], p2_PK = [], p2_Proof = [], p2_Block = Some GenesisBlock\<rparr>"

definition ex_prop :: Proposal2 where
  "ex_prop = \<lparr>p2_Token = replicate 32 5, p2_PK = replicate 32 1, p2_Proof = replicate 96 0,
     p2_Block = Some \<lparr>b2_Prev = Block2_Hash ex_renv GenesisBlock, b2_Data = replicate 32 1\<rparr>\<rparr>"

definition ex_vote2 :: "byte \<Rightarrow> Vote2" where
  "ex_vote2 k = \<lparr>v2_Token = replicate 32 5, v2_PK = replicate 32 k, v2_Proof = replicate 96 0, v2_Proposal = Some ex_prop\<rparr>"

definition ex_lottery :: Lottery where
  "ex_lottery = \<lparr>lt_pk = replicate 32 1, lt_sk = []\<rparr>"

lemma ex_genesis_hash: "Block2_Hash ex_renv GenesisBlock \<noteq> SNilID"
proof
  assume "Block2_Hash ex_renv GenesisBlock = SNilID"
  then have "hd (Block2_Hash ex_renv GenesisBlock) = hd SNilID" by simp
  then show False by (simp add: Block2_Hash_def ex_renv_def SNilID_def)
qed

lemma ex_good: "good_proposal ex_renv num ex_prop" "good_vote ex_renv num ex_prop (ex_vote2 k)"
  using ex_genesis_hash
  by (simp_all add: good_proposal_def good_vote_def ex_prop_def ex_vote2_def Proposal2_Validate_def Vote2_Validate_def
      Block2_Validate_def Lottery_Verify_def ex_renv_def)

lemma NewBallot_counting:
  "top_hash env ltop = Ok h \<Longrightarrow> counting env num minv p [] (NewBallot num ltop minv)"
  by (simp add: counting_def NewBallot_def NewProposerFilter_def)

lemma ex_round_voted:
  "\<exists>b. Round_ingress ex_renv (vote2_msg (ex_vote2 2)) (NewRound ex_renv ex_lottery 1 (Some ex_top) 0 0) =
      Some (Ok ((NewRound ex_renv ex_lottery 1 (Some ex_top) 0 0)\<lparr>rd_ballot := b\<rparr>)) \<and> bl_accepted b = Some ex_prop"
  using ingress_vote [of ex_renv 1 0 ex_prop "[]" "NewRound ex_renv ex_lottery 1 (Some ex_top) 0 0" "ex_vote2 2"]
    NewBallot_counting [of ex_renv "Some ex_top"] ex_good
  by (auto simp: top_hash_def ex_top_def) (auto simp: NewBallot_def)

theorem accepted_has_majority_witness:
  "\<exists>(r :: Round) vs. bl_votes (rd_ballot r) (Proposal2_Hash ex_renv ex_prop) = Some vs \<and> length vs = 1"
proof -
  obtain b where b: "Round_ingress ex_renv (vote2_msg (ex_vote2 2)) (NewRound ex_renv ex_lottery 1 (Some ex_top) 0 0) =
      Some (Ok ((NewRound ex_renv ex_lottery 1 (Some ex_top) 0 0)\<lparr>rd_ballot := b\<rparr>))" "bl_accepted b = Some ex_prop"
    using ex_round_voted by blast
  from round_run.message [OF round_run.start b(1)]
  show ?thesis using accepted_has_majority [of ex_renv ex_lottery 1 "Some ex_top" 0 0 _ _ ex_prop] b(2) by fastforce
qed



text \<open>After the round was decided the ballot still counts: a vote of a member whose vote was counted makes the
  member panic, by sending on the closed channel.\<close>

theorem late_vote_panics:
  assumes "top_hash env ltop = Ok h" "good_proposal env num p" "\<forall>v \<in> set vs. good_vote env num p v"
    "distinct (map v2_PK vs)" "length vs = Suc (unat minv)" "v \<in> set vs"
    "ingress_all env (map vote2_msg vs) (NewRound env lt num ltop bt minv) = Some (Ok r)" "Run_accept env r = Some (nxt, r')"
  shows "Round_ingress env (vote2_msg v) r' = Some Panic"
proof -
  let ?r = "NewRound env lt num ltop bt minv"
  have vs: "vs \<noteq> []" using assms(5) by auto
  obtain b where b: "ingress_all env (map vote2_msg vs) ?r = Some (Ok (?r\<lparr>rd_ballot := b\<rparr>))" "bl_accepted b = Some p"
      "counting env num minv p vs b"
    using ingress_votes [of env num minv p "[]" ?r vs] NewBallot_counting [OF assms(1)] assms(2-5) vs
    by (auto simp: NewBallot_def)
  let ?b = "b\<lparr>bl_accepted := None, bl_closed := True\<rparr>"
  have r': "r' = ?r\<lparr>rd_ballot := ?b\<rparr>" using assms(7,8) b(1,2) by (auto simp: Run_accept_def Ballot_receive_def)
  have c: "counting env num minv p vs ?b" using b(3) by (simp add: counting_def)
  have g: "good_vote env num p v" using assms(3,6) by blast
  obtain pf where h: "Ballot_Handle env v ?b =
      Some (count_vote env v p (?b\<lparr>bl_top := Proposal2_Rank p, bl_pf := pf, bl_out := bl_out ?b @ [vote2_msg v]\<rparr>))"
    using Ballot_Handle_good [OF c _ g assms(2)] by auto
  have len: "length (v2_PK v) = PKSize" using g Vote2_Validate_None(1) by (auto simp: good_vote_def)
  have vs': "bl_votes b (Proposal2_Hash env p) = Some (rev (map v2_PK vs))" "bl_minv b = minv"
    using b(3) vs by (simp_all add: counting_def)
  have "List.insert (v2_PK v) (rev (map v2_PK vs)) = rev (map v2_PK vs)" using assms(6) by (simp add: List.insert_def)
  then have "Ballot_Handle env v ?b = Some Panic"
    unfolding h count_vote_def Let_def array_of_id [OF len] using vs' assms(5) by simp
  then show ?thesis by (simp add: r' Round_ingress_def vote2_msg_def)
qed

section \<open>What a member sends\<close>

text \<open>Members vote for eligible proposals: in every run of a round, each proposal that the voter relays or
  votes for was read in a message, is well formed, has a token that verifies for the round and extends the
  winner of the last round; its rank is at most the highest rank seen, and the candidates have that rank.\<close>

theorem voter_sends_eligible:
  assumes "round_run env (NewRound env lt num ltop bt minv) ms r"
  shows "(\<forall>m \<in> set (vr_out (rd_voter r)). \<exists>p. m \<in> {proposal2_msg p, vote2_msg (cast_vote p)} \<and> eligible env num ltop ms p \<and>
      Proposal2_Rank p \<le> vr_top (rd_voter r)) \<and>
    (\<forall>p \<in> set (vr_candidates (rd_voter r)). eligible env num ltop ms p \<and> Proposal2_Rank p = vr_top (rd_voter r))"
  using round_run_ok [OF assms] by (auto simp: voter_ok_def sends_def)

text \<open>The votes of a member stop its peers: every vote that a voter writes has no token, so that the ballot of
  any member that reads it panics, whatever its state.\<close>

theorem cast_vote_panics:
  assumes "round_run env (NewRound env lt num ltop bt minv) ms r" "m \<in> set (vr_out (rd_voter r))" "m2_Vote m = Some v"
  shows "Ballot_Handle env' v b = Some Panic"
proof -
  obtain p where "m \<in> sends p" using round_run_ok [OF assms(1)] assms(2) by (auto simp: voter_ok_def)
  then have "v = cast_vote p" using assms(3) by (auto simp: sends_def proposal2_msg_def vote2_msg_def)
  then show ?thesis by (simp add: Ballot_Handle_def Vote2_Validate_def cast_vote_def)
qed

lemma relay_proposal_out: "proposal2_msg p \<in> set (vr_out (snd (relay_proposal env p v)))"
proof -
  have "set (vr_out v) \<subseteq> set (vr_out (snd (Voter2_cast env v)))" for v
    using cast_writes_out [of env "vr_round v" "vr_candidates v" None "vr_out v"]
    by (auto simp: Voter2_cast_def split: prod.splits option.splits)
  from this [of "v\<lparr>vr_out := vr_out v @ [proposal2_msg p]\<rparr>"] show ?thesis
    by (auto simp: relay_proposal_def Let_def split: prod.splits)
qed

text \<open>A key pair of the lottery: tokens of the expected sizes that verify.\<close>

definition lottery_ok :: "round_env \<Rightarrow> Lottery \<Rightarrow> bool" where
  "lottery_ok env lt \<longleftrightarrow> length (lt_pk lt) = PKSize \<and> (\<forall>seed token proof. rv_Prove env seed (lt_sk lt) = (token, proof) \<longrightarrow>
     length token = TicketSize \<and> length proof = ProofSize \<and> rv_Verify env (lt_pk lt) seed token proof)"

text \<open>The proposal of a round passes the checks of its peers: a voter of the same round on the same winner
  that has not heard of the proposer accepts the token, the predecessor and the proposer, and relays the
  proposal unless it has seen a higher one.\<close>

theorem own_proposal_passes:
  assumes "lottery_ok env lt" "top_hash env ltop = Ok h" "h \<noteq> SNilID" "Run_propose env (NewRound env lt num ltop bt minv) = Ok r"
    "vr_round v = num" "vr_ltop v = ltop" "vr_pf v (lt_pk lt) = None"
  shows "\<exists>p res v'. rd_out r = [proposal2_msg p] \<and> Voter2_Handle env p v = Ok (res, v') \<and> \<not> SyntaxInvalid res \<and>
    \<not> ProposalTokenInvalid res \<and> \<not> UnexpectedPrev res \<and> \<not> ProposerAlreadyProposed res \<and>
    (if vr_top v \<le> Proposal2_Rank p then proposal2_msg p \<in> set (vr_out v') else ProposalRankNotHigher res)"
proof -
  obtain token tproof where pr: "rv_Prove env (lt_seed num) (lt_sk lt) = (token, tproof)" by fastforce
  let ?p = "\<lparr>p2_Token = token, p2_PK = lt_pk lt, p2_Proof = tproof, p2_Block = Some \<lparr>b2_Prev = h, b2_Data = lt_pk lt\<rparr>\<rparr>"
  have lt: "length (lt_pk lt) = PKSize" "length token = TicketSize" "length tproof = ProofSize"
      "rv_Verify env (lt_pk lt) (lt_seed num) token tproof" using assms(1) pr by (auto simp: lottery_ok_def)
  have out: "rd_out r = [proposal2_msg ?p]" using assms(2,4) pr
    by (auto simp: Run_propose_def NewRound_def Lottery_Draw_def Let_def split: if_splits)
  have val: "Proposal2_Validate ?p = None" using lt assms(3) by (simp add: Proposal2_Validate_def Block2_Validate_def)
  have pf: "pf_Add (vr_pf v) (lt_pk lt) token = (1, (vr_pf v)(lt_pk lt \<mapsto> [token]))"
    using assms(7) lt by (simp add: pf_Add_def Let_def List.insert_def)
  let ?v = "v\<lparr>vr_pf := (vr_pf v)(lt_pk lt \<mapsto> [token])\<rparr>"
  have h: "Voter2_Handle env ?p v =
      (if be_nat token > vr_top v then Ok (relay_proposal env ?p (?v\<lparr>vr_candidates := [?p], vr_top := be_nat token\<rparr>))
       else if be_nat token = vr_top v then Ok (relay_proposal env ?p (?v\<lparr>vr_candidates := vr_candidates v @ [?p]\<rparr>))
       else Ok (no_result\<lparr>ProposalRankNotHigher := True\<rparr>, ?v))"
    unfolding Voter2_Handle_def val using assms(2,5,6) lt pf by (simp add: Lottery_Verify_def Let_def)
  have flags: "\<not> SyntaxInvalid (fst (relay_proposal env p w))" "\<not> ProposalTokenInvalid (fst (relay_proposal env p w))"
      "\<not> UnexpectedPrev (fst (relay_proposal env p w))" "\<not> ProposerAlreadyProposed (fst (relay_proposal env p w))" for p w
    by (simp_all add: relay_proposal_def Let_def no_result_def split: prod.split)
  show ?thesis
  proof (cases "vr_top v \<le> be_nat token")
    case True
    then obtain w where w: "Voter2_Handle env ?p v = Ok (relay_proposal env ?p w)"
      using h by (metis (no_types, lifting) le_neq_implies_less)
    then show ?thesis using out flags relay_proposal_out [of ?p env w] True
      by (intro exI [of _ ?p] exI [of _ "fst (relay_proposal env ?p w)"] exI [of _ "snd (relay_proposal env ?p w)"])
        (simp add: Proposal2_Rank_def)
  next
    case False
    then show ?thesis using out h
      by (intro exI [of _ ?p] exI [of _ "no_result\<lparr>ProposalRankNotHigher := True\<rparr>"] exI [of _ ?v])
        (simp add: Proposal2_Rank_def no_result_def)
  qed
qed

lemma ex_round_top: "top_hash ex_renv (Some ex_top) = Ok (Block2_Hash ex_renv GenesisBlock)"
  by (simp add: top_hash_def ex_top_def)

lemma ex_lottery_ok: "lottery_ok ex_renv ex_lottery"
  by (simp add: lottery_ok_def ex_lottery_def ex_renv_def)

theorem own_proposal_passes_witness:
  "\<exists>p res v'. Voter2_Handle ex_renv p (NewVoter2 1 (Some ex_top)) = Ok (res, v') \<and> proposal2_msg p \<in> set (vr_out v')"
proof -
  have "\<exists>r. Run_propose ex_renv (NewRound ex_renv ex_lottery 1 (Some ex_top) 0 0) = Ok r"
    by (simp add: Run_propose_def ex_round_top Let_def) (simp add: ex_renv_def)
  then show ?thesis
    using own_proposal_passes [OF ex_lottery_ok ex_round_top ex_genesis_hash, of 1 0 0 _ "NewVoter2 1 (Some ex_top)"]
    unfolding NewVoter2_def NewProposerFilter_def by fastforce
qed

text \<open>A run in which the voter handles the proposal and votes for it when its timer expires.\<close>

lemma ex_round_cast:
  "\<exists>r. round_run ex_renv (NewRound ex_renv ex_lottery 1 (Some ex_top) 0 0) [proposal2_msg ex_prop] r \<and>
    vr_out (rd_voter r) = [proposal2_msg ex_prop, vote2_msg (cast_vote ex_prop)]"
proof -
  let ?r0 = "NewRound ex_renv ex_lottery 1 (Some ex_top) 0 0" and ?v0 = "NewVoter2 1 (Some ex_top)"
  let ?v1 = "?v0\<lparr>vr_pf := [p2_PK ex_prop \<mapsto> [p2_Token ex_prop]], vr_candidates := [ex_prop], vr_top := be_nat (p2_Token ex_prop),
    vr_out := [proposal2_msg ex_prop]\<rparr>"
  have val: "Proposal2_Validate ex_prop = None" using ex_good(1) by (simp add: good_proposal_def)
  have ver: "Lottery_Verify ex_renv n pk t pr" and wr: "rv_write_err ex_renv n m = None" for n pk t pr m
    by (simp_all add: Lottery_Verify_def ex_renv_def)
  have rank: "be_nat (p2_Token ex_prop) > 0"
    using be_nat_Cons [of 5 "replicate 31 5"] replicate_Suc [of 31 "5 :: byte"] by (simp add: ex_prop_def)
  have pf: "pf_Add Map.empty (p2_PK ex_prop) (p2_Token ex_prop) = (1, [p2_PK ex_prop \<mapsto> [p2_Token ex_prop]])"
    by (simp add: pf_Add_def Let_def List.insert_def ex_prop_def)
  have prev: "b2_Prev (the (p2_Block ex_prop)) = Block2_Hash ex_renv GenesisBlock" by (simp add: ex_prop_def)
  have v1: "Voter2_Handle ex_renv ex_prop ?v0 = Ok (no_result, ?v1)"
    using rank unfolding Voter2_Handle_def val
    by (simp add: ver prev pf wr NewVoter2_def ex_round_top NewProposerFilter_def relay_proposal_def Let_def no_result_def)
  have "Round_ingress ex_renv (proposal2_msg ex_prop) ?r0 = Some (Ok (?r0\<lparr>rd_voter := ?v1\<rparr>))"
    by (simp add: Round_ingress_def proposal2_msg_def NewBallot_def v1 [unfolded proposal2_msg_def])
  from round_run.message [OF round_run.start this]
  have r1: "round_run ex_renv ?r0 [proposal2_msg ex_prop] (?r0\<lparr>rd_voter := ?v1\<rparr>)" by simp
  obtain v2 where v2: "Voter2_expire ex_renv ?v1 = Ok v2" "vr_out v2 = [proposal2_msg ex_prop, vote2_msg (cast_vote ex_prop)]"
    by (simp add: Voter2_expire_def Voter2_cast_def wr Let_def)
  have "vr_timer ?v1" by (simp add: NewVoter2_def)
  with round_run.timer [OF r1, of v2] v2 show ?thesis by fastforce
qed

theorem voter_sends_eligible_witness: "\<exists>p. eligible ex_renv 1 (Some ex_top) [proposal2_msg ex_prop] p"
proof -
  obtain r where "round_run ex_renv (NewRound ex_renv ex_lottery 1 (Some ex_top) 0 0) [proposal2_msg ex_prop] r"
      "proposal2_msg ex_prop \<in> set (vr_out (rd_voter r))"
    using ex_round_cast by fastforce
  then show ?thesis using voter_sends_eligible by blast
qed

theorem cast_vote_panics_witness:
  "Ballot_Handle ex_renv (cast_vote ex_prop) (NewBallot 1 (Some ex_top) 0) = Some Panic"
proof -
  obtain r where "round_run ex_renv (NewRound ex_renv ex_lottery 1 (Some ex_top) 0 0) [proposal2_msg ex_prop] r"
      "vote2_msg (cast_vote ex_prop) \<in> set (vr_out (rd_voter r))"
    using ex_round_cast by fastforce
  then show ?thesis using cast_vote_panics [of ex_renv ex_lottery 1 "Some ex_top" 0 0] by (fastforce simp: vote2_msg_def)
qed

section \<open>Reading what was written\<close>

definition gob2_ok :: "gob2 \<Rightarrow> bool" where
  "gob2_ok g \<longleftrightarrow> (\<forall>m buf. g2_enc g m = Some buf \<longrightarrow> g2_dec g buf = Some m)"

text \<open>An endpoint that can take a message of the round without waiting.\<close>

definition ready_for :: "u64 \<Rightarrow> MemBroadcast2 \<Rightarrow> bool" where
  "ready_for rnd bc \<longleftrightarrow> \<not> mb_closed bc \<and>
     (case mb_chans bc rnd of None \<Rightarrow> True | Some c \<Rightarrow> ch_buf c = [] \<and> \<not> ch_closed c)"

lemma write_peers_ok:
  assumes "distinct peers" "\<forall>j \<in> set peers. ready_for rnd (net j)"
  shows "\<exists>net'. write_peers buf rnd peers net = Some (Ok net') \<and> (\<forall>j. j \<notin> set peers \<longrightarrow> net' j = net j) \<and>
    (\<forall>j \<in> set peers. mb_chans (net' j) rnd = Some \<lparr>ch_buf = [buf], ch_closed = False\<rparr>)"
  using assms
proof (induction peers arbitrary: net)
  case Nil
  then show ?case by simp
next
  case (Cons i peers)
  obtain c bc where c: "roundChan rnd (net i) = (c, bc)" by fastforce
  have e: "ch_buf c = []" "\<not> ch_closed c" "\<not> mb_closed (net i)"
    using Cons.prems c by (auto simp: ready_for_def roundChan_def Let_def split: option.splits)
  let ?net = "net(i := bc\<lparr>mb_chans := (mb_chans bc)(rnd \<mapsto> c\<lparr>ch_buf := [buf]\<rparr>)\<rparr>)"
  have ready: "\<forall>j \<in> set peers. ready_for rnd (?net j)" using Cons.prems by auto
  then obtain net' where n: "write_peers buf rnd peers ?net = Some (Ok net')" "\<forall>j. j \<notin> set peers \<longrightarrow> net' j = ?net j"
      "\<forall>j \<in> set peers. mb_chans (net' j) rnd = Some \<lparr>ch_buf = [buf], ch_closed = False\<rparr>"
    using Cons.IH [OF _ ready] Cons.prems(1) by (metis distinct.simps(2))
  have "c\<lparr>ch_buf := [buf]\<rparr> = \<lparr>ch_buf = [buf], ch_closed = False\<rparr>" using e(2) by (cases c) simp
  moreover have "net' i = ?net i" using n(2) Cons.prems(1) by simp
  ultimately have "mb_chans (net' i) rnd = Some \<lparr>ch_buf = [buf], ch_closed = False\<rparr>" by simp
  with n c e Cons.prems(1) show ?case by (intro exI [of _ net']) auto
qed

text \<open>Broadcast: a message written while every peer can take one is written without waiting, each peer of the
  endpoint then reads that message in that round, and the endpoints that are not peers are left alone.\<close>

theorem broadcast_roundtrip:
  assumes "gob2_ok g" "g2_enc g m \<noteq> None" "distinct (mb_peers (net i))" "\<forall>j \<in> set (mb_peers (net i)). ready_for rnd (net j)"
  shows "\<exists>net'. bc_Write g i rnd m net = Some (Ok net') \<and> (\<forall>j. j \<notin> set (mb_peers (net i)) \<longrightarrow> net' j = net j) \<and>
    (\<forall>j \<in> set (mb_peers (net i)). \<exists>net''. bc_Read g j rnd net' = Some (Ok (m, net'')))"
proof -
  obtain buf where buf: "g2_enc g m = Some buf" "g2_dec g buf = Some m" using assms(1,2) by (auto simp: gob2_ok_def)
  obtain net' where n: "write_peers buf rnd (mb_peers (net i)) net = Some (Ok net')"
      "\<forall>j. j \<notin> set (mb_peers (net i)) \<longrightarrow> net' j = net j"
      "\<forall>j \<in> set (mb_peers (net i)). mb_chans (net' j) rnd = Some \<lparr>ch_buf = [buf], ch_closed = False\<rparr>"
    using write_peers_ok [OF assms(3,4)] by blast
  have "\<exists>net''. bc_Read g j rnd net' = Some (Ok (m, net''))" if "j \<in> set (mb_peers (net i))" for j
    using n(3) that buf by (simp add: bc_Read_def roundChan_def)
  with n buf show ?thesis by (auto simp: bc_Write_def)
qed

definition ex_gob2 :: gob2 where
  "ex_gob2 = \<lparr>g2_enc = (\<lambda>m. if m = proposal2_msg ex_prop then Some [1] else None), g2_dec = (\<lambda>b. Some (proposal2_msg ex_prop))\<rparr>"

theorem broadcast_roundtrip_witness:
  "\<exists>net' net''. bc_Write ex_gob2 0 1 (proposal2_msg ex_prop) (bc_Relay 0 [1] (\<lambda>j. NewMemBroadcast2)) = Some (Ok net') \<and>
    bc_Read ex_gob2 1 1 net' = Some (Ok (proposal2_msg ex_prop, net''))"
proof -
  let ?net = "bc_Relay 0 [1] (\<lambda>j. NewMemBroadcast2)"
  have p: "mb_peers (?net 0) = [1]" by (simp add: bc_Relay_def NewMemBroadcast2_def)
  have "ready_for 1 (?net 1)" by (simp add: ready_for_def bc_Relay_def NewMemBroadcast2_def)
  moreover have "gob2_ok ex_gob2" "g2_enc ex_gob2 (proposal2_msg ex_prop) \<noteq> None" by (simp_all add: gob2_ok_def ex_gob2_def)
  ultimately show ?thesis using broadcast_roundtrip [of ex_gob2 "proposal2_msg ex_prop" ?net 0 1] p by auto
qed

text \<open>A closed endpoint still waits for messages of a round that it had no channel for.\<close>

lemma closed_read_waits:
  assumes "bc_Close i net = Ok net'" "mb_chans (net i) rnd = None"
  shows "bc_Read g i rnd net' = None"
proof -
  have "mb_chans (net' i) rnd = None" using assms by (auto simp: bc_Close_def split: if_splits)
  then show ?thesis by (simp add: bc_Read_def roundChan_def Let_def)
qed

end
