(* ===== verification/Rev.thy ===== *)
theory Rev
  imports Prelude
begin

text \<open>
  The prototype of package \<open>rev\<close>: \<^verbatim>\<open>src/exp/rev/block.go\<close>, \<^verbatim>\<open>proposal.go\<close>, \<^verbatim>\<open>identity.go\<close>, \<^verbatim>\<open>chain.go\<close> (the chain
  with the largest sum of strengths), \<^verbatim>\<open>round.go\<close> (the proposals of a round and the witnesses for them),
  \<^verbatim>\<open>ooo.go\<close> (proposals that wait for their witnesses) and \<^verbatim>\<open>engine.go\<close> (the member process).

  Parameters: SHA-256, the VRF, and the text that the engine puts into its blocks. The interface
  \<^verbatim>\<open>Handler\<close> that the out-of-order buffer calls is the locale \<open>proposal_handler\<close>, interpreted on the handler of
  the engine. The sets that Go keeps as maps are lists without repetition in the order of iteration.
\<close>

section \<open>Blocks and proposals\<close>

type_synonym rid = bytes
type_synonym PIDSet = "rid list"

definition RNilID :: rid where
  "RNilID = replicate 32 0"

record RBlock =
  rb_Prev :: rid
  rb_Data :: bytes

record RProposal =
  rp_Round :: u64
  rp_Token :: bytes
  rp_Proof :: bytes
  rp_PK :: bytes
  rp_Block :: "RBlock option"
  rp_Witness :: PIDSet

datatype rev_err = ErrProposalTokenInvalid | ErrProposalHasNoBlock | ErrProposalHasNoWitness
  | ErrProposalWitnessUnknown | ErrNotEnoughWitness | ErrPrevNotExist

record rev_env =
  re_sha :: "bytes \<Rightarrow> bytes"
  re_Verify :: "bytes \<Rightarrow> bytes \<Rightarrow> bytes \<Rightarrow> bytes \<Rightarrow> bool"
  re_Prove :: "bytes \<Rightarrow> bytes \<Rightarrow> bytes \<times> bytes"
  re_GenerateKey :: "bytes \<Rightarrow> (bytes \<times> bytes) option"
  re_text :: "u64 \<Rightarrow> bytes \<Rightarrow> bytes"

definition RBlock_Hash :: "rev_env \<Rightarrow> RBlock \<Rightarrow> rid" where
  "RBlock_Hash env b = re_sha env (rb_Prev b @ rb_Data b)"

definition rev_seed :: "u64 \<Rightarrow> bytes" where
  "rev_seed rnd = le_uint64 rnd"

definition NewProposal :: "rev_env \<Rightarrow> bytes \<Rightarrow> bytes \<Rightarrow> u64 \<Rightarrow> RProposal" where
  "NewProposal env pk sk rnd =
     (let (token, pr) = re_Prove env (rev_seed rnd) sk
      in \<lparr>rp_Round = rnd, rp_Token = token, rp_Proof = pr, rp_PK = pk, rp_Block = None, rp_Witness = []\<rparr>)"

definition RProposal_Validate :: "rev_env \<Rightarrow> RProposal \<Rightarrow> rev_err option" where
  "RProposal_Validate env p =
     (if \<not> re_Verify env (rp_PK p) (rev_seed (rp_Round p)) (rp_Token p) (rp_Proof p) then Some ErrProposalTokenInvalid
      else if rp_Block p = None then Some ErrProposalHasNoBlock
      else if length (rp_Witness p) < 1 then Some ErrProposalHasNoWitness
      else None)"

definition RProposal_Rank :: "RProposal \<Rightarrow> nat" where
  "RProposal_Rank p = be_nat (rp_Token p)"

definition RProposal_GT :: "RProposal \<Rightarrow> RProposal \<Rightarrow> bool" where
  "RProposal_GT p other \<longleftrightarrow> RProposal_Rank p > RProposal_Rank other"

definition PIDSet_Add :: "PIDSet \<Rightarrow> rid list \<Rightarrow> PIDSet" where
  "PIDSet_Add ps ids = fold List.insert ids ps"

definition PSet :: "rid list \<Rightarrow> PIDSet" where
  "PSet ps = PIDSet_Add [] ps"

definition PIDSet_Sorted :: "PIDSet \<Rightarrow> rid list" where
  "PIDSet_Sorted ps = sort ps"

definition PIDSet_Hash :: "rev_env \<Rightarrow> PIDSet \<Rightarrow> bytes" where
  "PIDSet_Hash env ps = re_sha env (concat (PIDSet_Sorted ps))"

definition RProposal_Hash :: "rev_env \<Rightarrow> RProposal \<Rightarrow> rid" where
  "RProposal_Hash env p =
     (let bid = (case rp_Block p of None \<Rightarrow> RNilID | Some b \<Rightarrow> RBlock_Hash env b)
      in re_sha env (le_uint64 (rp_Round p) @ rp_Token p @ rp_Proof p @ rp_PK p @ bid @ PIDSet_Hash env (rp_Witness p)))"

record RIdentity =
  ri_pk :: bytes
  ri_sk :: bytes

text \<open>The key is generated from 32 bytes, the given ones padded with zeros. Names are for printing only.\<close>

definition RNewIdentity :: "rev_env \<Rightarrow> bytes \<Rightarrow> (rev_err, RIdentity) res" where
  "RNewIdentity env rndid =
     (case re_GenerateKey env (take 32 (rndid @ replicate 32 0)) of
        None \<Rightarrow> Panic | Some (pk, sk) \<Rightarrow> Ok \<lparr>ri_pk = pk, ri_sk = sk\<rparr>)"

definition CreateProposal :: "rev_env \<Rightarrow> RIdentity \<Rightarrow> u64 \<Rightarrow> RProposal" where
  "CreateProposal env idn rnd = NewProposal env (ri_pk idn) (ri_sk idn) rnd"

section \<open>The chain\<close>

record RChain =
  rc_fixedWitnessThreshold :: int
  rc_genesis :: "rid list"
  rc_blocks :: "(rid \<times> RBlock) list"
  rc_strengths :: "rid \<rightharpoonup> nat"
  rc_tip :: rid

definition RNewChain :: "int \<Rightarrow> RChain" where
  "RNewChain t = \<lparr>rc_fixedWitnessThreshold = t, rc_genesis = [], rc_blocks = [], rc_strengths = Map.empty, rc_tip = RNilID\<rparr>"

definition WitnessThreshold :: "RChain \<Rightarrow> rid \<Rightarrow> int" where
  "WitnessThreshold c i = (if i \<in> set (rc_genesis c) then 1 else rc_fixedWitnessThreshold c)"

definition RChain_Tip :: "RChain \<Rightarrow> rid" where
  "RChain_Tip c = rc_tip c"

definition RChain_read :: "RChain \<Rightarrow> rid \<Rightarrow> RBlock option" where
  "RChain_read c i = map_of (rc_blocks c) i"

partial_function (option) RChain_walk ::
  "RChain \<Rightarrow> (rid \<Rightarrow> RBlock \<Rightarrow> 'a \<Rightarrow> (rev_err, 'a) res) \<Rightarrow> rid \<Rightarrow> 'a \<Rightarrow> (rev_err, 'a) res option" where
  "RChain_walk c f i s =
     (case RChain_read c i of
        None \<Rightarrow> Some (Err ErrPrevNotExist)
      | Some b \<Rightarrow>
          (case f i b s of
             Panic \<Rightarrow> Some Panic
           | Err e \<Rightarrow> Some (Err e)
           | Ok s' \<Rightarrow> if rb_Prev b = RNilID then Some (Ok s') else RChain_walk c f (rb_Prev b) s'))"

definition RChain_strength :: "RChain \<Rightarrow> rid \<Rightarrow> (rev_err, nat) res option" where
  "RChain_strength c i =
     RChain_walk c (\<lambda>bid b s. case rc_strengths c bid of None \<Rightarrow> Panic | Some x \<Rightarrow> Ok (s + x)) i 0"

definition rchain_store :: "rev_env \<Rightarrow> RChain \<Rightarrow> RBlock \<Rightarrow> nat \<Rightarrow> RChain" where
  "rchain_store env c b strength =
     (let i = RBlock_Hash env b;
          c = (if rb_Prev b = RNilID then c\<lparr>rc_genesis := List.insert i (rc_genesis c), rc_tip := i\<rparr> else c)
      in c\<lparr>rc_blocks := AList.update i b (rc_blocks c), rc_strengths := (rc_strengths c)(i \<mapsto> strength)\<rparr>)"

definition RChain_Append :: "rev_env \<Rightarrow> RChain \<Rightarrow> RBlock \<Rightarrow> nat \<Rightarrow> (rev_err, RChain) res option" where
  "RChain_Append env c b strength =
     (let c = rchain_store env c b strength
      in run_bind (if rb_Prev b = RNilID then Some (Ok 0)
           else run_bind (err_panic (RChain_strength c (rb_Prev b))) (\<lambda>s. Some (Ok (s + strength)))) (\<lambda>prevStrength.
         run_bind (err_panic (RChain_strength c (rc_tip c))) (\<lambda>tipStrength.
           Some (Ok (if tipStrength < prevStrength then c\<lparr>rc_tip := RBlock_Hash env b\<rparr> else c)))))"

text \<open>\<^verbatim>\<open>Each\<close> visits the blocks in the order of the map; the callback of \<^verbatim>\<open>IntersectChain\<close> never fails.\<close>

definition IntersectChain :: "RChain \<Rightarrow> RChain list \<Rightarrow> RChain \<times> nat" where
  "IntersectChain fc cc =
     (let keep = filter (\<lambda>(i, b). \<forall>oc \<in> set cc. RChain_read oc i \<noteq> None) (rc_blocks fc)
      in ((RNewChain (rc_fixedWitnessThreshold fc))\<lparr>rc_blocks := keep,
            rc_strengths := rc_strengths fc |` (fst ` set keep),
            rc_genesis := map fst (filter (\<lambda>(i, b). rb_Prev b = RNilID) keep)\<rparr>, length keep))"

section \<open>Rounds\<close>

record RRound =
  rr_proposals :: "(rid \<times> RProposal) list"
  rr_proposed :: "rid \<rightharpoonup> RProposal"
  rr_top :: "RProposal option"
  rr_propose :: bool

definition RRound_add :: "rev_env \<Rightarrow> RProposal \<Rightarrow> RRound \<Rightarrow> (rev_err, (bool \<times> bool) \<times> RRound) res" where
  "RRound_add env p r =
     (case rp_Block p of
        None \<Rightarrow> Panic
      | Some b \<Rightarrow>
          let i = RProposal_Hash env p; newp = (map_of (rr_proposals r) i = None);
              r = r\<lparr>rr_proposals := AList.update i p (rr_proposals r), rr_proposed := (rr_proposed r)(RBlock_Hash env b \<mapsto> p)\<rparr>;
              newt = (case rr_top r of None \<Rightarrow> True | Some t \<Rightarrow> RProposal_GT p t)
          in Ok ((newt, newp), if newt then r\<lparr>rr_top := Some p, rr_propose := True\<rparr> else r))"

fun add_proposals :: "rev_env \<Rightarrow> RProposal list \<Rightarrow> RRound \<Rightarrow> (rev_err, RRound) res" where
  "add_proposals env [] r = Ok r"
| "add_proposals env (p # ps) r = res_bind (RRound_add env p r) (\<lambda>(_, r). add_proposals env ps r)"

definition empty_round :: RRound where
  "empty_round = \<lparr>rr_proposals = [], rr_proposed = Map.empty, rr_top = None, rr_propose = False\<rparr>"

definition RNewRound :: "rev_env \<Rightarrow> RProposal list \<Rightarrow> (rev_err, RRound) res" where
  "RNewRound env ps = add_proposals env ps empty_round"

definition Observe ::
  "rev_env \<Rightarrow> RChain \<Rightarrow> RProposal \<Rightarrow> RRound \<Rightarrow> (rev_err, (bool \<times> bool \<times> PIDSet option \<times> rid) \<times> RRound) res" where
  "Observe env c p r =
     res_bind (RRound_add env p r) (\<lambda>((newt, newp), r).
       let tip = RChain_Tip c
       in if \<not> rr_propose r then Ok ((newt, newp, None, tip), r)
          else if int (length (rr_proposals r)) < WitnessThreshold c tip then Ok ((newt, newp, None, tip), r)
          else Ok ((newt, newp, Some (map fst (rr_proposals r)), tip), r\<lparr>rr_propose := False\<rparr>))"

definition Question :: "RChain \<Rightarrow> rid \<Rightarrow> PIDSet \<Rightarrow> RRound \<Rightarrow> rev_err option" where
  "Question c prev witness r =
     (if \<exists>w \<in> set witness. map_of (rr_proposals r) w = None then Some ErrProposalWitnessUnknown
      else if int (length witness) < WitnessThreshold c prev then Some ErrNotEnoughWitness
      else if RChain_read c prev = None then Some ErrPrevNotExist
      else None)"

section \<open>The engine\<close>

record HandleResult =
  hr_ValidationErr :: "rev_err option"
  hr_WitnessRoundTooFarOff :: bool
  hr_InvalidWitnessErr :: "rev_err option"
  hr_OtherEnteredNewRound :: bool
  hr_Relayed :: bool

record REngine =
  rg_res :: "HandleResult option"
  rg_rounds :: "u64 \<rightharpoonup> RRound"
  rg_latest :: u64
  rg_idn :: RIdentity
  rg_gen :: RProposal
  rg_chain :: RChain
  rg_out :: "RProposal list"

definition gen_block :: RBlock where
  "gen_block = \<lparr>rb_Prev = RNilID, rb_Data = []\<rparr>"

definition gen_proposal :: RProposal where
  "gen_proposal = \<lparr>rp_Round = 0, rp_Token = replicate 32 0, rp_Proof = [], rp_PK = [], rp_Block = Some gen_block, rp_Witness = []\<rparr>"

definition RNewEngine :: "rev_env \<Rightarrow> RIdentity \<Rightarrow> RChain \<Rightarrow> (rev_err, REngine) res option" where
  "RNewEngine env idn c =
     run_bind (RChain_Append env c gen_block 0) (\<lambda>c.
     run_bind (Some (RNewRound env [gen_proposal])) (\<lambda>r.
       Some (Ok \<lparr>rg_res = None, rg_rounds = [0 \<mapsto> r], rg_latest = 0, rg_idn = idn, rg_gen = gen_proposal, rg_chain = c, rg_out = []\<rparr>)))"

definition no_hresult :: HandleResult where
  "no_hresult = \<lparr>hr_ValidationErr = None, hr_WitnessRoundTooFarOff = False, hr_InvalidWitnessErr = None,
     hr_OtherEnteredNewRound = False, hr_Relayed = False\<rparr>"

text \<open>The proposal of the member for the next round, written when a round has enough witnesses.\<close>

definition next_proposal :: "rev_env \<Rightarrow> RIdentity \<Rightarrow> u64 \<Rightarrow> rid \<Rightarrow> PIDSet \<Rightarrow> RProposal" where
  "next_proposal env idn rnd prev witness =
     (CreateProposal env idn rnd)\<lparr>rp_Block := Some \<lparr>rb_Prev = prev, rb_Data = re_text env rnd (ri_pk idn)\<rparr>, rp_Witness := witness\<rparr>"

text \<open>Entering a new round, and the work on a proposal whose witness was accepted.\<close>

definition enter_round :: "RProposal \<Rightarrow> REngine \<Rightarrow> bool \<times> REngine" where
  "enter_round p e =
     (if rp_Round p > rg_latest e \<and> rp_Round p - rg_latest e = 1
      then (True, e\<lparr>rg_rounds := (rg_rounds e)(rp_Round p \<mapsto> empty_round), rg_latest := rp_Round p\<rparr>)
      else (False, e))"

definition accept_proposal :: "rev_env \<Rightarrow> RProposal \<Rightarrow> REngine \<Rightarrow> (rev_err, HandleResult \<times> REngine) res option" where
  "accept_proposal env p e =
     (let (entered, e) = enter_round p e; res = no_hresult\<lparr>hr_OtherEnteredNewRound := entered\<rparr>
      in case rg_rounds e (rp_Round p) of
           None \<Rightarrow> Some (Ok (res, e))
         | Some cur \<Rightarrow>
             run_bind (Some (Observe env (rg_chain e) p cur)) (\<lambda>((newt, newp, witness, prev), cur).
               let e = e\<lparr>rg_rounds := (rg_rounds e)(rp_Round p \<mapsto> cur)\<rparr>;
                   e = (case witness of None \<Rightarrow> e
                        | Some w \<Rightarrow> e\<lparr>rg_out := rg_out e @ [next_proposal env (rg_idn e) (rp_Round p + 1) prev w]\<rparr>)
               in if \<not> newp then Some (Ok (res, e))
                  else run_bind (RChain_Append env (rg_chain e) (the (rp_Block p)) (RProposal_Rank p)) (\<lambda>c.
                    Some (Ok (res\<lparr>hr_Relayed := True\<rparr>, e\<lparr>rg_chain := c, rg_out := rg_out e @ [p]\<rparr>)))))"

definition handle_result :: "rev_env \<Rightarrow> RProposal \<Rightarrow> REngine \<Rightarrow> (rev_err, HandleResult \<times> REngine) res option" where
  "handle_result env p e =
     (case RProposal_Validate env p of
        Some err \<Rightarrow> Some (Ok (no_hresult\<lparr>hr_ValidationErr := Some err\<rparr>, e))
      | None \<Rightarrow>
          (case rg_rounds e (rp_Round p - 1) of
             None \<Rightarrow> Some (Ok (no_hresult\<lparr>hr_WitnessRoundTooFarOff := True\<rparr>, e))
           | Some prior \<Rightarrow>
               (case Question (rg_chain e) (rb_Prev (the (rp_Block p))) (rp_Witness p) prior of
                  Some err \<Rightarrow> Some (Ok (no_hresult\<lparr>hr_InvalidWitnessErr := Some err\<rparr>, e))
                | None \<Rightarrow> accept_proposal env p e)))"

text \<open>The result channel holds one result and is emptied first.\<close>

definition REngine_Handle :: "rev_env \<Rightarrow> RProposal \<Rightarrow> REngine \<Rightarrow> (rev_err, REngine) res option" where
  "REngine_Handle env p e =
     run_bind (handle_result env p (e\<lparr>rg_res := None\<rparr>)) (\<lambda>(res, e). Some (Ok (e\<lparr>rg_res := Some res\<rparr>)))"

section \<open>The out-of-order buffer\<close>

record ROutOfOrder =
  ro_orphans :: "rid \<rightharpoonup> (rid \<times> RProposal) list"
  ro_handled :: "rid list"

definition RNewOutOfOrder :: "rev_env \<Rightarrow> RProposal list \<Rightarrow> ROutOfOrder" where
  "RNewOutOfOrder env ps = \<lparr>ro_orphans = Map.empty, ro_handled = fold (\<lambda>p. List.insert (RProposal_Hash env p)) ps []\<rparr>"

definition ooo_deps :: "ROutOfOrder \<Rightarrow> RProposal \<Rightarrow> rid list" where
  "ooo_deps q p = filter (\<lambda>dep. dep \<notin> set (ro_handled q)) (rp_Witness p)"

definition add_orphan :: "rid \<Rightarrow> RProposal \<Rightarrow> rid \<Rightarrow> ROutOfOrder \<Rightarrow> ROutOfOrder" where
  "add_orphan i p dep q =
     q\<lparr>ro_orphans := (ro_orphans q)(dep \<mapsto> AList.update i p (case ro_orphans q dep of None \<Rightarrow> [] | Some ex \<Rightarrow> ex))\<rparr>"

text \<open>\<^verbatim>\<open>handle\<close> on each proposal of a list: \<^verbatim>\<open>handleNow\<close> calls the handler, marks the proposal and then resolves,
  which is \<^verbatim>\<open>handle\<close> on each proposal that waits for it.\<close>

partial_function (option) ooo_handle ::
  "rev_env \<Rightarrow> (RProposal \<Rightarrow> 's \<Rightarrow> (rev_err, 's) res option) \<Rightarrow> RProposal list \<Rightarrow> ROutOfOrder \<Rightarrow> 's \<Rightarrow>
     (rev_err, ROutOfOrder \<times> 's) res option" where
  "ooo_handle env h ps q s =
     (case ps of
        [] \<Rightarrow> Some (Ok (q, s))
      | p # ps' \<Rightarrow>
          let i = RProposal_Hash env p
          in if ooo_deps q p \<noteq> [] then ooo_handle env h ps' (fold (add_orphan i p) (ooo_deps q p) q) s
             else run_bind (h p s) (\<lambda>s.
               let q = q\<lparr>ro_handled := List.insert i (ro_handled q)\<rparr>
               in case ro_orphans q i of
                    None \<Rightarrow> ooo_handle env h ps' q s
                  | Some orphans \<Rightarrow>
                      run_bind (ooo_handle env h (map snd orphans) q s) (\<lambda>(q, s).
                        ooo_handle env h ps' (q\<lparr>ro_orphans := (ro_orphans q)(i := None)\<rparr>) s)))"

text \<open>The loop of the engine: each message that is read is handed to the buffer.\<close>

definition rev_run :: "rev_env \<Rightarrow> RProposal list \<Rightarrow> ROutOfOrder \<Rightarrow> REngine \<Rightarrow> (rev_err, ROutOfOrder \<times> REngine) res option" where
  "rev_run env msgs q e = ooo_handle env (REngine_Handle env) msgs q e"

section \<open>Delivery in the order of the witnesses\<close>

definition waiting_for :: "ROutOfOrder \<Rightarrow> rid \<Rightarrow> rid \<rightharpoonup> RProposal" where
  "waiting_for q w = (case ro_orphans q w of None \<Rightarrow> Map.empty | Some os \<Rightarrow> map_of os)"

text \<open>Every handled id is one of the preloaded ids \<open>G\<close> or that of a proposal whose witnesses were handled before it.\<close>

definition in_order :: "rev_env \<Rightarrow> RProposal set \<Rightarrow> rid set \<Rightarrow> rid list \<Rightarrow> bool" where
  "in_order env S G hs \<longleftrightarrow> (\<forall>xs i ys. hs = xs @ i # ys \<longrightarrow>
     i \<in> G \<or> (\<exists>p \<in> S. RProposal_Hash env p = i \<and> set (rp_Witness p) \<subseteq> set ys))"

definition orphans_ok :: "rev_env \<Rightarrow> RProposal set \<Rightarrow> ROutOfOrder \<Rightarrow> bool" where
  "orphans_ok env S q \<longleftrightarrow> (\<forall>w os i p. ro_orphans q w = Some os \<longrightarrow> (i, p) \<in> set os \<longrightarrow>
     p \<in> S \<and> i = RProposal_Hash env p \<and> w \<in> set (rp_Witness p))"

text \<open>Each received proposal is handled, about to be tried (\<open>P\<close>), or waits for a witness that is not handled.\<close>

definition none_lost :: "rev_env \<Rightarrow> RProposal set \<Rightarrow> RProposal set \<Rightarrow> ROutOfOrder \<Rightarrow> bool" where
  "none_lost env R P q \<longleftrightarrow> (\<forall>p \<in> R. RProposal_Hash env p \<in> set (ro_handled q) \<or> p \<in> P \<or>
     (\<exists>w \<in> set (rp_Witness p). w \<notin> set (ro_handled q) \<and> waiting_for q w (RProposal_Hash env p) = Some p))"

text \<open>What the buffer relies on: hashes of the received proposals \<open>S\<close> do not collide, and no proposal has
  itself as a direct or indirect witness.\<close>

definition hash_links :: "rev_env \<Rightarrow> RProposal set \<Rightarrow> bool" where
  "hash_links env S \<longleftrightarrow> finite S \<and> inj_on (RProposal_Hash env) S \<and>
     (\<exists>d :: rid \<Rightarrow> nat. \<forall>p \<in> S. \<forall>w \<in> set (rp_Witness p). d w < d (RProposal_Hash env p))"

lemma in_order_insert:
  assumes "in_order env S G hs" "p \<in> S" "set (rp_Witness p) \<subseteq> set hs"
  shows "in_order env S G (List.insert (RProposal_Hash env p) hs)"
  using assms by (auto simp: in_order_def List.insert_def Cons_eq_append_conv)

lemma waiting_add: "waiting_for (add_orphan i p dep q) w = (if w = dep then (waiting_for q w)(i \<mapsto> p) else waiting_for q w)"
  by (auto simp: waiting_for_def add_orphan_def update_conv' split: option.split)

lemma waiting_adds: "waiting_for (fold (add_orphan i p) ds q) w = (if w \<in> set ds then (waiting_for q w)(i \<mapsto> p) else waiting_for q w)"
  by (induction ds arbitrary: q) (auto simp: waiting_add)

lemma handled_adds [simp]: "ro_handled (fold (add_orphan i p) ds q) = ro_handled q"
  by (induction ds arbitrary: q) (auto simp: add_orphan_def)

lemma orphans_ok_adds:
  assumes "orphans_ok env S q" "p \<in> S" "set ds \<subseteq> set (rp_Witness p)"
  shows "orphans_ok env S (fold (add_orphan (RProposal_Hash env p) p) ds q)"
  using assms
proof (induction ds arbitrary: q)
  case (Cons dep ds)
  have "orphans_ok env S (add_orphan (RProposal_Hash env p) p dep q)"
    using Cons.prems by (auto simp: orphans_ok_def add_orphan_def dest!: set_update_subset [THEN subsetD] split: option.splits if_splits)
  with Cons show ?case by simp
qed simp

lemma none_lost_adds:
  assumes "none_lost env R (insert p P) q" "inj_on (RProposal_Hash env) S" "R \<subseteq> S" "p \<in> S" "ooo_deps q p \<noteq> []"
  shows "none_lost env R P (fold (add_orphan (RProposal_Hash env p) p) (ooo_deps q p) q)"
proof -
  let ?q = "fold (add_orphan (RProposal_Hash env p) p) (ooo_deps q p) q"
  obtain dep where dep: "dep \<in> set (ooo_deps q p)" using assms(5) by fastforce
  then have dep': "dep \<in> set (rp_Witness p)" "dep \<notin> set (ro_handled q)" by (auto simp: ooo_deps_def)
  have keep: "waiting_for ?q w (RProposal_Hash env x) = Some x" if "waiting_for q w (RProposal_Hash env x) = Some x" "x \<in> R" for w x
    using that assms(2-4) by (auto simp: waiting_adds inj_on_def subset_eq)
  show ?thesis unfolding none_lost_def
  proof
    fix x assume x: "x \<in> R"
    show "RProposal_Hash env x \<in> set (ro_handled ?q) \<or> x \<in> P \<or>
      (\<exists>w \<in> set (rp_Witness x). w \<notin> set (ro_handled ?q) \<and> waiting_for ?q w (RProposal_Hash env x) = Some x)"
    proof (cases "x = p")
      case True
      with dep dep' show ?thesis by (auto simp: waiting_adds intro!: bexI [of _ dep])
    next
      case False
      with assms(1) x keep show ?thesis by (fastforce simp: none_lost_def)
    qed
  qed
qed

lemma none_lost_handled:
  assumes "none_lost env R (insert p P) q"
  shows "none_lost env R (ran (waiting_for q (RProposal_Hash env p)) \<union> P)
    (q\<lparr>ro_handled := List.insert (RProposal_Hash env p) (ro_handled q)\<rparr>)"
  using assms unfolding none_lost_def waiting_for_def by (fastforce simp: ran_def)

lemma none_lost_drop:
  assumes "none_lost env R P q" "i \<in> set (ro_handled q)"
  shows "none_lost env R P (q\<lparr>ro_orphans := (ro_orphans q)(i := None)\<rparr>)"
  using assms by (fastforce simp: none_lost_def waiting_for_def)

lemma none_lost_mono: "none_lost env R P q \<Longrightarrow> P \<subseteq> P' \<Longrightarrow> none_lost env R P' q"
  by (fastforce simp: none_lost_def)

text \<open>The interface \<^verbatim>\<open>Handler\<close>: on proposals it can take, the handler returns and keeps its invariant.\<close>

locale proposal_handler =
  fixes h :: "RProposal \<Rightarrow> 's \<Rightarrow> (rev_err, 's) res option" and takes :: "RProposal \<Rightarrow> bool" and inv :: "'s \<Rightarrow> bool"
  assumes handles: "takes p \<Longrightarrow> inv s \<Longrightarrow> \<exists>s'. h p s = Some (Ok s') \<and> inv s'"
begin

lemma ooo_handle_step:
  assumes "ooo_deps q p = []" "h p s = Some (Ok s')"
  shows "ooo_handle env h (p # ps) q s =
    (let i = RProposal_Hash env p; q = q\<lparr>ro_handled := List.insert i (ro_handled q)\<rparr>
     in case ro_orphans q i of
          None \<Rightarrow> ooo_handle env h ps q s'
        | Some orphans \<Rightarrow> run_bind (ooo_handle env h (map snd orphans) q s') (\<lambda>(q, s).
            ooo_handle env h ps (q\<lparr>ro_orphans := (ro_orphans q)(i := None)\<rparr>) s))"
  using assms by (subst ooo_handle.simps) (simp add: Let_def)

lemma ooo_handle_wait:
  "ooo_deps q p \<noteq> [] \<Longrightarrow> ooo_handle env h (p # ps) q s =
     ooo_handle env h ps (fold (add_orphan (RProposal_Hash env p) p) (ooo_deps q p) q) s"
  by (subst ooo_handle.simps) (simp add: Let_def)

lemma ooo_handle_Nil: "ooo_handle env h [] q s = Some (Ok (q, s))"
  by (subst ooo_handle.simps) simp

text \<open>Nested calls go to proposals that are further away from the start, so that the recursion ends.\<close>

lemma ooo_handle_ok:
  assumes "\<forall>p \<in> S. takes p" "inj_on (RProposal_Hash env) S" "R \<subseteq> S"
    "\<forall>p \<in> S. \<forall>w \<in> set (rp_Witness p). d w < d (RProposal_Hash env p)" "\<forall>p \<in> S. d (RProposal_Hash env p) \<le> (M :: nat)"
    "set ps \<subseteq> S" "\<forall>p \<in> set ps. M - d (RProposal_Hash env p) < n" "inv s" "orphans_ok env S q" "in_order env S G (ro_handled q)"
    "none_lost env R (set ps \<union> P) q"
  shows "\<exists>q' s'. ooo_handle env h ps q s = Some (Ok (q', s')) \<and> inv s' \<and> orphans_ok env S q' \<and> in_order env S G (ro_handled q') \<and>
    none_lost env R P q' \<and> set (ro_handled q) \<subseteq> set (ro_handled q')"
  using assms(6-)
proof (induction n arbitrary: ps q s P rule: less_induct)
  case (less n)
  note outer = less.IH
  from less.prems show ?case
  proof (induction ps arbitrary: q s)
    case Nil
    then show ?case by (simp add: ooo_handle_Nil)
  next
    case (Cons p ps)
    let ?i = "RProposal_Hash env p"
    have p: "p \<in> S" "M - d ?i < n" using Cons.prems by auto
    show ?case
    proof (cases "ooo_deps q p = []")
      case False
      let ?q = "fold (add_orphan ?i p) (ooo_deps q p) q"
      have "orphans_ok env S ?q" by (rule orphans_ok_adds [OF Cons.prems(4) p(1)]) (auto simp: ooo_deps_def)
      moreover have "none_lost env R (set ps \<union> P) ?q"
        using none_lost_adds [OF _ assms(2,3) p(1) False, of "set ps \<union> P"] Cons.prems(6) by simp
      ultimately show ?thesis using Cons.IH [of s ?q] Cons.prems by (simp add: ooo_handle_wait [OF False])
    next
      case True
      obtain s1 where s1: "h p s = Some (Ok s1)" "inv s1" using handles p(1) assms(1) Cons.prems(3) by blast
      let ?q = "q\<lparr>ro_handled := List.insert ?i (ro_handled q)\<rparr>"
      have wit: "set (rp_Witness p) \<subseteq> set (ro_handled q)" using True by (auto simp: ooo_deps_def filter_empty_conv)
      have o1: "orphans_ok env S ?q" "in_order env S G (ro_handled ?q)"
        using Cons.prems(4,5) in_order_insert [OF _ p(1) wit] by (simp_all add: orphans_ok_def)
      have nl: "none_lost env R (ran (waiting_for q ?i) \<union> (set ps \<union> P)) ?q"
        using none_lost_handled [of env R p "set ps \<union> P" q] Cons.prems(6) by simp
      show ?thesis
      proof (cases "ro_orphans q ?i")
        case None
        then have "none_lost env R (set ps \<union> P) ?q" using nl by (simp add: waiting_for_def)
        then show ?thesis using Cons.IH [of s1 ?q] Cons.prems o1 s1(2) None
          by (auto simp: ooo_handle_step [OF True s1(1)] Let_def)
      next
        case (Some os)
        have os: "set (map snd os) \<subseteq> S" "\<forall>y \<in> set (map snd os). ?i \<in> set (rp_Witness y)"
          using Cons.prems(4) Some by (auto simp: orphans_ok_def)
        have "M - d (RProposal_Hash env y) < M - d ?i" if "y \<in> set (map snd os)" for y
        proof -
          have "d ?i < d (RProposal_Hash env y)" "d (RProposal_Hash env y) \<le> M" using os that assms(4,5) by blast+
          then show ?thesis by arith
        qed
        moreover have "none_lost env R (set (map snd os) \<union> (set ps \<union> P)) ?q"
          by (rule none_lost_mono [OF nl]) (force simp: waiting_for_def Some ran_def dest!: map_of_SomeD)
        ultimately obtain q2 s2 where q2: "ooo_handle env h (map snd os) ?q s1 = Some (Ok (q2, s2))" "inv s2" "orphans_ok env S q2"
            "in_order env S G (ro_handled q2)" "none_lost env R (set ps \<union> P) q2" "set (ro_handled ?q) \<subseteq> set (ro_handled q2)"
          using outer [OF p(2), of "map snd os" s1 ?q "set ps \<union> P"] os(1) o1 s1(2) by blast
        let ?q3 = "q2\<lparr>ro_orphans := (ro_orphans q2)(?i := None)\<rparr>"
        have q3: "orphans_ok env S ?q3" "none_lost env R (set ps \<union> P) ?q3"
          using q2(3,6) none_lost_drop [OF q2(5), of ?i] by (auto simp: orphans_ok_def split: if_splits)
        have "\<exists>q' s'. ooo_handle env h ps ?q3 s2 = Some (Ok (q', s')) \<and> inv s' \<and> orphans_ok env S q' \<and> in_order env S G (ro_handled q') \<and>
            none_lost env R P q' \<and> set (ro_handled ?q3) \<subseteq> set (ro_handled q')"
          by (rule Cons.IH) (use Cons.prems q2 q3 in auto)
        then show ?thesis using q2(1,6) Some by (auto simp: ooo_handle_step [OF True s1(1)] Let_def)
      qed
    qed
  qed
qed

text \<open>Handling any sequence of proposals from a new buffer.\<close>

lemma buffer_delivers:
  assumes "hash_links env S" "\<forall>p \<in> S. takes p" "set msgs \<subseteq> S" "inv s"
  shows "\<exists>q s'. ooo_handle env h msgs (RNewOutOfOrder env gens) s = Some (Ok (q, s')) \<and> inv s' \<and>
    in_order env S (RProposal_Hash env ` set gens) (ro_handled q) \<and>
    (\<forall>p \<in> set msgs. set (rp_Witness p) \<subseteq> set (ro_handled q) \<longrightarrow> RProposal_Hash env p \<in> set (ro_handled q))"
proof -
  obtain d :: "rid \<Rightarrow> nat" where S: "finite S" "inj_on (RProposal_Hash env) S" "\<forall>p \<in> S. \<forall>w \<in> set (rp_Witness p). d w < d (RProposal_Hash env p)"
    using assms(1) unfolding hash_links_def by blast
  let ?M = "Max ((\<lambda>p. d (RProposal_Hash env p)) ` S)" and ?q = "RNewOutOfOrder env gens"
  have hs: "set (ro_handled ?q) = RProposal_Hash env ` set gens"
  proof -
    have "set (fold (\<lambda>p. List.insert (RProposal_Hash env p)) gens xs) = RProposal_Hash env ` set gens \<union> set xs" for xs
      by (induction gens arbitrary: xs) auto
    then show ?thesis by (simp add: RNewOutOfOrder_def)
  qed
  have M: "\<forall>p \<in> S. d (RProposal_Hash env p) \<le> ?M" using S(1) by simp
  have "in_order env S (RProposal_Hash env ` set gens) (ro_handled ?q)" unfolding in_order_def hs [symmetric] by auto
  moreover have "orphans_ok env S ?q" by (simp add: orphans_ok_def RNewOutOfOrder_def)
  moreover have "none_lost env (set msgs) (set msgs \<union> {}) ?q" by (auto simp: none_lost_def)
  moreover have "\<forall>p \<in> set msgs. ?M - d (RProposal_Hash env p) < Suc ?M" by auto
  ultimately obtain q s' where q: "ooo_handle env h msgs ?q s = Some (Ok (q, s'))" "inv s'"
      "in_order env S (RProposal_Hash env ` set gens) (ro_handled q)" "none_lost env (set msgs) {} q"
    using ooo_handle_ok [OF assms(2) S(2) assms(3) S(3) M assms(3) _ assms(4)] by blast
  then show ?thesis by (intro exI [of _ q] exI [of _ s']) (auto simp: none_lost_def)
qed

end

section \<open>The invariant of the chain\<close>

text \<open>\<open>B\<close> are the blocks that the chain may hold: their hashes do not collide and are not the nil id.\<close>

definition blocks_apart :: "rev_env \<Rightarrow> RBlock set \<Rightarrow> bool" where
  "blocks_apart env B \<longleftrightarrow> inj_on (RBlock_Hash env) B \<and> (\<forall>b \<in> B. RBlock_Hash env b \<noteq> RNilID)"

definition rchain_ok :: "rev_env \<Rightarrow> RBlock set \<Rightarrow> RChain \<Rightarrow> bool" where
  "rchain_ok env B c \<longleftrightarrow> linked_map RNilID rb_Prev (RChain_read c) \<and>
     (\<forall>i b. RChain_read c i = Some b \<longrightarrow> i = RBlock_Hash env b \<and> b \<in> B \<and> rc_strengths c i \<noteq> None) \<and>
     RChain_read c (rc_tip c) \<noteq> None"

lemma read_New [simp]: "RChain_read (RNewChain t) = Map.empty"
  by (auto simp: RChain_read_def RNewChain_def)

lemma New_fields [simp]: "rc_fixedWitnessThreshold (RNewChain t) = t" "rc_genesis (RNewChain t) = []"
  by (simp_all add: RNewChain_def)

lemma read_tip [simp]: "RChain_read (c\<lparr>rc_tip := i\<rparr>) = RChain_read c"
  by (auto simp: RChain_read_def)

abbreviation sum_strength :: "RChain \<Rightarrow> rid \<Rightarrow> RBlock \<Rightarrow> nat \<Rightarrow> (rev_err, nat) res" where
  "sum_strength c \<equiv> \<lambda>bid b s. case rc_strengths c bid of None \<Rightarrow> Panic | Some x \<Rightarrow> Ok (s + x)"

lemma rev_walk_step:
  assumes "RChain_read c i = Some b" "rc_strengths c i = Some x"
  shows "RChain_walk c (sum_strength c) i a =
    (if rb_Prev b = RNilID then Some (Ok (a + x)) else RChain_walk c (sum_strength c) (rb_Prev b) (a + x))"
  by (subst RChain_walk.simps) (simp add: assms)

lemma rev_walk_sum:
  assumes "linked_map RNilID rb_Prev (RChain_read c)" "\<And>i b. RChain_read c i = Some b \<Longrightarrow> rc_strengths c i \<noteq> None"
    "RChain_read c i = Some b"
  shows "\<exists>w. \<forall>a. RChain_walk c (sum_strength c) i a = Some (Ok (a + w))"
  using assms(1,3)
proof (rule linked_induct)
  fix i b
  assume b: "RChain_read c i = Some b"
    and IH: "\<And>b'. rb_Prev b \<noteq> RNilID \<Longrightarrow> RChain_read c (rb_Prev b) = Some b' \<Longrightarrow>
      \<exists>w. \<forall>a. RChain_walk c (sum_strength c) (rb_Prev b) a = Some (Ok (a + w))"
  obtain x where x: "rc_strengths c i = Some x" using assms(2) [OF b] by blast
  show "\<exists>w. \<forall>a. RChain_walk c (sum_strength c) i a = Some (Ok (a + w))"
  proof (cases "rb_Prev b = RNilID")
    case True
    then show ?thesis by (intro exI [of _ x]) (simp add: rev_walk_step [OF b x])
  next
    case False
    with IH linked_map_prev [OF assms(1) b] obtain w where "\<forall>a. RChain_walk c (sum_strength c) (rb_Prev b) a = Some (Ok (a + w))" by blast
    with False show ?thesis by (intro exI [of _ "x + w"]) (simp add: rev_walk_step [OF b x] add.assoc)
  qed
qed

text \<open>The sum of the strengths of a block and its ancestors.\<close>

definition sum_of :: "RChain \<Rightarrow> rid \<Rightarrow> nat" where
  "sum_of c i = (case RChain_strength c i of Some (Ok n) \<Rightarrow> n | _ \<Rightarrow> 0)"

lemma rev_walk_eq:
  assumes "rchain_ok env B c" "RChain_read c i = Some b"
  shows "RChain_walk c (sum_strength c) i a = Some (Ok (a + sum_of c i))"
proof -
  obtain w where "\<forall>a. RChain_walk c (sum_strength c) i a = Some (Ok (a + w))"
    using rev_walk_sum [of c i b] assms by (auto simp: rchain_ok_def)
  then show ?thesis by (simp add: sum_of_def RChain_strength_def)
qed

lemma strength_eq: "rchain_ok env B c \<Longrightarrow> RChain_read c i = Some b \<Longrightarrow> RChain_strength c i = Some (Ok (sum_of c i))"
  unfolding RChain_strength_def by (simp add: rev_walk_eq)

lemma sum_of_step:
  assumes "rchain_ok env B c" "RChain_read c i = Some b" "rc_strengths c i = Some x"
  shows "sum_of c i = x + (if rb_Prev b = RNilID then 0 else sum_of c (rb_Prev b))"
proof (cases "rb_Prev b = RNilID")
  case True
  then show ?thesis using rev_walk_step [OF assms(2,3), of 0] by (simp add: sum_of_def RChain_strength_def)
next
  case False
  then obtain b' where "RChain_read c (rb_Prev b) = Some b'"
    using linked_map_prev [of RNilID rb_Prev "RChain_read c" i b] assms by (auto simp: rchain_ok_def)
  from rev_walk_eq [OF assms(1) this] rev_walk_step [OF assms(2,3), of 0] False show ?thesis
    by (simp add: sum_of_def [of c i] RChain_strength_def)
qed

text \<open>Storing a block.\<close>

lemma store_read: "RChain_read (rchain_store env c b s) = (RChain_read c)(RBlock_Hash env b \<mapsto> b)"
  by (auto simp: rchain_store_def RChain_read_def Let_def update_conv')

lemma store_strengths: "rc_strengths (rchain_store env c b s) = (rc_strengths c)(RBlock_Hash env b \<mapsto> s)"
  by (simp add: rchain_store_def Let_def)

lemma store_ok:
  assumes ok: "rchain_ok env B c \<or> c = RNewChain t \<and> rb_Prev b = RNilID" and B: "blocks_apart env B" "b \<in> B"
    and prev: "rb_Prev b = RNilID \<or> RChain_read c (rb_Prev b) \<noteq> None"
  shows "rchain_ok env B (rchain_store env c b s)"
proof -
  let ?i = "RBlock_Hash env b" and ?c = "rchain_store env c b s"
  have l: "linked_map RNilID rb_Prev (RChain_read c)" and k: "\<And>i b. RChain_read c i = Some b \<Longrightarrow>
      i = RBlock_Hash env b \<and> b \<in> B \<and> rc_strengths c i \<noteq> None"
    using ok by (auto simp: rchain_ok_def linked_empty)
  have "RChain_read c ?i = None \<or> RChain_read c ?i = Some b"
    using k B by (cases "RChain_read c ?i") (auto simp: blocks_apart_def inj_on_def)
  then have "linked_map RNilID rb_Prev (RChain_read ?c)" using linked_upd [OF l prev] by (simp add: store_read)
  moreover have "RChain_read ?c (rc_tip ?c) \<noteq> None"
    using ok by (auto simp: store_read rchain_ok_def) (auto simp: rchain_store_def Let_def)
  ultimately show ?thesis using k B(2) by (auto simp: rchain_ok_def store_read store_strengths)
qed

lemma RChain_Append_eq:
  assumes "rchain_ok env B (rchain_store env c b s)"
  shows "RChain_Append env c b s = (let c1 = rchain_store env c b s in
    Some (Ok (if sum_of c1 (rc_tip c1) < (if rb_Prev b = RNilID then 0 else sum_of c1 (rb_Prev b) + s)
      then c1\<lparr>rc_tip := RBlock_Hash env b\<rparr> else c1)))"
proof -
  let ?c = "rchain_store env c b s"
  obtain t where t: "RChain_read ?c (rc_tip ?c) = Some t" using assms by (auto simp: rchain_ok_def)
  note ts = strength_eq [OF assms t]
  show ?thesis
  proof (cases "rb_Prev b = RNilID")
    case True
    then show ?thesis unfolding RChain_Append_def Let_def ts by (simp add: err_panic_def)
  next
    case False
    then obtain q where "RChain_read ?c (rb_Prev b) = Some q"
      using linked_map_prev [of RNilID rb_Prev "RChain_read ?c" "RBlock_Hash env b" b] assms
      unfolding rchain_ok_def by (metis fun_upd_same option.exhaust store_read)
    from strength_eq [OF assms this] False show ?thesis unfolding RChain_Append_def Let_def ts by (simp add: err_panic_def)
  qed
qed

lemma rchain_ok_tip:
  "rchain_ok env B c \<Longrightarrow> RChain_read c i \<noteq> None \<Longrightarrow> rchain_ok env B (c\<lparr>rc_tip := i\<rparr>)"
  by (simp add: rchain_ok_def)

lemma RChain_Append_ok:
  assumes "rchain_ok env B c \<or> c = RNewChain t \<and> rb_Prev b = RNilID" "blocks_apart env B" "b \<in> B"
    and "rb_Prev b = RNilID \<or> RChain_read c (rb_Prev b) \<noteq> None"
  shows "\<exists>c'. RChain_Append env c b s = Some (Ok c') \<and> rchain_ok env B c' \<and>
    RChain_read c' = (RChain_read c)(RBlock_Hash env b \<mapsto> b) \<and> rc_fixedWitnessThreshold c' = rc_fixedWitnessThreshold c \<and>
    rc_genesis c' = (if rb_Prev b = RNilID then List.insert (RBlock_Hash env b) (rc_genesis c) else rc_genesis c)"
proof -
  let ?c = "rchain_store env c b s"
  have ok: "rchain_ok env B ?c" by (rule store_ok [OF assms])
  then have "rchain_ok env B (?c\<lparr>rc_tip := RBlock_Hash env b\<rparr>)" by (rule rchain_ok_tip) (simp add: store_read)
  moreover have "rc_fixedWitnessThreshold ?c = rc_fixedWitnessThreshold c"
      "rc_genesis ?c = (if rb_Prev b = RNilID then List.insert (RBlock_Hash env b) (rc_genesis c) else rc_genesis c)"
    by (simp_all add: rchain_store_def Let_def)
  ultimately show ?thesis using ok by (simp add: RChain_Append_eq [OF ok] Let_def store_read)
qed

section \<open>The tip is the strongest block\<close>

lemma sum_of_agree:
  assumes ok: "rchain_ok env B c" "rchain_ok env B' c'"
    and agree: "\<And>i b. RChain_read c i = Some b \<Longrightarrow> RChain_read c' i = Some b \<and> rc_strengths c' i = rc_strengths c i"
    and i: "RChain_read c i = Some b"
  shows "sum_of c' i = sum_of c i"
proof -
  have l: "linked_map RNilID rb_Prev (RChain_read c)" using ok(1) by (simp add: rchain_ok_def)
  then show ?thesis using i
  proof (rule linked_induct)
    fix i b
    assume b: "RChain_read c i = Some b" and IH: "\<And>b'. rb_Prev b \<noteq> RNilID \<Longrightarrow> RChain_read c (rb_Prev b) = Some b' \<Longrightarrow>
      sum_of c' (rb_Prev b) = sum_of c (rb_Prev b)"
    obtain x where x: "rc_strengths c i = Some x" using ok(1) b by (auto simp: rchain_ok_def)
    have p: "sum_of c' (rb_Prev b) = sum_of c (rb_Prev b)" if "rb_Prev b \<noteq> RNilID" using IH linked_map_prev [OF l b] that by blast
    have "rc_strengths c' i = Some x" "RChain_read c' i = Some b" using agree [OF b] x by auto
    with p show "sum_of c' i = sum_of c i" using sum_of_step [OF ok(1) b x] sum_of_step [OF ok(2)] by auto
  qed
qed

text \<open>A chain that grows from a genesis block by new blocks on known ones.\<close>

inductive rchain_run :: "rev_env \<Rightarrow> RBlock set \<Rightarrow> RChain \<Rightarrow> bool" for env B where
  genesis: "rb_Prev g = RNilID \<Longrightarrow> g \<in> B \<Longrightarrow> RChain_Append env (RNewChain t) g s = Some (Ok c) \<Longrightarrow> rchain_run env B c"
| append: "rchain_run env B c \<Longrightarrow> b \<in> B \<Longrightarrow> rb_Prev b \<noteq> RNilID \<Longrightarrow> RChain_read c (rb_Prev b) \<noteq> None \<Longrightarrow>
    RChain_read c (RBlock_Hash env b) = None \<Longrightarrow> RChain_Append env c b s = Some (Ok c') \<Longrightarrow> rchain_run env B c'"

definition heaviest :: "RChain \<Rightarrow> bool" where
  "heaviest c \<longleftrightarrow> (\<forall>i b. RChain_read c i = Some b \<longrightarrow> sum_of c i \<le> sum_of c (rc_tip c))"

lemma append_heaviest:
  assumes ok: "rchain_ok env B c" "heaviest c" and B: "blocks_apart env B" "b \<in> B"
    and b: "rb_Prev b \<noteq> RNilID" "RChain_read c (rb_Prev b) \<noteq> None" "RChain_read c (RBlock_Hash env b) = None"
    and a: "RChain_Append env c b s = Some (Ok c')"
  shows "heaviest c'"
proof -
  let ?c = "rchain_store env c b s" and ?i = "RBlock_Hash env b"
  have ok1: "rchain_ok env B ?c" using ok(1) B b by (intro store_ok) auto
  then have oki: "rchain_ok env B (?c\<lparr>rc_tip := ?i\<rparr>)" by (rule rchain_ok_tip) (simp add: store_read)
  have tip: "rc_tip ?c = rc_tip c" using b(1) by (simp add: rchain_store_def Let_def)
  have old: "sum_of ?c j = sum_of c j" if "RChain_read c j = Some x" for j x
    using that b(3) by (intro sum_of_agree [OF ok(1) ok1 _ that]) (auto simp: store_read store_strengths)
  have same: "sum_of (?c\<lparr>rc_tip := ?i\<rparr>) j = sum_of ?c j" if "RChain_read ?c j = Some x" for j x
    by (rule sum_of_agree [OF ok1 oki _ that]) simp_all
  have new: "sum_of ?c ?i = s + sum_of ?c (rb_Prev b)"
    using sum_of_step [OF ok1, of ?i b s] b(1) by (simp add: store_read store_strengths)
  obtain t where t: "RChain_read c (rc_tip c) = Some t" using ok(1) by (auto simp: rchain_ok_def)
  have le: "sum_of ?c j \<le> sum_of ?c (rc_tip c)" if "RChain_read ?c j = Some x" "j \<noteq> ?i" for j x
    using that ok(2) old old [OF t] by (auto simp: heaviest_def store_read)
  have c': "c' = (if sum_of ?c (rc_tip c) < sum_of ?c ?i then ?c\<lparr>rc_tip := ?i\<rparr> else ?c)"
    using a b(1) by (simp add: RChain_Append_eq [OF ok1] Let_def tip new add.commute)
  show ?thesis
  proof (cases "sum_of ?c (rc_tip c) < sum_of ?c ?i")
    case True
    have "sum_of ?c j \<le> sum_of ?c ?i" if "RChain_read ?c j = Some x" for j x
      using le [OF that] True by (cases "j = ?i") auto
    with True same show ?thesis by (simp add: c' heaviest_def store_read)
  next
    case False
    have "sum_of ?c j \<le> sum_of ?c (rc_tip c)" if "RChain_read ?c j = Some x" for j x
      using le [OF that] False by (cases "j = ?i") auto
    with False show ?thesis by (simp add: c' heaviest_def tip)
  qed
qed

lemma rchain_run_ok:
  assumes "rchain_run env B c" "blocks_apart env B"
  shows "rchain_ok env B c \<and> heaviest c"
  using assms
proof (induction rule: rchain_run.induct)
  case (genesis g t s c)
  let ?c = "rchain_store env (RNewChain t) g s"
  have ok: "rchain_ok env B ?c" using genesis by (intro store_ok) auto
  have tip: "rc_tip ?c = RBlock_Hash env g" using genesis by (simp add: rchain_store_def Let_def)
  have "c = ?c" using genesis by (simp add: RChain_Append_eq [OF ok] Let_def)
  then show ?case using ok by (auto simp: heaviest_def store_read tip split: if_splits)
next
  case (append c b s c')
  then have ok: "rchain_ok env B c" "heaviest c" by auto
  obtain c'' where "RChain_Append env c b s = Some (Ok c'')" "rchain_ok env B c''"
    using RChain_Append_ok [of env B c _ b s] ok(1) append by blast
  with append append_heaviest [OF ok append.prems append.hyps(2-6)] show ?case by simp
qed

section \<open>The invariant of the engine\<close>

definition blocks_of :: "RProposal set \<Rightarrow> RBlock set" where
  "blocks_of S = insert gen_block {b. \<exists>p \<in> S. rp_Block p = Some b}"

definition rounds_ok :: "rev_env \<Rightarrow> RProposal set \<Rightarrow> REngine \<Rightarrow> bool" where
  "rounds_ok env S e \<longleftrightarrow> (\<forall>r. rg_rounds e r \<noteq> None \<longleftrightarrow> r \<le> rg_latest e) \<and>
     (\<forall>r rd i p. rg_rounds e r = Some rd \<longrightarrow> map_of (rr_proposals rd) i = Some p \<longrightarrow>
        i = RProposal_Hash env p \<and> p \<in> insert gen_proposal S \<and> rp_Round p = r)"

text \<open>The proposal \<open>p\<close> was accepted: its token verifies and it has enough witnesses, all of them proposals of the round before.\<close>

definition witnessed :: "rev_env \<Rightarrow> REngine \<Rightarrow> RProposal \<Rightarrow> RBlock \<Rightarrow> bool" where
  "witnessed env e p b \<longleftrightarrow> rp_Block p = Some b \<and>
     re_Verify env (rp_PK p) (rev_seed (rp_Round p)) (rp_Token p) (rp_Proof p) \<and>
     WitnessThreshold (rg_chain e) (rb_Prev b) \<le> int (length (rp_Witness p)) \<and>
     (\<exists>prior. rg_rounds e (rp_Round p - 1) = Some prior \<and> set (rp_Witness p) \<subseteq> fst ` set (rr_proposals prior))"

definition rev_ok :: "rev_env \<Rightarrow> RProposal set \<Rightarrow> int \<Rightarrow> REngine \<Rightarrow> bool" where
  "rev_ok env S t e \<longleftrightarrow> rchain_ok env (blocks_of S) (rg_chain e) \<and> rounds_ok env S e \<and>
     rc_genesis (rg_chain e) = [RBlock_Hash env gen_block] \<and> rc_fixedWitnessThreshold (rg_chain e) = t \<and>
     (\<forall>i b. RChain_read (rg_chain e) i = Some b \<longrightarrow> b = gen_block \<or> (\<exists>p \<in> S. witnessed env e p b))"

definition extends :: "REngine \<Rightarrow> REngine \<Rightarrow> bool" where
  "extends e e' \<longleftrightarrow> (\<forall>i. WitnessThreshold (rg_chain e') i = WitnessThreshold (rg_chain e) i) \<and>
     (\<forall>r rd. rg_rounds e r = Some rd \<longrightarrow>
       (\<exists>rd'. rg_rounds e' r = Some rd' \<and> fst ` set (rr_proposals rd) \<subseteq> fst ` set (rr_proposals rd')))"

lemma witnessed_mono: "witnessed env e p b \<Longrightarrow> extends e e' \<Longrightarrow> witnessed env e' p b"
  unfolding witnessed_def extends_def by (elim conjE exE) (drule spec, drule spec, drule (1) mp, auto)

lemma Observe_ok:
  assumes "rp_Block p = Some b"
  shows "\<exists>newt newp w tip r'. Observe env c p r = Ok ((newt, newp, w, tip), r') \<and>
    rr_proposals r' = AList.update (RProposal_Hash env p) p (rr_proposals r)"
  by (simp add: Observe_def RRound_add_def assms Let_def) blast

lemma next_round:
  fixes r l :: u64
  assumes "r - 1 \<le> l" "\<not> r \<le> l"
  shows "r - l = 1" and "x \<le> r \<longleftrightarrow> x \<le> l \<or> x = r"
proof -
  have "unat (r - 1) = unat r - 1" using assms(2) by (metis unat_minus_one word_zero_le)
  then have "unat r = unat l + 1" using assms by (simp add: word_le_nat_alt)
  then have r: "r = l + 1" and lt: "unat l + 1 < 2 ^ 64" using unat_u64_less [of r] by (auto simp: word_unat_eq_iff unat_word_ariths)
  show "r - l = 1" by (simp add: r)
  show "x \<le> r \<longleftrightarrow> x \<le> l \<or> x = r" using \<open>unat r = unat l + 1\<close> by (auto simp: word_le_nat_alt word_unat_eq_iff)
qed

lemma enter_round_ok:
  assumes ok: "rounds_ok env S e" and prior: "rg_rounds e (rp_Round p - 1) \<noteq> None" and e: "enter_round p e = (en, e')"
  shows "rounds_ok env S e'" and "rg_rounds e' (rp_Round p) \<noteq> None" and "rg_chain e' = rg_chain e" and "extends e e'"
proof -
  let ?r = "rp_Round p" and ?l = "rg_latest e"
  have dom: "\<And>r. rg_rounds e r \<noteq> None \<longleftrightarrow> r \<le> ?l" using ok by (auto simp: rounds_ok_def)
  then have pl: "?r - 1 \<le> ?l" using prior by simp
  have "rounds_ok env S e' \<and> rg_rounds e' ?r \<noteq> None \<and> rg_chain e' = rg_chain e \<and> extends e e'"
  proof (cases "?r \<le> ?l")
    case True
    then have "e' = e" using e by (auto simp: enter_round_def split: if_splits)
    with ok dom True show ?thesis by (auto simp: extends_def)
  next
    case False
    note nr = next_round [OF pl False]
    from False have "e' = e\<lparr>rg_rounds := (rg_rounds e)(?r \<mapsto> empty_round), rg_latest := ?r\<rparr>"
      using e nr(1) by (auto simp: enter_round_def split: if_splits)
    moreover have "rg_rounds e ?r = None" using dom False by blast
    ultimately show ?thesis using ok nr(2) dom by (auto simp: rounds_ok_def extends_def empty_round_def)
  qed
  then show "rounds_ok env S e'" "rg_rounds e' ?r \<noteq> None" "rg_chain e' = rg_chain e" "extends e e'" by auto
qed

lemma extends_trans:
  assumes "extends e1 e2" "extends e2 e3"
  shows "extends e1 e3"
  unfolding extends_def
proof (intro conjI allI impI)
  fix r rd assume "rg_rounds e1 r = Some rd"
  then obtain rd2 where r2: "rg_rounds e2 r = Some rd2" "fst ` set (rr_proposals rd) \<subseteq> fst ` set (rr_proposals rd2)"
    using assms(1) unfolding extends_def by blast
  then obtain rd3 where "rg_rounds e3 r = Some rd3" "fst ` set (rr_proposals rd2) \<subseteq> fst ` set (rr_proposals rd3)"
    using assms(2) unfolding extends_def by blast
  with r2 show "\<exists>rd'. rg_rounds e3 r = Some rd' \<and> fst ` set (rr_proposals rd) \<subseteq> fst ` set (rr_proposals rd')" by blast
qed (use assms in \<open>simp add: extends_def\<close>)

lemma rev_ok_extends:
  assumes "rev_ok env S t e" "extends e e'" "rounds_ok env S e'" "rg_chain e' = rg_chain e"
  shows "rev_ok env S t e'"
  using assms witnessed_mono [OF _ assms(2)] by (fastforce simp: rev_ok_def)

text \<open>A proposal whose witness was accepted.\<close>

lemma accept_proposal_ok:
  assumes ok: "rev_ok env S t e" and S: "blocks_apart env (blocks_of S)" "p \<in> S" and b: "rp_Block p = Some b"
    and v: "re_Verify env (rp_PK p) (rev_seed (rp_Round p)) (rp_Token p) (rp_Proof p)"
    and prior: "rg_rounds e (rp_Round p - 1) = Some prior" and qu: "Question (rg_chain e) (rb_Prev b) (rp_Witness p) prior = None"
  shows "\<exists>res e'. accept_proposal env p e = Some (Ok (res, e')) \<and> rev_ok env S t e'"
proof -
  let ?r = "rp_Round p"
  obtain en e1 where e1: "enter_round p e = (en, e1)" by fastforce
  have rok: "rounds_ok env S e" using ok by (simp add: rev_ok_def)
  note e1' = enter_round_ok [OF rok _ e1]
  obtain cur where cur: "rg_rounds e1 ?r = Some cur" using e1'(2) prior by auto
  obtain newt newp w tip r' where ob: "Observe env (rg_chain e1) p cur = Ok ((newt, newp, w, tip), r')"
      "rr_proposals r' = AList.update (RProposal_Hash env p) p (rr_proposals cur)"
    using Observe_ok [OF b] by blast
  define e2 where "e2 = (let e = e1\<lparr>rg_rounds := (rg_rounds e1)(?r \<mapsto> r')\<rparr> in case w of None \<Rightarrow> e
      | Some w \<Rightarrow> e\<lparr>rg_out := rg_out e @ [next_proposal env (rg_idn e) (?r + 1) tip w]\<rparr>)"
  have e2: "rg_rounds e2 = (rg_rounds e1)(?r \<mapsto> r')" "rg_chain e2 = rg_chain e" "rg_latest e2 = rg_latest e1"
    using e1'(3) prior by (auto simp: e2_def Let_def split: option.split)
  have ex2: "extends e1 e2" using e2 e1'(3) prior cur ob(2) by (auto simp: extends_def dom_update)
  then have ex: "extends e e2" using extends_trans e1'(4) prior by blast
  have "rounds_ok env S e2"
    using e1'(1) prior cur ob(2) S(2) by (auto simp: rounds_ok_def e2 update_conv' split: if_splits)
  then have ok2: "rev_ok env S t e2" by (intro rev_ok_extends [OF ok ex]) (simp_all add: e2)
  have run: "accept_proposal env p e = (if \<not> newp then Some (Ok (no_hresult\<lparr>hr_OtherEnteredNewRound := en\<rparr>, e2))
      else run_bind (RChain_Append env (rg_chain e2) b (RProposal_Rank p)) (\<lambda>c.
        Some (Ok (no_hresult\<lparr>hr_OtherEnteredNewRound := en, hr_Relayed := True\<rparr>, e2\<lparr>rg_chain := c, rg_out := rg_out e2 @ [p]\<rparr>))))"
    using cur ob(1) b by (simp add: accept_proposal_def e1 e2_def Let_def)
  have pb: "RChain_read (rg_chain e) (rb_Prev b) \<noteq> None" using qu by (auto simp: Question_def split: if_splits)
  have bB: "b \<in> blocks_of S" using S(2) b by (auto simp: blocks_of_def)
  have "i = RBlock_Hash env x \<and> x \<in> blocks_of S" if "RChain_read (rg_chain e) i = Some x" for i x
    using ok that by (simp add: rev_ok_def rchain_ok_def)
  then have nil: "rb_Prev b \<noteq> RNilID" using pb S(1) unfolding blocks_apart_def by (metis option.exhaust)
  have okc: "rchain_ok env (blocks_of S) (rg_chain e2)" using ok2 by (simp add: rev_ok_def)
  obtain c where c: "RChain_Append env (rg_chain e2) b (RProposal_Rank p) = Some (Ok c)" "rchain_ok env (blocks_of S) c"
      "RChain_read c = (RChain_read (rg_chain e2))(RBlock_Hash env b \<mapsto> b)"
      "rc_fixedWitnessThreshold c = rc_fixedWitnessThreshold (rg_chain e2)" "rc_genesis c = rc_genesis (rg_chain e2)"
    using RChain_Append_ok [of env "blocks_of S" "rg_chain e2" t b "RProposal_Rank p"] okc S(1) bB pb nil e2(2) by auto
  let ?e3 = "e2\<lparr>rg_chain := c, rg_out := rg_out e2 @ [p]\<rparr>"
  have ex3: "extends e2 ?e3" using c by (auto simp: extends_def WitnessThreshold_def)
  have wit: "witnessed env ?e3 p b"
  proof (rule witnessed_mono [OF _ extends_trans [OF ex ex3]])
    show "witnessed env e p b" using b v prior qu
      by (auto simp: witnessed_def Question_def map_of_eq_None_iff split: if_splits)
  qed
  have "rev_ok env S t ?e3" unfolding rev_ok_def
  proof (intro conjI allI impI)
    fix i x assume "RChain_read (rg_chain ?e3) i = Some x"
    then have "((RChain_read (rg_chain e2))(RBlock_Hash env b \<mapsto> b)) i = Some x" by (simp add: c(3))
    then consider "x = b" | "RChain_read (rg_chain e2) i = Some x" unfolding fun_upd_apply by (metis option.inject)
    then show "x = gen_block \<or> (\<exists>p \<in> S. witnessed env ?e3 p x)"
    proof cases
      case 1
      with wit S(2) show ?thesis by blast
    next
      case 2
      then have "x = gen_block \<or> (\<exists>p \<in> S. witnessed env e2 p x)" using ok2 by (simp add: rev_ok_def)
      then show ?thesis using witnessed_mono [OF _ ex3] by blast
    qed
  qed (use ok2 c in \<open>auto simp: rev_ok_def rounds_ok_def\<close>)
  with run c(1) ok2 show ?thesis by (cases newp) auto
qed

lemma REngine_Handle_ok:
  assumes ok: "rev_ok env S t e" and S: "blocks_apart env (blocks_of S)" "p \<in> S"
  shows "\<exists>e'. REngine_Handle env p e = Some (Ok e') \<and> rev_ok env S t e'"
proof -
  have keep: "rev_ok env S t (e\<lparr>rg_res := r\<rparr>)" if "rev_ok env S t e" for e r
    using that by (auto simp: rev_ok_def rounds_ok_def witnessed_def)
  let ?e = "e\<lparr>rg_res := None\<rparr>"
  note ok = keep [OF ok, of None]
  have "\<exists>res e'. handle_result env p ?e = Some (Ok (res, e')) \<and> rev_ok env S t e'"
  proof (cases "RProposal_Validate env p")
    case None
    then obtain b where b: "rp_Block p = Some b" "re_Verify env (rp_PK p) (rev_seed (rp_Round p)) (rp_Token p) (rp_Proof p)"
      by (auto simp: RProposal_Validate_def split: if_splits)
    show ?thesis
    proof (cases "rg_rounds ?e (rp_Round p - 1)")
      case (Some prior)
      show ?thesis
      proof (cases "Question (rg_chain ?e) (rb_Prev b) (rp_Witness p) prior")
        case None
        then have "handle_result env p ?e = accept_proposal env p ?e"
          using Some b \<open>RProposal_Validate env p = None\<close> by (simp add: handle_result_def)
        with accept_proposal_ok [OF ok S b Some None] show ?thesis by simp
      qed (use ok Some b None in \<open>simp add: handle_result_def\<close>)
    qed (use ok None in \<open>simp add: handle_result_def\<close>)
  qed (use ok in \<open>simp add: handle_result_def\<close>)
  then show ?thesis using keep by (auto simp: REngine_Handle_def)
qed

lemma RNewEngine_ok:
  assumes "blocks_apart env (blocks_of S)"
  shows "\<exists>e. RNewEngine env idn (RNewChain t) = Some (Ok e) \<and> rev_ok env S t e"
proof -
  have g: "rb_Prev gen_block = RNilID" "gen_block \<in> blocks_of S" by (simp_all add: gen_block_def blocks_of_def)
  obtain c where c: "RChain_Append env (RNewChain t) gen_block 0 = Some (Ok c)" "rchain_ok env (blocks_of S) c"
      "RChain_read c = [RBlock_Hash env gen_block \<mapsto> gen_block]" "rc_fixedWitnessThreshold c = t"
      "rc_genesis c = [RBlock_Hash env gen_block]"
    using RChain_Append_ok [of env "blocks_of S" "RNewChain t" t gen_block 0] assms g by auto
  obtain r where r: "RNewRound env [gen_proposal] = Ok r" "rr_proposals r = [(RProposal_Hash env gen_proposal, gen_proposal)]"
    by (simp add: RNewRound_def empty_round_def RRound_add_def gen_proposal_def Let_def)
  let ?e = "\<lparr>rg_res = None, rg_rounds = [0 \<mapsto> r], rg_latest = 0, rg_idn = idn, rg_gen = gen_proposal, rg_chain = c, rg_out = []\<rparr>"
  have "rounds_ok env S ?e" using r(2) by (auto simp: rounds_ok_def gen_proposal_def split: if_splits)
  moreover have "x = gen_block" if "RChain_read c i = Some x" for i x using that by (auto simp: c(3) split: if_splits)
  ultimately have "rev_ok env S t ?e" using c by (auto simp: rev_ok_def)
  then show ?thesis using c(1) r(1) by (simp add: RNewEngine_def)
qed

text \<open>The engine is a handler of the buffer.\<close>

interpretation rh: proposal_handler "REngine_Handle env" "\<lambda>p. p \<in> S \<and> blocks_apart env (blocks_of S)" "rev_ok env S t" for env S t
  by unfold_locales (auto intro: REngine_Handle_ok)

section \<open>Properties\<close>

text \<open>The proposals that were read: their hashes do not collide or go in circles, and neither do their blocks.\<close>

definition apart :: "rev_env \<Rightarrow> RProposal set \<Rightarrow> bool" where
  "apart env S \<longleftrightarrow> hash_links env S \<and> blocks_apart env (blocks_of S)"


text \<open>Order of delivery: the buffer hands each proposal to the engine after all its witnesses, and every
  proposal that was read and whose witnesses were handled is handled itself. (The list of handled ids has the
  last one first.)\<close>

theorem rev_delivers_in_order:
  assumes "apart env (set msgs)" "RNewEngine env idn (RNewChain t) = Some (Ok e)"
  shows "\<exists>q e'. rev_run env msgs (RNewOutOfOrder env [gen_proposal]) e = Some (Ok (q, e')) \<and>
    (\<forall>xs i ys. ro_handled q = xs @ i # ys \<longrightarrow> i = RProposal_Hash env gen_proposal \<or>
      (\<exists>p \<in> set msgs. RProposal_Hash env p = i \<and> set (rp_Witness p) \<subseteq> set ys)) \<and>
    (\<forall>p \<in> set msgs. set (rp_Witness p) \<subseteq> set (ro_handled q) \<longrightarrow> RProposal_Hash env p \<in> set (ro_handled q))"
proof -
  have S: "hash_links env (set msgs)" "blocks_apart env (blocks_of (set msgs))" using assms by (auto simp: apart_def)
  have ok: "rev_ok env (set msgs) t e" using RNewEngine_ok [OF S(2), of idn t] assms(2) by auto
  show ?thesis using rh.buffer_delivers [OF S(1) _ _ ok, of msgs "[gen_proposal]"] S(2)
    unfolding rev_run_def in_order_def by auto
qed

text \<open>The strongest chain: on a chain that grows from a genesis by new blocks on known ones, the strength of
  every block is defined and none is larger than that of the tip.\<close>

theorem rev_tip_strongest:
  assumes "rchain_run env B c" "blocks_apart env B" "RChain_read c i = Some b"
  shows "\<exists>n m. RChain_strength c i = Some (Ok n) \<and> RChain_strength c (RChain_Tip c) = Some (Ok m) \<and> n \<le> m"
proof -
  have ok: "rchain_ok env B c" "heaviest c" using rchain_run_ok [OF assms(1,2)] by auto
  obtain t where t: "RChain_read c (rc_tip c) = Some t" using ok(1) by (auto simp: rchain_ok_def)
  show ?thesis using strength_eq [OF ok(1) assms(3)] strength_eq [OF ok(1) t] ok(2) assms(3)
    by (auto simp: RChain_Tip_def heaviest_def)
qed

text \<open>The hash of a proposal does not depend on the order of its witnesses.\<close>

theorem proposal_hash_order:
  assumes "mset ws = mset (rp_Witness p)"
  shows "RProposal_Hash env (p\<lparr>rp_Witness := ws\<rparr>) = RProposal_Hash env p"
  by (simp add: RProposal_Hash_def PIDSet_Hash_def PIDSet_Sorted_def sort_perm [OF assms])

text \<open>The intersection holds the blocks of the first chain that all the others have.\<close>

theorem intersect_reads:
  "RChain_read (fst (IntersectChain fc cc)) i = (if \<forall>oc \<in> set cc. RChain_read oc i \<noteq> None then RChain_read fc i else None)"
proof -
  have "map_of (filter (\<lambda>(k, b). P k) xs) i = (if P i then map_of xs i else None)" for P and xs :: "(rid \<times> RBlock) list"
    by (induction xs) auto
  moreover have "rc_blocks (fst (IntersectChain fc cc)) = filter (\<lambda>(k, b). \<forall>oc \<in> set cc. RChain_read oc k \<noteq> None) (rc_blocks fc)"
    by (simp add: IntersectChain_def Let_def)
  ultimately show ?thesis unfolding RChain_read_def [of "fst (IntersectChain fc cc)"] RChain_read_def [of fc] by presburger
qed

section \<open>A concrete run\<close>

definition ex_rev :: rev_env where
  "ex_rev = \<lparr>re_sha = (\<lambda>x. 7 # x), re_Verify = (\<lambda>pk seed t pr. True), re_Prove = (\<lambda>seed sk. ([5], [])),
     re_GenerateKey = (\<lambda>r. Some (r, r)), re_text = (\<lambda>r pk. [])\<rparr>"

definition ex_rproposal :: RProposal where
  "ex_rproposal = \<lparr>rp_Round = 1, rp_Token = [5], rp_Proof = [], rp_PK = [],
     rp_Block = Some \<lparr>rb_Prev = RBlock_Hash ex_rev gen_block, rb_Data = [1]\<rparr>,
     rp_Witness = [RProposal_Hash ex_rev gen_proposal]\<rparr>"

lemma ex_apart: "apart ex_rev (set [ex_rproposal])"
proof -
  have h: "RBlock_Hash ex_rev b = 7 # rb_Prev b @ rb_Data b" for b by (simp add: RBlock_Hash_def ex_rev_def)
  have nil: "7 # xs \<noteq> RNilID" for xs
  proof
    assume "7 # xs = RNilID"
    then have "hd (7 # xs) = hd RNilID" by simp
    then show False by (simp add: RNilID_def)
  qed
  have "length (RProposal_Hash ex_rev gen_proposal) < length (RProposal_Hash ex_rev ex_rproposal)"
    by (simp add: RProposal_Hash_def ex_rproposal_def PIDSet_Hash_def PIDSet_Sorted_def ex_rev_def Let_def gen_proposal_def)
  then have "hash_links ex_rev (set [ex_rproposal])"
    unfolding hash_links_def by (intro conjI exI [of _ length]) (simp_all add: ex_rproposal_def)
  moreover have "blocks_apart ex_rev (blocks_of (set [ex_rproposal]))"
    using nil by (auto simp: blocks_apart_def blocks_of_def h inj_on_def gen_block_def ex_rproposal_def)
  ultimately show ?thesis by (simp add: apart_def)
qed


theorem rev_delivers_in_order_witness:
  "\<exists>q e e'. rev_run ex_rev [ex_rproposal] (RNewOutOfOrder ex_rev [gen_proposal]) e = Some (Ok (q, e'))"
proof -
  have "blocks_apart ex_rev (blocks_of (set [ex_rproposal]))" using ex_apart by (simp add: apart_def)
  then obtain e where "RNewEngine ex_rev \<lparr>ri_pk = [], ri_sk = []\<rparr> (RNewChain 2) = Some (Ok e)" using RNewEngine_ok by blast
  from rev_delivers_in_order [OF ex_apart this] show ?thesis by blast
qed

theorem rev_tip_strongest_witness:
  "\<exists>c n m. RChain_strength c (RBlock_Hash ex_rev gen_block) = Some (Ok n) \<and> RChain_strength c (RChain_Tip c) = Some (Ok m) \<and> n \<le> m"
proof -
  have S: "blocks_apart ex_rev (blocks_of (set [ex_rproposal]))" using ex_apart by (simp add: apart_def)
  have g: "rb_Prev gen_block = RNilID" "gen_block \<in> blocks_of S" for S by (simp_all add: gen_block_def blocks_of_def)
  obtain c where c: "RChain_Append ex_rev (RNewChain 2) gen_block 0 = Some (Ok c)"
      "RChain_read c = (RChain_read (RNewChain 2))(RBlock_Hash ex_rev gen_block \<mapsto> gen_block)"
    using RChain_Append_ok [OF _ S g(2), of "RNewChain 2" 2 0] g(1) by auto
  have "rchain_run ex_rev (blocks_of (set [ex_rproposal])) c" using rchain_run.genesis [OF g c(1)] .
  from rev_tip_strongest [OF this S, of "RBlock_Hash ex_rev gen_block" gen_block] c(2) show ?thesis by auto
qed

end
