(* ===== verification/Topn.thy ===== *)
theory Topn
  imports Prelude
begin

text \<open>
  The prototype of package \<open>topn\<close>: \<^verbatim>\<open>src/exp/topn/block.go\<close> (blocks whose id starts with their round),
  \<^verbatim>\<open>round.go\<close> (the blocks of a round in the order of their ranks), \<^verbatim>\<open>identity.go\<close> (minting) and \<^verbatim>\<open>chain.go\<close> (weights
  shared by rank and the heaviest tip).

  Parameters: SHA-256, the VRF, and the order in which \<^verbatim>\<open>sort.Slice\<close> leaves the blocks of a round. The loop over
  rounds has a counter that wraps: it is a \<open>partial_function\<close>. A Go slice has fewer than \<open>2 ^ 63\<close> elements, so
  that a position of the ranking is never zero as \<^verbatim>\<open>uint64\<close>.
\<close>

section \<open>Blocks\<close>

type_synonym tid = bytes

record TTx =
  tt_FromPK :: bytes
  tt_ToPK :: bytes
  tt_Amount :: u64

record TBlock =
  tb_Round :: u64
  tb_Prev :: tid
  tb_Token :: bytes
  tb_Proof :: bytes
  tb_PK :: bytes
  tb_Txs :: "TTx list"

datatype topn_err = ErrFutureRound | ErrZeroRound | ErrBlockExist | ErrDoublePropose | ErrBlockNotExist
  | ErrPrevNotExist | ErrNonIncreasingRound | ErrInvalidToken | ErrZeroRank | ErrRankTooLow

record Troundb =
  trb_id :: tid
  trb_rank :: int
  trb_block :: TBlock

record topn_env =
  te_sha :: "bytes \<Rightarrow> bytes"
  te_Verify :: "bytes \<Rightarrow> bytes \<Rightarrow> bytes \<Rightarrow> bytes \<Rightarrow> bool"
  te_Prove :: "bytes \<Rightarrow> bytes \<Rightarrow> bytes \<times> bytes"
  te_GenerateKey :: "bytes \<Rightarrow> (bytes \<times> bytes) option"
  te_sort :: "Troundb list \<Rightarrow> Troundb list"

definition TID_Round :: "tid \<Rightarrow> u64" where
  "TID_Round i = u64_of i"

definition TTx_Hash :: "topn_env \<Rightarrow> TTx \<Rightarrow> bytes" where
  "TTx_Hash env tx = te_sha env (put_uint64 (tt_Amount tx) @ tt_FromPK tx @ tt_ToPK tx)"

definition TAppendTx :: "TBlock \<Rightarrow> TTx list \<Rightarrow> TBlock" where
  "TAppendTx b txs = b\<lparr>tb_Txs := tb_Txs b @ txs\<rparr>"

definition TBlock_Hash :: "topn_env \<Rightarrow> TBlock \<Rightarrow> tid" where
  "TBlock_Hash env b =
     (let roundb = put_uint64 (tb_Round b);
          i = te_sha env (roundb @ tb_Prev b @ tb_Token b @ tb_Proof b @ tb_PK b @ concat (map (TTx_Hash env) (tb_Txs b)))
      in roundb @ drop 8 i)"

text \<open>The stake is converted to \<^verbatim>\<open>int64\<close> before it multiplies the token.\<close>

definition TBlock_Rank :: "TBlock \<Rightarrow> u64 \<Rightarrow> int" where
  "TBlock_Rank b stake = int (be_nat (tb_Token b)) * sint stake"

record TIdentity =
  ti_pk :: bytes
  ti_sk :: bytes

definition TNewIdentity :: "topn_env \<Rightarrow> bytes \<Rightarrow> (topn_err, TIdentity) res" where
  "TNewIdentity env rndid =
     (case te_GenerateKey env (take 32 (rndid @ replicate 32 0)) of
        None \<Rightarrow> Panic | Some (pk, sk) \<Rightarrow> Ok \<lparr>ti_pk = pk, ti_sk = sk\<rparr>)"

definition TMint :: "topn_env \<Rightarrow> TIdentity \<Rightarrow> u64 \<Rightarrow> tid \<Rightarrow> TBlock" where
  "TMint env idn rnd prev =
     (let (token, pr) = te_Prove env prev (ti_sk idn)
      in \<lparr>tb_Round = rnd, tb_Prev = prev, tb_Token = token, tb_Proof = pr,
          tb_PK = take 32 (ti_pk idn @ replicate 32 0), tb_Txs = []\<rparr>)"

section \<open>Rounds\<close>

record Tround =
  trd_blocks :: "(tid \<times> Troundb) list"
  trd_idns :: "bytes list"

definition newRound :: Tround where
  "newRound = \<lparr>trd_blocks = [], trd_idns = []\<rparr>"

definition round_Set :: "tid \<Rightarrow> TBlock \<Rightarrow> int \<Rightarrow> Tround \<Rightarrow> Tround" where
  "round_Set i b rank r =
     r\<lparr>trd_blocks := AList.update i \<lparr>trb_id = i, trb_rank = rank, trb_block = b\<rparr> (trd_blocks r),
       trd_idns := List.insert (tb_PK b) (trd_idns r)\<rparr>"

definition HasBlock :: "Tround \<Rightarrow> tid \<Rightarrow> bool" where
  "HasBlock r i \<longleftrightarrow> map_of (trd_blocks r) i \<noteq> None"

definition SawIdentity :: "Tround \<Rightarrow> bytes \<Rightarrow> bool" where
  "SawIdentity r pk \<longleftrightarrow> pk \<in> set (trd_idns r)"

definition Ranked :: "topn_env \<Rightarrow> Tround \<Rightarrow> Troundb list" where
  "Ranked env r = te_sort env (map snd (trd_blocks r))"

section \<open>The chain\<close>

record TChain =
  tc_points :: u64
  tc_rounds :: "u64 \<rightharpoonup> Tround"
  tc_tip :: tid
  tc_tipw :: u64
  tc_curr :: u64
  tc_gen :: tid
  tc_weights :: "tid \<rightharpoonup> u64"

definition TAdvance :: "TChain \<Rightarrow> TChain" where
  "TAdvance c = c\<lparr>tc_curr := tc_curr c + 1, tc_rounds := (tc_rounds c)(tc_curr c + 1 \<mapsto> newRound)\<rparr>"

definition TNewChain :: "topn_env \<Rightarrow> TBlock \<Rightarrow> TChain" where
  "TNewChain env g =
     (let gen = TBlock_Hash env g
      in TAdvance \<lparr>tc_points = 1000, tc_rounds = [0 \<mapsto> round_Set gen g (TBlock_Rank g 1) newRound], tc_tip = gen, tc_tipw = 0,
           tc_curr = 0, tc_gen = gen, tc_weights = Map.empty\<rparr>)"

definition TChain_Round :: "TChain \<Rightarrow> u64" where
  "TChain_Round c = tc_curr c"

definition TChain_Tip :: "TChain \<Rightarrow> tid" where
  "TChain_Tip c = tc_tip c"

text \<open>Balances and thresholds are constants in the code.\<close>

definition TChain_balance :: "TChain \<Rightarrow> tid \<Rightarrow> bytes \<Rightarrow> u64" where
  "TChain_balance c tip pk = 1"

definition TChain_threshold :: "TChain \<Rightarrow> tid \<Rightarrow> int" where
  "TChain_threshold c tip = 0"

definition TChain_read :: "TChain \<Rightarrow> tid \<Rightarrow> TBlock option \<times> u64" where
  "TChain_read c i =
     (case tc_rounds c (TID_Round i) of
        None \<Rightarrow> (None, 0)
      | Some r \<Rightarrow>
          (case map_of (trd_blocks r) i of
             None \<Rightarrow> (None, 0)
           | Some rb \<Rightarrow> (Some (trb_block rb), case tc_weights c i of None \<Rightarrow> 0 | Some w \<Rightarrow> w)))"

definition TChain_Read :: "TChain \<Rightarrow> tid \<Rightarrow> (topn_err, TBlock \<times> u64) res" where
  "TChain_Read c i = (case TChain_read c i of (None, w) \<Rightarrow> Err ErrBlockNotExist | (Some b, w) \<Rightarrow> Ok (b, w))"

text \<open>The callback of \<^verbatim>\<open>Ranked\<close> in \<^verbatim>\<open>Append\<close>, on the block at position \<open>pos\<close>.\<close>

definition weigh_block :: "nat \<Rightarrow> Troundb \<Rightarrow> TChain \<Rightarrow> TChain" where
  "weigh_block pos rb c =
     (let w = tc_points c div word_of_nat pos; prevw = snd (TChain_read c (tb_Prev (trb_block rb))); sumw = prevw + w;
          c = c\<lparr>tc_weights := (tc_weights c)(trb_id rb \<mapsto> sumw)\<rparr>
      in if sumw \<ge> tc_tipw c then c\<lparr>tc_tip := trb_id rb, tc_tipw := sumw\<rparr> else c)"

fun weigh_ranked :: "nat \<Rightarrow> Troundb list \<Rightarrow> TChain \<Rightarrow> TChain" where
  "weigh_ranked i [] c = c"
| "weigh_ranked i (rb # rbs) c = weigh_ranked (i + 1) rbs (weigh_block (i + 1) rb c)"

partial_function (option) weigh_from :: "topn_env \<Rightarrow> u64 \<Rightarrow> TChain \<Rightarrow> (topn_err, TChain) res option" where
  "weigh_from env rn c =
     (if rn \<le> tc_curr c then
        (case tc_rounds c rn of
           None \<Rightarrow> Some Panic
         | Some r \<Rightarrow> weigh_from env (rn + 1) (weigh_ranked 0 (Ranked env r) c))
      else Some (Ok c))"

text \<open>The checks of \<^verbatim>\<open>Append\<close>, in their order. (The loop that only counts from the round of the predecessor to that
  of the block has no effect.)\<close>

definition topn_check :: "topn_env \<Rightarrow> TChain \<Rightarrow> TBlock \<Rightarrow> topn_err option" where
  "topn_check env c b =
     (if \<not> te_Verify env (tb_PK b) (tb_Prev b) (tb_Token b) (tb_Proof b) then Some ErrInvalidToken
      else if tb_Round b < 1 then Some ErrZeroRound
      else if tb_Round b \<le> TID_Round (tb_Prev b) then Some ErrNonIncreasingRound
      else if tb_Round b > tc_curr c then Some ErrFutureRound
      else if fst (TChain_read c (tb_Prev b)) = None then Some ErrPrevNotExist
      else let rank = TBlock_Rank b (TChain_balance c (tb_Prev b) (tb_PK b))
      in if rank = 0 then Some ErrZeroRank
         else if rank \<le> TChain_threshold c (tb_Prev b) then Some ErrRankTooLow
         else None)"

definition TChain_Append :: "topn_env \<Rightarrow> TChain \<Rightarrow> TBlock \<Rightarrow> (topn_err, TChain) res option" where
  "TChain_Append env c b =
     (case topn_check env c b of
        Some err \<Rightarrow> Some (Err err)
      | None \<Rightarrow>
          let rank = TBlock_Rank b (TChain_balance c (tb_Prev b) (tb_PK b)); i = TBlock_Hash env b
          in case tc_rounds c (TID_Round i) of
               None \<Rightarrow> Some Panic
             | Some r \<Rightarrow>
                 if HasBlock r i then Some (Err ErrBlockExist)
                 else if SawIdentity r (tb_PK b) then Some (Err ErrDoublePropose)
                 else weigh_from env (tb_Round b) (c\<lparr>tc_rounds := (tc_rounds c)(TID_Round i \<mapsto> round_Set i b rank r)\<rparr>))"

section \<open>Weights follow the ranks\<close>

definition topn_sort_ok :: "topn_env \<Rightarrow> bool" where
  "topn_sort_ok env \<longleftrightarrow> (\<forall>rbs. mset (te_sort env rbs) = mset rbs \<and> sorted_wrt (\<lambda>x y. trb_rank y \<le> trb_rank x) (te_sort env rbs))"

lemma TID_Round_Hash [simp]: "TID_Round (TBlock_Hash env b) = tb_Round b"
  by (simp add: TID_Round_def TBlock_Hash_def Let_def u64_of_def)

text \<open>What the chain knows of the block at \<open>i\<close>: its entry in the round of the id.\<close>

definition entry :: "TChain \<Rightarrow> tid \<Rightarrow> Troundb option" where
  "entry c i = (case tc_rounds c (TID_Round i) of None \<Rightarrow> None | Some r \<Rightarrow> map_of (trd_blocks r) i)"

definition weight :: "TChain \<Rightarrow> tid \<Rightarrow> u64" where
  "weight c i = snd (TChain_read c i)"

lemma fst_read: "fst (TChain_read c i) = map_option trb_block (entry c i)"
  by (simp add: TChain_read_def entry_def split: option.split)

lemma weight_eq: "weight c i = (if entry c i = None then 0 else case tc_weights c i of None \<Rightarrow> 0 | Some w \<Rightarrow> w)"
  by (auto simp: weight_def TChain_read_def entry_def split: option.splits)

text \<open>In round \<open>r\<close> the block at each position of the ranking has the weight of its predecessor and its share of the points.\<close>

definition weighted :: "topn_env \<Rightarrow> TChain \<Rightarrow> u64 \<Rightarrow> bool" where
  "weighted env c r \<longleftrightarrow> (\<forall>rd k. tc_rounds c r = Some rd \<longrightarrow> k < length (Ranked env rd) \<longrightarrow>
     tc_weights c (trb_id (Ranked env rd ! k)) =
       Some (weight c (tb_Prev (trb_block (Ranked env rd ! k))) + tc_points c div word_of_nat (k + 1)))"

definition same_rounds :: "TChain \<Rightarrow> TChain \<Rightarrow> bool" where
  "same_rounds c c' \<longleftrightarrow> tc_rounds c' = tc_rounds c \<and> tc_curr c' = tc_curr c \<and> tc_points c' = tc_points c \<and> tc_gen c' = tc_gen c"

lemma weigh_block_same: "same_rounds c (weigh_block pos rb c)"
  by (simp add: weigh_block_def same_rounds_def Let_def)

lemma weigh_ranked_same: "same_rounds c (weigh_ranked i rbs c)"
proof (induction i rbs c rule: weigh_ranked.induct)
  case (2 i rb rbs c)
  then show ?case using weigh_block_same [of c "i + 1" rb] by (simp add: same_rounds_def)
qed (simp add: same_rounds_def)

lemma entry_same: "same_rounds c c' \<Longrightarrow> entry c' = entry c"
  by (auto simp: entry_def same_rounds_def)

lemma weigh_block_weights:
  "tc_weights (weigh_block pos rb c) =
     (tc_weights c)(trb_id rb \<mapsto> weight c (tb_Prev (trb_block rb)) + tc_points c div word_of_nat pos)"
  by (simp add: weigh_block_def weight_def Let_def)

lemma weigh_ranked_other: "i \<notin> trb_id ` set rbs \<Longrightarrow> tc_weights (weigh_ranked k rbs c) i = tc_weights c i"
  by (induction k rbs c rule: weigh_ranked.induct) (auto simp: weigh_block_weights)

lemma weight_other:
  "i \<notin> trb_id ` set rbs \<Longrightarrow> weight (weigh_ranked k rbs c) i = weight c i"
  using entry_same [OF weigh_ranked_same] by (simp add: weight_eq weigh_ranked_other)

lemma weigh_ranked_weights:
  assumes "distinct (map trb_id rbs)" "\<forall>rb \<in> set rbs. tb_Prev (trb_block rb) \<notin> trb_id ` set rbs" "j < length rbs"
  shows "tc_weights (weigh_ranked k rbs c) (trb_id (rbs ! j)) =
    Some (weight c (tb_Prev (trb_block (rbs ! j))) + tc_points c div word_of_nat (k + j + 1))"
  using assms
proof (induction rbs arbitrary: k c j)
  case (Cons rb rbs)
  let ?c = "weigh_block (k + 1) rb c"
  have pts: "tc_points ?c = tc_points c" using weigh_block_same by (simp add: same_rounds_def)
  show ?case
  proof (cases j)
    case 0
    have "trb_id rb \<notin> trb_id ` set rbs" using Cons.prems(1) by auto
    with 0 show ?thesis by (simp add: weigh_ranked_other weigh_block_weights)
  next
    case (Suc j')
    let ?p = "tb_Prev (trb_block (rbs ! j'))"
    have "?p \<noteq> trb_id rb" using Cons.prems(2,3) Suc by auto
    then have "weight ?c ?p = weight c ?p" using entry_same [OF weigh_block_same] by (simp add: weight_eq weigh_block_weights)
    with Suc Cons.IH [of j' "k + 1" ?c] Cons.prems pts show ?thesis by simp
  qed
qed simp

text \<open>The tip and the largest weight.\<close>

definition tip_bound :: "TChain \<Rightarrow> bool" where
  "tip_bound c \<longleftrightarrow> (\<forall>i w. tc_weights c i = Some w \<longrightarrow> w \<le> tc_tipw c) \<and> entry c (tc_tip c) \<noteq> None"

lemma weigh_block_bound: "tip_bound c \<Longrightarrow> entry c (trb_id rb) \<noteq> None \<Longrightarrow> tip_bound (weigh_block pos rb c)"
  using entry_same [OF weigh_block_same [of c pos rb]]
  by (fastforce simp: tip_bound_def weigh_block_def Let_def)

lemma weigh_ranked_bound:
  "tip_bound c \<Longrightarrow> \<forall>rb \<in> set rbs. entry c (trb_id rb) \<noteq> None \<Longrightarrow> tip_bound (weigh_ranked k rbs c)"
proof (induction k rbs c rule: weigh_ranked.induct)
  case (2 k rb rbs c)
  then show ?case using weigh_block_bound entry_same [OF weigh_block_same [of c "k + 1" rb]] by simp
qed simp

section \<open>The invariant of the chain\<close>

definition round_ok :: "topn_env \<Rightarrow> TChain \<Rightarrow> u64 \<Rightarrow> Tround \<Rightarrow> bool" where
  "round_ok env c r rd \<longleftrightarrow> wf_amap (trd_blocks rd) \<and> set (trd_idns rd) = (\<lambda>(i, rb). tb_PK (trb_block rb)) ` set (trd_blocks rd) \<and>
     (\<forall>(i, rb) \<in> set (trd_blocks rd). trb_id rb = i \<and> i = TBlock_Hash env (trb_block rb) \<and> tb_Round (trb_block rb) = r \<and>
        trb_rank rb = TBlock_Rank (trb_block rb) 1 \<and>
        (r \<noteq> 0 \<longrightarrow> TID_Round (tb_Prev (trb_block rb)) < r \<and> entry c (tb_Prev (trb_block rb)) \<noteq> None \<and>
           0 < trb_rank rb \<and> te_Verify env (tb_PK (trb_block rb)) (tb_Prev (trb_block rb)) (tb_Token (trb_block rb)) (tb_Proof (trb_block rb)))) \<and>
     inj_on (\<lambda>(i, rb). tb_PK (trb_block rb)) (set (trd_blocks rd))"

definition rounds_known :: "topn_env \<Rightarrow> TChain \<Rightarrow> bool" where
  "rounds_known env c \<longleftrightarrow> (\<forall>r. tc_rounds c r \<noteq> None \<longleftrightarrow> r \<le> tc_curr c) \<and> (\<forall>r rd. tc_rounds c r = Some rd \<longrightarrow> round_ok env c r rd)"

definition topn_ok :: "topn_env \<Rightarrow> TChain \<Rightarrow> bool" where
  "topn_ok env c \<longleftrightarrow> tc_points c = 1000 \<and> rounds_known env c \<and> tip_bound c \<and> (\<forall>r. r \<noteq> 0 \<longrightarrow> weighted env c r)"

lemma known_round: "rounds_known env c \<Longrightarrow> r \<le> tc_curr c \<Longrightarrow> \<exists>rd. tc_rounds c r = Some rd"
  unfolding rounds_known_def by blast

lemma rounds_known_same: "same_rounds c c' \<Longrightarrow> rounds_known env c' = rounds_known env c"
  using entry_same [of c c'] by (simp add: rounds_known_def round_ok_def same_rounds_def)

lemma Ranked_set: "topn_sort_ok env \<Longrightarrow> set (Ranked env rd) = snd ` set (trd_blocks rd)"
  unfolding topn_sort_ok_def Ranked_def by (metis list.set_map set_mset_mset)

lemma Ranked_ids:
  assumes "topn_sort_ok env" "round_ok env c r rd"
  shows "distinct (map trb_id (Ranked env rd))"
proof -
  have ids: "map (trb_id \<circ> snd) (trd_blocks rd) = map fst (trd_blocks rd)"
    using assms(2) by (auto simp: round_ok_def)
  have "mset (map trb_id (Ranked env rd)) = mset (map trb_id (map snd (trd_blocks rd)))"
    using assms(1) unfolding topn_sort_ok_def Ranked_def by (metis mset_map)
  also have "\<dots> = mset (map fst (trd_blocks rd))" using ids by (metis map_map)
  finally show ?thesis using assms(2) by (metis mset_eq_imp_distinct_iff round_ok_def wf_amap_def)
qed

lemma Ranked_entry:
  assumes "topn_sort_ok env" "rounds_known env c" "tc_rounds c r = Some rd" "rb \<in> set (Ranked env rd)"
  shows "entry c (trb_id rb) = Some rb" and "TID_Round (trb_id rb) = r"
    and "r \<noteq> 0 \<Longrightarrow> TID_Round (tb_Prev (trb_block rb)) < r" and "r \<noteq> 0 \<Longrightarrow> entry c (tb_Prev (trb_block rb)) \<noteq> None"
proof -
  have rok: "round_ok env c r rd" using assms(2,3) by (simp add: rounds_known_def)
  obtain i where i: "(i, rb) \<in> set (trd_blocks rd)" using assms(4) Ranked_set [OF assms(1)] by auto
  have f: "trb_id rb = i \<and> i = TBlock_Hash env (trb_block rb) \<and> tb_Round (trb_block rb) = r \<and>
      (r \<noteq> 0 \<longrightarrow> TID_Round (tb_Prev (trb_block rb)) < r \<and> entry c (tb_Prev (trb_block rb)) \<noteq> None)"
    using rok i unfolding round_ok_def by blast
  then show r: "TID_Round (trb_id rb) = r" by simp
  show "entry c (trb_id rb) = Some rb"
    using i f r assms(3) rok by (simp add: entry_def round_ok_def wf_amap_def)
  show "r \<noteq> 0 \<Longrightarrow> TID_Round (tb_Prev (trb_block rb)) < r" "r \<noteq> 0 \<Longrightarrow> entry c (tb_Prev (trb_block rb)) \<noteq> None" using f by auto
qed

text \<open>Weighing a round leaves the earlier rounds as they are.\<close>

lemma weigh_round:
  assumes sort: "topn_sort_ok env" and k: "rounds_known env c" and rd: "tc_rounds c rn = Some rd" and rn: "rn \<noteq> 0"
    and before: "\<And>r. r \<noteq> 0 \<Longrightarrow> r < rn \<Longrightarrow> weighted env c r" and tb: "tip_bound c"
  shows "\<forall>r. r \<noteq> 0 \<longrightarrow> r \<le> rn \<longrightarrow> weighted env (weigh_ranked 0 (Ranked env rd) c) r"
    and "tip_bound (weigh_ranked 0 (Ranked env rd) c)"
proof -
  let ?rbs = "Ranked env rd" and ?c = "weigh_ranked 0 (Ranked env rd) c"
  have same: "same_rounds c ?c" by (rule weigh_ranked_same)
  have out: "i \<notin> trb_id ` set ?rbs" if "TID_Round i \<noteq> rn" for i
    using that Ranked_entry(2) [OF sort k rd] by auto
  have low: "weight ?c i = weight c i" "tc_weights ?c i = tc_weights c i" if "TID_Round i < rn" for i
    using out [of i] that by (simp_all add: weight_other weigh_ranked_other)
  show "tip_bound ?c" using Ranked_entry(1) [OF sort k rd] by (intro weigh_ranked_bound [OF tb]) auto
  show "\<forall>r. r \<noteq> 0 \<longrightarrow> r \<le> rn \<longrightarrow> weighted env ?c r"
  proof (intro allI impI)
    fix r :: u64 assume r: "r \<noteq> 0" "r \<le> rn"
    show "weighted env ?c r"
    proof (cases "r = rn")
      case True
      have "distinct (map trb_id ?rbs)" using Ranked_ids [OF sort, of c rn rd] k rd by (simp add: rounds_known_def)
      moreover have "\<forall>rb \<in> set ?rbs. tb_Prev (trb_block rb) \<notin> trb_id ` set ?rbs"
        using out Ranked_entry(3) [OF sort k rd _ rn] by (metis order.strict_implies_not_eq)
      ultimately have w: "tc_weights ?c (trb_id (?rbs ! j)) =
          Some (weight c (tb_Prev (trb_block (?rbs ! j))) + tc_points c div word_of_nat (j + 1))" if "j < length ?rbs" for j
        using weigh_ranked_weights [of ?rbs j 0 c] that by simp
      have "weight ?c (tb_Prev (trb_block (?rbs ! j))) = weight c (tb_Prev (trb_block (?rbs ! j)))" if "j < length ?rbs" for j
        using low(1) Ranked_entry(3) [OF sort k rd _ rn] that by simp
      with w True rd same show ?thesis by (simp add: weighted_def same_rounds_def)
    next
      case False
      with r have lt: "r < rn" by simp
      have "weighted env c r" by (rule before [OF r(1) lt])
      moreover have "TID_Round (trb_id (Ranked env rd' ! j)) < rn \<and> TID_Round (tb_Prev (trb_block (Ranked env rd' ! j))) < rn"
        if "tc_rounds c r = Some rd'" "j < length (Ranked env rd')" for rd' j
        using Ranked_entry(2,3) [OF sort k that(1) nth_mem [OF that(2)]] r(1) lt by simp
      ultimately show ?thesis using same low unfolding weighted_def same_rounds_def by simp
    qed
  qed
qed

text \<open>The loop over the rounds ends below the largest round number, with all rounds weighed.\<close>

lemma weigh_from_ok:
  assumes "topn_sort_ok env" "rounds_known env c" "tip_bound c" "tc_curr c \<noteq> - 1" "rn \<noteq> 0" "rn \<le> tc_curr c + 1"
    and "\<And>r. r \<noteq> 0 \<Longrightarrow> r < rn \<Longrightarrow> weighted env c r"
  shows "\<exists>c'. weigh_from env rn c = Some (Ok c') \<and> same_rounds c c' \<and> tip_bound c' \<and>
    (\<forall>r. r \<noteq> 0 \<longrightarrow> r \<le> tc_curr c \<longrightarrow> weighted env c' r)"
  using assms(2-)
proof (induction "unat (tc_curr c + 1) - unat rn" arbitrary: rn c)
  case 0
  then have "rn = tc_curr c + 1" by (simp add: word_le_nat_alt word_unat_eq_iff)
  then have lt: "\<And>r. r \<le> tc_curr c \<Longrightarrow> r < rn" using less_Suc_u64 [OF "0.prems"(3)] by blast
  then have "weigh_from env rn c = Some (Ok c)" by (subst weigh_from.simps) auto
  with "0.prems" lt show ?case by (auto simp: same_rounds_def)
next
  case (Suc n)
  have lt: "unat rn < unat (tc_curr c) + 1" using Suc.hyps(2) unat_Suc_u64 [OF Suc.prems(3)] by simp
  then have le: "rn \<le> tc_curr c" by (simp add: word_le_nat_alt)
  have rn: "rn \<noteq> - 1" using le Suc.prems(3) by (metis word_order.extremum_unique)
  obtain rd where rd: "tc_rounds c rn = Some rd" using known_round [OF Suc.prems(1) le] by blast
  let ?c = "weigh_ranked 0 (Ranked env rd) c"
  have same: "same_rounds c ?c" by (rule weigh_ranked_same)
  note wr = weigh_round [OF assms(1) Suc.prems(1) rd Suc.prems(4) Suc.prems(6) Suc.prems(2)]
  have cur: "tc_curr ?c = tc_curr c" using same by (simp add: same_rounds_def)
  have u: "unat (rn + 1) = unat rn + 1" by (rule unat_Suc_u64 [OF rn])
  have "\<exists>c'. weigh_from env (rn + 1) ?c = Some (Ok c') \<and> same_rounds ?c c' \<and> tip_bound c' \<and>
      (\<forall>r. r \<noteq> 0 \<longrightarrow> r \<le> tc_curr ?c \<longrightarrow> weighted env c' r)"
  proof (rule Suc.hyps(1))
    show "n = unat (tc_curr ?c + 1) - unat (rn + 1)" using Suc.hyps(2) u cur by simp
    show "rounds_known env ?c" using rounds_known_same [OF same] Suc.prems(1) by simp
    show "rn + 1 \<noteq> 0" using u by auto
    show "rn + 1 \<le> tc_curr ?c + 1" using lt u cur unat_Suc_u64 [OF Suc.prems(3)] by (simp add: word_le_nat_alt)
    show "weighted env ?c r" if "r \<noteq> 0" "r < rn + 1" for r
      using wr(1) that u by (simp add: word_less_nat_alt word_le_nat_alt)
  qed (use wr(2) cur Suc.prems in simp_all)
  moreover have "weigh_from env rn c = weigh_from env (rn + 1) ?c" using le rd by (subst weigh_from.simps) simp
  ultimately show ?case using same cur by (auto simp: same_rounds_def)
qed

lemma round_ok_more:
  assumes "round_ok env c r rd" "\<And>i. entry c i \<noteq> None \<Longrightarrow> entry c' i \<noteq> None"
  shows "round_ok env c' r rd"
  using assms unfolding round_ok_def by fastforce

lemma topn_check_None:
  assumes "topn_check env c b = None"
  shows "te_Verify env (tb_PK b) (tb_Prev b) (tb_Token b) (tb_Proof b)" and "tb_Round b \<noteq> 0"
    and "TID_Round (tb_Prev b) < tb_Round b" and "tb_Round b \<le> tc_curr c" and "entry c (tb_Prev b) \<noteq> None"
    and "0 < TBlock_Rank b 1"
  using assms by (auto simp: topn_check_def fst_read TChain_threshold_def TChain_balance_def Let_def split: if_splits)

text \<open>Storing a block in its round.\<close>

lemma store_known:
  assumes k: "rounds_known env c" and ch: "topn_check env c b = None" and r: "tc_rounds c (tb_Round b) = Some rd"
    and new: "\<not> HasBlock rd (TBlock_Hash env b)" "\<not> SawIdentity rd (tb_PK b)"
    and c': "c' = c\<lparr>tc_rounds := (tc_rounds c)(tb_Round b \<mapsto> round_Set (TBlock_Hash env b) b (TBlock_Rank b 1) rd)\<rparr>"
  shows "rounds_known env c'" and "\<And>i. entry c' i = (if i = TBlock_Hash env b
    then Some \<lparr>trb_id = i, trb_rank = TBlock_Rank b 1, trb_block = b\<rparr> else entry c i)"
proof -
  let ?i = "TBlock_Hash env b" and ?rd = "round_Set (TBlock_Hash env b) b (TBlock_Rank b 1) rd"
  let ?rb = "\<lparr>trb_id = ?i, trb_rank = TBlock_Rank b 1, trb_block = b\<rparr>"
  note ch = topn_check_None [OF ch]
  show e: "entry c' i = (if i = ?i then Some \<lparr>trb_id = i, trb_rank = TBlock_Rank b 1, trb_block = b\<rparr> else entry c i)" for i
    using r by (auto simp: c' entry_def round_Set_def update_conv')
  then have more: "\<And>i. entry c i \<noteq> None \<Longrightarrow> entry c' i \<noteq> None" by simp
  have rok: "round_ok env c (tb_Round b) rd" using k r by (simp add: rounds_known_def)
  have key: "?i \<notin> fst ` set (trd_blocks rd)" using new(1) by (auto simp: HasBlock_def map_of_eq_None_iff)
  have wf: "wf_amap (trd_blocks rd)" using rok by (simp add: round_ok_def)
  have set: "set (trd_blocks ?rd) = insert (?i, ?rb) (set (trd_blocks rd))"
    using key by (force simp: round_Set_def set_alist_update [OF wf])
  have pk: "tb_PK b \<notin> (\<lambda>(i, rb). tb_PK (trb_block rb)) ` set (trd_blocks rd)"
    using new(2) rok by (simp add: SawIdentity_def round_ok_def)
  have wf': "wf_amap (trd_blocks ?rd)" using wf by (auto simp: round_Set_def)
  have ids: "set (trd_idns ?rd) = insert (tb_PK b) (set (trd_idns rd))" by (simp add: round_Set_def)
  have here: "round_ok env c' (tb_Round b) ?rd"
    using round_ok_more [OF rok more] wf' ids pk ch(1,3,5,6) more unfolding round_ok_def set by (auto simp: inj_on_insert)
  have rs: "tc_rounds c' = (tc_rounds c)(tb_Round b \<mapsto> ?rd)" "tc_curr c' = tc_curr c" by (simp_all add: c')
  show "rounds_known env c'" unfolding rounds_known_def
  proof (intro conjI allI impI)
    show "round_ok env c' r x" if "tc_rounds c' r = Some x" for r x
    proof (cases "r = tb_Round b")
      case True
      with that here show ?thesis by (simp add: rs)
    next
      case False
      with that k have "round_ok env c r x" by (simp add: rs rounds_known_def)
      then show ?thesis by (rule round_ok_more [OF _ more])
    qed
    show "(tc_rounds c' r \<noteq> None) = (r \<le> tc_curr c')" for r using k ch(4) by (auto simp: rs rounds_known_def)
  qed
qed

text \<open>Appending a block.\<close>

lemma TChain_Append_ok:
  assumes sort: "topn_sort_ok env" and ok: "topn_ok env c" and cur: "tc_curr c \<noteq> - 1"
  shows "(\<exists>err. TChain_Append env c b = Some (Err err)) \<or>
    (\<exists>c'. TChain_Append env c b = Some (Ok c') \<and> topn_ok env c' \<and> tc_curr c' = tc_curr c \<and> topn_check env c b = None \<and>
      (\<forall>i. entry c' i = (if i = TBlock_Hash env b then Some \<lparr>trb_id = i, trb_rank = TBlock_Rank b 1, trb_block = b\<rparr> else entry c i)))"
proof (cases "topn_check env c b")
  case None
  note ch = topn_check_None [OF None]
  have k: "rounds_known env c" and tb: "tip_bound c" and w: "\<And>r. r \<noteq> 0 \<Longrightarrow> weighted env c r" and pts: "tc_points c = 1000"
    using ok by (auto simp: topn_ok_def)
  obtain rd where rd: "tc_rounds c (tb_Round b) = Some rd" using known_round [OF k ch(4)] by blast
  let ?i = "TBlock_Hash env b"
  let ?c = "c\<lparr>tc_rounds := (tc_rounds c)(tb_Round b \<mapsto> round_Set ?i b (TBlock_Rank b 1) rd)\<rparr>"
  have app: "TChain_Append env c b = (if HasBlock rd ?i then Some (Err ErrBlockExist)
      else if SawIdentity rd (tb_PK b) then Some (Err ErrDoublePropose) else weigh_from env (tb_Round b) ?c)"
    using None rd by (simp add: TChain_Append_def Let_def TChain_balance_def)
  show ?thesis
  proof (cases "HasBlock rd ?i \<or> SawIdentity rd (tb_PK b)")
    case True
    then show ?thesis using app by auto
  next
    case False
    then have k': "rounds_known env ?c" and e: "\<And>i. entry ?c i =
        (if i = ?i then Some \<lparr>trb_id = i, trb_rank = TBlock_Rank b 1, trb_block = b\<rparr> else entry c i)"
      using store_known [OF k None rd _ _ refl] by auto
    have ne: "?i \<noteq> i" if "entry c i \<noteq> None" for i
      using that False rd by (auto simp: entry_def HasBlock_def)
    have wt: "weight ?c i = weight c i" if "entry c i \<noteq> None" for i using ne [OF that] by (auto simp: weight_eq e)
    have before: "weighted env ?c r" if r: "r \<noteq> 0" "r < tb_Round b" for r
    proof -
      have "weight ?c (tb_Prev (trb_block (Ranked env rd' ! j))) = weight c (tb_Prev (trb_block (Ranked env rd' ! j)))"
        if "tc_rounds c r = Some rd'" "j < length (Ranked env rd')" for rd' j
        by (rule wt) (rule Ranked_entry(4) [OF sort k that(1) nth_mem [OF that(2)] r(1)])
      then show ?thesis using w [OF r(1)] r(2) by (auto simp: weighted_def)
    qed
    have tb': "tip_bound ?c" using tb ne by (auto simp: tip_bound_def e)
    have "tb_Round b \<le> tc_curr ?c + 1" using ch(4) less_Suc_u64 [OF cur] by (simp add: order.strict_implies_order)
    then obtain c' where c': "weigh_from env (tb_Round b) ?c = Some (Ok c')" "same_rounds ?c c'" "tip_bound c'"
        "\<forall>r. r \<noteq> 0 \<longrightarrow> r \<le> tc_curr ?c \<longrightarrow> weighted env c' r"
      using weigh_from_ok [OF sort k' tb' _ ch(2) _ before] cur by auto
    have "weighted env c' r" if "r \<noteq> 0" for r
    proof (cases "r \<le> tc_curr ?c")
      case True
      then show ?thesis using c'(4) that by blast
    next
      case False
      have "tc_rounds ?c r = None" using False k' unfolding rounds_known_def by blast
      then show ?thesis using c'(2) by (simp add: weighted_def same_rounds_def)
    qed
    then have "topn_ok env c'"
      using c'(2,3) rounds_known_same [OF c'(2)] k' pts by (simp add: topn_ok_def same_rounds_def)
    then show ?thesis using False app c' e None entry_same [OF c'(2)] by (auto simp: same_rounds_def)
  qed
qed (simp add: TChain_Append_def)

section \<open>Reachable chains\<close>

text \<open>A chain grows by appending and by advancing its round. At the largest round number the loop of \<^verbatim>\<open>Append\<close> would
  not end, so that runs stop before it.\<close>

inductive topn_run :: "topn_env \<Rightarrow> TBlock \<Rightarrow> TChain \<Rightarrow> bool" for env g where
  start: "topn_run env g (TNewChain env g)"
| append: "topn_run env g c \<Longrightarrow> TChain_Append env c b = Some (Ok c') \<Longrightarrow> topn_run env g c'"
| advance: "topn_run env g c \<Longrightarrow> tc_curr c + 1 \<noteq> - 1 \<Longrightarrow> topn_run env g (TAdvance c)"

lemma Advance_ok:
  assumes sort: "topn_sort_ok env" and ok: "topn_ok env c" and cur: "tc_curr c \<noteq> - 1"
  shows "topn_ok env (TAdvance c)"
proof -
  let ?n = "tc_curr c + 1" and ?c = "TAdvance c"
  have k: "rounds_known env c" using ok by (simp add: topn_ok_def)
  have nle: "\<not> ?n \<le> tc_curr c" using less_Suc_u64 [OF cur, of "tc_curr c"] by (simp add: not_le)
  then have none: "tc_rounds c ?n = None" using k unfolding rounds_known_def by blast
  have e: "entry ?c i = entry c i" for i using none by (auto simp: entry_def TAdvance_def newRound_def)
  have le: "r \<le> ?n \<longleftrightarrow> r \<le> tc_curr c \<or> r = ?n" for r
    using unat_Suc_u64 [OF cur] by (auto simp: word_le_nat_alt word_unat_eq_iff)
  have rs: "tc_rounds ?c = (tc_rounds c)(?n \<mapsto> newRound)" "tc_curr ?c = ?n" "tc_weights ?c = tc_weights c" "tc_points ?c = tc_points c"
      "tc_tip ?c = tc_tip c" "tc_tipw ?c = tc_tipw c" by (simp_all add: TAdvance_def)
  have empty: "Ranked env newRound = []" using Ranked_set [OF sort, of newRound] by (simp add: newRound_def)
  have "round_ok env ?c r rd" if "tc_rounds ?c r = Some rd" for r rd
  proof (cases "r = ?n")
    case True
    with that have "rd = newRound" by (simp add: rs)
    then show ?thesis by (simp add: round_ok_def newRound_def wf_amap_def)
  next
    case False
    with that k have "round_ok env c r rd" by (simp add: rs rounds_known_def)
    then show ?thesis by (rule round_ok_more) (simp add: e)
  qed
  moreover have "tc_rounds ?c r \<noteq> None \<longleftrightarrow> r \<le> tc_curr ?c" for r using k by (auto simp: rs le rounds_known_def)
  ultimately have "rounds_known env ?c" unfolding rounds_known_def by blast
  moreover have "weighted env ?c r" if "r \<noteq> 0" for r
    using ok that empty by (auto simp: topn_ok_def weighted_def rs weight_eq e)
  ultimately show ?thesis using ok by (auto simp: topn_ok_def tip_bound_def rs e)
qed

lemma TNewChain_ok:
  assumes sort: "topn_sort_ok env" and g: "tb_Round g = 0"
  shows "topn_ok env (TNewChain env g)" and "tc_curr (TNewChain env g) = 1"
proof -
  let ?i = "TBlock_Hash env g"
  let ?c = "\<lparr>tc_points = 1000, tc_rounds = [0 \<mapsto> round_Set ?i g (TBlock_Rank g 1) newRound], tc_tip = ?i, tc_tipw = 0,
    tc_curr = 0, tc_gen = ?i, tc_weights = Map.empty\<rparr>"
  have "entry ?c ?i \<noteq> None" by (simp add: entry_def g round_Set_def newRound_def)
  moreover have "round_ok env ?c 0 (round_Set ?i g (TBlock_Rank g 1) newRound)"
    using g by (simp add: round_ok_def round_Set_def newRound_def wf_amap_def)
  ultimately have "topn_ok env ?c"
    by (auto simp: topn_ok_def rounds_known_def tip_bound_def weighted_def split: if_splits)
  then show "topn_ok env (TNewChain env g)" unfolding TNewChain_def Let_def by (rule Advance_ok [OF sort]) simp
  show "tc_curr (TNewChain env g) = 1" by (simp add: TNewChain_def TAdvance_def Let_def)
qed

lemma topn_run_ok:
  assumes "topn_run env g c" "topn_sort_ok env" "tb_Round g = 0"
  shows "topn_ok env c \<and> tc_curr c \<noteq> - 1"
  using assms
proof (induction rule: topn_run.induct)
  case start
  then show ?case using TNewChain_ok by simp
next
  case (append c b c')
  then show ?case using TChain_Append_ok [of env c b] by auto
next
  case (advance c)
  then show ?case using Advance_ok by (simp add: TAdvance_def)
qed

section \<open>Properties\<close>

text \<open>C26. Weights by rank: on every reachable chain the block at position \<open>k\<close> of the ranking of a round, counted from
  zero, weighs as much as its predecessor plus \<open>1000 div (k + 1)\<close>, no block before it has a lower rank, and its
  token verifies against its predecessor.\<close>

theorem topn_weights:
  assumes "topn_sort_ok env" "tb_Round g = 0" "topn_run env g c" "tc_rounds c r = Some rd" "r \<noteq> 0" "k < length (Ranked env rd)"
    "rb = Ranked env rd ! k"
  shows "\<exists>p w. TChain_Read c (tb_Prev (trb_block rb)) = Ok (p, w) \<and>
    TChain_Read c (trb_id rb) = Ok (trb_block rb, w + 1000 div word_of_nat (k + 1)) \<and>
    (\<forall>j < k. trb_rank rb \<le> trb_rank (Ranked env rd ! j)) \<and>
    te_Verify env (tb_PK (trb_block rb)) (tb_Prev (trb_block rb)) (tb_Token (trb_block rb)) (tb_Proof (trb_block rb))"
proof -
  have ok: "rounds_known env c" "weighted env c r" "tc_points c = 1000"
    using topn_run_ok [OF assms(3,1,2)] assms(5) by (auto simp: topn_ok_def)
  have mem: "rb \<in> set (Ranked env rd)" using assms(6,7) by simp
  note en = Ranked_entry [OF assms(1) ok(1) assms(4) mem]
  obtain i where "(i, rb) \<in> set (trd_blocks rd)" using mem Ranked_set [OF assms(1)] by auto
  then have v: "te_Verify env (tb_PK (trb_block rb)) (tb_Prev (trb_block rb)) (tb_Token (trb_block rb)) (tb_Proof (trb_block rb))"
    using ok(1) assms(4,5) unfolding rounds_known_def round_ok_def by blast
  have rd: "TChain_Read c i = Ok (trb_block x, weight c i)" if "entry c i = Some x" for i x
    using that fst_read [of c i] by (cases "TChain_read c i") (simp add: TChain_Read_def weight_def)
  obtain p where p: "entry c (tb_Prev (trb_block rb)) = Some p" using en(4) [OF assms(5)] by blast
  have w: "weight c (trb_id rb) = weight c (tb_Prev (trb_block rb)) + 1000 div word_of_nat (k + 1)"
  proof -
    have "tc_weights c (trb_id rb) = Some (weight c (tb_Prev (trb_block rb)) + 1000 div word_of_nat (k + 1))"
      using ok(2,3) assms(4,6,7) unfolding weighted_def by metis
    then show ?thesis by (simp only: weight_eq [of c "trb_id rb"] en(1) option.simps if_False)
  qed
  have "\<forall>j < k. trb_rank rb \<le> trb_rank (Ranked env rd ! j)"
    using assms(1,6,7) unfolding topn_sort_ok_def Ranked_def by (simp add: sorted_wrt_iff_nth_less)
  then show ?thesis using rd [OF p] rd [OF en(1)] w v by simp
qed

text \<open>Appending on a reachable chain returns: with an error, or with the block stored under its hash, all else
  kept, and the weight of no block above that recorded for the tip. An identity has one block in a round.\<close>

theorem topn_append:
  assumes "topn_sort_ok env" "tb_Round g = 0" "topn_run env g c"
  shows "(\<exists>err. TChain_Append env c b = Some (Err err)) \<or>
    (\<exists>c'. TChain_Append env c b = Some (Ok c') \<and>
      (\<forall>i. fst (TChain_read c' i) = (if i = TBlock_Hash env b then Some b else fst (TChain_read c i))) \<and>
      (\<forall>i. snd (TChain_read c' i) \<le> tc_tipw c') \<and> fst (TChain_read c' (TChain_Tip c')) \<noteq> None \<and>
      (\<forall>i x. fst (TChain_read c i) = Some x \<and> tb_Round x = tb_Round b \<longrightarrow> tb_PK x \<noteq> tb_PK b))"
proof -
  have ok: "topn_ok env c" "tc_curr c \<noteq> - 1" using topn_run_ok [OF assms(3,1,2)] by auto
  consider err where "TChain_Append env c b = Some (Err err)" | c' where "TChain_Append env c b = Some (Ok c')" "topn_ok env c'"
      "topn_check env c b = None"
      "\<And>i. entry c' i = (if i = TBlock_Hash env b then Some \<lparr>trb_id = i, trb_rank = TBlock_Rank b 1, trb_block = b\<rparr> else entry c i)"
    using TChain_Append_ok [OF assms(1) ok] by blast
  then show ?thesis
  proof cases
    case (2 c')
    have tb: "tip_bound c'" using 2(2) by (simp add: topn_ok_def)
    have "snd (TChain_read c' i) \<le> tc_tipw c'" for i
      using tb weight_eq [of c' i] by (auto simp: tip_bound_def weight_def split: option.splits if_splits)
    moreover have "fst (TChain_read c' (TChain_Tip c')) \<noteq> None" using tb by (auto simp: tip_bound_def fst_read TChain_Tip_def)
    moreover have "tb_PK x \<noteq> tb_PK b" if x: "fst (TChain_read c i) = Some x" "tb_Round x = tb_Round b" for i x
    proof -
      obtain rd rb where rb: "tc_rounds c (TID_Round i) = Some rd" "map_of (trd_blocks rd) i = Some rb" "x = trb_block rb"
        using x(1) by (auto simp: fst_read entry_def split: option.splits)
      have rok: "round_ok env c (TID_Round i) rd" using ok(1) rb(1) by (simp add: topn_ok_def rounds_known_def)
      have in_rd: "(i, rb) \<in> set (trd_blocks rd)" by (rule map_of_SomeD [OF rb(2)])
      then have "tb_Round x = TID_Round i" "tb_PK x \<in> set (trd_idns rd)" using rok rb(3) unfolding round_ok_def by force+
      moreover have "\<not> SawIdentity rd (tb_PK b)" if "TID_Round i = tb_Round b"
        using 2(1,3) rb(1) that by (auto simp: TChain_Append_def Let_def split: if_splits)
      ultimately show ?thesis using x(2) by (auto simp: SawIdentity_def)
    qed
    ultimately show ?thesis using 2(1,4) by (auto simp: fst_read)
  qed blast
qed

section \<open>A concrete chain\<close>

declare weigh_from.simps [code]

definition ex_topn :: topn_env where
  "ex_topn = \<lparr>te_sha = (\<lambda>x. x), te_Verify = (\<lambda>pk seed t pr. True), te_Prove = (\<lambda>seed sk. ([], [])),
     te_GenerateKey = (\<lambda>r. Some (r, r)), te_sort = (\<lambda>rbs. rev (sort_key trb_rank rbs))\<rparr>"

definition ex_tblock :: "u64 \<Rightarrow> tid \<Rightarrow> byte \<Rightarrow> TBlock" where
  "ex_tblock r prev t = \<lparr>tb_Round = r, tb_Prev = prev, tb_Token = [t], tb_Proof = [], tb_PK = [t], tb_Txs = []\<rparr>"

fun append_blocks :: "TBlock list \<Rightarrow> TChain \<Rightarrow> (topn_err, TChain) res option" where
  "append_blocks [] c = Some (Ok c)"
| "append_blocks (b # bs) c = run_bind (TChain_Append ex_topn c b) (append_blocks bs)"

abbreviation "ex_tg \<equiv> ex_tblock 0 [] 1"
abbreviation "ex_ta \<equiv> ex_tblock 1 (TBlock_Hash ex_topn ex_tg) 10"
abbreviation "ex_tb1 \<equiv> ex_tblock 1 (TBlock_Hash ex_topn ex_tg) 30"
abbreviation "ex_tb2 \<equiv> ex_tblock 1 (TBlock_Hash ex_topn ex_tg) 20"
abbreviation "ex_tc2 \<equiv> ex_tblock 2 (TBlock_Hash ex_topn ex_ta) 10"
abbreviation "ex_td \<equiv> ex_tblock 2 (TBlock_Hash ex_topn ex_tb1) 5"

text \<open>The recorded weight of the tip is not updated when later blocks of its rounds take points away, so that a
  block can outweigh the tip: here the tip weighs 1333 and another block 1500.\<close>

theorem topn_tip_not_heaviest:
  "(case append_blocks [ex_ta, ex_tc2, ex_tb1, ex_tb2, ex_td] (TAdvance (TNewChain ex_topn ex_tg)) of
     Some (Ok c) \<Rightarrow> (TChain_Tip c, map (\<lambda>b. snd (TChain_read c (TBlock_Hash ex_topn b))) [ex_tc2, ex_td]) =
       (TBlock_Hash ex_topn ex_tc2, [1333, 1500])
   | _ \<Rightarrow> False)"
  by code_simp

lemma ex_topn_sort: "topn_sort_ok ex_topn"
  by (auto simp: topn_sort_ok_def ex_topn_def sorted_wrt_rev) (metis sorted_sort_key sorted_map)

lemma ex_topn_append:
  "\<exists>c. TChain_Append ex_topn (TNewChain ex_topn ex_tg) ex_ta = Some (Ok c) \<and>
    map_option (length \<circ> Ranked ex_topn) (tc_rounds c 1) = Some 1"
proof -
  have "(case TChain_Append ex_topn (TNewChain ex_topn ex_tg) ex_ta of
      Some (Ok c) \<Rightarrow> map_option (length \<circ> Ranked ex_topn) (tc_rounds c 1) = Some 1 | _ \<Rightarrow> False)"
    by code_simp
  then show ?thesis by (auto split: option.splits res.splits)
qed

theorem topn_weights_witness:
  "\<exists>(c :: TChain) (rb :: Troundb) p w. TChain_Read c (tb_Prev (trb_block rb)) = Ok (p, w) \<and> TChain_Read c (trb_id rb) = Ok (trb_block rb, w + 1000)"
proof -
  obtain c rd where c: "TChain_Append ex_topn (TNewChain ex_topn ex_tg) ex_ta = Some (Ok c)" "tc_rounds c 1 = Some rd"
      "length (Ranked ex_topn rd) = 1"
    using ex_topn_append by auto
  have "topn_run ex_topn ex_tg c" by (rule topn_run.append [OF topn_run.start c(1)])
  moreover have "tb_Round ex_tg = 0" by (simp add: ex_tblock_def)
  ultimately obtain p w where "TChain_Read c (tb_Prev (trb_block (Ranked ex_topn rd ! 0))) = Ok (p, w)"
      "TChain_Read c (trb_id (Ranked ex_topn rd ! 0)) = Ok (trb_block (Ranked ex_topn rd ! 0), w + 1000 div word_of_nat (0 + 1))"
    using topn_weights [OF ex_topn_sort _ _ c(2) one_neq_zero _ refl, of ex_tg 0] c(3) by (metis less_one)
  then show ?thesis by (intro exI [of _ c] exI [of _ "Ranked ex_topn rd ! 0"] exI [of _ p] exI [of _ w]) simp
qed

theorem topn_append_witness:
  "\<exists>c. TChain_Append ex_topn (TNewChain ex_topn ex_tg) ex_ta = Some (Ok c) \<and> fst (TChain_read c (TBlock_Hash ex_topn ex_ta)) = Some ex_ta"
proof -
  obtain c where c: "TChain_Append ex_topn (TNewChain ex_topn ex_tg) ex_ta = Some (Ok c)" using ex_topn_append by blast
  have "tb_Round ex_tg = 0" by (simp add: ex_tblock_def)
  from topn_append [OF ex_topn_sort this topn_run.start, of ex_ta] have
    "fst (TChain_read c (TBlock_Hash ex_topn ex_ta)) = Some ex_ta"
    unfolding c by (elim disjE exE conjE) simp_all
  with c show ?thesis by blast
qed

end
