(* ===== verification/Limbs.thy ===== *)
theory Limbs
  imports Prelude
begin

unbundle bit_operations_syntax

text \<open>
  Integers as lists of machine words, the way \<^verbatim>\<open>src/vrf/ed25519/edwards25519/edwards25519.go\<close> computes with them: the
  local variables \<^verbatim>\<open>h0 .. h9\<close> of the field arithmetic and \<^verbatim>\<open>s0 .. s23\<close> of the scalar arithmetic are lists of words, and
  the statements of that straight-line code are two operations: a carry from one limb into another, and
  the folding of a high limb into lower ones. An interval analysis, which is itself a function
  evaluated by the simplifier, shows that no operation overflows, and a weighted sum over the limbs
  shows which integer they represent.
\<close>

section \<open>Operations on limbs\<close>

text \<open>\<^verbatim>\<open>carry[i] = (h_i + r) >> w; h_j += carry[i] * m; h_i -= carry[i] << w\<close>, with \<^verbatim>\<open>>>\<close> arithmetic on \<^verbatim>\<open>int64\<close> or \<^verbatim>\<open>int32\<close>.\<close>

definition limb_carry :: "nat \<Rightarrow> nat \<Rightarrow> nat \<Rightarrow> int \<Rightarrow> int \<Rightarrow> 'a::len word list \<Rightarrow> 'a word list" where
  "limb_carry i j w r m h =
    (let c = signed_drop_bit w (h ! i + word_of_int r);
         h = h[j := h ! j + c * word_of_int m]
     in h[i := h ! i - push_bit w c])"

text \<open>\<^verbatim>\<open>h_j += h_i * k\<close> for the pairs \<open>(j, k)\<close>, then \<^verbatim>\<open>h_i = 0\<close>.\<close>

definition limb_fold :: "nat \<Rightarrow> (nat \<times> int) list \<Rightarrow> 'a::len word list \<Rightarrow> 'a word list" where
  "limb_fold i jks h = (fold (\<lambda>(j, k) h. h[j := h ! j + h ! i * word_of_int k]) jks h)[i := 0]"

datatype limb_op = Carry nat nat nat int int | Fold nat "(nat \<times> int) list"

fun limb_exec :: "limb_op \<Rightarrow> 'a::len word list \<Rightarrow> 'a word list" where
  "limb_exec (Carry i j w r m) h = limb_carry i j w r m h" |
  "limb_exec (Fold i jks) h = limb_fold i jks h"

section \<open>The same operations on integers\<close>

definition int_carry :: "nat \<Rightarrow> nat \<Rightarrow> nat \<Rightarrow> int \<Rightarrow> int \<Rightarrow> int list \<Rightarrow> int list" where
  "int_carry i j w r m x =
    (let c = (x ! i + r) div 2 ^ w; x = x[j := x ! j + c * m] in x[i := x ! i - c * 2 ^ w])"

definition int_fold :: "nat \<Rightarrow> (nat \<times> int) list \<Rightarrow> int list \<Rightarrow> int list" where
  "int_fold i jks x = (fold (\<lambda>(j, k) x. x[j := x ! j + x ! i * k]) jks x)[i := 0]"

fun int_exec :: "limb_op \<Rightarrow> int list \<Rightarrow> int list" where
  "int_exec (Carry i j w r m) x = int_carry i j w r m x" |
  "int_exec (Fold i jks) x = int_fold i jks x"

lemma length_int_fold_upd [simp]: "length (fold (\<lambda>(j, k) x. x[j := f x j k]) jks x) = length x"
  by (induction jks arbitrary: x) auto

lemma length_int_exec [simp]: "length (int_exec p x) = length x"
  by (cases p) (simp_all add: int_carry_def int_fold_def Let_def)

lemma length_limb_exec [simp]: "length (limb_exec p x) = length x"
  by (cases p) (simp_all add: limb_carry_def limb_fold_def Let_def)

lemma length_fold_exec [simp]: "length (fold int_exec ps x) = length x" "length (fold limb_exec ps h) = length h"
  by (induction ps arbitrary: x h) simp_all

section \<open>Interval analysis\<close>

type_synonym ival = "int \<times> int"

definition iv_ok :: "nat \<Rightarrow> ival \<Rightarrow> bool" where
  "iv_ok n v = (- (2 ^ n) \<le> fst v \<and> snd v < 2 ^ n)"

definition iv_scale :: "int \<Rightarrow> ival \<Rightarrow> ival" where
  "iv_scale k v = (if 0 \<le> k then (fst v * k, snd v * k) else (snd v * k, fst v * k))"

definition iv_add :: "ival \<Rightarrow> ival \<Rightarrow> ival" where
  "iv_add u v = (fst u + fst v, snd u + snd v)"

definition iv_carry :: "nat \<Rightarrow> nat \<Rightarrow> nat \<Rightarrow> nat \<Rightarrow> int \<Rightarrow> int \<Rightarrow> ival list \<Rightarrow> ival list option" where
  "iv_carry n i j w r m b =
    (let u = (fst (b ! i) + r, snd (b ! i) + r);
         v = iv_add (b ! j) (iv_scale m (fst u div 2 ^ w, snd u div 2 ^ w))
     in if i < length b \<and> j < length b \<and> i \<noteq> j \<and> w < n \<and> 0 \<le> r \<and> r < 2 ^ w \<and> iv_ok n u \<and> iv_ok n v
        then Some (b[j := v, i := (- r, 2 ^ w - 1 - r)]) else None)"

fun iv_fold :: "nat \<Rightarrow> nat \<Rightarrow> (nat \<times> int) list \<Rightarrow> ival list \<Rightarrow> ival list option" where
  "iv_fold n i [] b = (if i < length b then Some (b[i := (0, 0)]) else None)" |
  "iv_fold n i ((j, k) # jks) b =
    (let v = iv_add (b ! j) (iv_scale k (b ! i))
     in if j < length b \<and> i < length b \<and> i \<noteq> j \<and> iv_ok n v then iv_fold n i jks (b[j := v]) else None)"

fun iv_exec :: "nat \<Rightarrow> limb_op \<Rightarrow> ival list \<Rightarrow> ival list option" where
  "iv_exec n (Carry i j w r m) b = iv_carry n i j w r m b" |
  "iv_exec n (Fold i jks) b = iv_fold n i jks b"

fun iv_run :: "nat \<Rightarrow> limb_op list \<Rightarrow> ival list \<Rightarrow> ival list option" where
  "iv_run n [] b = Some b" |
  "iv_run n (p # ps) b = (case iv_exec n p b of None \<Rightarrow> None | Some b' \<Rightarrow> iv_run n ps b')"

definition within :: "ival list \<Rightarrow> int list \<Rightarrow> bool" where
  "within b x = list_all2 (\<lambda>v y. fst v \<le> y \<and> y \<le> snd v) b x"

lemma within_length: "within b x \<Longrightarrow> length b = length x"
  by (simp add: within_def list_all2_lengthD)

lemma within_nth: "within b x \<Longrightarrow> i < length b \<Longrightarrow> fst (b ! i) \<le> x ! i \<and> x ! i \<le> snd (b ! i)"
  using list_all2_nthD [of _ b x i] by (simp add: within_def)

lemma within_upd: "within b x \<Longrightarrow> fst v \<le> y \<Longrightarrow> y \<le> snd v \<Longrightarrow> within (b[i := v]) (x[i := y])"
  by (simp add: within_def list_all2_update_cong)

lemma iv_scale_bounds: "fst v \<le> y \<Longrightarrow> y \<le> snd v \<Longrightarrow> fst (iv_scale k v) \<le> y * k \<and> y * k \<le> snd (iv_scale k v)"
  by (simp add: iv_scale_def mult_right_mono mult_right_mono_neg)

lemma iv_add_bounds:
  "fst u \<le> x \<Longrightarrow> x \<le> snd u \<Longrightarrow> fst v \<le> y \<and> y \<le> snd v \<Longrightarrow> fst (iv_add u v) \<le> x + y \<and> x + y \<le> snd (iv_add u v)"
  by (simp add: iv_add_def add_mono)

section \<open>Words that do not overflow\<close>

lemma sint_in: "LENGTH('a) = Suc n \<Longrightarrow> - (2 ^ n) \<le> k \<Longrightarrow> k < 2 ^ n \<Longrightarrow> sint (word_of_int k :: 'a::len word) = k"
  by (simp add: signed_of_int signed_take_bit_int_eq_self)

lemma sint_iv:
  "LENGTH('a) = Suc n \<Longrightarrow> iv_ok n v \<Longrightarrow> fst v \<le> k \<Longrightarrow> k \<le> snd v \<Longrightarrow> sint (word_of_int k :: 'a::len word) = k"
  by (rule sint_in) (auto simp: iv_ok_def)

lemma sint_via_int: "w = word_of_int k \<Longrightarrow> - 9223372036854775808 \<le> k \<Longrightarrow> k < 9223372036854775808 \<Longrightarrow> sint (w :: 64 word) = k"
  using sint_in [of 63 k, where ?'a = 64] by simp

lemma word_sint: "(w :: 'a::len word) = word_of_int (sint w)"
  by simp

lemma sint_drop: "sint (signed_drop_bit n w :: 'a::len word) = sint w div 2 ^ n"
  by (simp add: sint_signed_drop_bit_eq drop_bit_eq_div)

abbreviation sints :: "'a::len word list \<Rightarrow> int list" where
  "sints \<equiv> map sint"

lemma carry_sound:
  fixes h :: "'a::len word list"
  assumes "within b (sints h)" and "iv_carry n i j w r m b = Some b'" and "LENGTH('a) = Suc n"
  shows "sints (limb_carry i j w r m h) = int_carry i j w r m (sints h)"
    and "within b' (int_carry i j w r m (sints h))"
proof -
  define u where "u = (fst (b ! i) + r, snd (b ! i) + r)"
  define v where "v = iv_add (b ! j) (iv_scale m (fst u div 2 ^ w, snd u div 2 ^ w))"
  define c where "c = (sint (h ! i) + r) div 2 ^ w"
  have ok: "i < length b" "j < length b" "i \<noteq> j" "w < n" "0 \<le> r" "r < 2 ^ w" "iv_ok n u" "iv_ok n v"
    and b': "b' = b[j := v, i := (- r, 2 ^ w - 1 - r)]"
    using assms(2) by (auto simp: iv_carry_def Let_def u_def v_def split: if_splits)
  have len: "length b = length h" using within_length [OF assms(1)] by simp
  have i: "fst (b ! i) \<le> sint (h ! i)" "sint (h ! i) \<le> snd (b ! i)"
    and j: "fst (b ! j) \<le> sint (h ! j)" "sint (h ! j) \<le> snd (b ! j)"
    using within_nth [OF assms(1)] ok(1,2) len by simp_all
  have "h ! i + word_of_int r = word_of_int (sint (h ! i) + r)" by simp
  then have "sint (h ! i + word_of_int r) = sint (h ! i) + r"
    using sint_iv [OF assms(3) ok(7), of "sint (h ! i) + r"] i by (simp add: u_def)
  then have sc: "sint (signed_drop_bit w (h ! i + word_of_int r)) = c"
    by (simp add: sint_drop c_def)
  then have wc: "signed_drop_bit w (h ! i + word_of_int r) = word_of_int c"
    by (metis word_sint)
  have c: "fst u div 2 ^ w \<le> c \<and> c \<le> snd u div 2 ^ w"
    using i by (simp add: c_def u_def zdiv_mono1)
  have vj: "fst v \<le> sint (h ! j) + c * m \<and> sint (h ! j) + c * m \<le> snd v"
    unfolding v_def using c by (intro iv_add_bounds iv_scale_bounds j) auto
  have wj: "h ! j + word_of_int c * word_of_int m = word_of_int (sint (h ! j) + c * m)" by simp
  have j': "sint (h ! j + word_of_int c * word_of_int m) = sint (h ! j) + c * m"
    unfolding wj using vj by (intro sint_iv [OF assms(3) ok(8)]) auto
  have rest: "sint (h ! i) - c * 2 ^ w = (sint (h ! i) + r) mod 2 ^ w - r"
    by (simp add: c_def minus_div_mult_eq_mod [symmetric])
  have range: "- r \<le> sint (h ! i) - c * 2 ^ w \<and> sint (h ! i) - c * 2 ^ w \<le> 2 ^ w - 1 - r"
    unfolding rest using pos_mod_bound [of "2 ^ w" "sint (h ! i) + r"] by simp
  have p: "2 * (2 :: int) ^ w \<le> 2 ^ n" using ok(4) power_increasing [of "Suc w" n "2 :: int"] by simp
  have wi: "h ! i - push_bit w (word_of_int c) = word_of_int (sint (h ! i) - c * 2 ^ w)"
    by (simp add: push_bit_eq_mult)
  have i': "sint (h ! i - push_bit w (word_of_int c)) = sint (h ! i) - c * 2 ^ w"
    unfolding wi using range p ok(5,6) by (intro sint_in [OF assms(3)]) auto
  have eq: "limb_carry i j w r m h = h[j := h ! j + word_of_int c * word_of_int m, i := h ! i - push_bit w (word_of_int c)]"
    using ok(3) by (simp add: limb_carry_def Let_def wc)
  show e: "sints (limb_carry i j w r m h) = int_carry i j w r m (sints h)"
    unfolding eq map_update j' i' using ok len by (simp add: int_carry_def Let_def c_def)
  show "within b' (int_carry i j w r m (sints h))"
    unfolding e [symmetric] eq map_update j' i' b' using vj range by (intro within_upd assms(1)) auto
qed

lemma fold_sound:
  fixes h :: "'a::len word list"
  assumes "within b (sints h)" and "iv_fold n i jks b = Some b'" and "LENGTH('a) = Suc n"
  shows "sints (limb_fold i jks h) = int_fold i jks (sints h) \<and> within b' (int_fold i jks (sints h))"
  using assms
proof (induction n i jks b arbitrary: h rule: iv_fold.induct)
  case (1 n i b)
  then show ?case by (auto simp: limb_fold_def int_fold_def map_update intro: within_upd split: if_splits)
next
  case (2 n i j k jks b)
  define v where "v = iv_add (b ! j) (iv_scale k (b ! i))"
  have ok: "j < length b" "i < length b" "i \<noteq> j" "iv_ok n v" and step: "iv_fold n i jks (b[j := v]) = Some b'"
    using 2(3) by (auto simp: Let_def v_def split: if_splits)
  have len: "length b = length h" using within_length [OF 2(2)] by simp
  have i: "fst (b ! i) \<le> sint (h ! i)" "sint (h ! i) \<le> snd (b ! i)"
    and j: "fst (b ! j) \<le> sint (h ! j)" "sint (h ! j) \<le> snd (b ! j)"
    using within_nth [OF 2(2)] ok(1,2) len by simp_all
  have vj: "fst v \<le> sint (h ! j) + sint (h ! i) * k \<and> sint (h ! j) + sint (h ! i) * k \<le> snd v"
    unfolding v_def by (intro iv_add_bounds iv_scale_bounds i j)
  have wj: "h ! j + h ! i * word_of_int k = word_of_int (sint (h ! j) + sint (h ! i) * k)" by simp
  have j': "sint (h ! j + h ! i * word_of_int k) = sint (h ! j) + sint (h ! i) * k"
    unfolding wj using vj by (intro sint_iv [OF 2(4) ok(4)]) auto
  let ?h = "h[j := h ! j + h ! i * word_of_int k]"
  have h: "sints ?h = (sints h)[j := sints h ! j + sints h ! i * k]"
    using ok(1,2) len by (simp add: map_update j')
  have "within (b[j := v]) (sints ?h)"
    unfolding map_update j' using vj by (intro within_upd 2(2)) auto
  then have "sints (limb_fold i jks ?h) = int_fold i jks (sints ?h) \<and> within b' (int_fold i jks (sints ?h))"
    using 2(1)[OF v_def _ _ step 2(4)] ok by blast
  then show ?case by (simp add: limb_fold_def int_fold_def h)
qed

lemma exec_sound:
  fixes h :: "'a::len word list"
  assumes "within b (sints h)" and "iv_exec n p b = Some b'" and "LENGTH('a) = Suc n"
  shows "sints (limb_exec p h) = int_exec p (sints h) \<and> within b' (int_exec p (sints h))"
  using assms by (cases p) (auto simp: carry_sound fold_sound)

text \<open>The analysis is sound: where it succeeds, the words compute what the integers compute, within
  the intervals it returns.\<close>

lemma run_sound:
  fixes h :: "'a::len word list"
  assumes "within b (sints h)" and "iv_run n ps b = Some b'" and "LENGTH('a) = Suc n"
  shows "sints (fold limb_exec ps h) = fold int_exec ps (sints h) \<and> within b' (fold int_exec ps (sints h))"
  using assms
proof (induction ps arbitrary: b h)
  case (Cons p ps)
  obtain b1 where p: "iv_exec n p b = Some b1" and ps: "iv_run n ps b1 = Some b'"
    using Cons.prems(2) by (auto split: option.splits)
  have h: "sints (limb_exec p h) = int_exec p (sints h)" and b1: "within b1 (int_exec p (sints h))"
    using exec_sound [OF Cons.prems(1) p assms(3)] by auto
  show ?case using Cons.IH [of b1 "limb_exec p h", OF _ ps assms(3)] b1 by (simp add: h)
qed simp

section \<open>The integer that limbs represent\<close>

definition limbs_val :: "(nat \<Rightarrow> nat) \<Rightarrow> int list \<Rightarrow> int" where
  "limbs_val e x = (\<Sum>i<length x. x ! i * 2 ^ e i)"

lemma limbs_val_upd:
  assumes "i < length x"
  shows "limbs_val e (x[i := v]) = limbs_val e x + (v - x ! i) * 2 ^ e i"
proof -
  have "limbs_val e (x[i := v]) = v * 2 ^ e i + (\<Sum>k\<in>{..<length x} - {i}. x ! k * 2 ^ e k)"
    using assms by (simp add: limbs_val_def sum.remove [of "{..<length x}" i])
  moreover have "limbs_val e x = x ! i * 2 ^ e i + (\<Sum>k\<in>{..<length x} - {i}. x ! k * 2 ^ e k)"
    using assms by (simp add: limbs_val_def sum.remove [of "{..<length x}" i])
  ultimately show ?thesis by (simp add: algebra_simps)
qed

text \<open>Which operations keep that integer modulo \<open>M\<close>, for the weights \<open>e\<close>.\<close>

fun op_keeps :: "(nat \<Rightarrow> nat) \<Rightarrow> int \<Rightarrow> nat \<Rightarrow> limb_op \<Rightarrow> bool" where
  "op_keeps e M n (Carry i j w r m) =
    (i < n \<and> j < n \<and> i \<noteq> j \<and> M dvd 2 ^ e j * m - 2 ^ (e i + w))" |
  "op_keeps e M n (Fold i jks) =
    (i < n \<and> (\<forall>jk \<in> set jks. fst jk < n \<and> fst jk \<noteq> i) \<and> M dvd sum_list (map (\<lambda>jk. snd jk * 2 ^ e (fst jk)) jks) - 2 ^ e i)"

lemma int_fold_val:
  assumes "i < length x" and "\<forall>jk \<in> set jks. fst jk < length x \<and> fst jk \<noteq> i"
  shows "limbs_val e (int_fold i jks x) = limbs_val e x + x ! i * (sum_list (map (\<lambda>jk. snd jk * 2 ^ e (fst jk)) jks) - 2 ^ e i)"
  using assms
proof (induction jks arbitrary: x)
  case Nil
  then show ?case by (simp add: int_fold_def limbs_val_upd algebra_simps)
next
  case (Cons jk jks)
  obtain j k where jk: "jk = (j, k)" by (cases jk)
  have "int_fold i (jk # jks) x = int_fold i jks (x[j := x ! j + x ! i * k])"
    by (simp add: int_fold_def jk)
  moreover have "limbs_val e (int_fold i jks (x[j := x ! j + x ! i * k])) = limbs_val e (x[j := x ! j + x ! i * k])
      + x ! i * (sum_list (map (\<lambda>jk. snd jk * 2 ^ e (fst jk)) jks) - 2 ^ e i)"
    using Cons.IH [of "x[j := x ! j + x ! i * k]"] Cons.prems by (simp add: jk)
  ultimately show ?case using Cons.prems by (simp add: jk limbs_val_upd algebra_simps)
qed

lemma int_carry_val:
  assumes "i < length x" and "j < length x" and "i \<noteq> j"
  shows "limbs_val e (int_carry i j w r m x) = limbs_val e x + (x ! i + r) div 2 ^ w * (2 ^ e j * m - 2 ^ (e i + w))"
  using assms by (simp add: int_carry_def Let_def limbs_val_upd power_add algebra_simps)

lemma exec_keeps:
  assumes "op_keeps e M (length x) p"
  shows "M dvd limbs_val e (int_exec p x) - limbs_val e x"
  using assms by (cases p) (simp_all add: int_fold_val int_carry_val)

lemma run_keeps:
  assumes "list_all (op_keeps e M (length x)) ps"
  shows "M dvd limbs_val e (fold int_exec ps x) - limbs_val e x"
  using assms
proof (induction ps arbitrary: x)
  case (Cons p ps)
  have "M dvd limbs_val e (int_exec p x) - limbs_val e x"
    using Cons.prems by (simp add: exec_keeps)
  moreover have "M dvd limbs_val e (fold int_exec ps (int_exec p x)) - limbs_val e (int_exec p x)"
    using Cons by simp
  ultimately have "M dvd (limbs_val e (int_exec p x) - limbs_val e x)
      + (limbs_val e (fold int_exec ps (int_exec p x)) - limbs_val e (int_exec p x))" by (rule dvd_add)
  then show ?case by simp
qed simp

section \<open>Digits\<close>

lemma div_minus_one: "- m \<le> y \<Longrightarrow> y < 0 \<Longrightarrow> y div m = - 1" for y m :: int
proof -
  assume y: "- m \<le> y" "y < 0"
  then have "(y + m) div m = y div m + 1" by (intro div_add_self2) simp
  with y show "y div m = - 1" using div_pos_pos_trivial [of "y + m" m] by simp
qed

text \<open>The number with the digits \<open>x\<close> in base \<open>2 ^ w\<close>, the lowest first. Bytes in little-endian order have \<open>w = 8\<close>.\<close>

fun horner :: "nat \<Rightarrow> int list \<Rightarrow> int" where
  "horner w [] = 0" |
  "horner w (x # xs) = x + 2 ^ w * horner w xs"

definition le_int :: "bytes \<Rightarrow> int" where
  "le_int b = horner 8 (map uint b)"

definition digit :: "nat \<Rightarrow> int \<Rightarrow> nat \<Rightarrow> int" where
  "digit w n i = take_bit w (drop_bit (w * i) n)"

lemma limbs_val_horner: "limbs_val ((*) w) x = horner w x"
proof (induction x)
  case (Cons y x)
  have "limbs_val ((*) w) (y # x) = y + (\<Sum>i<length x. x ! i * 2 ^ (w + w * i))"
    by (simp add: limbs_val_def sum.lessThan_Suc_shift del: sum.lessThan_Suc)
  also have "\<dots> = y + 2 ^ w * limbs_val ((*) w) x"
    by (simp add: limbs_val_def sum_distrib_left power_add mult.left_commute)
  finally show ?case using Cons by simp
qed (simp add: limbs_val_def)

lemma horner_digits: "horner w (map (digit w n) [0..<k]) = take_bit (w * k) n"
proof (induction k arbitrary: n)
  case (Suc k)
  have "map (digit w n) [0..<Suc k] = take_bit w n # map (digit w (drop_bit w n)) [0..<k]"
    by (simp add: upt_conv_Cons map_Suc_upt [symmetric] digit_def drop_bit_drop_bit add.commute del: upt_Suc)
  with Suc have "horner w (map (digit w n) [0..<Suc k]) = take_bit w n + push_bit w (take_bit (w * k) (drop_bit w n))"
    by (simp add: push_bit_eq_mult mult.commute)
  also have "\<dots> = take_bit (w * Suc k) n"
    by (simp add: take_bit_eq_mod drop_bit_eq_div push_bit_eq_mult power_add zmod_zmult2_eq mult.commute)
  finally show ?case .
qed simp

lemma horner_append: "horner w (xs @ ys) = horner w xs + 2 ^ (w * length xs) * horner w ys"
  by (induction xs) (simp_all add: power_add algebra_simps)

lemma horner_bound:
  assumes "\<forall>x \<in> set xs. 0 \<le> x \<and> x < 2 ^ w"
  shows "0 \<le> horner w xs \<and> horner w xs < 2 ^ (w * length xs)"
  using assms
proof (induction xs)
  case (Cons x xs)
  then have "0 \<le> horner w xs" "horner w xs + 1 \<le> 2 ^ (w * length xs)" "0 \<le> x" "x + 1 \<le> 2 ^ w" by auto
  then have "2 ^ w * (horner w xs + 1) \<le> 2 ^ w * (2 ^ (w * length xs))" by simp
  then show ?case using \<open>0 \<le> x\<close> \<open>x + 1 \<le> 2 ^ w\<close> \<open>0 \<le> horner w xs\<close> by (simp add: power_add algebra_simps)
qed simp

lemma horner_drop:
  assumes "\<forall>x \<in> set (take i xs). 0 \<le> x \<and> x < 2 ^ w"
  shows "drop_bit (w * i) (horner w xs) = horner w (drop i xs)"
  using assms
proof (induction i arbitrary: xs)
  case (Suc i)
  show ?case
  proof (cases xs)
    case (Cons y ys)
    have "drop_bit w (y + 2 ^ w * horner w ys) = horner w ys"
      using Suc.prems Cons by (simp add: drop_bit_eq_div)
    moreover have "drop_bit (w * i) (drop_bit w (horner w xs)) = drop_bit (w * Suc i) (horner w xs)"
      by (simp add: drop_bit_drop_bit add.commute)
    ultimately show ?thesis using Suc.IH [of ys] Suc.prems Cons by simp
  qed simp
qed simp

lemma le_int_bound: "0 \<le> le_int b \<and> le_int b < 2 ^ (8 * length b)"
proof -
  have "\<forall>x \<in> set (map uint b). 0 \<le> x \<and> x < 2 ^ 8"
    using uint_lt2p [where ?'a = 8] by auto
  from horner_bound [OF this] show ?thesis by (simp add: le_int_def)
qed

lemma le_int_drop: "le_int (drop k b) = drop_bit (8 * k) (le_int b)"
proof -
  have "\<forall>x \<in> set (take k (map uint b)). 0 \<le> x \<and> x < 2 ^ 8"
    using uint_lt2p [where ?'a = 8] by (auto simp: take_map)
  from horner_drop [OF this] show ?thesis by (simp add: le_int_def drop_map)
qed

lemma le_int_take: "le_int (take k b) = take_bit (8 * k) (le_int b)"
proof (cases "k \<le> length b")
  case True
  have "le_int b = le_int (take k b) + 2 ^ (8 * k) * le_int (drop k b)"
    using horner_append [of 8 "map uint (take k b)" "map uint (drop k b)"] True
    by (simp add: le_int_def flip: map_append)
  moreover have "0 \<le> le_int (take k b) \<and> le_int (take k b) < 2 ^ (8 * k)"
    using le_int_bound [of "take k b"] True by simp
  ultimately show ?thesis by (simp add: take_bit_eq_mod)
next
  case False
  have "(2 :: int) ^ (8 * length b) \<le> 2 ^ (8 * k)" using False by (intro power_increasing) auto
  then have "le_int b < 2 ^ (8 * k)" using le_int_bound [of b] by linarith
  with False le_int_bound [of b] show ?thesis by (simp add: take_bit_int_eq_self)
qed

lemma digits_top: "horner w (map (digit w n) [0..<k] @ [drop_bit (w * k) n]) = n"
  by (simp add: horner_append horner_digits take_bit_eq_mod drop_bit_eq_div)

lemma within_append: "within (b @ c) x \<longleftrightarrow> (\<exists>u v. x = u @ v \<and> within b u \<and> within c v)"
proof
  assume "within (b @ c) x"
  then show "\<exists>u v. x = u @ v \<and> within b u \<and> within c v" by (auto simp: within_def list_all2_append1)
next
  assume "\<exists>u v. x = u @ v \<and> within b u \<and> within c v"
  then show "within (b @ c) x" by (auto simp: within_def intro: list_all2_appendI)
qed

lemma within_replicate: "within (replicate n v) x \<longleftrightarrow> length x = n \<and> (\<forall>y \<in> set x. fst v \<le> y \<and> y \<le> snd v)"
  unfolding within_def list_all2_conv_all_nth all_set_conv_all_nth by auto

lemma within_zeros: "within (replicate n (0, 0)) x \<longleftrightarrow> x = replicate n 0"
  by (auto simp: within_replicate intro!: replicate_eqI)

lemma within_Cons: "within (v # b) x \<longleftrightarrow> (\<exists>y z. x = y # z \<and> fst v \<le> y \<and> y \<le> snd v \<and> within b z)"
  by (auto simp: within_def list_all2_Cons1)

lemma horner_zeros [simp]: "horner w (replicate n 0) = 0"
  by (induction n) simp_all

lemma byte_range: "0 \<le> uint (b :: byte) \<and> uint b < 256"
  using uint_lt2p [of b] by simp

section \<open>Loading and storing\<close>

definition load3 :: "bytes \<Rightarrow> 64 word" where
  "load3 b = ucast (b ! 0) OR push_bit 8 (ucast (b ! 1)) OR push_bit 16 (ucast (b ! 2))"

definition load4 :: "bytes \<Rightarrow> 64 word" where
  "load4 b = ucast (b ! 0) OR push_bit 8 (ucast (b ! 1)) OR push_bit 16 (ucast (b ! 2)) OR push_bit 24 (ucast (b ! 3))"

lemma or_shifted:
  assumes "0 \<le> x" and "x < 2 ^ n" and "n < 64"
  shows "word_of_int x OR push_bit n (word_of_int y) = (word_of_int (x + 2 ^ n * y) :: 64 word)"
proof -
  have "\<not> bit x m" if "n \<le> m" for m
  proof -
    have "(2::int) ^ n \<le> 2 ^ m" using that by (intro power_increasing) auto
    then have "x div 2 ^ m = 0" using assms by (intro div_pos_pos_trivial) linarith+
    then show ?thesis by (simp add: bit_iff_odd)
  qed
  then have "word_of_int x OR push_bit n (word_of_int y) = (word_of_int x + push_bit n (word_of_int y) :: 64 word)"
    by (intro disjunctive_add [symmetric]) (auto simp: bit_simps)
  then show ?thesis by (simp add: push_bit_eq_mult mult.commute)
qed

lemma ucast_uint: "ucast (b :: byte) = (word_of_int (uint b) :: 64 word)"
  by simp

lemma load3_eq:
  assumes "3 \<le> length b"
  shows "sint (load3 b) = take_bit 24 (le_int b)"
proof -
  obtain b0 b1 b2 r where b: "b = b0 # b1 # b2 # r"
    using assms by (auto simp: numeral_eq_Suc Suc_le_length_iff)
  have u: "uint b0 < 256" "uint b1 < 256" "uint b2 < 256"
    using uint_lt2p [where ?'a = 8] by simp_all
  have "load3 b = (word_of_int (uint b0) OR push_bit 8 (word_of_int (uint b1))) OR push_bit 16 (word_of_int (uint b2))"
    by (simp add: load3_def b or.assoc)
  also have "\<dots> = word_of_int (uint b0 + 256 * uint b1 + 65536 * uint b2)"
    using u by (subst or_shifted, simp, simp, simp, subst or_shifted) (simp_all del: word_of_int_uint)
  finally have "sint (load3 b) = uint b0 + 256 * uint b1 + 65536 * uint b2"
    using u uint_ge_0 [of b0] uint_ge_0 [of b1] uint_ge_0 [of b2] by (intro sint_via_int) linarith+
  also have "\<dots> = le_int (take 3 b)"
    by (simp add: b le_int_def numeral_eq_Suc)
  finally show ?thesis by (simp add: le_int_take)
qed

lemma load4_eq:
  assumes "4 \<le> length b"
  shows "sint (load4 b) = take_bit 32 (le_int b)"
proof -
  obtain b0 b1 b2 b3 r where b: "b = b0 # b1 # b2 # b3 # r"
    using assms by (auto simp: numeral_eq_Suc Suc_le_length_iff)
  have u: "uint b0 < 256" "uint b1 < 256" "uint b2 < 256" "uint b3 < 256"
    using uint_lt2p [where ?'a = 8] by simp_all
  have "load4 b = ((word_of_int (uint b0) OR push_bit 8 (word_of_int (uint b1))) OR push_bit 16 (word_of_int (uint b2)))
      OR push_bit 24 (word_of_int (uint b3))"
    by (simp add: load4_def b or.assoc)
  also have "\<dots> = word_of_int (uint b0 + 256 * uint b1 + 65536 * uint b2 + 16777216 * uint b3)"
    using u by (subst or_shifted, simp, simp, simp, subst or_shifted, simp, simp, simp, subst or_shifted)
      (simp_all del: word_of_int_uint)
  finally have "sint (load4 b) = uint b0 + 256 * uint b1 + 65536 * uint b2 + 16777216 * uint b3"
    using u uint_ge_0 [of b0] uint_ge_0 [of b1] uint_ge_0 [of b2] uint_ge_0 [of b3] by (intro sint_via_int) linarith+
  also have "\<dots> = le_int (take 4 b)"
    by (simp add: b le_int_def numeral_eq_Suc)
  finally show ?thesis by (simp add: le_int_take)
qed

text \<open>\<^verbatim>\<open>byte(h_i >> j)\<close> and \<^verbatim>\<open>byte((h_i >> j) | (h_{i+1} << k))\<close>.\<close>

definition limb_byte :: "'a::len word list \<Rightarrow> nat \<Rightarrow> nat \<Rightarrow> byte" where
  "limb_byte h i j = ucast (signed_drop_bit j (h ! i))"

definition limb_byte2 :: "'a::len word list \<Rightarrow> nat \<Rightarrow> nat \<Rightarrow> nat \<Rightarrow> byte" where
  "limb_byte2 h i j k = ucast (signed_drop_bit j (h ! i) OR push_bit k (h ! (i + 1)))"

lemma bit_sint: "m < LENGTH('a) \<Longrightarrow> bit (w :: 'a::len word) m \<longleftrightarrow> bit (sint w) m"
  by (cases "m = LENGTH('a) - Suc 0") (auto simp: bit_simps min_def)

lemma uint_byte: "8 \<le> LENGTH('a) \<Longrightarrow> uint (ucast (w :: 'a::len word) :: byte) = take_bit 8 (sint w)"
  by (rule bit_eqI) (auto simp: bit_uint_iff bit_unsigned_iff bit_take_bit_iff bit_sint)

lemma limb_byte_digit:
  fixes h :: "'a::len word list"
  assumes "8 \<le> LENGTH('a)" and "sint (h ! i) = take_bit w (drop_bit e n)" and "j + 8 \<le> w"
  shows "uint (limb_byte h i j) = take_bit 8 (drop_bit (e + j) n)"
  using assms by (simp add: limb_byte_def uint_byte sint_signed_drop_bit_eq drop_bit_take_bit drop_bit_drop_bit
      min_absorb1 add.commute)

lemma limb_byte_top:
  fixes h :: "'a::len word list"
  assumes "8 \<le> LENGTH('a)" and "sint (h ! i) = drop_bit e n"
  shows "uint (limb_byte h i j) = take_bit 8 (drop_bit (e + j) n)"
  using assms by (simp add: limb_byte_def uint_byte sint_signed_drop_bit_eq drop_bit_drop_bit add.commute)

lemma limb_byte2_digit:
  fixes h :: "'a::len word list"
  assumes "8 \<le> LENGTH('a)" and "sint (h ! i) = take_bit w (drop_bit e n)" and "j + k = w"
    and "take_bit 8 (sint (h ! (i + 1))) = take_bit 8 (drop_bit (e + w) n)"
  shows "uint (limb_byte2 h i j k) = take_bit 8 (drop_bit (e + j) n)"
proof (rule bit_eqI)
  fix m
  have low: "bit (signed_drop_bit j (h ! i)) m \<longleftrightarrow> j + m < w \<and> bit n (e + j + m)" if "m < LENGTH('a)"
    unfolding bit_sint [OF that] by (simp add: sint_signed_drop_bit_eq assms(2) bit_simps add.assoc)
  have high: "bit (h ! (i + 1)) l \<longleftrightarrow> bit n (e + w + l)" if "l < 8" for l
    using arg_cong [OF assms(4), of "\<lambda>x. bit x l"] bit_sint [of l "h ! (i + 1)"] that assms(1)
    by (simp add: bit_take_bit_iff bit_drop_bit_eq)
  show "bit (uint (limb_byte2 h i j k)) m \<longleftrightarrow> bit (take_bit 8 (drop_bit (e + j) n)) m"
  proof (cases "m < 8")
    case True
    then have m: "m < LENGTH('a)" using assms(1) by simp
    show ?thesis
    proof (cases "k \<le> m")
      case le: True
      then have "e + w + (m - k) = e + j + m" using assms(3) by simp
      with le show ?thesis using True m assms(3) low high [of "m - k"]
        by (simp del: add_diff_assoc add: limb_byte2_def bit_uint_iff bit_unsigned_iff bit_or_iff bit_push_bit_iff bit_take_bit_iff bit_drop_bit_eq add.assoc)
    next
      case False
      then show ?thesis using True m assms(3) low
        by (simp add: limb_byte2_def bit_uint_iff bit_unsigned_iff bit_or_iff bit_push_bit_iff bit_take_bit_iff bit_drop_bit_eq add.assoc)
    qed
  next
    case False
    then show ?thesis by (simp add: bit_uint_iff bit_take_bit_iff)
  qed
qed

section \<open>Digits of mixed width\<close>

lemma low_limbs:
  assumes "e 0 = 0" and "\<And>i. i < n \<Longrightarrow> 0 \<le> x ! i \<and> x ! i < 2 ^ w i \<and> e (Suc i) = e i + w i"
  shows "0 \<le> (\<Sum>i<n. x ! i * 2 ^ e i) \<and> (\<Sum>i<n. x ! i * 2 ^ e i) < (2 :: int) ^ e n"
  using assms(2)
proof (induction n)
  case (Suc n)
  have b: "0 \<le> x ! n" "x ! n + 1 \<le> 2 ^ w n" "e (Suc n) = e n + w n" using Suc.prems [of n] by auto
  then have "(x ! n + 1) * 2 ^ e n \<le> 2 ^ w n * 2 ^ e n" by (intro mult_right_mono) auto
  with Suc b show ?case by (simp add: power_add algebra_simps)
qed (simp add: assms(1))

lemma mixed_digits:
  assumes "e 0 = 0" and "\<And>i. i < length x \<Longrightarrow> 0 \<le> x ! i \<and> x ! i < 2 ^ w i \<and> e (Suc i) = e i + w i" and "i < length x"
  shows "x ! i = take_bit (w i) (drop_bit (e i) (limbs_val e x))"
proof -
  have step: "e (Suc k) = e k + w k" if "k < length x" for k using assms(2)[OF that] by simp
  have mono: "Suc i \<le> k \<Longrightarrow> k < length x \<Longrightarrow> e (Suc i) \<le> e k" for k
  proof (induction k rule: dec_induct)
    case (step k)
    then show ?case using \<open>\<And>k. k < length x \<Longrightarrow> e (Suc k) = e k + w k\<close> [of k] by simp
  qed simp
  have "2 ^ e (Suc i) dvd (\<Sum>k\<in>{Suc i..<length x}. x ! k * 2 ^ e k)"
    using mono by (intro dvd_sum dvd_mult le_imp_power_dvd) auto
  then obtain r where r: "(\<Sum>k\<in>{Suc i..<length x}. x ! k * 2 ^ e k) = 2 ^ e (Suc i) * r" by (rule dvdE)
  have "limbs_val e x = (\<Sum>k<i. x ! k * 2 ^ e k) + (\<Sum>k\<in>{i..<length x}. x ! k * 2 ^ e k)"
    using assms(3) by (simp add: limbs_val_def lessThan_atLeast0 sum.atLeastLessThan_concat)
  also have "\<dots> = (\<Sum>k<i. x ! k * 2 ^ e k) + (x ! i * 2 ^ e i + 2 ^ e (Suc i) * r)"
    using assms(3) by (simp add: sum.atLeast_Suc_lessThan r)
  also have "\<dots> = (\<Sum>k<i. x ! k * 2 ^ e k) + 2 ^ e i * (x ! i + 2 ^ w i * r)"
    using assms(2)[OF assms(3)] by (simp add: power_add algebra_simps)
  finally have v: "limbs_val e x = (\<Sum>k<i. x ! k * 2 ^ e k) + 2 ^ e i * (x ! i + 2 ^ w i * r)" .
  have "0 \<le> (\<Sum>k<i. x ! k * 2 ^ e k) \<and> (\<Sum>k<i. x ! k * 2 ^ e k) < 2 ^ e i"
    using assms by (intro low_limbs) auto
  then have "drop_bit (e i) (limbs_val e x) = x ! i + 2 ^ w i * r"
    unfolding v by (simp add: drop_bit_eq_div)
  then show ?thesis using assms(2)[OF assms(3)] by (simp add: take_bit_eq_mod)
qed

lemma limbs_val_range:
  assumes "e 0 = 0" and "\<And>i. i < length x \<Longrightarrow> 0 \<le> x ! i \<and> x ! i < 2 ^ w i \<and> e (Suc i) = e i + w i"
  shows "0 \<le> limbs_val e x \<and> limbs_val e x < 2 ^ e (length x)"
  unfolding limbs_val_def using assms by (rule low_limbs)

end
