(* ===== verification/Scalar.thy ===== *)
theory Scalar
  imports Limbs
begin

unbundle bit_operations_syntax

text \<open>
  The scalars of the curve, \<^verbatim>\<open>src/vrf/ed25519/edwards25519/edwards25519.go\<close>: \<^verbatim>\<open>ScReduce\<close>, \<^verbatim>\<open>ScMulAdd\<close> and \<^verbatim>\<open>ScNeg\<close>. Scalars are
  32 bytes in little-endian order. The code cuts them into limbs of 21 bits in \<^verbatim>\<open>int64\<close> variables,
  multiplies, folds the limbs above \<open>2 ^ 252\<close> down modulo the order \<open>l\<close> of the base point and carries. Shown:
  no operation overflows, and the results are the numbers modulo \<open>l\<close>, in their only encoding below \<open>l\<close>.
\<close>

section \<open>Bytes and limbs\<close>

text \<open>The limbs \<^verbatim>\<open>0 .. 10\<close> of a scalar, the top limb of 32 bytes, and the limbs \<^verbatim>\<open>11 .. 23\<close> of 64 bytes.\<close>

definition sc_load11 :: "bytes \<Rightarrow> 64 word list" where
  "sc_load11 a =
    [2097151 AND load3 a,
     2097151 AND signed_drop_bit 5 (load4 (drop 2 a)),
     2097151 AND signed_drop_bit 2 (load3 (drop 5 a)),
     2097151 AND signed_drop_bit 7 (load4 (drop 7 a)),
     2097151 AND signed_drop_bit 4 (load4 (drop 10 a)),
     2097151 AND signed_drop_bit 1 (load3 (drop 13 a)),
     2097151 AND signed_drop_bit 6 (load4 (drop 15 a)),
     2097151 AND signed_drop_bit 3 (load3 (drop 18 a)),
     2097151 AND load3 (drop 21 a),
     2097151 AND signed_drop_bit 5 (load4 (drop 23 a)),
     2097151 AND signed_drop_bit 2 (load3 (drop 26 a))]"

definition sc_load12 :: "bytes \<Rightarrow> 64 word list" where
  "sc_load12 a = sc_load11 a @ [signed_drop_bit 7 (load4 (drop 28 a))]"

definition sc_load24 :: "bytes \<Rightarrow> 64 word list" where
  "sc_load24 s = sc_load11 s @
    [2097151 AND signed_drop_bit 7 (load4 (drop 28 s)),
     2097151 AND signed_drop_bit 4 (load4 (drop 31 s)),
     2097151 AND signed_drop_bit 1 (load3 (drop 34 s)),
     2097151 AND signed_drop_bit 6 (load4 (drop 36 s)),
     2097151 AND signed_drop_bit 3 (load3 (drop 39 s)),
     2097151 AND load3 (drop 42 s),
     2097151 AND signed_drop_bit 5 (load4 (drop 44 s)),
     2097151 AND signed_drop_bit 2 (load3 (drop 47 s)),
     2097151 AND signed_drop_bit 7 (load4 (drop 49 s)),
     2097151 AND signed_drop_bit 4 (load4 (drop 52 s)),
     2097151 AND signed_drop_bit 1 (load3 (drop 55 s)),
     2097151 AND signed_drop_bit 6 (load4 (drop 57 s)),
     signed_drop_bit 3 (load4 (drop 60 s))]"

text \<open>The bytes that lie within a limb and those that lie across two.\<close>

definition sc_store :: "64 word list \<Rightarrow> bytes" where
  "sc_store s =
    [limb_byte s 0 0, limb_byte s 0 8, limb_byte2 s 0 16 5, limb_byte s 1 3, limb_byte s 1 11, limb_byte2 s 1 19 2,
     limb_byte s 2 6, limb_byte2 s 2 14 7, limb_byte s 3 1, limb_byte s 3 9, limb_byte2 s 3 17 4, limb_byte s 4 4,
     limb_byte s 4 12, limb_byte2 s 4 20 1, limb_byte s 5 7, limb_byte2 s 5 15 6, limb_byte s 6 2, limb_byte s 6 10,
     limb_byte2 s 6 18 3, limb_byte s 7 5, limb_byte s 7 13, limb_byte s 8 0, limb_byte s 8 8, limb_byte2 s 8 16 5,
     limb_byte s 9 3, limb_byte s 9 11, limb_byte2 s 9 19 2, limb_byte s 10 6, limb_byte2 s 10 14 7, limb_byte s 11 1,
     limb_byte s 11 9, limb_byte s 11 17]"

section \<open>Folding and carrying\<close>

text \<open>\<^verbatim>\<open>carry[i] = (s_i + (1 << 20)) >> 21; s_{i+1} += carry[i]; s_i -= carry[i] << 21\<close>, and the same without
  rounding.\<close>

definition sc_carry :: "nat \<Rightarrow> 64 word list \<Rightarrow> 64 word list" where
  "sc_carry i = limb_carry i (i + 1) 21 1048576 1"

definition sc_floor :: "nat \<Rightarrow> 64 word list \<Rightarrow> 64 word list" where
  "sc_floor i = limb_carry i (i + 1) 21 0 1"

text \<open>The six statements that fold limb \<open>i\<close> twelve places down, and \<^verbatim>\<open>s_i = 0\<close>; \<^verbatim>\<open>-=\<close> adds a negative multiple.\<close>

definition sc_fold :: "nat \<Rightarrow> 64 word list \<Rightarrow> 64 word list" where
  "sc_fold i = limb_fold i
    [(i - 12, 666643), (i - 11, 470296), (i - 10, 654183), (i - 9, - 997805), (i - 8, 136657), (i - 7, - 683901)]"

definition sc_fold_high :: "64 word list \<Rightarrow> 64 word list" where
  "sc_fold_high s = fold sc_fold [23, 22, 21, 20, 19, 18] s"

definition sc_carry_mid :: "64 word list \<Rightarrow> 64 word list" where
  "sc_carry_mid s = fold sc_carry [6, 8, 10, 12, 14, 16, 7, 9, 11, 13, 15] s"

definition sc_fold_low :: "64 word list \<Rightarrow> 64 word list" where
  "sc_fold_low s = fold sc_fold [17, 16, 15, 14, 13, 12] s"

definition sc_carry_low :: "64 word list \<Rightarrow> 64 word list" where
  "sc_carry_low s = fold sc_carry [0, 2, 4, 6, 8, 10, 1, 3, 5, 7, 9, 11] s"

definition sc_floor12 :: "64 word list \<Rightarrow> 64 word list" where
  "sc_floor12 s = fold sc_floor [0, 1, 2, 3, 4, 5, 6, 7, 8, 9, 10, 11] (sc_fold 12 s)"

definition sc_floor11 :: "64 word list \<Rightarrow> 64 word list" where
  "sc_floor11 s = fold sc_floor [0, 1, 2, 3, 4, 5, 6, 7, 8, 9, 10] (sc_fold 12 s)"

definition sc_modl :: "64 word list \<Rightarrow> bytes" where
  "sc_modl s = sc_store (sc_floor11 (sc_floor12 (sc_carry_low (sc_fold_low (sc_carry_mid (sc_fold_high s))))))"

definition ScReduce :: "bytes \<Rightarrow> bytes" where
  "ScReduce s = sc_modl (sc_load24 s)"

text \<open>\<^verbatim>\<open>s_k = c_k + a_0 * b_k + ... + a_k * b_0\<close> over the limbs that exist, and \<^verbatim>\<open>s23 = 0\<close>.\<close>

definition sc_row :: "64 word list \<Rightarrow> 64 word list \<Rightarrow> 64 word list \<Rightarrow> nat \<Rightarrow> 64 word" where
  "sc_row a b c k = (if k < 12 then c ! k else 0) + sum_list (map (\<lambda>i. a ! i * b ! (k - i)) [k - 11..<min (k + 1) 12])"

definition sc_mul :: "64 word list \<Rightarrow> 64 word list \<Rightarrow> 64 word list \<Rightarrow> 64 word list" where
  "sc_mul a b c = map (sc_row a b c) [0..<23] @ [0]"

definition sc_carry_mul :: "64 word list \<Rightarrow> 64 word list" where
  "sc_carry_mul s = fold sc_carry
    [0, 2, 4, 6, 8, 10, 12, 14, 16, 18, 20, 22, 1, 3, 5, 7, 9, 11, 13, 15, 17, 19, 21] s"

text \<open>The 32 bytes of the order, and the loop of \<^verbatim>\<open>ScNeg\<close> from index \<open>i\<close> on: the difference of a byte with its borrow, the
  smearing of its sign bit over the word, the byte and the next borrow.\<close>

definition sc_l :: bytes where
  "sc_l = [237, 211, 245, 92, 26, 99, 18, 88, 214, 156, 247, 162, 222, 249, 222, 20, 0, 0, 0, 0, 0, 0, 0, 0, 0, 0, 0, 0, 0, 0, 0, 16]"

definition sc_smear :: "32 word \<Rightarrow> 32 word" where
  "sc_smear carry =
    (let n = carry AND word_of_int (- (2 ^ 31));
         n = n OR signed_drop_bit 16 n; n = n OR signed_drop_bit 8 n; n = n OR signed_drop_bit 4 n;
         n = n OR signed_drop_bit 2 n; n = n OR signed_drop_bit 1 n
     in n)"

fun sc_neg_loop :: "32 word \<Rightarrow> bytes \<Rightarrow> bytes \<Rightarrow> bytes" where
  "sc_neg_loop carry (l # ls) (s # ss) =
    (let carry = carry + ucast l - ucast s;
         negative = sc_smear carry;
         carry = carry + (negative AND 256)
     in ucast carry # sc_neg_loop (negative AND (- 1)) ls ss)" |
  "sc_neg_loop carry _ _ = []"

definition ScNeg :: "bytes \<Rightarrow> bytes" where
  "ScNeg s = sc_neg_loop 0 sc_l s"

definition ScMulAdd :: "bytes \<Rightarrow> bytes \<Rightarrow> bytes \<Rightarrow> bytes" where
  "ScMulAdd a b c = sc_modl (sc_carry_mul (sc_mul (sc_load12 a) (sc_load12 b) (sc_load12 c)))"

section \<open>The loops as programs of limb operations\<close>

definition op_carry :: "nat \<Rightarrow> limb_op" where
  "op_carry i = Carry i (i + 1) 21 1048576 1"

definition op_floor :: "nat \<Rightarrow> limb_op" where
  "op_floor i = Carry i (i + 1) 21 0 1"

definition op_fold :: "nat \<Rightarrow> limb_op" where
  "op_fold i = Fold i
    [(i - 12, 666643), (i - 11, 470296), (i - 10, 654183), (i - 9, - 997805), (i - 8, 136657), (i - 7, - 683901)]"

lemma exec_ops: "limb_exec (op_carry i) = sc_carry i" "limb_exec (op_floor i) = sc_floor i" "limb_exec (op_fold i) = sc_fold i"
  by (simp_all add: fun_eq_iff op_carry_def op_floor_def op_fold_def sc_carry_def sc_floor_def sc_fold_def)

definition ops_mul :: "limb_op list" where
  "ops_mul = map op_carry [0, 2, 4, 6, 8, 10, 12, 14, 16, 18, 20, 22, 1, 3, 5, 7, 9, 11, 13, 15, 17, 19, 21]"

definition ops_main :: "limb_op list" where
  "ops_main = map op_fold [23, 22, 21, 20, 19, 18] @ map op_carry [6, 8, 10, 12, 14, 16, 7, 9, 11, 13, 15]
    @ map op_fold [17, 16, 15, 14, 13, 12] @ map op_carry [0, 2, 4, 6, 8, 10, 1, 3, 5, 7, 9, 11]
    @ op_fold 12 # map op_floor [0, 1, 2, 3, 4, 5, 6, 7, 8, 9, 10, 11]"

definition ops_last :: "limb_op list" where
  "ops_last = op_fold 12 # map op_floor [0, 1, 2, 3, 4, 5, 6, 7, 8, 9, 10]"

lemma sc_modl_ops: "sc_modl s = sc_store (fold limb_exec ops_last (fold limb_exec ops_main s))"
  by (simp add: sc_modl_def ops_main_def ops_last_def exec_ops sc_floor11_def sc_floor12_def sc_carry_low_def
      sc_fold_low_def sc_carry_mid_def sc_fold_high_def)

lemma sc_carry_mul_ops: "sc_carry_mul s = fold limb_exec ops_mul s"
  by (simp add: sc_carry_mul_def ops_mul_def exec_ops)

section \<open>Loading\<close>

lemma sint_mask21: "sint (2097151 AND w :: 64 word) = take_bit 21 (sint w)"
proof -
  have "2097151 AND w = take_bit 21 w"
    by (simp add: take_bit_eq_mask mask_eq_exp_minus_1 and.commute)
  moreover have "sint (take_bit 21 w) = take_bit 21 (sint w)"
    by (rule bit_eqI) (auto simp: bit_simps)
  ultimately show ?thesis by simp
qed

lemma limb3:
  assumes "k + 3 \<le> length b" and "j \<le> 3"
  shows "sint (2097151 AND signed_drop_bit j (load3 (drop k b))) = take_bit 21 (drop_bit (8 * k + j) (le_int b))"
  using assms by (simp add: sint_mask21 sint_signed_drop_bit_eq load3_eq le_int_drop drop_bit_take_bit drop_bit_drop_bit min_absorb1 add.commute)

lemma limb4:
  assumes "k + 4 \<le> length b" and "j \<le> 11"
  shows "sint (2097151 AND signed_drop_bit j (load4 (drop k b))) = take_bit 21 (drop_bit (8 * k + j) (le_int b))"
  using assms by (simp add: sint_mask21 sint_signed_drop_bit_eq load4_eq le_int_drop drop_bit_take_bit drop_bit_drop_bit min_absorb1 add.commute)

lemma limb_top:
  assumes "k + 4 = length b"
  shows "sint (signed_drop_bit j (load4 (drop k b))) = drop_bit (8 * k + j) (le_int b)"
proof -
  have "take_bit 32 (le_int (drop k b)) = le_int (drop k b)"
    using le_int_take [of 4 "drop k b"] assms by simp
  then show ?thesis
    using assms by (simp add: sint_signed_drop_bit_eq load4_eq le_int_drop drop_bit_drop_bit add.commute)
qed

lemma sc_load11_digits:
  assumes "32 \<le> length b"
  shows "sints (sc_load11 b) = map (digit 21 (le_int b)) [0..<11]"
proof -
  have "sint (2097151 AND load3 (drop k b)) = take_bit 21 (drop_bit (8 * k) (le_int b))" if "k \<le> 21" for k
    using limb3 [of k b 0] assms that by simp
  from this [of 0] this [of 21] show ?thesis
    using assms by (simp add: sc_load11_def digit_def limb3 limb4 upt_rec)
qed

lemma sc_load12_digits:
  assumes "length b = 32"
  shows "sints (sc_load12 b) = map (digit 21 (le_int b)) [0..<11] @ [drop_bit 231 (le_int b)]"
  using assms by (simp add: sc_load12_def sc_load11_digits limb_top)

lemma sc_load24_digits:
  assumes "length b = 64"
  shows "sints (sc_load24 b) = map (digit 21 (le_int b)) [0..<23] @ [drop_bit 483 (le_int b)]"
proof -
  have "sint (2097151 AND load3 (drop 42 b)) = take_bit 21 (drop_bit 336 (le_int b))"
    using limb3 [of 42 b 0] assms by simp
  moreover have "map (digit 21 (le_int b)) [0..<23] = map (digit 21 (le_int b)) [0..<11] @ map (digit 21 (le_int b)) [11..<23]"
    using upt_add_eq_append [of 0 11 12] by simp
  ultimately show ?thesis
    using assms by (simp add: sc_load24_def sc_load11_digits limb_top) (simp add: limb3 limb4 upt_rec digit_def)
qed

section \<open>Storing\<close>

lemma sc_store_val:
  assumes "\<forall>i<11. sint (s ! i) = take_bit 21 (drop_bit (21 * i) n)" and "sint (s ! 11) = drop_bit 231 n"
    and "0 \<le> n" and "n < 2 ^ 256"
  shows "le_int (sc_store s) = n"
proof -
  have b: "uint (limb_byte s i j) = take_bit 8 (drop_bit (21 * i + j) n)" if "i < 11" "j \<le> 13" for i j
    using assms(1) that by (intro limb_byte_digit [where w = 21]) simp_all
  have nxt: "take_bit 8 (sint (s ! (i + 1))) = take_bit 8 (drop_bit (21 * i + 21) n)" if "i < 11" for i
  proof (cases "i = 10")
    case False
    then have "sint (s ! (i + 1)) = take_bit 21 (drop_bit (21 * i + 21) n)"
      using assms(1) that by (simp add: add.commute)
    then show ?thesis by (simp add: min_def)
  qed (simp add: assms(2))
  have b2: "uint (limb_byte2 s i j k) = take_bit 8 (drop_bit (21 * i + j) n)" if "i < 11" "j + k = 21" for i j k
    using assms(1) that nxt [OF that(1)] by (intro limb_byte2_digit [where w = 21]) simp_all
  have top: "uint (limb_byte s 11 j) = take_bit 8 (drop_bit (231 + j) n)" for j
    by (rule limb_byte_top) (simp_all add: assms(2))
  have "map uint (sc_store s) = map (digit 8 n) [0..<32]"
    by (simp add: sc_store_def digit_def upt_rec b b2 top)
  then have "le_int (sc_store s) = take_bit 256 n"
    using horner_digits [of 8 n 32] by (simp add: le_int_def)
  also have "\<dots> = n" using assms(3,4) by (simp add: take_bit_int_eq_self)
  finally show ?thesis .
qed

section \<open>No overflow\<close>

text \<open>The order of the base point.\<close>

definition ell :: int where
  "ell = 2 ^ 252 + 27742317777372353535851937790883648493"

definition iv_wide :: "ival list" where
  "iv_wide = replicate 23 (0, 2 ^ 54) @ [(0, 0)]"

definition iv_mul :: "ival list" where
  "iv_mul = the (iv_run 63 ops_mul iv_wide)"

definition iv_load :: "ival list" where
  "iv_load = replicate 23 (0, 2097151) @ [(0, 2 ^ 29)]"

definition iv_main :: "ival list" where
  "iv_main = replicate 12 (0, 2097151) @ (- 1, 0) # replicate 11 (0, 0)"

definition iv_last :: "ival list" where
  "iv_last = replicate 11 (0, 2097151) @ (- 1, 2097152) # replicate 12 (0, 0)"

lemma iv_run_mul: "iv_run 63 (ops_mul @ ops_main) iv_wide = Some iv_main"
  by code_simp

lemma iv_run_main: "iv_run 63 ops_main iv_load = Some iv_main"
  by code_simp

lemma iv_run_last: "iv_run 63 ops_last iv_main = Some iv_last"
  by code_simp

lemma ops_keep: "list_all (op_keeps ((*) 21) ell 24) (ops_mul @ ops_main @ ops_last)"
  by code_simp

lemma floors_keep: "list_all (op_keeps ((*) 21) 0 24) (map op_floor [0, 1, 2, 3, 4, 5, 6, 7, 8, 9, 10])"
  by code_simp

text \<open>The last fold and carry bring a value of the main pass into the range of canonical scalars.\<close>

lemma last_range:
  assumes "within iv_main x"
  shows "0 \<le> horner 21 (fold int_exec ops_last x)" and "horner 21 (fold int_exec ops_last x) < ell"
proof -
  obtain u y where x: "x = u @ y # replicate 11 0" and u: "length u = 12" "\<forall>z \<in> set u. 0 \<le> z \<and> z \<le> 2097151"
    and y: "- 1 \<le> y" "y \<le> 0"
    using assms unfolding iv_main_def within_append within_Cons within_zeros by (auto simp: within_replicate)
  from u(2) have u2: "\<forall>z \<in> set u. 0 \<le> z \<and> z < 2 ^ 21" by auto
  let ?fl = "map op_floor [0, 1, 2, 3, 4, 5, 6, 7, 8, 9, 10]"
  let ?z = "int_exec (op_fold 12) x"
  have "limbs_val ((*) 21) (fold int_exec ?fl ?z) = limbs_val ((*) 21) ?z"
    using run_keeps [of "(*) 21" 0 ?z ?fl] floors_keep u(1) x by simp
  moreover have "limbs_val ((*) 21) ?z = limbs_val ((*) 21) x - y * ell"
    using u(1) by (simp add: op_fold_def int_fold_val x nth_append ell_def)
  moreover have "limbs_val ((*) 21) x = horner 21 u + y * 2 ^ 252"
    by (simp add: limbs_val_horner x horner_append u(1) mult.commute)
  ultimately have "horner 21 (fold int_exec ops_last x) = horner 21 u + y * 2 ^ 252 - y * ell"
    by (simp add: ops_last_def limbs_val_horner)
  moreover have "0 \<le> horner 21 u" "horner 21 u < 2 ^ 252"
    using horner_bound [OF u2] u(1) by simp_all
  moreover have "y = - 1 \<or> y = 0" using y by auto
  ultimately show "0 \<le> horner 21 (fold int_exec ops_last x)" "horner 21 (fold int_exec ops_last x) < ell"
    by (auto simp: ell_def)
qed

lemma store_last:
  assumes "within iv_last (sints s)" and "0 \<le> horner 21 (sints s)" and "horner 21 (sints s) < ell"
  shows "le_int (sc_store s) = horner 21 (sints s)"
proof -
  obtain u y where x: "sints s = u @ y # replicate 12 0" and u: "length u = 11" "\<forall>z \<in> set u. 0 \<le> z \<and> z \<le> 2097151"
    using assms(1) unfolding iv_last_def within_append within_Cons within_zeros by (auto simp: within_replicate)
  from u(2) have u2: "\<forall>z \<in> set u. 0 \<le> z \<and> z < 2 ^ 21" by auto
  let ?n = "horner 21 (sints s)"
  have len: "length s = 24" using arg_cong [OF x, of length] u(1) by simp
  have dr: "drop_bit (21 * i) ?n = horner 21 (drop i (sints s))" if "i \<le> 11" for i
    using that u(1) u2 by (intro horner_drop) (auto simp: x dest!: in_set_takeD)
  have "sint (s ! i) = take_bit 21 (drop_bit (21 * i) ?n)" if "i < 11" for i
  proof -
    have "drop i (sints s) = sint (s ! i) # drop (Suc i) (sints s)"
      using that len by (simp add: Cons_nth_drop_Suc [symmetric])
    moreover have "0 \<le> sint (s ! i) \<and> sint (s ! i) < 2 ^ 21"
      using that u(1) u2 len arg_cong [OF x, of "\<lambda>l. l ! i"] by (simp add: nth_append)
    ultimately show ?thesis using dr [of i] that by (simp add: take_bit_eq_mod)
  qed
  moreover have "sint (s ! 11) = y"
    using u(1) arg_cong [OF x, of "\<lambda>l. l ! 11"] len by (simp add: nth_append)
  then have "sint (s ! 11) = drop_bit 231 ?n" using dr [of 11] u(1) by (simp add: x)
  ultimately show ?thesis using assms(2,3) by (intro sc_store_val) (auto simp: ell_def)
qed

text \<open>The reduction shared by \<^verbatim>\<open>ScReduce\<close> and \<^verbatim>\<open>ScMulAdd\<close>, after any program of operations \<open>ps\<close> that keeps the value
  modulo \<open>l\<close> and that the analysis accepts.\<close>

lemma sc_modl_val:
  assumes "within b (sints s)" and "iv_run 63 (ps @ ops_main) b = Some iv_main"
    and "list_all (op_keeps ((*) 21) ell 24) ps" and "length s = 24"
  shows "le_int (sc_modl (fold limb_exec ps s)) = horner 21 (sints s) mod ell"
proof -
  let ?m = "fold limb_exec (ps @ ops_main) s" and ?x = "fold int_exec (ps @ ops_main) (sints s)"
  have m: "sints ?m = ?x" "within iv_main ?x"
    using run_sound [OF assms(1,2)] by auto
  let ?r = "fold limb_exec ops_last ?m" and ?y = "fold int_exec ops_last ?x"
  have r: "sints ?r = ?y" "within iv_last ?y"
    using run_sound [OF _ iv_run_last, of ?m] m by auto
  have "list_all (op_keeps ((*) 21) ell 24) ((ps @ ops_main) @ ops_last)"
    using assms(3) ops_keep by simp
  then have "ell dvd horner 21 ?y - horner 21 (sints s)"
    using run_keeps [of "(*) 21" ell "sints s" "(ps @ ops_main) @ ops_last"] assms(4)
    by (simp add: limbs_val_horner)
  then have "horner 21 ?y mod ell = horner 21 (sints s) mod ell"
    by (simp add: mod_eq_dvd_iff)
  moreover have "horner 21 ?y mod ell = horner 21 ?y"
    using last_range [OF m(2)] by simp
  moreover have "le_int (sc_store ?r) = horner 21 ?y"
    using store_last [of ?r] r last_range [OF m(2)] by simp
  ultimately show ?thesis by (simp add: sc_modl_ops)
qed

lemma length_sc_modl [simp]: "length (sc_modl s) = 32"
  by (simp add: sc_modl_def sc_store_def)

section \<open>Reduction\<close>

lemma digits_within: "within (replicate k (0, 2097151)) (map (digit 21 n) [0..<k])"
proof -
  have "0 \<le> digit 21 n i \<and> digit 21 n i \<le> 2097151" for i
    using take_bit_int_less_exp [of 21 "drop_bit (21 * i) n"] by (simp add: digit_def)
  then show ?thesis by (simp add: within_replicate)
qed

lemma ScReduce_ok:
  assumes "length s = 64"
  shows "length (ScReduce s) = 32 \<and> le_int (ScReduce s) = le_int s mod ell"
proof -
  have "drop_bit 483 (le_int s) \<le> 2 ^ 29"
    using le_int_bound [of s] assms zdiv_mono1 [of "le_int s" "2 ^ 512" "2 ^ 483"] by (simp add: drop_bit_eq_div)
  moreover have "0 \<le> drop_bit 483 (le_int s)" using le_int_bound [of s] by simp
  ultimately have "within iv_load (sints (sc_load24 s))"
    using digits_within [of 23 "le_int s"] assms
    by (auto simp: sc_load24_digits iv_load_def within_def intro!: list_all2_appendI)
  moreover have "horner 21 (sints (sc_load24 s)) = le_int s"
    using digits_top [of 21 "le_int s" 23] by (simp add: sc_load24_digits assms)
  ultimately show ?thesis
    using sc_modl_val [of iv_load "sc_load24 s" "[]"] iv_run_main
    by (simp add: ScReduce_def sc_load24_def sc_load11_def)
qed

text \<open>\<^verbatim>\<open>ScReduce\<close> returns the only encoding below the order \<open>l\<close> of its 64-byte input modulo \<open>l\<close>, as its comment
  says; none of its \<^verbatim>\<open>int64\<close> operations overflows.\<close>

theorem sc_reduce_mod:
  assumes "length s = 64"
  shows "length (ScReduce s) = 32 \<and> le_int (ScReduce s) = le_int s mod ell"
  by (rule ScReduce_ok [OF assms])

theorem sc_reduce_mod_witness:
  "length (sc_l @ replicate 32 (1 :: byte)) = 64
    \<and> le_int (ScReduce (sc_l @ replicate 32 1)) = le_int (sc_l @ replicate 32 1) mod ell
    \<and> 0 < le_int (sc_l @ replicate 32 1) mod ell"
proof -
  have "length (sc_l @ replicate 32 (1 :: byte)) = 64" by (simp add: sc_l_def)
  moreover have "0 < le_int (sc_l @ replicate 32 1) mod ell" by code_simp
  ultimately show ?thesis using sc_reduce_mod [of "sc_l @ replicate 32 1"] by blast
qed

section \<open>Multiplication and addition\<close>

lemma sum_shift_pairs:
  fixes f :: "nat \<Rightarrow> nat \<Rightarrow> int"
  shows "(\<Sum>k<23. \<Sum>i\<in>{k - 11..<min (k + 1) 12}. f i (k - i)) = (\<Sum>i<12. \<Sum>j<12. f i j)"
proof -
  have "(\<Sum>k<23. \<Sum>i\<in>{k - 11..<min (k + 1) 12}. f i (k - i)) = (\<Sum>(k, i)\<in>(SIGMA k:{..<23}. {k - 11..<min (k + 1) 12}). f i (k - i))"
    by (rule sum.Sigma) auto
  also have "\<dots> = (\<Sum>(i, j)\<in>{..<12} \<times> {..<12}. f i j)"
    by (rule sum.reindex_bij_witness [where i = "\<lambda>(i, j). (i + j, i)" and j = "\<lambda>(k, i). (i, k - i)"]) auto
  also have "\<dots> = (\<Sum>i<12. \<Sum>j<12. f i j)"
    by (simp add: sum.cartesian_product)
  finally show ?thesis .
qed

lemma sint_row:
  assumes "\<forall>i<12. 0 \<le> sint (a ! i) \<and> sint (a ! i) < 2 ^ 25 \<and> 0 \<le> sint (b ! i) \<and> sint (b ! i) < 2 ^ 25
      \<and> 0 \<le> sint (c ! i) \<and> sint (c ! i) < 2 ^ 25"
    and "k < 23"
  defines "v \<equiv> (if k < 12 then sint (c ! k) else 0) + (\<Sum>i\<in>{k - 11..<min (k + 1) 12}. sint (a ! i) * sint (b ! (k - i)))"
  shows "sint (sc_row a b c k) = v" and "0 \<le> v" and "v \<le> 2 ^ 54"
proof -
  let ?I = "{k - 11..<min (k + 1) 12}"
  have t: "0 \<le> sint (a ! i) * sint (b ! (k - i)) \<and> sint (a ! i) * sint (b ! (k - i)) \<le> 2 ^ 50" if "i \<in> ?I" for i
  proof -
    have "i < 12" "k - i < 12" using that assms(2) by auto
    then have r: "0 \<le> sint (a ! i)" "sint (a ! i) \<le> 2 ^ 25" "0 \<le> sint (b ! (k - i))" "sint (b ! (k - i)) \<le> 2 ^ 25"
      using assms(1) by (simp_all add: less_imp_le)
    from mult_mono [OF r(2) r(4) _ r(3)] r show ?thesis by simp
  qed
  have "(\<Sum>i\<in>?I. sint (a ! i) * sint (b ! (k - i))) \<le> of_nat (card ?I) * 2 ^ 50"
    by (rule sum_bounded_above) (use t in auto)
  moreover have "of_nat (card ?I) * 2 ^ 50 \<le> (12 * 2 ^ 50 :: int)" by simp
  moreover have "0 \<le> (\<Sum>i\<in>?I. sint (a ! i) * sint (b ! (k - i)))" by (rule sum_nonneg) (use t in auto)
  moreover have "k < 12 \<Longrightarrow> 0 \<le> sint (c ! k) \<and> sint (c ! k) < 2 ^ 25" using assms(1) by simp
  ultimately show v: "0 \<le> v" "v \<le> 2 ^ 54" by (auto simp: v_def)
  have "sum_list (map (\<lambda>i. a ! i * b ! (k - i)) [k - 11..<min (k + 1) 12]) = (\<Sum>i\<in>?I. a ! i * b ! (k - i))"
    by (simp only: interv_sum_list_conv_sum_set_nat set_upt)
  then have "sc_row a b c k = word_of_int v"
    by (simp add: sc_row_def v_def)
  then show "sint (sc_row a b c k) = v"
    using v by (intro sint_via_int) simp_all
qed

lemma load12_limbs:
  assumes "length a = 32"
  shows "i < 12 \<Longrightarrow> 0 \<le> sint (sc_load12 a ! i) \<and> sint (sc_load12 a ! i) < 2 ^ 25"
    and "(\<Sum>i<12. sint (sc_load12 a ! i) * 2 ^ (21 * i)) = le_int a"
proof -
  let ?x = "map (digit 21 (le_int a)) [0..<11] @ [drop_bit 231 (le_int a)]"
  have x: "sints (sc_load12 a) = ?x" by (rule sc_load12_digits [OF assms])
  have len: "length (sc_load12 a) = 12" by (simp add: sc_load12_def sc_load11_def)
  have nth: "i < 12 \<Longrightarrow> sint (sc_load12 a ! i) = ?x ! i" for i
    using arg_cong [OF x, of "\<lambda>l. l ! i"] len by simp
  have "drop_bit 231 (le_int a) < 2 ^ 25"
    using le_int_bound [of a] assms zdiv_mono1 [of "le_int a" "2 ^ 256 - 1" "2 ^ 231"] by (simp add: drop_bit_eq_div)
  moreover have "0 \<le> digit 21 (le_int a) i \<and> digit 21 (le_int a) i < 2 ^ 25" for i
    using take_bit_int_less_exp [of 21 "drop_bit (21 * i) (le_int a)"] by (simp add: digit_def)
  ultimately show "i < 12 \<Longrightarrow> 0 \<le> sint (sc_load12 a ! i) \<and> sint (sc_load12 a ! i) < 2 ^ 25"
    using nth [of i] le_int_bound [of a] by (auto simp: nth_append)
  show "(\<Sum>i<12. sint (sc_load12 a ! i) * 2 ^ (21 * i)) = le_int a"
    using digits_top [of 21 "le_int a" 11] limbs_val_horner [of 21 "sints (sc_load12 a)"] len
    by (simp add: x [symmetric] limbs_val_def)
qed

lemma sc_mul_val:
  assumes "length a = 32" and "length b = 32" and "length c = 32"
  defines "s \<equiv> sc_mul (sc_load12 a) (sc_load12 b) (sc_load12 c)"
  shows "within iv_wide (sints s)" and "horner 21 (sints s) = le_int a * le_int b + le_int c"
proof -
  let ?a = "\<lambda>i. sint (sc_load12 a ! i)" and ?b = "\<lambda>i. sint (sc_load12 b ! i)" and ?c = "\<lambda>i. sint (sc_load12 c ! i)"
  define v where "v k = (if k < 12 then ?c k else 0) + (\<Sum>i\<in>{k - 11..<min (k + 1) 12}. ?a i * ?b (k - i))" for k
  have lim: "\<forall>i<12. 0 \<le> ?a i \<and> ?a i < 2 ^ 25 \<and> 0 \<le> ?b i \<and> ?b i < 2 ^ 25 \<and> 0 \<le> ?c i \<and> ?c i < 2 ^ 25"
    using load12_limbs(1) assms(1-3) by simp
  have row: "k < 23 \<Longrightarrow> sint (sc_row (sc_load12 a) (sc_load12 b) (sc_load12 c) k) = v k \<and> 0 \<le> v k \<and> v k \<le> 2 ^ 54" for k
    unfolding v_def using sint_row [OF lim, of k] by blast
  then have s: "sints s = map v [0..<23] @ [0]" by (simp add: s_def sc_mul_def)
  show "within iv_wide (sints s)"
    unfolding s iv_wide_def within_append within_zeros [of 1, simplified]
    using row by (intro exI conjI) (auto simp: within_replicate)
  have "horner 21 (sints s) = horner 21 (map v [0..<23])" by (simp add: s horner_append)
  also have "\<dots> = (\<Sum>k<23. v k * 2 ^ (21 * k))"
    unfolding limbs_val_horner [symmetric] limbs_val_def by (intro sum.cong) simp_all
  also have "\<dots> = (\<Sum>k<23. (if k < 12 then ?c k else 0) * 2 ^ (21 * k))
      + (\<Sum>k<23. \<Sum>i\<in>{k - 11..<min (k + 1) 12}. ?a i * ?b (k - i) * 2 ^ (21 * k))"
    unfolding v_def by (simp only: distrib_right sum.distrib sum_distrib_right)
  also have "(\<Sum>k<23. (if k < 12 then ?c k else 0) * 2 ^ (21 * k)) = le_int c"
    using load12_limbs(2)[OF assms(3)] by (simp add: lessThan_atLeast0 eval_nat_numeral)
  also have "(\<Sum>k<23. \<Sum>i\<in>{k - 11..<min (k + 1) 12}. ?a i * ?b (k - i) * 2 ^ (21 * k))
      = (\<Sum>k<23. \<Sum>i\<in>{k - 11..<min (k + 1) 12}. (?a i * 2 ^ (21 * i)) * (?b (k - i) * 2 ^ (21 * (k - i))))"
  proof (intro sum.cong refl)
    fix k i :: nat assume "i \<in> {k - 11..<min (k + 1) 12}"
    then have "21 * k = 21 * i + 21 * (k - i)" by auto
    then have "(2 :: int) ^ (21 * k) = 2 ^ (21 * i) * 2 ^ (21 * (k - i))"
      by (simp only: power_add)
    then show "?a i * ?b (k - i) * 2 ^ (21 * k) = (?a i * 2 ^ (21 * i)) * (?b (k - i) * 2 ^ (21 * (k - i)))" by simp
  qed
  also have "\<dots> = (\<Sum>i<12. \<Sum>j<12. (?a i * 2 ^ (21 * i)) * (?b j * 2 ^ (21 * j)))"
    by (rule sum_shift_pairs)
  also have "\<dots> = le_int a * le_int b"
    by (simp only: load12_limbs(2)[OF assms(1), symmetric] load12_limbs(2)[OF assms(2), symmetric] sum_product)
  finally show "horner 21 (sints s) = le_int a * le_int b + le_int c" by simp
qed

lemma ScMulAdd_ok:
  assumes "length a = 32" and "length b = 32" and "length c = 32"
  shows "length (ScMulAdd a b c) = 32 \<and> le_int (ScMulAdd a b c) = (le_int a * le_int b + le_int c) mod ell"
proof -
  have "list_all (op_keeps ((*) 21) ell 24) ops_mul" using ops_keep by simp
  moreover have "length (sc_mul x y z) = 24" for x y z by (simp add: sc_mul_def)
  ultimately have "le_int (sc_modl (fold limb_exec ops_mul (sc_mul (sc_load12 a) (sc_load12 b) (sc_load12 c))))
      = horner 21 (sints (sc_mul (sc_load12 a) (sc_load12 b) (sc_load12 c))) mod ell"
    by (intro sc_modl_val [OF sc_mul_val(1)[OF assms] iv_run_mul])
  then show ?thesis
    by (simp add: ScMulAdd_def sc_carry_mul_ops sc_mul_val(2)[OF assms])
qed

text \<open>C27. \<^verbatim>\<open>ScMulAdd\<close> returns the only encoding of \<open>ab + c\<close> modulo \<open>l\<close> below \<open>l\<close>, for all scalars of 32 bytes, reduced or not.\<close>

theorem sc_muladd_mod:
  assumes "length a = 32" and "length b = 32" and "length c = 32"
  shows "length (ScMulAdd a b c) = 32 \<and> le_int (ScMulAdd a b c) = (le_int a * le_int b + le_int c) mod ell"
  by (rule ScMulAdd_ok [OF assms])

theorem sc_muladd_mod_witness:
  "le_int (ScMulAdd (replicate 32 255) (replicate 32 255) (replicate 32 255)) = ((2 ^ 256 - 1) * (2 ^ 256 - 1) + (2 ^ 256 - 1)) mod ell"
proof -
  have "le_int (replicate 32 255) = 2 ^ 256 - 1" by code_simp
  then show ?thesis using sc_muladd_mod [of "replicate 32 255" "replicate 32 255" "replicate 32 255"] by simp
qed

section \<open>Negation\<close>

lemma sc_smear_eq: "sc_smear w = (if sint w < 0 then - 1 else 0)"
proof -
  have two: "word_of_int (- (2 ^ 31)) = (2 ^ 31 :: 32 word)" by simp
  have m: "bit (word_of_int (- (2 ^ 31)) :: 32 word) n \<longleftrightarrow> n = 31" for n
    unfolding two using bit_exp_iff [of 31 n, where ?'a = "32 word"] by auto
  have "w AND word_of_int (- (2 ^ 31)) = (if bit w 31 then word_of_int (- (2 ^ 31)) else 0)"
    by (rule bit_word_eqI) (auto simp only: bit_and_iff m bit_0_eq bot_apply bot_bool_def split: if_splits)
  moreover have "bit w 31 \<longleftrightarrow> sint w < 0"
    using bit_last_iff [of w] by simp
  ultimately show ?thesis by (simp add: sc_smear_def Let_def)
qed

lemma byte32: "uint (ucast (word_of_int k :: 32 word) :: byte) = k mod 256"
  by (simp add: unsigned_ucast_eq take_bit_eq_mod uint_word_of_int mod_mod_cancel)

lemma sc_neg_loop_val:
  assumes "length ls = length ss" and "b = - 1 \<or> b = 0"
  shows "length (sc_neg_loop (word_of_int b) ls ss) = length ls
    \<and> le_int (sc_neg_loop (word_of_int b) ls ss) = (le_int ls - le_int ss + b) mod 2 ^ (8 * length ls)"
  using assms
proof (induction ls ss arbitrary: b rule: list_induct2)
  case Nil
  then show ?case by (simp add: le_int_def)
next
  case (Cons l ls s ss)
  define d where "d = b + uint l - uint s"
  have d: "- 256 \<le> d" "d < 256"
    using byte_range [of l] byte_range [of s] Cons.prems unfolding d_def by linarith+
  have w: "word_of_int b + ucast l - ucast s = (word_of_int d :: 32 word)" by (simp add: d_def)
  have sd: "sint (word_of_int d :: 32 word) = d"
    using d by (simp add: signed_of_int signed_take_bit_int_eq_self)
  have neg: "d < 0 \<Longrightarrow> d div 256 = - 1" using d by (simp add: div_minus_one)
  have sm: "sc_smear (word_of_int d) = word_of_int (d div 256)"
    using d by (cases "d < 0") (simp_all add: sc_smear_eq sd neg)
  have byte: "uint (ucast (word_of_int d + (word_of_int (d div 256) AND 256) :: 32 word) :: byte) = d mod 256"
  proof (cases "d < 0")
    case True
    then have "word_of_int d + (word_of_int (d div 256) AND 256) = (word_of_int (d + 256) :: 32 word)"
      using d by (simp add: neg)
    then show ?thesis by (simp only: byte32) simp
  next
    case False
    then have "word_of_int d + (word_of_int (d div 256) AND 256) = (word_of_int d :: 32 word)"
      using d by simp
    then show ?thesis by (simp only: byte32)
  qed
  have b: "d div 256 = - 1 \<or> d div 256 = 0" using d by (cases "d < 0") (auto simp: neg)
  have split: "(d + 256 * q) mod (256 * m) = d mod 256 + 256 * ((q + d div 256) mod m)" if "0 \<le> m" for q m :: int
    using that by (simp add: zmod_zmult2_eq add.commute)
  have "le_int (sc_neg_loop (word_of_int b) (l # ls) (s # ss))
      = d mod 256 + 256 * ((le_int ls - le_int ss + d div 256) mod 2 ^ (8 * length ls))"
    using Cons.IH [OF b] byte by (simp add: Let_def w sm le_int_def)
  also have "\<dots> = (d + 256 * (le_int ls - le_int ss)) mod (256 * 2 ^ (8 * length ls))"
    by (rule split [symmetric]) simp
  also have "\<dots> = (le_int (l # ls) - le_int (s # ss) + b) mod 2 ^ (8 * length (l # ls))"
    by (simp add: le_int_def d_def power_add algebra_simps)
  finally show ?case using Cons.IH [OF b] by (simp add: Let_def w sm)
qed

text \<open>\<^verbatim>\<open>ScNeg\<close> returns \<open>l - s\<close> for every scalar up to \<open>l\<close>, and wraps modulo \<open>2 ^ 256\<close> beyond.\<close>

theorem sc_neg_diff:
  assumes "length s = 32"
  shows "length (ScNeg s) = 32 \<and> le_int (ScNeg s) = (ell - le_int s) mod 2 ^ 256
    \<and> (le_int s \<le> ell \<longrightarrow> le_int (ScNeg s) = ell - le_int s)"
proof -
  have l: "le_int sc_l = ell" by code_simp
  have "length sc_l = 32" by (simp add: sc_l_def)
  with sc_neg_loop_val [of sc_l s 0] assms
  have "length (ScNeg s) = 32 \<and> le_int (ScNeg s) = (ell - le_int s) mod 2 ^ 256"
    by (simp add: ScNeg_def l)
  moreover have "le_int s \<le> ell \<Longrightarrow> (ell - le_int s) mod 2 ^ 256 = ell - le_int s"
    using le_int_bound [of s] by (intro mod_pos_pos_trivial) (auto simp: ell_def)
  ultimately show ?thesis by simp
qed

theorem sc_neg_diff_witness:
  "length (ScNeg (1 # replicate 31 0)) = 32 \<and> le_int (ScNeg (1 # replicate 31 0)) = ell - 1"
proof -
  have "le_int (1 # replicate 31 0) = 1" by code_simp
  then show ?thesis using sc_neg_diff [of "1 # replicate 31 0"] by (simp add: ell_def)
qed

end
