(* ===== verification/Field25519.thy ===== *)
theory Field25519
  imports Limbs
begin

unbundle bit_operations_syntax

text \<open>
  The field \<open>GF(2 ^ 255 - 19)\<close> of \<^verbatim>\<open>src/vrf/ed25519/edwards25519/edwards25519.go\<close>. An element is ten \<^verbatim>\<open>int32\<close> limbs whose weights alternate
  between 26 and 25 bits; products are computed in \<^verbatim>\<open>int64\<close> and carried back. Operations return the
  element they write. Shown: within
  the bounds that the group operations keep, no operation overflows and each computes the field operation
  modulo \<open>2 ^ 255 - 19\<close>.
\<close>

section \<open>Field elements\<close>

type_synonym fe = "32 word list"

definition FeZero :: fe where
  "FeZero = replicate 10 0"

definition FeOne :: fe where
  "FeOne = FeZero[0 := 1]"

definition FeAdd :: "fe \<Rightarrow> fe \<Rightarrow> fe" where
  "FeAdd a b = map2 (+) a b"

definition FeSub :: "fe \<Rightarrow> fe \<Rightarrow> fe" where
  "FeSub a b = map2 (-) a b"

definition FeNeg :: "fe \<Rightarrow> fe" where
  "FeNeg f = map uminus f"

definition FeCMove :: "fe \<Rightarrow> fe \<Rightarrow> 32 word \<Rightarrow> fe" where
  "FeCMove f g b = (let b = - b; x = map2 (\<lambda>u v. b AND (u XOR v)) f g in map2 (XOR) f x)"

section \<open>Products\<close>

text \<open>A product \<^verbatim>\<open>int64(a * f_i) * int64(b * g_j)\<close>, where \<^verbatim>\<open>a * f_i\<close> and \<^verbatim>\<open>b * g_j\<close> are computed in \<^verbatim>\<open>int32\<close>, and a sum of them.\<close>

type_synonym fe_term = "int \<times> nat \<times> int \<times> nat"

definition fe_prod :: "fe \<Rightarrow> fe \<Rightarrow> fe_term \<Rightarrow> 64 word" where
  "fe_prod f g = (\<lambda>(a, i, b, j). scast (word_of_int a * f ! i) * scast (word_of_int b * g ! j))"

definition fe_sum :: "fe \<Rightarrow> fe \<Rightarrow> fe_term list \<Rightarrow> 64 word" where
  "fe_sum f g ts = sum_list (map (fe_prod f g) ts)"

text \<open>The products of \<^verbatim>\<open>FeMul\<close>: \<^verbatim>\<open>f_i\<close> is doubled where both indices are odd, \<^verbatim>\<open>g_j\<close> is multiplied by 19 where the
  weights reach \<open>2 ^ 255\<close>. Row \<open>k\<close> is \<^verbatim>\<open>h_k\<close>.\<close>

definition fe_mul_term :: "nat \<Rightarrow> nat \<Rightarrow> fe_term" where
  "fe_mul_term i j = (if odd i \<and> odd j then 2 else 1, i, if 10 \<le> i + j then 19 else 1, j)"

definition fe_mul_row :: "nat \<Rightarrow> fe_term list" where
  "fe_mul_row k = map (\<lambda>i. fe_mul_term i ((k + 10 - i) mod 10)) [0..<10]"

definition fe_square_rows :: "fe_term list list" where
  "fe_square_rows =
    [[(1, 0, 1, 0), (2, 1, 38, 9), (2, 2, 19, 8), (2, 3, 38, 7), (2, 4, 19, 6), (1, 5, 38, 5)],
     [(2, 0, 1, 1), (1, 2, 38, 9), (2, 3, 19, 8), (1, 4, 38, 7), (2, 5, 19, 6)],
     [(2, 0, 1, 2), (2, 1, 1, 1), (2, 3, 38, 9), (2, 4, 19, 8), (2, 5, 38, 7), (1, 6, 19, 6)],
     [(2, 0, 1, 3), (2, 1, 1, 2), (1, 4, 38, 9), (2, 5, 19, 8), (1, 6, 38, 7)],
     [(2, 0, 1, 4), (2, 1, 2, 3), (1, 2, 1, 2), (2, 5, 38, 9), (2, 6, 19, 8), (1, 7, 38, 7)],
     [(2, 0, 1, 5), (2, 1, 1, 4), (2, 2, 1, 3), (1, 6, 38, 9), (2, 7, 19, 8)],
     [(2, 0, 1, 6), (2, 1, 2, 5), (2, 2, 1, 4), (2, 3, 1, 3), (2, 7, 38, 9), (1, 8, 19, 8)],
     [(2, 0, 1, 7), (2, 1, 1, 6), (2, 2, 1, 5), (2, 3, 1, 4), (1, 8, 38, 9)],
     [(2, 0, 1, 8), (2, 1, 2, 7), (2, 2, 1, 6), (2, 3, 2, 5), (1, 4, 1, 4), (1, 9, 38, 9)],
     [(2, 0, 1, 9), (2, 1, 1, 8), (2, 2, 1, 7), (2, 3, 1, 6), (2, 4, 1, 5)]]"

text \<open>\<^verbatim>\<open>carry[i] = (h_i + (1 << 25)) >> 26\<close> for even limbs, with 24 and 25 for odd limbs; the carry of \<^verbatim>\<open>h9\<close> is
  multiplied by 19 into \<^verbatim>\<open>h0\<close>.\<close>

definition fe_carry :: "nat \<Rightarrow> 64 word list \<Rightarrow> 64 word list" where
  "fe_carry i = (if i = 9 then limb_carry 9 0 25 16777216 19
    else if even i then limb_carry i (i + 1) 26 33554432 1 else limb_carry i (i + 1) 25 16777216 1)"

definition fe_reduce :: "64 word list \<Rightarrow> 64 word list" where
  "fe_reduce h = fold fe_carry [0, 4, 1, 5, 2, 6, 3, 7, 4, 8, 9, 0] h"

definition fe_narrow :: "64 word list \<Rightarrow> fe" where
  "fe_narrow h = map ucast h"

definition FeMul :: "fe \<Rightarrow> fe \<Rightarrow> fe" where
  "FeMul f g = fe_narrow (fe_reduce (map (\<lambda>k. fe_sum f g (fe_mul_row k)) [0..<10]))"

definition FeSquare :: "fe \<Rightarrow> fe" where
  "FeSquare f = fe_narrow (fe_reduce (map (fe_sum f f) fe_square_rows))"

definition FeSquare2 :: "fe \<Rightarrow> fe" where
  "FeSquare2 f = fe_narrow (fe_reduce (map (\<lambda>h. h + h) (map (fe_sum f f) fe_square_rows)))"

text \<open>\<^verbatim>\<open>for i = 1; i < n; i++ { FeSquare(t, t) }\<close>.\<close>

definition fe_squares :: "nat \<Rightarrow> fe \<Rightarrow> fe" where
  "fe_squares n t = (FeSquare ^^ (n - 1)) t"

definition FeInvert :: "fe \<Rightarrow> fe" where
  "FeInvert z =
    (let t0 = FeSquare z;
         t1 = FeSquare t0;
         t1 = fe_squares 2 t1;
         t1 = FeMul z t1;
         t0 = FeMul t0 t1;
         t2 = FeSquare t0;
         t1 = FeMul t1 t2;
         t2 = FeSquare t1;
         t2 = fe_squares 5 t2;
         t1 = FeMul t2 t1;
         t2 = FeSquare t1;
         t2 = fe_squares 10 t2;
         t2 = FeMul t2 t1;
         t3 = FeSquare t2;
         t3 = fe_squares 20 t3;
         t2 = FeMul t3 t2;
         t2 = FeSquare t2;
         t2 = fe_squares 10 t2;
         t1 = FeMul t2 t1;
         t2 = FeSquare t1;
         t2 = fe_squares 50 t2;
         t2 = FeMul t2 t1;
         t3 = FeSquare t2;
         t3 = fe_squares 100 t3;
         t2 = FeMul t3 t2;
         t2 = FeSquare t2;
         t2 = fe_squares 50 t2;
         t1 = FeMul t2 t1;
         t1 = FeSquare t1;
         t1 = fe_squares 5 t1
     in FeMul t1 t0)"

definition fePow22523 :: "fe \<Rightarrow> fe" where
  "fePow22523 z =
    (let t0 = FeSquare z;
         t0 = fe_squares 1 t0;
         t1 = FeSquare t0;
         t1 = fe_squares 2 t1;
         t1 = FeMul z t1;
         t0 = FeMul t0 t1;
         t0 = FeSquare t0;
         t0 = fe_squares 1 t0;
         t0 = FeMul t1 t0;
         t1 = FeSquare t0;
         t1 = fe_squares 5 t1;
         t0 = FeMul t1 t0;
         t1 = FeSquare t0;
         t1 = fe_squares 10 t1;
         t1 = FeMul t1 t0;
         t2 = FeSquare t1;
         t2 = fe_squares 20 t2;
         t1 = FeMul t2 t1;
         t1 = FeSquare t1;
         t1 = fe_squares 10 t1;
         t0 = FeMul t1 t0;
         t1 = FeSquare t0;
         t1 = fe_squares 50 t1;
         t1 = FeMul t1 t0;
         t2 = FeSquare t1;
         t2 = fe_squares 100 t2;
         t1 = FeMul t2 t1;
         t1 = FeSquare t1;
         t1 = fe_squares 50 t1;
         t0 = FeMul t1 t0;
         t0 = FeSquare t0;
         t0 = fe_squares 2 t0
     in FeMul t0 z)"

section \<open>Values and bounds\<close>

definition fe_p :: int where
  "fe_p = 2 ^ 255 - 19"

definition fe_w :: "nat \<Rightarrow> nat" where
  "fe_w i = (51 * i + 1) div 2"

definition fe_val :: "fe \<Rightarrow> int" where
  "fe_val f = limbs_val fe_w (sints f)"

text \<open>Ten limbs bounded by \<open>c\<close> in even and \<open>d\<close> in odd places; the bounds \<^verbatim>\<open>1.1 * 2^25, 1.1 * 2^24\<close> of
  results, and \<^verbatim>\<open>1.65 * 2^26, 1.65 * 2^25\<close>, which sums and differences of up to three results keep.\<close>

definition fe_bound :: "int \<Rightarrow> int \<Rightarrow> nat \<Rightarrow> int" where
  "fe_bound c d i = (if even i then c else d)"

definition fe_within :: "int \<Rightarrow> int \<Rightarrow> fe \<Rightarrow> bool" where
  "fe_within c d f = (length f = 10 \<and> (\<forall>i<10. \<bar>sint (f ! i)\<bar> \<le> fe_bound c d i))"

definition fe_tight :: "fe \<Rightarrow> bool" where
  "fe_tight f = fe_within 36909875 18454937 f"

definition fe_loose :: "fe \<Rightarrow> bool" where
  "fe_loose f = fe_within 110729625 55364812 f"

definition term_ok :: "fe_term \<Rightarrow> bool" where
  "term_ok = (\<lambda>(a, i, b, j). 0 \<le> a \<and> 0 \<le> b \<and> i < 10 \<and> j < 10
    \<and> a * fe_bound 110729625 55364812 i < 2 ^ 31 \<and> b * fe_bound 110729625 55364812 j < 2 ^ 31)"

definition term_bound :: "fe_term \<Rightarrow> int" where
  "term_bound = (\<lambda>(a, i, b, j). a * fe_bound 110729625 55364812 i * (b * fe_bound 110729625 55364812 j))"

definition row_ok :: "fe_term list \<Rightarrow> bool" where
  "row_ok ts = (list_all term_ok ts \<and> sum_list (map term_bound ts) \<le> 2 ^ 61)"

definition term_val :: "int list \<Rightarrow> int list \<Rightarrow> fe_term \<Rightarrow> int" where
  "term_val f g = (\<lambda>(a, i, b, j). a * f ! i * (b * g ! j))"

lemma mul_rows_ok: "list_all row_ok (map fe_mul_row [0..<10])"
  by code_simp

lemma square_rows_ok: "list_all row_ok fe_square_rows"
  by code_simp

lemma sint_scaled:
  assumes "\<bar>sint w\<bar> \<le> c" and "0 \<le> a" and "a * c < 2 ^ 31"
  shows "sint (word_of_int a * w :: 32 word) = a * sint w" and "\<bar>a * sint w\<bar> \<le> a * c"
proof -
  show b: "\<bar>a * sint w\<bar> \<le> a * c" using assms(1,2) by (simp add: abs_mult mult_left_mono)
  have "word_of_int a * w = word_of_int (a * sint w)" by simp
  moreover have "sint (word_of_int (a * sint w) :: 32 word) = a * sint w"
    using b assms(3) by (intro sint_in [where n = 31]) auto
  ultimately show "sint (word_of_int a * w :: 32 word) = a * sint w" by simp
qed

lemma fe_prod_val:
  assumes "fe_loose f" and "fe_loose g" and "term_ok t"
  shows "fe_prod f g t = word_of_int (term_val (sints f) (sints g) t)" and "\<bar>term_val (sints f) (sints g) t\<bar> \<le> term_bound t"
proof -
  obtain a i b j where t: "t = (a, i, b, j)" by (cases t)
  have ok: "0 \<le> a" "0 \<le> b" "i < 10" "j < 10" "a * fe_bound 110729625 55364812 i < 2 ^ 31" "b * fe_bound 110729625 55364812 j < 2 ^ 31"
    using assms(3) by (simp_all add: t term_ok_def)
  have len: "length f = 10" "length g = 10" using assms(1,2) by (simp_all add: fe_loose_def fe_within_def)
  have fi: "\<bar>sint (f ! i)\<bar> \<le> fe_bound 110729625 55364812 i" and gj: "\<bar>sint (g ! j)\<bar> \<le> fe_bound 110729625 55364812 j"
    using assms(1,2) ok(3,4) by (simp_all add: fe_loose_def fe_within_def)
  have cast: "scast u = (word_of_int (sint u) :: 64 word)" for u :: "32 word"
    by simp
  show "fe_prod f g t = word_of_int (term_val (sints f) (sints g) t)"
    unfolding fe_prod_def t prod.case cast sint_scaled(1)[OF fi ok(1,5)] sint_scaled(1)[OF gj ok(2,6)]
    by (simp add: term_val_def ok(3,4) len)
  have "\<bar>a * sint (f ! i)\<bar> * \<bar>b * sint (g ! j)\<bar> \<le> a * fe_bound 110729625 55364812 i * (b * fe_bound 110729625 55364812 j)"
    using sint_scaled(2)[OF fi ok(1,5)] sint_scaled(2)[OF gj ok(2,6)] by (intro mult_mono) auto
  then show "\<bar>term_val (sints f) (sints g) t\<bar> \<le> term_bound t"
    by (simp add: t term_val_def term_bound_def ok(3,4) len abs_mult)
qed

lemma fe_sum_val:
  assumes "fe_loose f" and "fe_loose g" and "list_all term_ok ts"
  shows "fe_sum f g ts = word_of_int (sum_list (map (term_val (sints f) (sints g)) ts))
    \<and> \<bar>sum_list (map (term_val (sints f) (sints g)) ts)\<bar> \<le> sum_list (map term_bound ts)"
  using assms(3)
proof (induction ts)
  case (Cons t ts)
  have "\<bar>x + y\<bar> \<le> c + d" if "\<bar>x\<bar> \<le> c" "\<bar>y\<bar> \<le> d" for x y c d :: int using that by linarith
  with Cons show ?case using fe_prod_val [OF assms(1,2), of t] by (simp add: fe_sum_def)
qed (simp add: fe_sum_def)

section \<open>The carry chain\<close>

definition op_fe :: "nat \<Rightarrow> limb_op" where
  "op_fe i = (if i = 9 then Carry 9 0 25 16777216 19
    else if even i then Carry i (i + 1) 26 33554432 1 else Carry i (i + 1) 25 16777216 1)"

lemma exec_op_fe: "limb_exec (op_fe i) = fe_carry i"
  by (simp add: fun_eq_iff op_fe_def fe_carry_def)

definition iv_fe :: "ival list" where
  "iv_fe = replicate 10 (- (2 ^ 62), 2 ^ 62)"

definition ops_reduce :: "limb_op list" where
  "ops_reduce = map op_fe [0, 4, 1, 5, 2, 6, 3, 7, 4, 8, 9, 0]"

definition iv_tight :: "ival list \<Rightarrow> bool" where
  "iv_tight b = (length b = 10 \<and> list_all (\<lambda>i. - fe_bound 36909875 18454937 i \<le> fst (b ! i) \<and> snd (b ! i) \<le> fe_bound 36909875 18454937 i) [0..<10])"

lemma reduce_tight: "\<exists>b. iv_run 63 ops_reduce iv_fe = Some b \<and> iv_tight b"
proof -
  have "case iv_run 63 ops_reduce iv_fe of None \<Rightarrow> False | Some b \<Rightarrow> iv_tight b" by code_simp
  then show ?thesis by (auto split: option.splits)
qed

lemma op_fe_keeps: "list_all (op_keeps fe_w fe_p 10) (map op_fe [0..<10])"
  by code_simp

lemma keeps_fe: "set is \<subseteq> {..<10} \<Longrightarrow> list_all (op_keeps fe_w fe_p 10) (map op_fe is)"
  using op_fe_keeps by (auto simp: list_all_iff)

lemma sint_narrow:
  assumes "- (2 ^ 31) \<le> sint w" and "sint w < 2 ^ 31"
  shows "sint (ucast (w :: 64 word) :: 32 word) = sint w"
proof -
  have "ucast w = (word_of_int (sint w) :: 32 word)"
    by (rule bit_word_eqI) (simp add: bit_simps)
  then show ?thesis using sint_in [of 31 "sint w", where ?'a = 32] assms by simp
qed

text \<open>A program of field carries that the analysis accepts keeps the value modulo the prime and leaves
  limbs that fit \<^verbatim>\<open>int32\<close>.\<close>

lemma fe_carries:
  assumes "within b (sints h)" and "iv_run 63 (map op_fe is) b = Some b'" and "iv_tight b'" and "set is \<subseteq> {..<10}"
  shows "fe_tight (fe_narrow (fold fe_carry is h))"
    and "fe_val (fe_narrow (fold fe_carry is h)) mod fe_p = limbs_val fe_w (sints h) mod fe_p"
proof -
  let ?x = "fold int_exec (map op_fe is) (sints h)" and ?h = "fold fe_carry is h"
  have eq: "fold limb_exec (map op_fe is) h = ?h" by (simp add: fold_map comp_def exec_op_fe)
  have x: "sints ?h = ?x" "within b' ?x"
    using run_sound [OF assms(1,2)] unfolding eq by auto
  have len: "length b' = 10" "length h = 10" "length ?h = 10"
    using assms(3) within_length [OF x(2)] eq [symmetric] by (simp_all add: iv_tight_def)
  have bnd: "- fe_bound 36909875 18454937 i \<le> sint (?h ! i) \<and> sint (?h ! i) \<le> fe_bound 36909875 18454937 i" if "i < 10" for i
  proof -
    have "?x ! i = sint (?h ! i)" using that len unfolding x(1) [symmetric] by simp
    moreover have "- fe_bound 36909875 18454937 i \<le> fst (b' ! i)" "snd (b' ! i) \<le> fe_bound 36909875 18454937 i"
      using assms(3) that by (auto simp: iv_tight_def list_all_iff)
    ultimately show ?thesis using within_nth [OF x(2), of i] that len(1) by linarith
  qed
  have nar: "sint (fe_narrow ?h ! i) = sint (?h ! i)" if "i < 10" for i
  proof -
    have "fe_bound 36909875 18454937 i < 2 ^ 31" by (simp add: fe_bound_def)
    then show ?thesis using bnd [OF that] that len(3) by (simp add: fe_narrow_def sint_narrow)
  qed
  have sn: "sints (fe_narrow ?h) = ?x"
    unfolding x(1) [symmetric] using nar len(3) by (intro nth_equalityI) (simp_all add: fe_narrow_def)
  show "fe_tight (fe_narrow ?h)"
    using nar bnd len by (simp add: fe_tight_def fe_within_def fe_narrow_def abs_le_iff minus_le_iff)
  have "fe_p dvd limbs_val fe_w ?x - limbs_val fe_w (sints h)"
    using run_keeps [of fe_w fe_p "sints h"] keeps_fe [OF assms(4)] len by simp
  then show "fe_val (fe_narrow ?h) mod fe_p = limbs_val fe_w (sints h) mod fe_p"
    by (simp add: fe_val_def sn mod_eq_dvd_iff)
qed

lemma fe_reduce_val:
  assumes "length h = 10" and "\<forall>x \<in> set (sints h). \<bar>x\<bar> \<le> 2 ^ 62"
  shows "fe_tight (fe_narrow (fe_reduce h))" and "fe_val (fe_narrow (fe_reduce h)) mod fe_p = limbs_val fe_w (sints h) mod fe_p"
proof -
  have w: "within iv_fe (sints h)"
    unfolding iv_fe_def within_replicate using assms by (auto simp: abs_le_iff)
  obtain b where "iv_run 63 ops_reduce iv_fe = Some b" "iv_tight b" using reduce_tight by blast
  from fe_carries [OF w this [unfolded ops_reduce_def]]
  show "fe_tight (fe_narrow (fe_reduce h))" and "fe_val (fe_narrow (fe_reduce h)) mod fe_p = limbs_val fe_w (sints h) mod fe_p"
    by (simp_all add: fe_reduce_def)
qed

section \<open>Multiplication\<close>

text \<open>Rows whose products carry the right factors, each pair of limbs once.\<close>

definition term_fits :: "nat \<Rightarrow> fe_term \<Rightarrow> bool" where
  "term_fits k = (\<lambda>(a, i, b, j). (a = 1 \<or> a = 2) \<and> (b = 1 \<or> b = 19)
    \<and> fe_w i + fe_w j = fe_w k + (if a = 2 then 1 else 0) + (if b = 19 then 255 else 0))"

lemma term_fits_dvd:
  assumes "term_fits k (a, i, b, j)"
  shows "fe_p dvd a * b * 2 ^ fe_w k - 2 ^ (fe_w i + fe_w j)"
proof -
  have w: "fe_w i + fe_w j = fe_w k + (if a = 2 then 1 else 0) + (if b = 19 then 255 else 0)"
    and ab: "a = 1 \<or> a = 2" "b = 1 \<or> b = 19" using assms by (auto simp: term_fits_def)
  have "a * b * 2 ^ fe_w k - 2 ^ (fe_w i + fe_w j) = a * 2 ^ fe_w k * (b - (if b = 19 then 2 ^ 255 else 1))"
    unfolding w using ab by (auto simp: power_add)
  moreover have "fe_p dvd b - (if b = 19 then 2 ^ 255 else 1)" using ab by (auto simp: fe_p_def)
  ultimately show ?thesis by simp
qed

lemma mul_rows_fit: "list_all (\<lambda>k. list_all (term_fits k) (fe_mul_row k)) [0..<10]"
  by (simp add: fe_mul_row_def fe_mul_term_def term_fits_def fe_w_def upt_rec)

lemma mul_rows_pairs:
  "mset (concat (map (\<lambda>k. map (\<lambda>(a, i, b, j). (i, j)) (fe_mul_row k)) [0..<10])) = mset (List.product [0..<10] [0..<10])"
  by code_simp

definition pair_val :: "int list \<Rightarrow> int list \<Rightarrow> nat \<times> nat \<Rightarrow> int" where
  "pair_val f g = (\<lambda>(i, j). f ! i * 2 ^ fe_w i * (g ! j * 2 ^ fe_w j))"

lemma row_fits:
  assumes "list_all (term_fits k) ts"
  shows "fe_p dvd sum_list (map (term_val f g) ts) * 2 ^ fe_w k - sum_list (map (pair_val f g) (map (\<lambda>(a, i, b, j). (i, j)) ts))"
  using assms
proof (induction ts)
  case (Cons t ts)
  obtain a i b j where t: "t = (a, i, b, j)" by (cases t)
  have "fe_p dvd f ! i * g ! j * (a * b * 2 ^ fe_w k - 2 ^ (fe_w i + fe_w j))"
    using Cons.prems by (simp add: t term_fits_dvd)
  moreover have "f ! i * g ! j * (a * b * 2 ^ fe_w k - 2 ^ (fe_w i + fe_w j)) = term_val f g t * 2 ^ fe_w k - pair_val f g (i, j)"
    by (simp add: t term_val_def pair_val_def power_add algebra_simps)
  ultimately have "fe_p dvd (term_val f g t * 2 ^ fe_w k - pair_val f g (i, j))
      + (sum_list (map (term_val f g) ts) * 2 ^ fe_w k - sum_list (map (pair_val f g) (map (\<lambda>(a, i, b, j). (i, j)) ts)))"
    using Cons.IH Cons.prems by (intro dvd_add) simp_all
  then show ?case by (simp add: t algebra_simps)
qed simp

lemma sum_list_product: "sum_list (map (pair_val f g) (List.product xs ys)) = sum_list (map (\<lambda>i. f ! i * 2 ^ fe_w i) xs) * sum_list (map (\<lambda>j. g ! j * 2 ^ fe_w j) ys)"
proof (induction xs)
  case (Cons x xs)
  have "sum_list (map (pair_val f g \<circ> Pair x) ys) = f ! x * 2 ^ fe_w x * sum_list (map (\<lambda>j. g ! j * 2 ^ fe_w j) ys)"
    by (induction ys) (simp_all add: pair_val_def algebra_simps)
  with Cons show ?case by (simp add: algebra_simps)
qed simp

lemma limbs_val_list: "limbs_val e x = sum_list (map (\<lambda>i. x ! i * 2 ^ e i) [0..<length x])"
  by (simp add: limbs_val_def interv_sum_list_conv_sum_set_nat atLeast0LessThan)

lemma sum_list_concat_map: "sum_list (map F (concat xss)) = sum_list (map (\<lambda>xs. sum_list (map F xs)) xss)"
  by (induction xss) simp_all

lemma sum_list_perm: "mset xs = mset ys \<Longrightarrow> sum_list (map F xs) = (sum_list (map F ys) :: int)"
  by (simp flip: sum_mset_sum_list)

lemma mul_rows_val:
  assumes "length f = 10" and "length g = 10"
  shows "limbs_val fe_w (map (\<lambda>k. sum_list (map (term_val f g) (fe_mul_row k))) [0..<10]) mod fe_p
    = (limbs_val fe_w f * limbs_val fe_w g) mod fe_p"
proof -
  let ?r = "\<lambda>k. sum_list (map (term_val f g) (fe_mul_row k))"
  let ?q = "\<lambda>k. sum_list (map (pair_val f g) (map (\<lambda>(a, i, b, j). (i, j)) (fe_mul_row k)))"
  have "fe_p dvd sum_list (map (\<lambda>k. ?r k * 2 ^ fe_w k) ks) - sum_list (map ?q ks)" if "set ks \<subseteq> {0..<10}" for ks
    using that
  proof (induction ks)
    case (Cons k ks)
    have "fe_p dvd ?r k * 2 ^ fe_w k - ?q k"
      using mul_rows_fit Cons.prems by (intro row_fits) (auto simp: list_all_iff)
    then have "fe_p dvd (?r k * 2 ^ fe_w k - ?q k) + (sum_list (map (\<lambda>k. ?r k * 2 ^ fe_w k) ks) - sum_list (map ?q ks))"
      using Cons by (intro dvd_add) auto
    then show ?case by (simp add: algebra_simps)
  qed simp
  from this [of "[0..<10]"] have "fe_p dvd sum_list (map (\<lambda>k. ?r k * 2 ^ fe_w k) [0..<10]) - sum_list (map ?q [0..<10])" by simp
  moreover have "sum_list (map (\<lambda>k. ?r k * 2 ^ fe_w k) [0..<10]) = limbs_val fe_w (map ?r [0..<10])"
    unfolding limbs_val_list by (rule arg_cong [of _ _ sum_list]) simp
  moreover have "sum_list (map ?q [0..<10]) = sum_list (map (pair_val f g) (concat (map (\<lambda>k. map (\<lambda>(a, i, b, j). (i, j)) (fe_mul_row k)) [0..<10])))"
    by (simp only: sum_list_concat_map map_map comp_def)
  moreover have "\<dots> = sum_list (map (pair_val f g) (List.product [0..<10] [0..<10]))"
    by (rule sum_list_perm [OF mul_rows_pairs])
  moreover have "\<dots> = limbs_val fe_w f * limbs_val fe_w g"
    unfolding sum_list_product limbs_val_list assms ..
  ultimately show ?thesis by (simp only: mod_eq_dvd_iff)
qed

lemma rows_bounded:
  assumes "fe_loose f" and "fe_loose g" and "list_all row_ok tss"
  shows "sints (map (fe_sum f g) tss) = map (\<lambda>ts. sum_list (map (term_val (sints f) (sints g)) ts)) tss"
    and "\<forall>x \<in> set (sints (map (fe_sum f g) tss)). \<bar>x\<bar> \<le> 2 ^ 61"
proof -
  have r: "sint (fe_sum f g ts) = sum_list (map (term_val (sints f) (sints g)) ts) \<and> \<bar>sint (fe_sum f g ts)\<bar> \<le> 2 ^ 61"
    if "ts \<in> set tss" for ts
  proof -
    let ?v = "sum_list (map (term_val (sints f) (sints g)) ts)"
    have ok: "list_all term_ok ts" "sum_list (map term_bound ts) \<le> 2 ^ 61"
      using assms(3) that by (auto simp: list_all_iff row_ok_def)
    then have v: "fe_sum f g ts = word_of_int ?v" "\<bar>?v\<bar> \<le> 2 ^ 61"
      using fe_sum_val [OF assms(1,2) ok(1)] by auto
    then have "sint (fe_sum f g ts) = ?v" by (intro sint_via_int) auto
    with v show ?thesis by simp
  qed
  then have "\<bar>sint (fe_sum f g ts)\<bar> \<le> 2 ^ 61" if "ts \<in> set tss" for ts using that by blast
  then show "\<forall>x \<in> set (sints (map (fe_sum f g) tss)). \<bar>x\<bar> \<le> 2 ^ 61" by simp
  show "sints (map (fe_sum f g) tss) = map (\<lambda>ts. sum_list (map (term_val (sints f) (sints g)) ts)) tss"
    using r by simp
qed

lemma loose_length: "fe_loose f \<Longrightarrow> length f = 10"
  by (simp add: fe_loose_def fe_within_def)

lemma FeMul_ok:
  assumes "fe_loose f" and "fe_loose g"
  shows "fe_tight (FeMul f g)" and "fe_val (FeMul f g) mod fe_p = (fe_val f * fe_val g) mod fe_p"
proof -
  let ?h = "map (fe_sum f g) (map fe_mul_row [0..<10])"
  have h: "length ?h = 10" "\<forall>x \<in> set (sints ?h). \<bar>x\<bar> \<le> 2 ^ 62"
    using rows_bounded(2)[OF assms mul_rows_ok] by fastforce+
  have eq: "FeMul f g = fe_narrow (fe_reduce ?h)" by (simp add: FeMul_def comp_def)
  show "fe_tight (FeMul f g)" unfolding eq by (rule fe_reduce_val(1)[OF h])
  have "limbs_val fe_w (sints ?h) mod fe_p = (fe_val f * fe_val g) mod fe_p"
    unfolding rows_bounded(1)[OF assms mul_rows_ok]
    using mul_rows_val [of "sints f" "sints g"] assms by (simp add: comp_def loose_length fe_val_def)
  then show "fe_val (FeMul f g) mod fe_p = (fe_val f * fe_val g) mod fe_p"
    unfolding eq using fe_reduce_val(2)[OF h] by simp
qed

section \<open>Squares\<close>

lemma mul_rows_list: "map fe_mul_row [0..<10] =
    [[(1, 0, 1, 0), (2, 1, 19, 9), (1, 2, 19, 8), (2, 3, 19, 7), (1, 4, 19, 6), (2, 5, 19, 5), (1, 6, 19, 4), (2, 7, 19, 3), (1, 8, 19, 2), (2, 9, 19, 1)],
     [(1, 0, 1, 1), (1, 1, 1, 0), (1, 2, 19, 9), (1, 3, 19, 8), (1, 4, 19, 7), (1, 5, 19, 6), (1, 6, 19, 5), (1, 7, 19, 4), (1, 8, 19, 3), (1, 9, 19, 2)],
     [(1, 0, 1, 2), (2, 1, 1, 1), (1, 2, 1, 0), (2, 3, 19, 9), (1, 4, 19, 8), (2, 5, 19, 7), (1, 6, 19, 6), (2, 7, 19, 5), (1, 8, 19, 4), (2, 9, 19, 3)],
     [(1, 0, 1, 3), (1, 1, 1, 2), (1, 2, 1, 1), (1, 3, 1, 0), (1, 4, 19, 9), (1, 5, 19, 8), (1, 6, 19, 7), (1, 7, 19, 6), (1, 8, 19, 5), (1, 9, 19, 4)],
     [(1, 0, 1, 4), (2, 1, 1, 3), (1, 2, 1, 2), (2, 3, 1, 1), (1, 4, 1, 0), (2, 5, 19, 9), (1, 6, 19, 8), (2, 7, 19, 7), (1, 8, 19, 6), (2, 9, 19, 5)],
     [(1, 0, 1, 5), (1, 1, 1, 4), (1, 2, 1, 3), (1, 3, 1, 2), (1, 4, 1, 1), (1, 5, 1, 0), (1, 6, 19, 9), (1, 7, 19, 8), (1, 8, 19, 7), (1, 9, 19, 6)],
     [(1, 0, 1, 6), (2, 1, 1, 5), (1, 2, 1, 4), (2, 3, 1, 3), (1, 4, 1, 2), (2, 5, 1, 1), (1, 6, 1, 0), (2, 7, 19, 9), (1, 8, 19, 8), (2, 9, 19, 7)],
     [(1, 0, 1, 7), (1, 1, 1, 6), (1, 2, 1, 5), (1, 3, 1, 4), (1, 4, 1, 3), (1, 5, 1, 2), (1, 6, 1, 1), (1, 7, 1, 0), (1, 8, 19, 9), (1, 9, 19, 8)],
     [(1, 0, 1, 8), (2, 1, 1, 7), (1, 2, 1, 6), (2, 3, 1, 5), (1, 4, 1, 4), (2, 5, 1, 3), (1, 6, 1, 2), (2, 7, 1, 1), (1, 8, 1, 0), (2, 9, 19, 9)],
     [(1, 0, 1, 9), (1, 1, 1, 8), (1, 2, 1, 7), (1, 3, 1, 6), (1, 4, 1, 5), (1, 5, 1, 4), (1, 6, 1, 3), (1, 7, 1, 2), (1, 8, 1, 1), (1, 9, 1, 0)]]"
  by code_simp

lemma square_rows_val:
  "map (\<lambda>ts. sum_list (map (term_val x x) ts)) fe_square_rows = map (\<lambda>ts. sum_list (map (term_val x x) ts)) (map fe_mul_row [0..<10])"
  unfolding mul_rows_list by (simp add: fe_square_rows_def term_val_def)

lemma sums_equal:
  assumes "fe_loose f" and "list_all row_ok tss"
  shows "map (fe_sum f f) tss = map word_of_int (map (\<lambda>ts. sum_list (map (term_val (sints f) (sints f)) ts)) tss)"
  using assms(2) fe_sum_val [OF assms(1,1)] by (auto simp: list_all_iff row_ok_def)

lemma square_sums:
  assumes "fe_loose f"
  shows "map (fe_sum f f) fe_square_rows = map (fe_sum f f) (map fe_mul_row [0..<10])"
  unfolding sums_equal [OF assms square_rows_ok] sums_equal [OF assms mul_rows_ok] square_rows_val ..

lemma FeSquare_eq: "fe_loose f \<Longrightarrow> FeSquare f = FeMul f f"
  by (simp add: FeSquare_def FeMul_def square_sums comp_def)

lemma FeSquare2_ok:
  assumes "fe_loose f"
  shows "fe_tight (FeSquare2 f)" and "fe_val (FeSquare2 f) mod fe_p = (2 * (fe_val f * fe_val f)) mod fe_p"
proof -
  let ?s = "map (fe_sum f f) (map fe_mul_row [0..<10])" and ?d = "map (\<lambda>h. h + h) (map (fe_sum f f) (map fe_mul_row [0..<10]))"
  have b: "\<forall>x \<in> set (sints ?s). \<bar>x\<bar> \<le> 2 ^ 61" by (rule rows_bounded(2)[OF assms assms mul_rows_ok])
  have dbl: "sint (2 * w) = 2 * sint w" if "\<bar>sint w\<bar> \<le> 2 ^ 61" for w :: "64 word"
    using that by (intro sint_via_int) auto
  have d: "sints ?d = map (\<lambda>x. 2 * x) (sints ?s)"
    unfolding map_map using b by (intro map_cong refl) (auto simp: dbl)
  have l: "length ?d = 10" "\<forall>x \<in> set (sints ?d). \<bar>x\<bar> \<le> 2 ^ 62"
    unfolding d using b by auto
  have eq: "FeSquare2 f = fe_narrow (fe_reduce ?d)" by (simp only: FeSquare2_def square_sums [OF assms])
  show "fe_tight (FeSquare2 f)" unfolding eq by (rule fe_reduce_val(1)[OF l])
  have "limbs_val fe_w (sints ?d) = 2 * limbs_val fe_w (sints ?s)"
    unfolding d by (simp add: limbs_val_def sum_distrib_left mult.assoc)
  moreover have "limbs_val fe_w (sints ?s) mod fe_p = (fe_val f * fe_val f) mod fe_p"
    unfolding rows_bounded(1)[OF assms assms mul_rows_ok]
    using mul_rows_val [of "sints f" "sints f"] assms by (simp add: comp_def loose_length fe_val_def)
  ultimately show "fe_val (FeSquare2 f) mod fe_p = (2 * (fe_val f * fe_val f)) mod fe_p"
    unfolding eq fe_reduce_val(2)[OF l] by (metis mod_mult_right_eq)
qed

section \<open>Sums, differences, selection\<close>

lemma fe_within_mono: "fe_within c d f \<Longrightarrow> c \<le> c' \<Longrightarrow> d \<le> d' \<Longrightarrow> fe_within c' d' f"
  by (fastforce simp: fe_within_def fe_bound_def)

lemma tight_loose: "fe_tight f \<Longrightarrow> fe_loose f"
  unfolding fe_tight_def fe_loose_def by (rule fe_within_mono) auto

lemma fe_val_sum: "length f = 10 \<Longrightarrow> fe_val f = (\<Sum>i<10. sint (f ! i) * 2 ^ fe_w i)"
  by (simp add: fe_val_def limbs_val_def)

lemma fe_map2:
  assumes "fe_within c d f" and "fe_within c' d' g"
    and "\<And>u v i. \<bar>sint u\<bar> \<le> fe_bound c d i \<Longrightarrow> \<bar>sint v\<bar> \<le> fe_bound c' d' i \<Longrightarrow> sint (F u v) = sint u + s * sint v" and "\<bar>s\<bar> = 1"
  shows "fe_within (c + c') (d + d') (map2 F f g)" and "fe_val (map2 F f g) = fe_val f + s * fe_val g"
proof -
  have len: "length f = 10" "length g = 10" using assms(1,2) by (simp_all add: fe_within_def)
  have b: "\<bar>sint (f ! i)\<bar> \<le> fe_bound c d i" "\<bar>sint (g ! i)\<bar> \<le> fe_bound c' d' i" if "i < 10" for i
    using assms(1,2) that by (simp_all add: fe_within_def)
  have n: "sint (map2 F f g ! i) = sint (f ! i) + s * sint (g ! i)" if "i < 10" for i
    using assms(3)[OF b [OF that]] that len by simp
  have "\<bar>sint (f ! i) + s * sint (g ! i)\<bar> \<le> fe_bound (c + c') (d + d') i" if "i < 10" for i
    using b [OF that] assms(4) abs_triangle_ineq [of "sint (f ! i)" "s * sint (g ! i)"]
    by (auto simp: fe_bound_def abs_mult split: if_splits)
  then show "fe_within (c + c') (d + d') (map2 F f g)" using n len by (simp add: fe_within_def)
  show "fe_val (map2 F f g) = fe_val f + s * fe_val g"
    using n len by (simp add: fe_val_sum sum.distrib sum_distrib_left distrib_right mult.assoc)
qed

lemma sint_sum32:
  assumes "\<bar>sint u\<bar> \<le> fe_bound c d i" and "\<bar>sint v\<bar> \<le> fe_bound c' d' i" and "c + c' < 2 ^ 31" and "d + d' < 2 ^ 31"
  shows "sint (u + v :: 32 word) = sint u + 1 * sint v" and "sint (u - v :: 32 word) = sint u + (- 1) * sint v"
proof -
  have "\<bar>sint u\<bar> + \<bar>sint v\<bar> < 2 ^ 31" using assms by (auto simp: fe_bound_def split: if_splits)
  then have "sint (word_of_int (sint u + sint v) :: 32 word) = sint u + sint v" "sint (word_of_int (sint u - sint v) :: 32 word) = sint u - sint v"
    by (intro sint_in [where n = 31]; simp)+
  then show "sint (u + v :: 32 word) = sint u + 1 * sint v" "sint (u - v :: 32 word) = sint u + (- 1) * sint v" by simp_all
qed

lemma FeAdd_ok:
  assumes "fe_within c d f" and "fe_within c' d' g" and "c + c' < 2 ^ 31" and "d + d' < 2 ^ 31"
  shows "fe_within (c + c') (d + d') (FeAdd f g)" and "fe_val (FeAdd f g) = fe_val f + fe_val g"
  using fe_map2 [OF assms(1,2) sint_sum32(1)[OF _ _ assms(3,4)]] by (simp_all add: FeAdd_def)

lemma FeSub_ok:
  assumes "fe_within c d f" and "fe_within c' d' g" and "c + c' < 2 ^ 31" and "d + d' < 2 ^ 31"
  shows "fe_within (c + c') (d + d') (FeSub f g)" and "fe_val (FeSub f g) = fe_val f - fe_val g"
  using fe_map2 [OF assms(1,2) sint_sum32(2)[OF _ _ assms(3,4)]] by (simp_all add: FeSub_def)

lemma FeNeg_ok:
  assumes "fe_within c d f" and "c < 2 ^ 31" and "d < 2 ^ 31"
  shows "fe_within c d (FeNeg f)" and "fe_val (FeNeg f) = - fe_val f"
proof -
  have len: "length f = 10" and b: "i < 10 \<Longrightarrow> \<bar>sint (f ! i)\<bar> \<le> fe_bound c d i" for i
    using assms(1) by (auto simp: fe_within_def)
  have n: "sint (- (f ! i)) = - sint (f ! i)" if "i < 10" for i
  proof -
    have "\<bar>sint (f ! i)\<bar> < 2 ^ 31" using b [OF that] assms(2,3) by (auto simp: fe_bound_def split: if_splits)
    then have "sint (word_of_int (- sint (f ! i)) :: 32 word) = - sint (f ! i)" by (intro sint_in [where n = 31]) auto
    then show ?thesis by simp
  qed
  show "fe_within c d (FeNeg f)" using len b n by (simp add: fe_within_def FeNeg_def)
  show "fe_val (FeNeg f) = - fe_val f"
    using len n by (simp add: FeNeg_def fe_val_sum sum_negf)
qed

lemma FeConst_tight: "fe_tight FeZero" "fe_tight FeOne"
  by (simp_all add: FeOne_def FeZero_def fe_tight_def fe_within_def fe_bound_def nth_list_update)

lemma FeNeg_tight: "fe_tight f \<Longrightarrow> fe_tight (FeNeg f)"
  unfolding fe_tight_def by (rule FeNeg_ok(1)) simp_all

lemma fe_sum_within:
  assumes "fe_within c d f" and "fe_within c' d' g" and "c + c' \<le> C" and "d + d' \<le> D" and "C < 2 ^ 31" and "D < 2 ^ 31"
  shows "fe_within C D (FeAdd f g)" and "fe_within C D (FeSub f g)"
  using FeAdd_ok(1)[OF assms(1,2)] FeSub_ok(1)[OF assms(1,2)] assms(3-6) fe_within_mono [of "c + c'" "d + d'" _ C D] by simp_all

lemmas fe_sum_tight = fe_sum_within [where c = 36909875 and d = 18454937 and c' = 36909875 and d' = 18454937]

lemma FeAdd_loose: "fe_tight f \<Longrightarrow> fe_tight g \<Longrightarrow> fe_loose (FeAdd f g)"
  unfolding fe_tight_def fe_loose_def by (rule fe_sum_tight(1)) simp_all

lemma FeSub_loose: "fe_tight f \<Longrightarrow> fe_tight g \<Longrightarrow> fe_loose (FeSub f g)"
  unfolding fe_tight_def fe_loose_def by (rule fe_sum_tight(2)) simp_all

lemma FeAddSub_loose:
  assumes "fe_tight f" and "fe_tight g" and "fe_tight h"
  shows "fe_loose (FeSub (FeAdd f g) h)" and "fe_loose (FeSub f (FeAdd g h))"
proof -
  have "fe_within 73819750 36909874 (FeAdd f g)" "fe_within 73819750 36909874 (FeAdd g h)"
    using assms unfolding fe_tight_def by (simp_all add: fe_sum_tight(1))
  then show "fe_loose (FeSub (FeAdd f g) h)" and "fe_loose (FeSub f (FeAdd g h))"
    using assms fe_sum_within(2)[of 73819750 36909874 "FeAdd f g" 36909875 18454937 h 110729625 55364812]
      fe_sum_within(2)[of 36909875 18454937 f 73819750 36909874 "FeAdd g h" 110729625 55364812]
    by (simp_all add: fe_tight_def fe_loose_def)
qed

section \<open>Powers\<close>

definition fe_pow :: "fe \<Rightarrow> nat \<Rightarrow> fe \<Rightarrow> bool" where
  "fe_pow z n t = (fe_loose t \<and> fe_val t mod fe_p = fe_val z ^ n mod fe_p)"

lemma fe_pow_self: "fe_loose z \<Longrightarrow> fe_pow z 1 z"
  by (simp add: fe_pow_def)

lemma fe_pow_mul: "fe_pow z n t \<Longrightarrow> fe_pow z m u \<Longrightarrow> fe_pow z (n + m) (FeMul t u)"
  unfolding fe_pow_def power_add using FeMul_ok [of t u] tight_loose mod_mult_cong by metis

lemma fe_pow_square: "fe_pow z n t \<Longrightarrow> fe_pow z (2 * n) (FeSquare t)"
  using fe_pow_mul [of z n t n t] FeSquare_eq [of t] by (simp add: fe_pow_def mult_2)

lemma fe_pow_squares: "fe_pow z n t \<Longrightarrow> fe_pow z (2 ^ (k - 1) * n) (fe_squares k t)"
proof -
  have "fe_pow z n t \<Longrightarrow> fe_pow z (2 ^ k * n) ((FeSquare ^^ k) t)" for k
    by (induction k) (auto dest!: fe_pow_square simp: mult.assoc)
  then show "fe_pow z n t \<Longrightarrow> fe_pow z (2 ^ (k - 1) * n) (fe_squares k t)" by (simp add: fe_squares_def)
qed

lemma fe_pow_let: "fe_pow z n t \<Longrightarrow> (\<And>t. fe_pow z n t \<Longrightarrow> fe_pow z m (F t)) \<Longrightarrow> fe_pow z m (Let t F)"
  by (simp add: Let_def)

lemma fe_pow_eq: "fe_pow z n t \<Longrightarrow> n = m \<Longrightarrow> fe_pow z m t"
  by simp

lemma FeInvert_pow: "fe_loose z \<Longrightarrow> fe_pow z (2 ^ 255 - 21) (FeInvert z)"
  unfolding FeInvert_def
  apply (drule fe_pow_self, rule fe_pow_eq)
   apply (rule fe_pow_let, (rule fe_pow_square | rule fe_pow_squares | rule fe_pow_mul), assumption+)+
   apply (rule fe_pow_mul, assumption+)
  apply simp
  done

lemma fePow22523_pow: "fe_loose z \<Longrightarrow> fe_pow z (2 ^ 252 - 3) (fePow22523 z)"
  unfolding fePow22523_def
  apply (drule fe_pow_self, rule fe_pow_eq)
   apply (rule fe_pow_let, (rule fe_pow_square | rule fe_pow_squares | rule fe_pow_mul), assumption+)+
   apply (rule fe_pow_mul, assumption+)
  apply simp
  done

section \<open>Properties\<close>

text \<open>C28. Multiplication: for factors within the bounds that the group operations keep, no \<^verbatim>\<open>int32\<close> and no \<^verbatim>\<open>int64\<close>
  operation of \<^verbatim>\<open>FeMul\<close> overflows, and the result is within the bounds of results and is the product modulo \<open>2 ^ 255 - 19\<close>.\<close>

theorem fe_mul_correct:
  assumes "fe_loose f" and "fe_loose g"
  shows "fe_tight (FeMul f g) \<and> fe_val (FeMul f g) mod fe_p = fe_val f * fe_val g mod fe_p"
  using FeMul_ok [OF assms] by simp

theorem fe_mul_correct_witness:
  "fe_tight (FeMul (replicate 10 (- 55364812)) (replicate 10 55364812))
    \<and> fe_val (FeMul (replicate 10 (- 55364812)) (replicate 10 55364812)) mod fe_p
      = fe_val (replicate 10 (- 55364812)) * fe_val (replicate 10 55364812) mod fe_p"
proof -
  have "fe_loose (replicate 10 (- 55364812))" "fe_loose (replicate 10 55364812)"
    by (simp_all add: fe_loose_def fe_within_def fe_bound_def)
  then show ?thesis using fe_mul_correct [of "replicate 10 (- 55364812)" "replicate 10 55364812"] by blast
qed

text \<open>C29. The optimised \<^verbatim>\<open>FeSquare\<close>, which computes each pair of limbs once, returns the same limbs as \<^verbatim>\<open>FeMul\<close> of its
  argument with itself, and \<^verbatim>\<open>FeSquare2\<close> returns twice the square.\<close>

theorem fe_square_equiv:
  assumes "fe_loose f"
  shows "FeSquare f = FeMul f f \<and> fe_tight (FeSquare2 f)
    \<and> fe_val (FeSquare2 f) mod fe_p = 2 * (fe_val f * fe_val f) mod fe_p"
  using FeSquare_eq [OF assms] FeSquare2_ok [OF assms] by simp

theorem fe_square_equiv_witness:
  "FeSquare (replicate 10 55364812) = FeMul (replicate 10 55364812) (replicate 10 55364812)"
proof -
  have "fe_loose (replicate 10 55364812)" by (simp add: fe_loose_def fe_within_def fe_bound_def)
  then show ?thesis using fe_square_equiv [of "replicate 10 55364812"] by blast
qed

text \<open>\<^verbatim>\<open>FeInvert\<close> raises to the power \<open>p - 2\<close> and \<^verbatim>\<open>fePow22523\<close> to \<open>2 ^ 252 - 3\<close>, as the comments on their addition chains
  say.\<close>

theorem fe_invert_power:
  assumes "fe_loose z"
  shows "fe_val (FeInvert z) mod fe_p = fe_val z ^ nat (fe_p - 2) mod fe_p
    \<and> fe_val (fePow22523 z) mod fe_p = fe_val z ^ (2 ^ 252 - 3) mod fe_p"
proof -
  have "nat (fe_p - 2) = 2 ^ 255 - 21" by (simp add: fe_p_def)
  then show ?thesis using FeInvert_pow [OF assms] fePow22523_pow [OF assms] by (simp only: fe_pow_def)
qed

theorem fe_invert_power_witness:
  "fe_val (FeInvert (replicate 10 2)) mod fe_p = fe_val (replicate 10 2) ^ nat (fe_p - 2) mod fe_p"
proof -
  have "fe_loose (replicate 10 2)" by (simp add: fe_loose_def fe_within_def fe_bound_def)
  then show ?thesis using fe_invert_power [of "replicate 10 2"] by blast
qed

end
