(* ===== verification/Field_Bytes.thy ===== *)
theory Field_Bytes
  imports Field25519
begin

unbundle bit_operations_syntax

text \<open>
  The encodings of field elements in \<^verbatim>\<open>src/vrf/ed25519/edwards25519/edwards25519.go\<close>: \<^verbatim>\<open>FeFromBytes\<close>, \<^verbatim>\<open>FeToBytes\<close> and the tests that go through
  it. \<^verbatim>\<open>FeToBytes\<close> estimates the quotient by the prime from the top limb, reduces its argument in place with
  it and writes the bytes. Shown: the estimate is exact for all elements that the curve code passes, which
  exceed the documented bounds, and encodings are canonical and decode back.
\<close>

section \<open>Bytes\<close>

definition FeFromBytes :: "bytes \<Rightarrow> fe" where
  "FeFromBytes src =
    (let h = [load4 src, push_bit 6 (load3 (drop 4 src)), push_bit 5 (load3 (drop 7 src)), push_bit 3 (load3 (drop 10 src)),
              push_bit 2 (load3 (drop 13 src)), load4 (drop 16 src), push_bit 7 (load3 (drop 20 src)),
              push_bit 5 (load3 (drop 23 src)), push_bit 4 (load3 (drop 26 src)), push_bit 2 (load3 (drop 29 src) AND 8388607)]
     in fe_narrow (fold fe_carry [9, 1, 3, 5, 7, 0, 2, 4, 6, 8] h))"

text \<open>\<^verbatim>\<open>FeToBytes\<close>: the quotient \<^verbatim>\<open>q\<close>, the carries that reduce \<^verbatim>\<open>h\<close> in place, and the bytes. The last carry, out of
  \<^verbatim>\<open>h[9]\<close>, is dropped.\<close>

definition fe_width :: "nat \<Rightarrow> nat" where
  "fe_width i = (if even i then 26 else 25)"

definition fe_quotient :: "fe \<Rightarrow> 32 word" where
  "fe_quotient h = fold (\<lambda>i q. signed_drop_bit (fe_width i) (h ! i + q)) [0, 1, 2, 3, 4, 5, 6, 7, 8, 9]
    (signed_drop_bit 25 (19 * h ! 9 + 16777216))"

definition fe_canon :: "fe \<Rightarrow> fe" where
  "fe_canon h =
    (let h = h[0 := h ! 0 + 19 * fe_quotient h];
         h = fold (\<lambda>i. limb_carry i (i + 1) (fe_width i) 0 1) [0, 1, 2, 3, 4, 5, 6, 7, 8] h;
         c = signed_drop_bit 25 (h ! 9)
     in h[9 := h ! 9 - push_bit 25 c])"

definition fe_store :: "fe \<Rightarrow> bytes" where
  "fe_store h =
    [limb_byte h 0 0, limb_byte h 0 8, limb_byte h 0 16, limb_byte2 h 0 24 2, limb_byte h 1 6, limb_byte h 1 14,
     limb_byte2 h 1 22 3, limb_byte h 2 5, limb_byte h 2 13, limb_byte2 h 2 21 5, limb_byte h 3 3, limb_byte h 3 11,
     limb_byte2 h 3 19 6, limb_byte h 4 2, limb_byte h 4 10, limb_byte h 4 18, limb_byte h 5 0, limb_byte h 5 8,
     limb_byte h 5 16, limb_byte2 h 5 24 1, limb_byte h 6 7, limb_byte h 6 15, limb_byte2 h 6 23 3, limb_byte h 7 5,
     limb_byte h 7 13, limb_byte2 h 7 21 4, limb_byte h 8 4, limb_byte h 8 12, limb_byte2 h 8 20 6, limb_byte h 9 2,
     limb_byte h 9 10, limb_byte h 9 18]"

definition FeToBytes :: "fe \<Rightarrow> bytes \<times> fe" where
  "FeToBytes h = (let h = fe_canon h in (fe_store h, h))"

definition FeIsNegative :: "fe \<Rightarrow> byte \<times> fe" where
  "FeIsNegative f = (let (s, f) = FeToBytes f in (s ! 0 AND 1, f))"

definition FeIsNonZero :: "fe \<Rightarrow> 32 word \<times> fe" where
  "FeIsNonZero f =
    (let (s, f) = FeToBytes f;
         x = fold (\<lambda>b x. x OR b) s 0;
         x = x OR drop_bit 4 x; x = x OR drop_bit 2 x; x = x OR drop_bit 1 x
     in (ucast (x AND 1), f))"

section \<open>Decoding\<close>

lemma take_bit_join: "a + b = c \<Longrightarrow> take_bit c n = take_bit a n + 2 ^ a * take_bit b (drop_bit a (n :: int))"
  by (auto simp: take_bit_eq_mod drop_bit_eq_div power_add zmod_zmult2_eq mult.commute)

lemma sint_load3:
  assumes "k + 3 \<le> length b" and "j \<le> 7"
  shows "sint (push_bit j (load3 (drop k b))) = 2 ^ j * take_bit 24 (drop_bit (8 * k) (le_int b))"
    and "take_bit 24 (drop_bit (8 * k) (le_int b)) < 2 ^ 24"
proof -
  let ?t = "take_bit 24 (drop_bit (8 * k) (le_int b))"
  have l: "sint (load3 (drop k b)) = ?t" using assms(1) by (simp add: load3_eq le_int_drop)
  show t: "?t < 2 ^ 24" by (rule take_bit_int_less_exp)
  have "(2 :: int) ^ j \<le> 2 ^ 7" using assms(2) by (intro power_increasing) auto
  then have "2 ^ j * ?t \<le> 2 ^ 7 * 2 ^ 24" using t by (intro mult_mono) auto
  then have "2 ^ j * ?t \<le> 2147483648" by simp
  moreover have "push_bit j (load3 (drop k b)) = word_of_int (2 ^ j * ?t)"
    unfolding l [symmetric] by (simp add: push_bit_eq_mult mult.commute)
  moreover have "0 \<le> 2 ^ j * ?t" by simp
  ultimately show "sint (push_bit j (load3 (drop k b))) = 2 ^ j * ?t"
    by (intro sint_via_int) linarith+
qed

lemma from_tight: "\<exists>b. iv_run 63 (map op_fe [9, 1, 3, 5, 7, 0, 2, 4, 6, 8]) (replicate 10 (0, 2 ^ 32)) = Some b \<and> iv_tight b"
proof -
  have "case iv_run 63 (map op_fe [9, 1, 3, 5, 7, 0, 2, 4, 6, 8]) (replicate 10 (0, 2 ^ 32)) of None \<Rightarrow> False | Some b \<Rightarrow> iv_tight b"
    by code_simp
  then show ?thesis by (auto split: option.splits)
qed

lemma limbs_val_ten: "limbs_val fe_w [a, b, c, d, e, f, g, h, i, j] = a + b * 2 ^ 26 + c * 2 ^ 51 + d * 2 ^ 77 + e * 2 ^ 102
    + f * 2 ^ 128 + g * 2 ^ 153 + h * 2 ^ 179 + i * 2 ^ 204 + j * 2 ^ 230"
  by (simp add: limbs_val_list fe_w_def upt_rec)

lemma FeFromBytes_ok:
  assumes "length b = 32"
  shows "fe_tight (FeFromBytes b)" and "fe_val (FeFromBytes b) mod fe_p = le_int b mod 2 ^ 255 mod fe_p"
proof -
  let ?n = "le_int b"
  define h where "h = [load4 b, push_bit 6 (load3 (drop 4 b)), push_bit 5 (load3 (drop 7 b)), push_bit 3 (load3 (drop 10 b)),
      push_bit 2 (load3 (drop 13 b)), load4 (drop 16 b), push_bit 7 (load3 (drop 20 b)),
      push_bit 5 (load3 (drop 23 b)), push_bit 4 (load3 (drop 26 b)), push_bit 2 (load3 (drop 29 b) AND 8388607)]"
  have m: "load3 (drop 29 b) AND 8388607 = take_bit 23 (load3 (drop 29 b))"
    by (simp add: take_bit_eq_mask mask_eq_exp_minus_1)
  have s: "sint (take_bit 23 (load3 (drop 29 b))) = take_bit 23 (sint (load3 (drop 29 b)))"
    by (rule bit_eqI) (auto simp: bit_simps)
  have t: "sint (load3 (drop 29 b) AND 8388607) = take_bit 23 (drop_bit 232 ?n)"
    unfolding m s using assms by (simp add: load3_eq le_int_drop)
  have p9: "push_bit 2 (load3 (drop 29 b) AND 8388607) = word_of_int (4 * take_bit 23 (drop_bit 232 ?n))"
    unfolding t [symmetric] by (simp add: push_bit_eq_mult mult.commute)
  have h9: "sint (push_bit 2 (load3 (drop 29 b) AND 8388607)) = 4 * take_bit 23 (drop_bit 232 ?n)"
  proof (rule sint_via_int [OF p9])
    have "0 \<le> take_bit 23 (drop_bit 232 ?n)" "take_bit 23 (drop_bit 232 ?n) < 8388608"
      using take_bit_int_less_exp [of 23 "drop_bit 232 ?n"] by simp_all
    then show "- 9223372036854775808 \<le> 4 * take_bit 23 (drop_bit 232 ?n)" "4 * take_bit 23 (drop_bit 232 ?n) < 9223372036854775808"
      by linarith+
  qed
  have x: "sints h = [take_bit 32 ?n, 64 * take_bit 24 (drop_bit 32 ?n), 32 * take_bit 24 (drop_bit 56 ?n),
      8 * take_bit 24 (drop_bit 80 ?n), 4 * take_bit 24 (drop_bit 104 ?n), take_bit 32 (drop_bit 128 ?n),
      128 * take_bit 24 (drop_bit 160 ?n), 32 * take_bit 24 (drop_bit 184 ?n), 16 * take_bit 24 (drop_bit 208 ?n),
      4 * take_bit 23 (drop_bit 232 ?n)]"
    unfolding h_def list.map h9 using assms by (simp add: sint_load3(1) load4_eq le_int_drop)
  have b: "take_bit k v < 2 ^ k \<and> 0 \<le> take_bit k v" for k and v :: int by simp
  have "within (replicate 10 (0, 2 ^ 32)) (sints h)"
    unfolding within_replicate x
    using b [of 32 ?n] b [of 32 "drop_bit 128 ?n"] b [of 23 "drop_bit 232 ?n"] b [of 24 "drop_bit 32 ?n"] b [of 24 "drop_bit 56 ?n"]
      b [of 24 "drop_bit 80 ?n"] b [of 24 "drop_bit 104 ?n"] b [of 24 "drop_bit 160 ?n"] b [of 24 "drop_bit 184 ?n"] b [of 24 "drop_bit 208 ?n"]
    by simp
  moreover obtain b' where b': "iv_run 63 (map op_fe [9, 1, 3, 5, 7, 0, 2, 4, 6, 8]) (replicate 10 (0, 2 ^ 32)) = Some b'" "iv_tight b'"
    using from_tight by blast
  moreover have eq: "FeFromBytes b = fe_narrow (fold fe_carry [9, 1, 3, 5, 7, 0, 2, 4, 6, 8] h)"
    by (simp add: FeFromBytes_def h_def)
  ultimately show "fe_tight (FeFromBytes b)" unfolding eq by (intro fe_carries(1)) auto
  have "fe_val (FeFromBytes b) mod fe_p = limbs_val fe_w (sints h) mod fe_p"
    unfolding eq using \<open>within _ _\<close> b' by (intro fe_carries(2)) auto
  moreover have "limbs_val fe_w (sints h) = take_bit 255 ?n"
    unfolding x limbs_val_ten take_bit_join [OF refl, of 232 23 ?n, simplified] take_bit_join [OF refl, of 208 24 ?n, simplified]
      take_bit_join [OF refl, of 184 24 ?n, simplified] take_bit_join [OF refl, of 160 24 ?n, simplified]
      take_bit_join [OF refl, of 128 32 ?n, simplified] take_bit_join [OF refl, of 104 24 ?n, simplified]
      take_bit_join [OF refl, of 80 24 ?n, simplified] take_bit_join [OF refl, of 56 24 ?n, simplified]
      take_bit_join [OF refl, of 32 24 ?n, simplified]
    by simp
  ultimately show "fe_val (FeFromBytes b) mod fe_p = le_int b mod 2 ^ 255 mod fe_p" by (simp add: take_bit_eq_mod)
qed

section \<open>Encoding\<close>

lemma fe_w_Suc: "fe_w (Suc i) = fe_w i + fe_width i"
  by (cases "even i") (auto simp: fe_w_def fe_width_def elim!: evenE oddE)

lemma nested_floor: "(b + a div 2 ^ w) div 2 ^ v = (b * 2 ^ w + a) div (2 :: int) ^ (w + v)"
  by (simp add: power_add zdiv_zmult2_eq)

lemma sint_shift_sum:
  assumes "\<bar>sint u\<bar> \<le> 110729625" and "\<bar>sint q\<bar> \<le> 32" and "25 \<le> w"
  shows "sint (signed_drop_bit w (u + q :: 32 word)) = (sint u + sint q) div 2 ^ w \<and> \<bar>(sint u + sint q) div 2 ^ w\<bar> \<le> 32"
proof -
  have "sint (word_of_int (sint u + sint q) :: 32 word) = sint u + sint q"
    using assms(1,2) by (intro sint_in [where n = 31]) auto
  then have s: "sint (u + q) = sint u + sint q" by simp
  have "(2 :: int) ^ 25 \<le> 2 ^ w" using assms(3) by (intro power_increasing) auto
  then have "- 4 * 2 ^ w \<le> sint u + sint q" "sint u + sint q \<le> 4 * 2 ^ w" using assms(1,2) by auto
  then have "(- 4 * 2 ^ w) div 2 ^ w \<le> (sint u + sint q) div 2 ^ w" "(sint u + sint q) div 2 ^ w \<le> (4 * 2 ^ w) div 2 ^ w"
    by (intro zdiv_mono1; simp)+
  moreover have "(- 4 * 2 ^ w) div 2 ^ w = (- 4 :: int)" by (rule nonzero_mult_div_cancel_right) simp
  ultimately have "(sint u + sint q) div 2 ^ w \<le> 32" "- 32 \<le> (sint u + sint q) div 2 ^ w" by simp_all
  then show ?thesis by (simp add: sint_drop s)
qed

text \<open>The quotient that \<^verbatim>\<open>FeToBytes\<close> estimates from the top limb is exact.\<close>

lemma quotient_floor:
  assumes "fe_loose h"
  defines "q0 \<equiv> (19 * sint (h ! 9) + 16777216) div 2 ^ 25"
  shows "sint (fe_quotient h) = (fe_val h + q0) div 2 ^ 255"
proof -
  have len: "length h = 10" and b: "i < 10 \<Longrightarrow> \<bar>sint (h ! i)\<bar> \<le> fe_bound 110729625 55364812 i" for i
    using assms(1) by (auto simp: fe_loose_def fe_within_def)
  have b': "i < 10 \<Longrightarrow> \<bar>sint (h ! i)\<bar> \<le> 110729625" for i using b [of i] by (auto simp: fe_bound_def split: if_splits)
  have b9: "\<bar>sint (h ! 9)\<bar> \<le> 55364812" using b [of 9] by (simp add: fe_bound_def)
  let ?w = "signed_drop_bit 25 (19 * h ! 9 + 16777216)"
  have "19 * h ! 9 + 16777216 = word_of_int (19 * sint (h ! 9) + 16777216)" by simp
  moreover have "sint (word_of_int (19 * sint (h ! 9) + 16777216) :: 32 word) = 19 * sint (h ! 9) + 16777216"
    using b9 by (intro sint_in [where n = 31]) auto
  ultimately have q0: "sint ?w = q0" by (simp add: sint_drop q0_def)
  have q0b: "\<bar>q0\<bar> \<le> 32"
  proof -
    have "- 32 * 2 ^ 25 \<le> 19 * sint (h ! 9) + 16777216" "19 * sint (h ! 9) + 16777216 \<le> 32 * 2 ^ 25" using b9 by auto
    then have "(- 32 * 2 ^ 25) div 2 ^ 25 \<le> q0" "q0 \<le> (32 * 2 ^ 25) div 2 ^ 25"
      unfolding q0_def by (intro zdiv_mono1; simp)+
    then show ?thesis by simp
  qed
  let ?f = "\<lambda>i q. signed_drop_bit (fe_width i) (h ! i + q)"
  have "i \<le> 10 \<Longrightarrow> sint (fold ?f [0..<i] ?w) = ((\<Sum>k<i. sint (h ! k) * 2 ^ fe_w k) + q0) div 2 ^ fe_w i \<and> \<bar>sint (fold ?f [0..<i] ?w)\<bar> \<le> 32" for i
  proof (induction i)
    case 0
    then show ?case using q0 q0b by (simp add: fe_w_def)
  next
    case (Suc i)
    let ?q = "fold ?f [0..<i] ?w"
    have "\<bar>sint ?q\<bar> \<le> 32" and q: "sint ?q = ((\<Sum>k<i. sint (h ! k) * 2 ^ fe_w k) + q0) div 2 ^ fe_w i" using Suc by auto
    moreover have "25 \<le> fe_width i" by (simp add: fe_width_def)
    ultimately have "sint (?f i ?q) = (sint (h ! i) + sint ?q) div 2 ^ fe_width i \<and> \<bar>(sint (h ! i) + sint ?q) div 2 ^ fe_width i\<bar> \<le> 32"
      using b' [of i] Suc.prems by (intro sint_shift_sum) auto
    moreover have "(sint (h ! i) + sint ?q) div 2 ^ fe_width i = ((\<Sum>k<Suc i. sint (h ! k) * 2 ^ fe_w k) + q0) div 2 ^ fe_w (Suc i)"
      unfolding q nested_floor fe_w_Suc by (simp only: sum.lessThan_Suc ac_simps)
    moreover have "fold ?f [0..<Suc i] ?w = ?f i ?q" by simp
    ultimately show ?case by presburger
  qed
  from this [of 10] have "sint (fold ?f [0..<10] ?w) = ((\<Sum>k<10. sint (h ! k) * 2 ^ fe_w k) + q0) div 2 ^ fe_w 10" by blast
  moreover have "fe_w 10 = 255" "[0..<10] = [0, 1, 2, 3, 4, 5, 6, 7, 8, 9]" by (simp_all add: fe_w_def upt_rec)
  ultimately show ?thesis unfolding fe_quotient_def fe_val_sum [OF len] by (simp only:)
qed

lemma ten_limbs: "length h = 10 \<Longrightarrow> h = [h ! 0, h ! 1, h ! 2, h ! 3, h ! 4, h ! 5, h ! 6, h ! 7, h ! 8, h ! 9]"
proof -
  assume "length h = 10"
  then have "h = map ((!) h) [0..<10]" using map_nth [of h] by simp
  moreover have "[0..<10] = [0, 1, 2, 3, 4, 5, 6, 7, 8, 9]" by (simp add: upt_rec)
  ultimately show ?thesis by (simp only: list.map)
qed

lemma low_limbs_small:
  assumes "fe_loose h"
  shows "\<bar>fe_val h - sint (h ! 9) * 2 ^ 230\<bar> < 2 ^ 231"
proof -
  let ?x = "\<lambda>i. sint (h ! i)"
  have len: "length h = 10" and b: "i < 10 \<Longrightarrow> \<bar>?x i\<bar> \<le> fe_bound 110729625 55364812 i" for i
    using assms by (auto simp: fe_loose_def fe_within_def)
  have v: "fe_val h = ?x 0 + ?x 1 * 2 ^ 26 + ?x 2 * 2 ^ 51 + ?x 3 * 2 ^ 77 + ?x 4 * 2 ^ 102
      + ?x 5 * 2 ^ 128 + ?x 6 * 2 ^ 153 + ?x 7 * 2 ^ 179 + ?x 8 * 2 ^ 204 + ?x 9 * 2 ^ 230"
    unfolding fe_val_def limbs_val_ten [symmetric] by (rule arg_cong [of _ _ "limbs_val fe_w"]) (subst ten_limbs [OF len], simp)
  have e: "\<bar>?x 0\<bar> \<le> 110729625" "\<bar>?x 2\<bar> \<le> 110729625" "\<bar>?x 4\<bar> \<le> 110729625" "\<bar>?x 6\<bar> \<le> 110729625" "\<bar>?x 8\<bar> \<le> 110729625"
    and o: "\<bar>?x 1\<bar> \<le> 55364812" "\<bar>?x 3\<bar> \<le> 55364812" "\<bar>?x 5\<bar> \<le> 55364812" "\<bar>?x 7\<bar> \<le> 55364812" "\<bar>?x 9\<bar> \<le> 55364812"
    using b [of 0] b [of 1] b [of 2] b [of 3] b [of 4] b [of 5] b [of 6] b [of 7] b [of 8] b [of 9] by (simp_all add: fe_bound_def)
  have le: "a * 2 ^ k \<le> c * 2 ^ k" and ge: "- c * 2 ^ k \<le> a * 2 ^ k" if "\<bar>a\<bar> \<le> c" for a c :: int and k :: nat
    using that by (intro mult_right_mono; simp)+
  let ?low = "?x 0 + ?x 1 * 2 ^ 26 + ?x 2 * 2 ^ 51 + ?x 3 * 2 ^ 77 + ?x 4 * 2 ^ 102 + ?x 5 * 2 ^ 128 + ?x 6 * 2 ^ 153 + ?x 7 * 2 ^ 179 + ?x 8 * 2 ^ 204"
  have "?low \<le> 110729625 + 55364812 * 2 ^ 26 + 110729625 * 2 ^ 51 + 55364812 * 2 ^ 77 + 110729625 * 2 ^ 102
      + 55364812 * 2 ^ 128 + 110729625 * 2 ^ 153 + 55364812 * 2 ^ 179 + 110729625 * 2 ^ 204"
    using e(1) by (intro add_mono le e o) auto
  then have up: "?low < 2 ^ 231" by (rule le_less_trans) simp
  have "- 110729625 + (- 55364812) * 2 ^ 26 + (- 110729625) * 2 ^ 51 + (- 55364812) * 2 ^ 77 + (- 110729625) * 2 ^ 102
      + (- 55364812) * 2 ^ 128 + (- 110729625) * 2 ^ 153 + (- 55364812) * 2 ^ 179 + (- 110729625) * 2 ^ 204 \<le> ?low"
    using e(1) by (intro add_mono ge e o) auto
  then have down: "- (2 ^ 231) < ?low" by (rule less_le_trans [rotated]) simp
  show "\<bar>fe_val h - ?x 9 * 2 ^ 230\<bar> < 2 ^ 231"
    unfolding v add_diff_cancel_right' abs_less_iff using up down by (simp only: minus_less_iff simp_thms)
qed

lemma quotient_exact:
  assumes "fe_loose h"
  shows "sint (fe_quotient h) = fe_val h div fe_p" and "\<bar>sint (fe_quotient h)\<bar> \<le> 32"
proof -
  define x where "x = sint (h ! 9)"
  define lo where "lo = fe_val h - x * 2 ^ 230"
  define q where "q = fe_val h div fe_p"
  define r where "r = fe_val h mod fe_p"
  define q0 where "q0 = (19 * x + 16777216) div 2 ^ 25"
  have lo: "- (2 ^ 231) < lo" "lo < 2 ^ 231" using low_limbs_small [OF assms] by (auto simp: lo_def x_def abs_less_iff)
  have x: "\<bar>x\<bar> \<le> 55364812" using assms by (auto simp: x_def fe_loose_def fe_within_def fe_bound_def dest: spec [of _ 9])
  have v: "fe_val h = fe_p * q + r" "0 \<le> r" "r < fe_p" by (simp_all add: q_def r_def fe_p_def)
  have q0: "2 ^ 25 * q0 \<le> 19 * x + 16777216" "19 * x + 16777216 < 2 ^ 25 * (q0 + 1)"
    using mult_div_mod_eq [of "2 ^ 25" "19 * x + 16777216"] pos_mod_bound [of "2 ^ 25" "19 * x + 16777216"]
      pos_mod_sign [of "2 ^ 25" "19 * x + 16777216"] unfolding q0_def [symmetric] by (simp_all add: algebra_simps)
  define y where "y = x * 2 ^ 230"
  have y: "- (55364812 * 2 ^ 230) \<le> y" "y \<le> 55364812 * 2 ^ 230" using x by (simp_all add: y_def)
  have q0y: "2 ^ 255 * q0 \<le> 19 * y + 2 ^ 254" "19 * y + 2 ^ 254 < 2 ^ 255 * (q0 + 1)"
    using q0 by (simp_all add: y_def)
  have e: "2 ^ 255 * q - 19 * q + r = lo + y" using v(1) by (simp add: lo_def y_def fe_p_def algebra_simps)
  have qb: "- 4 \<le> q" "q \<le> 4" using e lo y v(2,3) by (simp_all add: fe_p_def)
  have "19 * q \<le> q0" "q0 \<le> 19 * q + 19" using q0y e lo qb v(2,3) by (simp_all add: fe_p_def)
  then have "0 \<le> r - 19 * q + q0" "r - 19 * q + q0 < 2 ^ 255" using v(2,3) by (simp_all add: fe_p_def)
  then have "(r - 19 * q + q0) div 2 ^ 255 = 0" by (intro div_pos_pos_trivial)
  moreover have "fe_val h + q0 = (r - 19 * q + q0) + q * 2 ^ 255" using v(1) by (simp add: fe_p_def algebra_simps)
  then have "(fe_val h + q0) div 2 ^ 255 = q + (r - 19 * q + q0) div 2 ^ 255" by simp
  ultimately have "(fe_val h + q0) div 2 ^ 255 = q" by simp
  then show "sint (fe_quotient h) = fe_val h div fe_p" "\<bar>sint (fe_quotient h)\<bar> \<le> 32"
    using quotient_floor [OF assms] qb by (simp_all add: q0_def x_def q_def)
qed

text \<open>The carries that reduce the argument in place.\<close>

definition ops_canon :: "limb_op list" where
  "ops_canon = map (\<lambda>i. Carry i (i + 1) (fe_width i) 0 1) [0, 1, 2, 3, 4, 5, 6, 7, 8]"

definition iv_canon :: "ival list" where
  "iv_canon = map (\<lambda>i. (- fe_bound 110730300 55364812 i, fe_bound 110730300 55364812 i)) [0..<10]"

lemma canon_run: "\<exists>b. iv_run 31 ops_canon iv_canon = Some b \<and> list_all (\<lambda>i. b ! i = (0, 2 ^ fe_width i - 1)) [0..<9] \<and> iv_ok 31 (b ! 9)"
proof -
  have "case iv_run 31 ops_canon iv_canon of None \<Rightarrow> False
      | Some b \<Rightarrow> list_all (\<lambda>i. b ! i = (0, 2 ^ fe_width i - 1)) [0..<9] \<and> iv_ok 31 (b ! 9)" by code_simp
  then show ?thesis by (auto split: option.splits)
qed

lemma canon_keeps: "list_all (op_keeps fe_w 0 10) ops_canon"
  by (simp add: ops_canon_def fe_w_def fe_width_def)

lemma sint_low25: "sint (z - push_bit 25 (signed_drop_bit 25 z) :: 32 word) = sint z mod 2 ^ 25"
proof -
  have "signed_drop_bit 25 z = word_of_int (sint z div 2 ^ 25)" by (metis sint_drop word_sint)
  then have "z - push_bit 25 (signed_drop_bit 25 z) = word_of_int (sint z - sint z div 2 ^ 25 * 2 ^ 25)"
    by (simp add: push_bit_eq_mult)
  moreover have "sint z - sint z div 2 ^ 25 * 2 ^ 25 = sint z mod 2 ^ 25" by (simp only: minus_div_mult_eq_mod)
  moreover have "sint (word_of_int (sint z mod 2 ^ 25) :: 32 word) = sint z mod 2 ^ 25"
    using pos_mod_bound [of "2 ^ 25" "sint z"] pos_mod_sign [of "2 ^ 25" "sint z"] by (intro sint_in [where n = 31]) simp_all
  ultimately show ?thesis by (simp only:)
qed

lemma canon_start:
  assumes "fe_loose h"
  defines "h1 \<equiv> h[0 := h ! 0 + 19 * fe_quotient h]"
  shows "within iv_canon (sints h1)" and "limbs_val fe_w (sints h1) = fe_val h + 19 * (fe_val h div fe_p)"
proof -
  have len: "length h = 10" and b: "i < 10 \<Longrightarrow> \<bar>sint (h ! i)\<bar> \<le> fe_bound 110729625 55364812 i" for i
    using assms(1) by (auto simp: fe_loose_def fe_within_def)
  note q = quotient_exact [OF assms(1)]
  have b0: "\<bar>sint (h ! 0)\<bar> \<le> 110729625" using b [of 0] by (simp add: fe_bound_def)
  have "h ! 0 + 19 * fe_quotient h = word_of_int (sint (h ! 0) + 19 * sint (fe_quotient h))" by simp
  moreover have "sint (word_of_int (sint (h ! 0) + 19 * sint (fe_quotient h)) :: 32 word) = sint (h ! 0) + 19 * sint (fe_quotient h)"
    using b0 q(2) by (intro sint_in [where n = 31]) auto
  ultimately have h0: "sint (h ! 0 + 19 * fe_quotient h) = sint (h ! 0) + 19 * sint (fe_quotient h)" by simp
  have x: "sints h1 = (sints h)[0 := sint (h ! 0) + 19 * sint (fe_quotient h)]"
    unfolding h1_def map_update h0 ..
  show "limbs_val fe_w (sints h1) = fe_val h + 19 * (fe_val h div fe_p)"
    unfolding x using len by (simp add: limbs_val_upd fe_val_def [symmetric] q(1) fe_w_def)
  have "\<bar>sint (h1 ! i)\<bar> \<le> fe_bound 110730300 55364812 i" if "i < 10" for i
  proof (cases "i = 0")
    case True
    then show ?thesis using b0 q(2) len h0 by (simp add: h1_def fe_bound_def)
  next
    case False
    then show ?thesis using b [OF that] by (auto simp: h1_def fe_bound_def split: if_splits)
  qed
  then show "within iv_canon (sints h1)"
    unfolding within_def list_all2_conv_all_nth by (auto simp: iv_canon_def h1_def len abs_le_iff minus_le_iff)
qed

lemma canon_val:
  assumes "fe_loose h"
  shows "length (fe_canon h) = 10" and "i < 10 \<Longrightarrow> 0 \<le> sint (fe_canon h ! i) \<and> sint (fe_canon h ! i) < 2 ^ fe_width i"
    and "fe_val (fe_canon h) = fe_val h mod fe_p"
proof -
  define h1 where "h1 = h[0 := h ! 0 + 19 * fe_quotient h]"
  define h2 where "h2 = fold limb_exec ops_canon h1"
  define y where "y = fe_canon h"
  have len: "length h = 10" using assms by (simp add: fe_loose_def fe_within_def)
  have l2: "length h2 = 10" by (simp add: h2_def h1_def len)
  have y: "y = h2[9 := h2 ! 9 - push_bit 25 (signed_drop_bit 25 (h2 ! 9))]"
    by (simp add: y_def fe_canon_def h2_def h1_def ops_canon_def Let_def)
  obtain b where run: "iv_run 31 ops_canon iv_canon = Some b" and b: "\<forall>i<9. b ! i = (0, 2 ^ fe_width i - 1)"
    using canon_run by (auto simp: list_all_iff)
  have s: "sints h2 = fold int_exec ops_canon (sints h1)" "within b (sints h2)"
    using run_sound [OF canon_start(1)[OF assms] run] by (auto simp: h2_def h1_def)
  have "limbs_val fe_w (sints h2) = limbs_val fe_w (sints h1)"
    using run_keeps [of fe_w 0 "sints h1" ops_canon] canon_keeps len by (simp add: s(1) h1_def)
  then have v2: "limbs_val fe_w (sints h2) = fe_val h + 19 * (fe_val h div fe_p)"
    using canon_start(2)[OF assms] by (simp add: h1_def)
  have sy: "sints y = (sints h2)[9 := sint (h2 ! 9) mod 2 ^ 25]"
    unfolding y map_update sint_low25 ..
  have bl: "length b = 10" using within_length [OF s(2)] l2 by simp
  have rng: "0 \<le> sints y ! i \<and> sints y ! i < 2 ^ fe_width i" if "i < 10" for i
  proof (cases "i = 9")
    case True
    then show ?thesis by (simp add: sy l2 fe_width_def)
  next
    case False
    then have "b ! i = (0, 2 ^ fe_width i - 1)" using b that by auto
    then show ?thesis using within_nth [OF s(2), of i] that False bl by (simp add: sy l2)
  qed
  have ly: "length y = 10" by (simp add: y l2)
  then show "length (fe_canon h) = 10" by (simp add: y_def)
  show "i < 10 \<Longrightarrow> 0 \<le> sint (fe_canon h ! i) \<and> sint (fe_canon h ! i) < 2 ^ fe_width i"
    using rng [of i] ly by (simp add: y_def)
  have "0 \<le> limbs_val fe_w (sints y) \<and> limbs_val fe_w (sints y) < 2 ^ fe_w (length (sints y))"
    using rng ly by (intro limbs_val_range [where w = fe_width]) (auto simp: fe_w_Suc, simp add: fe_w_def)
  then have r: "0 \<le> fe_val y" "fe_val y < 2 ^ 255" by (simp_all add: fe_val_def ly fe_w_def)
  have "fe_val y = limbs_val fe_w (sints h2) + (sint (h2 ! 9) mod 2 ^ 25 - sint (h2 ! 9)) * 2 ^ 230"
    unfolding fe_val_def sy using l2 by (simp add: limbs_val_upd fe_w_def)
  also have "sint (h2 ! 9) mod 2 ^ 25 - sint (h2 ! 9) = - (2 ^ 25 * (sint (h2 ! 9) div 2 ^ 25))"
    using mult_div_mod_eq [of "2 ^ 25" "sint (h2 ! 9)"] by linarith
  finally have "fe_val y = fe_val h mod fe_p + 2 ^ 255 * (fe_val h div fe_p - sint (h2 ! 9) div 2 ^ 25)"
    unfolding v2 using mult_div_mod_eq [of fe_p "fe_val h"] by (simp add: fe_p_def algebra_simps)
  then have "fe_val y mod 2 ^ 255 = fe_val h mod fe_p mod 2 ^ 255" by (simp only: mod_mult_self2)
  moreover have "0 \<le> fe_val h mod fe_p" "fe_val h mod fe_p < 2 ^ 255"
    using pos_mod_bound [of fe_p "fe_val h"] by (simp_all add: fe_p_def)
  ultimately show "fe_val (fe_canon h) = fe_val h mod fe_p" using r by (simp add: y_def)
qed

lemma fe_store_val:
  assumes "\<forall>i<9. sint (s ! i) = take_bit (fe_width i) (drop_bit (fe_w i) n)" and "sint (s ! 9) = drop_bit 230 n"
    and "0 \<le> n" and "n < 2 ^ 256"
  shows "le_int (fe_store s) = n"
proof -
  have b: "uint (limb_byte s i j) = take_bit 8 (drop_bit (fe_w i + j) n)" if "i < 9" "j + 8 \<le> fe_width i" for i j
    using assms(1) that by (intro limb_byte_digit [where w = "fe_width i"]) simp_all
  have nxt: "take_bit 8 (sint (s ! (i + 1))) = take_bit 8 (drop_bit (fe_w i + fe_width i) n)" if "i < 9" for i
  proof (cases "i = 8")
    case True
    then show ?thesis by (simp add: assms(2) fe_w_def fe_width_def)
  next
    case False
    then have "sint (s ! (i + 1)) = take_bit (fe_width (i + 1)) (drop_bit (fe_w i + fe_width i) n)"
      using assms(1) that by (simp add: fe_w_Suc)
    then show ?thesis by (simp add: min_def fe_width_def)
  qed
  have b2: "uint (limb_byte2 s i j k) = take_bit 8 (drop_bit (fe_w i + j) n)" if "i < 9" "j + k = fe_width i" for i j k
    using assms(1) that nxt [OF that(1)] by (intro limb_byte2_digit [where w = "fe_width i"]) simp_all
  have top: "uint (limb_byte s 9 j) = take_bit 8 (drop_bit (230 + j) n)" for j
    by (rule limb_byte_top) (simp_all add: assms(2))
  have "map uint (fe_store s) = map (digit 8 n) [0..<32]"
    by (simp add: fe_store_def digit_def upt_rec b b2 top fe_width_def fe_w_def)
  then have "le_int (fe_store s) = take_bit 256 n"
    using horner_digits [of 8 n 32] by (simp add: le_int_def)
  also have "\<dots> = n" using assms(3,4) by (simp add: take_bit_int_eq_self)
  finally show ?thesis .
qed

lemma FeToBytes_ok:
  assumes "fe_loose h"
  shows "length (fst (FeToBytes h)) = 32" and "le_int (fst (FeToBytes h)) = fe_val h mod fe_p"
    and "fe_within (2 ^ 26 - 1) (2 ^ 25 - 1) (snd (FeToBytes h))" and "fe_val (snd (FeToBytes h)) = fe_val h mod fe_p"
proof -
  let ?y = "fe_canon h" and ?n = "fe_val h mod fe_p"
  note c = canon_val [OF assms]
  have n: "0 \<le> ?n" "?n < 2 ^ 255"
    using pos_mod_bound [of fe_p "fe_val h"] by (simp_all add: fe_p_def)
  have d: "sint (?y ! i) = take_bit (fe_width i) (drop_bit (fe_w i) ?n)" if "i < 10" for i
  proof -
    have "fe_w 0 = 0" by (simp add: fe_w_def)
    then have "sints ?y ! i = take_bit (fe_width i) (drop_bit (fe_w i) (limbs_val fe_w (sints ?y)))"
      using c(1,2) that by (intro mixed_digits) (simp_all add: fe_w_Suc)
    moreover have "limbs_val fe_w (sints ?y) = ?n" using c(3) unfolding fe_val_def .
    ultimately show ?thesis using c(1) that by simp
  qed
  have "drop_bit 230 ?n < 2 ^ 25"
    using n zdiv_mono1 [of ?n "2 ^ 255 - 1" "2 ^ 230"] by (simp add: drop_bit_eq_div)
  then have "take_bit 25 (drop_bit 230 ?n) = drop_bit 230 ?n"
    using n by (simp add: take_bit_int_eq_self)
  then have "sint (?y ! 9) = drop_bit 230 ?n" using d [of 9] by (simp add: fe_width_def fe_w_def)
  then show "le_int (fst (FeToBytes h)) = ?n"
    unfolding FeToBytes_def Let_def fst_conv using d n by (intro fe_store_val) auto
  show "length (fst (FeToBytes h)) = 32" by (simp add: FeToBytes_def fe_store_def Let_def)
  show "fe_val (snd (FeToBytes h)) = ?n" by (simp add: FeToBytes_def c(3) Let_def)
  have "\<bar>sint (?y ! i)\<bar> \<le> fe_bound (2 ^ 26 - 1) (2 ^ 25 - 1) i" if "i < 10" for i
    using c(2)[OF that] by (auto simp: fe_bound_def fe_width_def split: if_splits)
  then show "fe_within (2 ^ 26 - 1) (2 ^ 25 - 1) (snd (FeToBytes h))" by (simp add: FeToBytes_def fe_within_def c(1) Let_def)
qed

lemma FeToBytes_loose: "fe_loose h \<Longrightarrow> fe_loose (snd (FeToBytes h))"
  unfolding fe_loose_def by (rule fe_within_mono [OF FeToBytes_ok(3)[unfolded fe_loose_def]]) simp_all

lemma le_int_inj: "length a = length b \<Longrightarrow> le_int a = le_int b \<Longrightarrow> a = b"
proof (induction a b rule: list_induct2)
  case (Cons x xs y ys)
  have e: "uint x + 256 * le_int xs = uint y + 256 * le_int ys" using Cons.prems by (simp add: le_int_def)
  moreover have "uint x mod 256 = uint x" "uint y mod 256 = uint y" using byte_range [of x] byte_range [of y] by simp_all
  moreover have "(uint x + 256 * le_int xs) mod 256 = uint x mod 256" "(uint y + 256 * le_int ys) mod 256 = uint y mod 256" by simp_all
  ultimately have "uint x = uint y" by metis
  then have "x = y" by (simp add: word_uint_eq_iff)
  with e Cons.IH show ?case by simp
qed simp

lemma or_bytes: "(fold (\<lambda>b x. x OR b) s (x :: byte) = 0) = (x = 0 \<and> (\<forall>b \<in> set s. b = 0))"
proof (induction s arbitrary: x)
  case (Cons b s)
  have "x OR b = 0 \<longleftrightarrow> x = 0 \<and> b = 0" by (auto simp: bit_eq_iff bit_simps)
  with Cons show ?case by auto
qed simp

lemma le_int_zero: "le_int s = 0 \<longleftrightarrow> (\<forall>b \<in> set s. b = 0)"
proof (induction s)
  case (Cons b s)
  have "0 \<le> le_int s" "0 \<le> uint b" using le_int_bound [of s] by simp_all
  then have "uint b + 256 * le_int s = 0 \<longleftrightarrow> uint b = 0 \<and> le_int s = 0" by linarith
  moreover have "le_int (b # s) = uint b + 256 * le_int s" by (simp add: le_int_def)
  ultimately show ?case using Cons by (simp add: unsigned_eq_0_iff)
qed (simp add: le_int_def)

lemma byte_smear:
  fixes x :: byte
  defines "y \<equiv> x OR drop_bit 4 x" defines "z \<equiv> y OR drop_bit 2 y" defines "w \<equiv> z OR drop_bit 1 z"
  shows "w AND 1 = (if x = 0 then 0 else 1)"
proof -
  have "bit w 0 \<longleftrightarrow> (\<exists>n<8. bit x n)"
    by (auto simp: w_def z_def y_def bit_simps numeral_eq_Suc less_Suc_eq)
  also have "\<dots> \<longleftrightarrow> x \<noteq> 0" by (auto simp: bit_eq_iff dest: bit_imp_le_length)
  finally have "odd w \<longleftrightarrow> x \<noteq> 0" by (simp add: bit_0)
  then show ?thesis by (cases "x = 0") (simp_all add: and_one_eq even_iff_mod_2_eq_zero odd_iff_mod_2_eq_one)
qed

lemma FeOne_list: "FeOne = [1, 0, 0, 0, 0, 0, 0, 0, 0, 0]"
  by code_simp

lemma FeOne_val: "fe_val FeOne = 1" "fe_val (FeNeg FeOne) = - 1"
  by (simp_all add: FeOne_list FeNeg_def fe_val_def limbs_val_ten)

section \<open>Properties of the encodings\<close>

text \<open>\<^verbatim>\<open>FeToBytes\<close> writes the only encoding below the prime, and leaves its argument with the reduced limbs of
  the same number. The quotient it estimates from the top limb is exact. The reduced limbs are not negative
  and twice as wide as the documented bounds of results, but within those that \<^verbatim>\<open>FeMul\<close> accepts.\<close>

theorem fe_to_bytes_canonical:
  assumes "fe_loose h"
  shows "length (fst (FeToBytes h)) = 32 \<and> le_int (fst (FeToBytes h)) = fe_val h mod fe_p
    \<and> fe_within (2 ^ 26 - 1) (2 ^ 25 - 1) (snd (FeToBytes h)) \<and> fe_val (snd (FeToBytes h)) = fe_val h mod fe_p"
  using FeToBytes_ok [OF assms] by simp

theorem fe_to_bytes_canonical_witness:
  "le_int (fst (FeToBytes (FeNeg FeOne))) = fe_p - 1"
proof -
  have "fe_loose (FeNeg FeOne)" by (simp add: FeNeg_def FeOne_def FeZero_def fe_loose_def fe_within_def fe_bound_def nth_list_update)
  moreover have "fe_val (FeNeg FeOne) mod fe_p = fe_p - 1"
    by (simp add: FeOne_val fe_p_def)
  ultimately show ?thesis using fe_to_bytes_canonical [of "FeNeg FeOne"] by simp
qed

text \<open>C30. Every 32 bytes decode to an element within the bounds of results that encodes back as the number without
  its top bit, reduced; an encoding below the prime encodes back to itself.\<close>

theorem fe_bytes_roundtrip:
  assumes "length b = 32"
  shows "fe_tight (FeFromBytes b) \<and> le_int (fst (FeToBytes (FeFromBytes b))) = le_int b mod 2 ^ 255 mod fe_p
    \<and> (le_int b < fe_p \<longrightarrow> fst (FeToBytes (FeFromBytes b)) = b)"
proof -
  note f = FeFromBytes_ok [OF assms]
  note t = FeToBytes_ok [OF tight_loose [OF f(1)]]
  have v: "le_int (fst (FeToBytes (FeFromBytes b))) = le_int b mod 2 ^ 255 mod fe_p"
    using t(2) f(2) by (rule trans)
  have "fst (FeToBytes (FeFromBytes b)) = b" if "le_int b < fe_p"
  proof (rule le_int_inj)
    have "fe_p < 2 ^ 255" by (simp add: fe_p_def)
    with that have "le_int b mod 2 ^ 255 = le_int b" using le_int_bound [of b] by (intro mod_pos_pos_trivial) auto
    then show "le_int (fst (FeToBytes (FeFromBytes b))) = le_int b"
      unfolding v using that le_int_bound [of b] by simp
  qed (simp add: t(1) assms)
  with f(1) v show ?thesis by blast
qed

theorem fe_bytes_roundtrip_witness:
  "fst (FeToBytes (FeFromBytes (7 # replicate 31 0))) = 7 # replicate 31 0"
proof -
  have "length (7 # replicate 31 (0 :: byte)) = 32" "le_int (7 # replicate 31 0) < fe_p"
    by (simp_all add: le_int_def fe_p_def)
  then show ?thesis using fe_bytes_roundtrip [of "7 # replicate 31 0"] by blast
qed

text \<open>\<^verbatim>\<open>FeIsNegative\<close> is the parity of the reduced number, \<^verbatim>\<open>FeIsNonZero\<close> is 1 on all elements but those of the residue
  0, and \<^verbatim>\<open>FeCMove\<close> selects between two elements.\<close>

theorem fe_tests:
  assumes "fe_loose f" and "length g = 10"
  shows "uint (fst (FeIsNegative f)) = fe_val f mod fe_p mod 2
    \<and> fst (FeIsNonZero f) = (if fe_val f mod fe_p = 0 then 0 else 1)
    \<and> FeCMove f g 0 = f \<and> FeCMove f g 1 = g"
proof -
  have lf: "length f = 10" by (rule loose_length [OF assms(1)])
  note t = FeToBytes_ok [OF assms(1)]
  obtain s f' where sf: "FeToBytes f = (s, f')" by (cases "FeToBytes f")
  obtain b r where s: "s = b # r" using t(1) sf by (cases s) auto
  have "le_int s mod 2 = uint b mod 2" by (simp add: s le_int_def mod_add_eq [symmetric] mod_mult_eq [symmetric])
  then have neg: "uint (fst (FeIsNegative f)) = fe_val f mod fe_p mod 2"
    using t(2) sf by (simp add: FeIsNegative_def s and_one_eq uint_mod_distrib)
  have nz: "fst (FeIsNonZero f) = (if fe_val f mod fe_p = 0 then 0 else 1)"
    using t(2) sf le_int_zero [of s] or_bytes [of s 0] byte_smear [of "fold (\<lambda>b x. x OR b) s 0"]
    by (simp add: FeIsNonZero_def Let_def)
  have c0: "FeCMove f g 0 = f" using lf assms(2)
    by (auto simp: FeCMove_def Let_def intro!: nth_equalityI)
  have c1: "FeCMove f g 1 = g" using lf assms(2)
    by (auto simp: FeCMove_def Let_def intro!: nth_equalityI bit_word_eqI simp: bit_simps)
  show ?thesis using neg nz c0 c1 by blast
qed

theorem fe_tests_witness:
  "uint (fst (FeIsNegative FeOne)) = 1 \<and> fst (FeIsNonZero FeOne) = 1 \<and> FeCMove FeOne FeZero 1 = FeZero"
proof -
  have "fe_loose FeOne" "length FeZero = 10"
    by (simp_all add: FeOne_def FeZero_def fe_loose_def fe_within_def fe_bound_def nth_list_update)
  moreover have "fe_val FeOne mod fe_p = 1"
    by (simp add: FeOne_val fe_p_def)
  ultimately show ?thesis using fe_tests [of FeOne FeZero] by simp
qed

text \<open>Every operation returns ten limbs within known bounds, so that a call can be followed by any other: results
  of products, powers and decoding are tight, and sums and differences of up to three tight elements are loose,
  which is what products accept.\<close>

theorem fe_ops_bounds:
  assumes "fe_tight f" and "fe_tight g" and "fe_tight h" and "length b = 32"
  shows "fe_tight FeZero \<and> fe_tight FeOne \<and> fe_tight (FeNeg f) \<and> fe_loose (FeAdd f g) \<and> fe_loose (FeSub f g)
    \<and> fe_loose (FeSub (FeAdd f g) h) \<and> fe_loose (FeSub f (FeAdd g h)) \<and> fe_tight (FeMul (FeAdd f g) (FeSub f (FeAdd g h)))
    \<and> fe_tight (FeSquare f) \<and> fe_tight (FeSquare2 f) \<and> fe_loose (FeInvert f) \<and> fe_loose (fePow22523 f)
    \<and> fe_tight (FeFromBytes b) \<and> fe_loose (snd (FeToBytes (FeSub (FeAdd f g) h)))"
proof -
  have f: "fe_loose f" by (rule tight_loose [OF assms(1)])
  note s = FeAdd_loose [OF assms(1,2)] FeSub_loose [OF assms(1,2)] FeAddSub_loose [OF assms(1-3)]
  show ?thesis
    using FeConst_tight FeNeg_tight [OF assms(1)] s FeMul_ok(1)[OF s(1,4)] FeMul_ok(1)[OF f f] FeSquare_eq [OF f] FeSquare2_ok(1)[OF f]
      FeInvert_pow [OF f] fePow22523_pow [OF f] FeFromBytes_ok(1)[OF assms(4)] FeToBytes_loose [OF s(3)]
    by (simp only: fe_pow_def simp_thms)
qed

theorem fe_ops_bounds_witness: "fe_loose (FeSub (FeAdd FeOne FeOne) FeOne) \<and> fe_tight (FeFromBytes (replicate 32 255))"
  using fe_ops_bounds [OF FeConst_tight(2) FeConst_tight(2) FeConst_tight(2), of "replicate 32 255"] by simp

end
