(* ===== verification/Group25519.thy ===== *)
theory Group25519
  imports Field_Bytes
begin

unbundle bit_operations_syntax

text \<open>
  The points of \<^verbatim>\<open>src/vrf/ed25519/edwards25519/edwards25519.go\<close> on the curve \<open>y\<^sup>2 - x\<^sup>2 = 1 + d x\<^sup>2 y\<^sup>2\<close> in the five representations of the
  code. An operation returns the element it writes. The specification is the addition law on affine
  coordinates in the ring of residues modulo the prime, stated without division: a sum is a pair that the
  denominators, which are units, take to the numerators. Shown: every operation computes that law, for all
  representations within the bounds that the operations themselves keep.
\<close>

section \<open>Representations\<close>

record ProjectiveGroupElement =
  prX :: fe
  prY :: fe
  prZ :: fe

record ExtendedGroupElement =
  exX :: fe
  exY :: fe
  exZ :: fe
  exT :: fe

record CompletedGroupElement =
  coX :: fe
  coY :: fe
  coZ :: fe
  coT :: fe

record PreComputedGroupElement =
  pcYPlusX :: fe
  pcYMinusX :: fe
  pcXy2d :: fe

record CachedGroupElement =
  caYPlusX :: fe
  caYMinusX :: fe
  caZ :: fe
  caT2d :: fe

definition fe_d :: fe where
  "fe_d = [-10913610, 13857413, -15372611, 6949391, 114729, -8787816, -6275908, -3247719, -18696448, -12055116]"

definition fe_d2 :: fe where
  "fe_d2 = [-21827239, -5839606, -30745221, 13898782, 229458, 15978800, -12551817, -6495438, 29715968, 9444199]"

definition SqrtM1 :: fe where
  "SqrtM1 = [-32595792, -7943725, 9377950, 3500415, 12389472, -272473, -25146209, -2005654, 326686, 11406482]"

section \<open>Operations\<close>

definition Projective_Zero :: ProjectiveGroupElement where
  "Projective_Zero = \<lparr>prX = FeZero, prY = FeOne, prZ = FeOne\<rparr>"

definition Projective_Double :: "ProjectiveGroupElement \<Rightarrow> CompletedGroupElement" where
  "Projective_Double p =
    (let rX = FeSquare (prX p);
         rZ = FeSquare (prY p);
         rT = FeSquare2 (prZ p);
         rY = FeAdd (prX p) (prY p);
         t0 = FeSquare rY;
         rY = FeAdd rZ rX;
         rZ = FeSub rZ rX;
         rX = FeSub t0 rY;
         rT = FeSub rT rZ
     in \<lparr>coX = rX, coY = rY, coZ = rZ, coT = rT\<rparr>)"

definition Extended_Zero :: ExtendedGroupElement where
  "Extended_Zero = \<lparr>exX = FeZero, exY = FeOne, exZ = FeOne, exT = FeZero\<rparr>"

definition Extended_ToProjective :: "ExtendedGroupElement \<Rightarrow> ProjectiveGroupElement" where
  "Extended_ToProjective p = \<lparr>prX = exX p, prY = exY p, prZ = exZ p\<rparr>"

definition Extended_Double :: "ExtendedGroupElement \<Rightarrow> CompletedGroupElement" where
  "Extended_Double p = Projective_Double (Extended_ToProjective p)"

definition ToCached :: "ExtendedGroupElement \<Rightarrow> CachedGroupElement" where
  "ToCached p = \<lparr>caYPlusX = FeAdd (exY p) (exX p), caYMinusX = FeSub (exY p) (exX p), caZ = exZ p, caT2d = FeMul (exT p) fe_d2\<rparr>"

definition Completed_ToProjective :: "CompletedGroupElement \<Rightarrow> ProjectiveGroupElement" where
  "Completed_ToProjective p =
    \<lparr>prX = FeMul (coX p) (coT p), prY = FeMul (coY p) (coZ p), prZ = FeMul (coZ p) (coT p)\<rparr>"

definition Completed_ToExtended :: "CompletedGroupElement \<Rightarrow> ExtendedGroupElement" where
  "Completed_ToExtended p =
    \<lparr>exX = FeMul (coX p) (coT p), exY = FeMul (coY p) (coZ p), exZ = FeMul (coZ p) (coT p), exT = FeMul (coX p) (coY p)\<rparr>"

definition PreComputed_Zero :: PreComputedGroupElement where
  "PreComputed_Zero = \<lparr>pcYPlusX = FeOne, pcYMinusX = FeOne, pcXy2d = FeZero\<rparr>"

definition geAdd :: "ExtendedGroupElement \<Rightarrow> CachedGroupElement \<Rightarrow> CompletedGroupElement" where
  "geAdd p q =
    (let rX = FeAdd (exY p) (exX p);
         rY = FeSub (exY p) (exX p);
         rZ = FeMul rX (caYPlusX q);
         rY = FeMul rY (caYMinusX q);
         rT = FeMul (caT2d q) (exT p);
         rX = FeMul (exZ p) (caZ q);
         t0 = FeAdd rX rX;
         rX = FeSub rZ rY;
         rY = FeAdd rZ rY;
         rZ = FeAdd t0 rT;
         rT = FeSub t0 rT
     in \<lparr>coX = rX, coY = rY, coZ = rZ, coT = rT\<rparr>)"

definition geSub :: "ExtendedGroupElement \<Rightarrow> CachedGroupElement \<Rightarrow> CompletedGroupElement" where
  "geSub p q =
    (let rX = FeAdd (exY p) (exX p);
         rY = FeSub (exY p) (exX p);
         rZ = FeMul rX (caYMinusX q);
         rY = FeMul rY (caYPlusX q);
         rT = FeMul (caT2d q) (exT p);
         rX = FeMul (exZ p) (caZ q);
         t0 = FeAdd rX rX;
         rX = FeSub rZ rY;
         rY = FeAdd rZ rY;
         rZ = FeSub t0 rT;
         rT = FeAdd t0 rT
     in \<lparr>coX = rX, coY = rY, coZ = rZ, coT = rT\<rparr>)"

definition geMixedAdd :: "ExtendedGroupElement \<Rightarrow> PreComputedGroupElement \<Rightarrow> CompletedGroupElement" where
  "geMixedAdd p q =
    (let rX = FeAdd (exY p) (exX p);
         rY = FeSub (exY p) (exX p);
         rZ = FeMul rX (pcYPlusX q);
         rY = FeMul rY (pcYMinusX q);
         rT = FeMul (pcXy2d q) (exT p);
         t0 = FeAdd (exZ p) (exZ p);
         rX = FeSub rZ rY;
         rY = FeAdd rZ rY;
         rZ = FeAdd t0 rT;
         rT = FeSub t0 rT
     in \<lparr>coX = rX, coY = rY, coZ = rZ, coT = rT\<rparr>)"

definition geMixedSub :: "ExtendedGroupElement \<Rightarrow> PreComputedGroupElement \<Rightarrow> CompletedGroupElement" where
  "geMixedSub p q =
    (let rX = FeAdd (exY p) (exX p);
         rY = FeSub (exY p) (exX p);
         rZ = FeMul rX (pcYMinusX q);
         rY = FeMul rY (pcYPlusX q);
         rT = FeMul (pcXy2d q) (exT p);
         t0 = FeAdd (exZ p) (exZ p);
         rX = FeSub rZ rY;
         rY = FeAdd rZ rY;
         rZ = FeSub t0 rT;
         rT = FeAdd t0 rT
     in \<lparr>coX = rX, coY = rY, coZ = rZ, coT = rT\<rparr>)"

definition GeAdd :: "ExtendedGroupElement \<Rightarrow> ExtendedGroupElement \<Rightarrow> ExtendedGroupElement" where
  "GeAdd a b = Completed_ToExtended (geAdd a (ToCached b))"

definition GeDouble :: "ExtendedGroupElement \<Rightarrow> ExtendedGroupElement" where
  "GeDouble p = Completed_ToExtended (Projective_Double (Extended_ToProjective p))"

definition ExtendedGroupElementCMove :: "ExtendedGroupElement \<Rightarrow> ExtendedGroupElement \<Rightarrow> 32 word \<Rightarrow> ExtendedGroupElement" where
  "ExtendedGroupElementCMove t u b =
    \<lparr>exX = FeCMove (exX t) (exX u) b, exY = FeCMove (exY t) (exY u) b, exZ = FeCMove (exZ t) (exZ u) b, exT = FeCMove (exT t) (exT u) b\<rparr>"

definition PreComputedGroupElementCMove :: "PreComputedGroupElement \<Rightarrow> PreComputedGroupElement \<Rightarrow> 32 word \<Rightarrow> PreComputedGroupElement" where
  "PreComputedGroupElementCMove t u b =
    \<lparr>pcYPlusX = FeCMove (pcYPlusX t) (pcYPlusX u) b, pcYMinusX = FeCMove (pcYMinusX t) (pcYMinusX u) b, pcXy2d = FeCMove (pcXy2d t) (pcXy2d u) b\<rparr>"

section \<open>Residues\<close>

typedef fp = "{0..<fe_p}"
  by (rule exI [of _ 0]) (simp add: fe_p_def)

setup_lifting type_definition_fp

lemma fe_p_pos [simp]: "0 < fe_p" "1 < fe_p"
  by (simp_all add: fe_p_def)

instantiation fp :: comm_ring_1
begin

lift_definition zero_fp :: fp is 0 by simp

lift_definition one_fp :: fp is 1 by simp

lift_definition plus_fp :: "fp \<Rightarrow> fp \<Rightarrow> fp" is "\<lambda>a b. (a + b) mod fe_p" by simp

lift_definition minus_fp :: "fp \<Rightarrow> fp \<Rightarrow> fp" is "\<lambda>a b. (a - b) mod fe_p" by simp

lift_definition uminus_fp :: "fp \<Rightarrow> fp" is "\<lambda>a. (- a) mod fe_p" by simp

lift_definition times_fp :: "fp \<Rightarrow> fp \<Rightarrow> fp" is "\<lambda>a b. (a * b) mod fe_p" by simp

instance
  by standard (transfer; simp add: mod_simps algebra_simps)+

end

lemma fp_rep: "Rep_fp (of_int a :: fp) = a mod fe_p"
proof (induction a rule: int_induct [of _ 0])
  case (step1 i)
  then show ?case by (simp add: plus_fp.rep_eq one_fp.rep_eq mod_simps)
next
  case (step2 i)
  then show ?case by (simp add: minus_fp.rep_eq one_fp.rep_eq mod_simps)
qed (simp add: zero_fp.rep_eq)

lemma fp_of_int_eq: "(of_int a :: fp) = of_int b \<longleftrightarrow> a mod fe_p = b mod fe_p"
  unfolding fp_rep [symmetric] Rep_fp_inject ..

definition fe_el :: "fe \<Rightarrow> fp" where
  "fe_el f = of_int (fe_val f)"

lemma fp_mod: "(of_int (a mod fe_p) :: fp) = of_int a"
  by (simp add: fp_of_int_eq)

definition fe_half :: "fe \<Rightarrow> bool" where
  "fe_half f = fe_within 67108863 33554431 f"

lemma half_loose [simp]: "fe_half f \<Longrightarrow> fe_loose f"
  unfolding fe_half_def fe_loose_def by (rule fe_within_mono) auto

lemma tight_half [simp]: "fe_tight f \<Longrightarrow> fe_half f"
  unfolding fe_half_def fe_tight_def by (rule fe_within_mono) auto

declare tight_loose [simp]

lemma fe_el_mul [simp]: "fe_loose f \<Longrightarrow> fe_loose g \<Longrightarrow> fe_el (FeMul f g) = fe_el f * fe_el g"
  using FeMul_ok(2)[of f g] by (simp add: fe_el_def fp_of_int_eq flip: of_int_mult)

lemma fe_el_square [simp]: "fe_loose f \<Longrightarrow> fe_el (FeSquare f) = fe_el f * fe_el f"
  by (simp add: FeSquare_eq)

lemma fe_el_square2 [simp]: "fe_loose f \<Longrightarrow> fe_el (FeSquare2 f) = 2 * (fe_el f * fe_el f)"
proof -
  assume "fe_loose f"
  from FeSquare2_ok(2)[OF this] have "fe_el (FeSquare2 f) = of_int (2 * (fe_val f * fe_val f))"
    by (simp only: fe_el_def fp_of_int_eq)
  then show ?thesis by (simp add: fe_el_def)
qed

lemma fe_bounds [simp]:
  "fe_loose f \<Longrightarrow> fe_loose g \<Longrightarrow> fe_tight (FeMul f g)" "fe_loose f \<Longrightarrow> fe_tight (FeSquare f)" "fe_loose f \<Longrightarrow> fe_tight (FeSquare2 f)"
  by (simp_all add: FeMul_ok(1) FeSquare_eq FeSquare2_ok(1))

lemma fe_half_sums [simp]:
  assumes "fe_tight f" and "fe_half g"
  shows "fe_loose (FeAdd f g)" "fe_loose (FeSub f g)" "fe_loose (FeAdd g f)"
    "fe_el (FeAdd f g) = fe_el f + fe_el g" "fe_el (FeSub f g) = fe_el f - fe_el g" "fe_el (FeAdd g f) = fe_el g + fe_el f"
proof -
  note w = assms [unfolded fe_tight_def fe_half_def]
  show "fe_loose (FeAdd f g)" "fe_loose (FeSub f g)" unfolding fe_loose_def by (rule fe_sum_within [OF w]; simp)+
  show "fe_loose (FeAdd g f)" unfolding fe_loose_def by (rule fe_sum_within [OF w(2,1)]; simp)
  show "fe_el (FeAdd f g) = fe_el f + fe_el g" "fe_el (FeSub f g) = fe_el f - fe_el g" "fe_el (FeAdd g f) = fe_el g + fe_el f"
    using FeAdd_ok(2)[OF w] FeSub_ok(2)[OF w] FeAdd_ok(2)[OF w(2,1)] by (simp_all add: fe_el_def)
qed

lemma fe_triple_sums [simp]:
  assumes "fe_tight f" and "fe_tight g" and "fe_tight h"
  shows "fe_loose (FeSub (FeAdd f g) h)" "fe_loose (FeAdd (FeAdd f g) h)" "fe_loose (FeSub h (FeAdd f g))" "fe_loose (FeSub h (FeSub f g))"
    "fe_el (FeSub (FeAdd f g) h) = fe_el f + fe_el g - fe_el h" "fe_el (FeAdd (FeAdd f g) h) = fe_el f + fe_el g + fe_el h"
    "fe_el (FeSub h (FeAdd f g)) = fe_el h - (fe_el f + fe_el g)" "fe_el (FeSub h (FeSub f g)) = fe_el h - (fe_el f - fe_el g)"
proof -
  note w = assms [unfolded fe_tight_def]
  have s: "fe_within 73819750 36909874 (FeAdd f g)" "fe_within 73819750 36909874 (FeSub f g)"
    using w by (simp_all add: fe_sum_tight)
  show "fe_loose (FeSub (FeAdd f g) h)" "fe_loose (FeAdd (FeAdd f g) h)" unfolding fe_loose_def by (rule fe_sum_within [OF s(1) w(3)]; simp)+
  show "fe_loose (FeSub h (FeAdd f g))" "fe_loose (FeSub h (FeSub f g))"
    unfolding fe_loose_def by (rule fe_sum_within [OF w(3) s(1)] fe_sum_within [OF w(3) s(2)]; simp)+
  have v: "fe_el (FeAdd f g) = fe_el f + fe_el g" "fe_el (FeSub f g) = fe_el f - fe_el g" using assms by simp_all
  show "fe_el (FeSub (FeAdd f g) h) = fe_el f + fe_el g - fe_el h" "fe_el (FeAdd (FeAdd f g) h) = fe_el f + fe_el g + fe_el h"
    "fe_el (FeSub h (FeAdd f g)) = fe_el h - (fe_el f + fe_el g)" "fe_el (FeSub h (FeSub f g)) = fe_el h - (fe_el f - fe_el g)"
    using FeSub_ok(2)[OF s(1) w(3)] FeAdd_ok(2)[OF s(1) w(3)] FeSub_ok(2)[OF w(3) s(1)] FeSub_ok(2)[OF w(3) s(2)] v by (simp_all add: fe_el_def)
qed

lemma fe_el_consts [simp]: "fe_el FeZero = 0" "fe_el FeOne = 1" "fe_tight FeZero" "fe_tight FeOne"
  using FeOne_val FeConst_tight by (simp_all add: fe_el_def FeZero_def fe_val_def limbs_val_ten numeral_eq_Suc)

section \<open>The addition law\<close>

type_synonym point = "fp \<times> fp"

definition curve_d :: fp where
  "curve_d = fe_el fe_d"

definition on_curve :: "point \<Rightarrow> bool" where
  "on_curve = (\<lambda>(x, y). y * y - x * x = 1 + curve_d * (x * x) * (y * y))"

definition ed_neg :: "point \<Rightarrow> point" where
  "ed_neg = (\<lambda>(x, y). (- x, y))"

definition ed_add :: "point \<Rightarrow> point \<Rightarrow> point \<Rightarrow> bool" where
  "ed_add = (\<lambda>(x1, y1) (x2, y2) (x3, y3).
    let e = curve_d * (x1 * x2) * (y1 * y2)
    in (1 + e) dvd 1 \<and> (1 - e) dvd 1 \<and> x3 * (1 + e) = x1 * y2 + y1 * x2 \<and> y3 * (1 - e) = y1 * y2 + x1 * x2)"

lemma unit_mult [simp]: "(a :: fp) * b dvd 1 \<longleftrightarrow> a dvd 1 \<and> b dvd 1"
  by (metis dvd_mult_left dvd_mult_right mult_dvd_mono mult_1)

lemma unit_cancel: "(u :: fp) dvd 1 \<Longrightarrow> a * u = b * u \<Longrightarrow> a = b"
  by (metis dvdE mult.assoc mult_1_right)

lemma unit_two [simp]: "(2 :: fp) dvd 1"
proof
  have "(of_int 1 :: fp) = of_int (2 * ((fe_p + 1) div 2))" unfolding fp_of_int_eq by (simp add: fe_p_def)
  then show "(1 :: fp) = 2 * of_int ((fe_p + 1) div 2)" by (simp only: of_int_mult of_int_1 of_int_numeral)
qed

lemma ed_add_unique: "ed_add a b c \<Longrightarrow> ed_add a b c' \<Longrightarrow> c = c'"
  by (cases a; cases b; cases c; cases c') (auto simp: ed_add_def Let_def intro: unit_cancel)

lemma ed_add_commute: "ed_add a b c = ed_add b a c"
  by (cases a; cases b; cases c) (simp add: ed_add_def Let_def ac_simps)

lemma ed_add_zero: "ed_add a (0, 1) a"
  by (cases a) (simp add: ed_add_def Let_def)

lemma all_ten: "(\<forall>i<10. P i) \<longleftrightarrow> P 0 \<and> P 1 \<and> P 2 \<and> P 3 \<and> P 4 \<and> P 5 \<and> P 6 \<and> P 7 \<and> P 8 \<and> P (9 :: nat)"
  by (simp add: numeral_eq_Suc All_less_Suc conj_ac)

lemma fe_table [simp]: "fe_tight fe_d" "fe_tight fe_d2" "fe_tight SqrtM1"
  by (simp_all add: fe_d_def fe_d2_def SqrtM1_def fe_tight_def fe_within_def fe_bound_def all_ten)

lemma fe_d2_el [simp]: "fe_el fe_d2 = 2 * curve_d"
proof -
  have "(of_int (fe_val fe_d2) :: fp) = of_int (2 * fe_val fe_d)"
    unfolding fp_of_int_eq by (simp add: fe_d2_def fe_d_def fe_val_def limbs_val_ten fe_p_def)
  then show ?thesis by (simp add: fe_el_def curve_d_def)
qed

lemma SqrtM1_el [simp]: "fe_el SqrtM1 * fe_el SqrtM1 = - 1"
proof -
  have "(of_int (fe_val SqrtM1 * fe_val SqrtM1) :: fp) = of_int (- 1)"
    unfolding fp_of_int_eq by (simp add: SqrtM1_def fe_val_def limbs_val_ten fe_p_def)
  then show ?thesis by (simp add: fe_el_def)
qed

section \<open>What a representation stands for\<close>

definition ex_rep :: "ExtendedGroupElement \<Rightarrow> point \<Rightarrow> bool" where
  "ex_rep p = (\<lambda>(x, y). fe_half (exX p) \<and> fe_tight (exY p) \<and> fe_tight (exZ p) \<and> fe_tight (exT p) \<and> fe_el (exZ p) dvd 1
    \<and> fe_el (exX p) = x * fe_el (exZ p) \<and> fe_el (exY p) = y * fe_el (exZ p) \<and> fe_el (exT p) = x * y * fe_el (exZ p))"

definition pr_rep :: "ProjectiveGroupElement \<Rightarrow> point \<Rightarrow> bool" where
  "pr_rep p = (\<lambda>(x, y). fe_half (prX p) \<and> fe_tight (prY p) \<and> fe_tight (prZ p) \<and> fe_el (prZ p) dvd 1
    \<and> fe_el (prX p) = x * fe_el (prZ p) \<and> fe_el (prY p) = y * fe_el (prZ p))"

definition co_rep :: "CompletedGroupElement \<Rightarrow> point \<Rightarrow> bool" where
  "co_rep p = (\<lambda>(x, y). fe_loose (coX p) \<and> fe_loose (coY p) \<and> fe_loose (coZ p) \<and> fe_loose (coT p)
    \<and> fe_el (coZ p) dvd 1 \<and> fe_el (coT p) dvd 1 \<and> fe_el (coX p) = x * fe_el (coZ p) \<and> fe_el (coY p) = y * fe_el (coT p))"

definition ca_rep :: "CachedGroupElement \<Rightarrow> point \<Rightarrow> bool" where
  "ca_rep p = (\<lambda>(x, y). fe_loose (caYPlusX p) \<and> fe_loose (caYMinusX p) \<and> fe_tight (caZ p) \<and> fe_tight (caT2d p) \<and> fe_el (caZ p) dvd 1
    \<and> fe_el (caYPlusX p) = (y + x) * fe_el (caZ p) \<and> fe_el (caYMinusX p) = (y - x) * fe_el (caZ p)
    \<and> fe_el (caT2d p) = 2 * curve_d * (x * y) * fe_el (caZ p))"

definition pc_rep :: "PreComputedGroupElement \<Rightarrow> point \<Rightarrow> bool" where
  "pc_rep p = (\<lambda>(x, y). fe_tight (pcYPlusX p) \<and> fe_tight (pcYMinusX p) \<and> fe_tight (pcXy2d p)
    \<and> fe_el (pcYPlusX p) = y + x \<and> fe_el (pcYMinusX p) = y - x \<and> fe_el (pcXy2d p) = 2 * curve_d * (x * y))"

lemmas rep_defs = ex_rep_def pr_rep_def co_rep_def ca_rep_def pc_rep_def

section \<open>The operations compute the addition law\<close>

lemma Zero_rep: "ex_rep Extended_Zero (0, 1)" "pr_rep Projective_Zero (0, 1)" "pc_rep PreComputed_Zero (0, 1)"
  by (simp_all add: rep_defs Extended_Zero_def Projective_Zero_def PreComputed_Zero_def)

lemma ToProjective_rep: "ex_rep p a \<Longrightarrow> pr_rep (Extended_ToProjective p) a" "co_rep q a \<Longrightarrow> pr_rep (Completed_ToProjective q) a"
  by (auto simp: rep_defs Extended_ToProjective_def Completed_ToProjective_def ac_simps)

lemma ToExtended_rep: "co_rep q a \<Longrightarrow> ex_rep (Completed_ToExtended q) a"
  by (auto simp: rep_defs Completed_ToExtended_def ac_simps)

lemma ToCached_rep: "ex_rep p a \<Longrightarrow> ca_rep (ToCached p) a"
  by (auto simp: rep_defs ToCached_def algebra_simps)

text \<open>The numerators and denominators of a sum in projective coordinates.\<close>

lemma ed_numerators:
  fixes x1 x2 y1 y2 z :: fp
  shows "(y1 + x1) * (y2 + x2) * z - (y1 - x1) * (y2 - x2) * z = 2 * z * (x1 * y2 + y1 * x2)"
    and "(y1 + x1) * (y2 + x2) * z + (y1 - x1) * (y2 - x2) * z = 2 * z * (y1 * y2 + x1 * x2)"
  by (simp_all add: algebra_simps)

lemma completed_sum:
  assumes "ed_add (x1, y1) (x2, y2) (x3, y3)" and "z dvd 1"
    and "fe_loose (coX r)" "fe_loose (coY r)" "fe_loose (coZ r)" "fe_loose (coT r)"
    and "fe_el (coX r) = 2 * z * (x1 * y2 + y1 * x2)" and "fe_el (coY r) = 2 * z * (y1 * y2 + x1 * x2)"
    and "fe_el (coZ r) = 2 * z * (1 + curve_d * (x1 * x2) * (y1 * y2))" and "fe_el (coT r) = 2 * z * (1 - curve_d * (x1 * x2) * (y1 * y2))"
  shows "co_rep r (x3, y3)"
proof -
  let ?e = "curve_d * (x1 * x2) * (y1 * y2)"
  have s: "1 + ?e dvd 1" "1 - ?e dvd 1" "x3 * (1 + ?e) = x1 * y2 + y1 * x2" "y3 * (1 - ?e) = y1 * y2 + x1 * x2"
    using assms(1) by (simp_all add: ed_add_def Let_def)
  have "fe_el (coX r) = x3 * fe_el (coZ r)" "fe_el (coY r) = y3 * fe_el (coT r)"
    unfolding assms(7-10) s(3,4)[symmetric] by (simp_all only: mult.left_commute)
  moreover have "fe_el (coZ r) dvd 1" "fe_el (coT r) dvd 1" unfolding assms(9,10) using s(1,2) assms(2) by simp_all
  ultimately show ?thesis using assms(3-6) by (simp add: co_rep_def)
qed

lemma geAdd_rep:
  assumes "ex_rep p a" and "ca_rep q b" and "ed_add a b c"
  shows "co_rep (geAdd p q) c"
proof -
  obtain x1 y1 x2 y2 x3 y3 where pts: "a = (x1, y1)" "b = (x2, y2)" "c = (x3, y3)" by (metis surj_pair)
  let ?z = "fe_el (exZ p) * fe_el (caZ q)"
  note r = assms(1,2)[unfolded pts ex_rep_def ca_rep_def case_prod_conv]
  show ?thesis unfolding pts(3)
    by (rule completed_sum [of x1 y1 x2 y2 _ _ ?z]) (simp_all add: r assms(3)[unfolded pts] geAdd_def Let_def algebra_simps)
qed

lemma geSub_rep:
  assumes "ex_rep p a" and "ca_rep q b" and "ed_add a (ed_neg b) c"
  shows "co_rep (geSub p q) c"
proof -
  obtain x1 y1 x2 y2 x3 y3 where pts: "a = (x1, y1)" "b = (x2, y2)" "c = (x3, y3)" by (metis surj_pair)
  let ?z = "fe_el (exZ p) * fe_el (caZ q)"
  note r = assms(1,2)[unfolded pts ex_rep_def ca_rep_def case_prod_conv]
  show ?thesis unfolding pts(3)
    by (rule completed_sum [of x1 y1 "- x2" y2 _ _ ?z]) (simp_all add: r assms(3)[unfolded pts ed_neg_def case_prod_conv] geSub_def Let_def algebra_simps)
qed

lemma geMixedAdd_rep:
  assumes "ex_rep p a" and "pc_rep q b" and "ed_add a b c"
  shows "co_rep (geMixedAdd p q) c"
proof -
  obtain x1 y1 x2 y2 x3 y3 where pts: "a = (x1, y1)" "b = (x2, y2)" "c = (x3, y3)" by (metis surj_pair)
  note r = assms(1,2)[unfolded pts ex_rep_def pc_rep_def case_prod_conv]
  show ?thesis unfolding pts(3)
    by (rule completed_sum [of x1 y1 x2 y2 _ _ "fe_el (exZ p)"]) (simp_all add: r assms(3)[unfolded pts] geMixedAdd_def Let_def algebra_simps)
qed

lemma geMixedSub_rep:
  assumes "ex_rep p a" and "pc_rep q b" and "ed_add a (ed_neg b) c"
  shows "co_rep (geMixedSub p q) c"
proof -
  obtain x1 y1 x2 y2 x3 y3 where pts: "a = (x1, y1)" "b = (x2, y2)" "c = (x3, y3)" by (metis surj_pair)
  note r = assms(1,2)[unfolded pts ex_rep_def pc_rep_def case_prod_conv]
  show ?thesis unfolding pts(3)
    by (rule completed_sum [of x1 y1 "- x2" y2 _ _ "fe_el (exZ p)"])
      (simp_all add: r assms(3)[unfolded pts ed_neg_def case_prod_conv] geMixedSub_def Let_def algebra_simps)
qed

text \<open>Doubling uses the equation of the curve to replace the denominators of the addition law.\<close>

lemma Double_rep:
  assumes "pr_rep p a" and "on_curve a" and "ed_add a a c"
  shows "co_rep (Projective_Double p) c"
proof -
  obtain x y x3 y3 where pts: "a = (x, y)" "c = (x3, y3)" by (metis surj_pair)
  let ?z = "fe_el (prZ p)" and ?r = "Projective_Double p"
  note r = assms(1)[unfolded pts pr_rep_def case_prod_conv]
  have cv: "y * y - x * x = 1 + curve_d * (x * x) * (y * y)" using assms(2) by (simp add: pts on_curve_def)
  have e: "curve_d * (x * x) * (y * y) = y * y - x * x - 1" unfolding cv by simp
  have s: "y * y - x * x dvd 1" "2 - (y * y - x * x) dvd 1" "x3 * (y * y - x * x) = 2 * (x * y)" "y3 * (2 - (y * y - x * x)) = y * y + x * x"
    using assms(3) unfolding pts ed_add_def Let_def case_prod_conv e by (simp_all add: algebra_simps)
  have v: "fe_el (coX ?r) = 2 * (x * y) * (?z * ?z)" "fe_el (coY ?r) = (y * y + x * x) * (?z * ?z)"
    "fe_el (coZ ?r) = (y * y - x * x) * (?z * ?z)" "fe_el (coT ?r) = (2 - (y * y - x * x)) * (?z * ?z)"
    by (simp_all add: r Projective_Double_def Let_def algebra_simps)
  have "fe_el (coX ?r) = x3 * fe_el (coZ ?r)" "fe_el (coY ?r) = y3 * fe_el (coT ?r)"
    unfolding v s(3,4)[symmetric] by (simp_all only: mult.assoc)
  moreover have "fe_loose (coX ?r)" "fe_loose (coY ?r)" "fe_loose (coZ ?r)" "fe_loose (coT ?r)"
    by (simp_all add: r Projective_Double_def Let_def)
  ultimately show ?thesis using s(1,2) r by (simp add: co_rep_def pts v)
qed

lemma GeAdd_rep: "ex_rep p a \<Longrightarrow> ex_rep q b \<Longrightarrow> ed_add a b c \<Longrightarrow> ex_rep (GeAdd p q) c"
  unfolding GeAdd_def by (intro ToExtended_rep geAdd_rep ToCached_rep)

lemma GeDouble_rep: "ex_rep p a \<Longrightarrow> on_curve a \<Longrightarrow> ed_add a a c \<Longrightarrow> ex_rep (GeDouble p) c"
  unfolding GeDouble_def by (intro ToExtended_rep Double_rep ToProjective_rep)

lemma CMove_select: "length f = 10 \<Longrightarrow> length g = 10 \<Longrightarrow> b = 0 \<or> b = 1 \<Longrightarrow> FeCMove f g b = (if b = 1 then g else f)"
  by (auto simp: FeCMove_def Let_def intro!: nth_equalityI bit_word_eqI simp: bit_simps)

lemma rep_unique: "ex_rep p a \<Longrightarrow> ex_rep p b \<Longrightarrow> a = b"
  by (cases a; cases b) (auto simp: ex_rep_def intro: unit_cancel)

section \<open>Properties of the operations\<close>

text \<open>C31. Addition and doubling: on representations within the bounds that the operations keep, \<^verbatim>\<open>GeAdd\<close> and \<^verbatim>\<open>geSub\<close>
  represent the sum and the difference of the points and \<^verbatim>\<open>GeDouble\<close> the double of a point of the curve, again
  within those bounds; no limb overflows on the way.\<close>

theorem ge_add_law:
  assumes "ex_rep p a" and "ex_rep q b" and "ed_add a b s" and "ed_add a (ed_neg b) t" and "on_curve a" and "ed_add a a u"
  shows "ex_rep (GeAdd p q) s \<and> ex_rep (Completed_ToExtended (geSub p (ToCached q))) t \<and> ex_rep (GeDouble p) u"
  using GeAdd_rep [OF assms(1-3)] ToExtended_rep [OF geSub_rep [OF assms(1) ToCached_rep [OF assms(2)] assms(4)]]
    GeDouble_rep [OF assms(1,5,6)] by blast

definition ex_order4 :: ExtendedGroupElement where
  "ex_order4 = \<lparr>exX = SqrtM1, exY = FeZero, exZ = FeOne, exT = FeZero\<rparr>"

lemma order4_rep: "ex_rep ex_order4 (fe_el SqrtM1, 0)" "on_curve (fe_el SqrtM1, 0)"
  by (simp_all add: ex_rep_def on_curve_def ex_order4_def)

theorem ge_add_law_witness:
  "ex_rep (GeAdd ex_order4 ex_order4) (0, - 1) \<and> ex_rep (GeDouble ex_order4) (0, - 1)
    \<and> ex_rep (Completed_ToExtended (geSub ex_order4 (ToCached ex_order4))) (0, 1)"
  using ge_add_law [OF order4_rep(1) order4_rep(1), of "(0, - 1)" "(0, 1)" "(0, - 1)"] order4_rep(2)
  by (simp add: ed_add_def ed_neg_def)

end
