(* ===== verification/Recode.thy ===== *)
theory Recode
  imports Limbs
begin

unbundle bit_operations_syntax

text \<open>
  The signed digits into which \<^verbatim>\<open>src/vrf/ed25519/edwards25519/edwards25519.go\<close> recodes scalars: \<^verbatim>\<open>slide\<close>, which leaves odd digits of at most 15 among
  256 binary places, and the 64 digits to base 16 of \<^verbatim>\<open>GeScalarMultBase\<close>. All digits are \<^verbatim>\<open>int8\<close>. Shown: no digit
  overflows, and the digits stand for the scalar, except that \<^verbatim>\<open>slide\<close> may lose a carry out of the last place
  for scalars of 256 bits.
\<close>

section \<open>Sliding windows\<close>

definition slide_bits :: "bytes \<Rightarrow> 8 word list" where
  "slide_bits a = map (\<lambda>i. 1 AND drop_bit (i mod 8) (a ! (i div 8))) [0..<256]"

text \<open>The carry of \<^verbatim>\<open>slide\<close>, the loop over \<^verbatim>\<open>b\<close> for one index, and the loop over all indices.\<close>

function slide_carry :: "nat \<Rightarrow> 8 word list \<Rightarrow> 8 word list" where
  "slide_carry k r = (if 256 \<le> k then r else if r ! k = 0 then r[k := 1] else slide_carry (k + 1) (r[k := 0]))"
  by auto

termination by (relation "measure (\<lambda>(k, r). 256 - k)") auto

function slide_window :: "nat \<Rightarrow> nat \<Rightarrow> 8 word list \<Rightarrow> 8 word list" where
  "slide_window i b r =
    (if 6 < b \<or> 256 \<le> i + b then r
     else if r ! (i + b) = 0 then slide_window i (b + 1) r
     else if sint (r ! i + push_bit b (r ! (i + b))) \<le> 15
       then slide_window i (b + 1) (r[i := r ! i + push_bit b (r ! (i + b)), i + b := 0])
     else if -15 \<le> sint (r ! i - push_bit b (r ! (i + b)))
       then slide_window i (b + 1) (slide_carry (i + b) (r[i := r ! i - push_bit b (r ! (i + b))]))
     else r)"
  by auto

termination by (relation "measure (\<lambda>(i, b, r). 7 - b)") auto

definition slide :: "bytes \<Rightarrow> 8 word list" where
  "slide a = fold (\<lambda>i r. if r ! i \<noteq> 0 then slide_window i 1 r else r) [0..<256] (slide_bits a)"

section \<open>Digits to base 16\<close>

definition base_nibbles :: "bytes \<Rightarrow> 8 word list" where
  "base_nibbles a = concat (map (\<lambda>v. [v AND 15, drop_bit 4 v AND 15]) a)"

definition base_carry :: "nat \<Rightarrow> 8 word list \<times> 8 word \<Rightarrow> 8 word list \<times> 8 word" where
  "base_carry i = (\<lambda>(e, carry).
    let e = e[i := e ! i + carry];
        carry = signed_drop_bit 4 (e ! i + 8)
    in (e[i := e ! i - push_bit 4 carry], carry))"

definition base_digits :: "bytes \<Rightarrow> 8 word list" where
  "base_digits a = (let (e, carry) = fold base_carry [0..<63] (base_nibbles a, 0) in e[63 := e ! 63 + carry])"

section \<open>The value of digits\<close>

declare slide_carry.simps [simp del] slide_window.simps [simp del]

lemma le_int_bit:
  assumes "k < length b" and "j < 8"
  shows "bit (le_int b) (8 * k + j) = bit (b ! k) j"
proof -
  obtain r where "drop k b = b ! k # r" using assms(1) by (metis Cons_nth_drop_Suc)
  then have "drop_bit (8 * k) (le_int b) = uint (b ! k) + 256 * le_int r"
    unfolding le_int_drop [symmetric] by (simp add: le_int_def)
  moreover have "take_bit 8 (uint (b ! k) + 256 * le_int r) = uint (b ! k)"
    using byte_range [of "b ! k"] by (simp add: take_bit_eq_mod)
  ultimately have "take_bit 8 (drop_bit (8 * k) (le_int b)) = uint (b ! k)" by simp
  then have "bit (take_bit 8 (drop_bit (8 * k) (le_int b))) j = bit (uint (b ! k)) j" by simp
  then show ?thesis using assms(2) by (simp add: bit_simps)
qed

definition places :: "8 word list \<Rightarrow> int" where
  "places r = horner 1 (sints r)"

lemma places_upd: "i < length r \<Longrightarrow> places (r[i := v]) = places r + (sint v - sint (r ! i)) * 2 ^ i"
  using limbs_val_upd [of i "sints r" "(*) 1" "sint v"] by (simp add: limbs_val_horner map_update places_def)

lemma one_bit: "sint (1 AND w :: 8 word) = of_bool (bit w 0)"
  by (cases "bit w 0") (simp_all add: one_and_eq bit_0 odd_iff_mod_2_eq_one even_iff_mod_2_eq_zero)

lemma slide_bits_places:
  assumes "length a = 32"
  shows "places (slide_bits a) = le_int a" and "length (slide_bits a) = 256" and "i < 256 \<Longrightarrow> slide_bits a ! i = 0 \<or> slide_bits a ! i = 1"
proof -
  have "sint (slide_bits a ! i) = digit 1 (le_int a) i" if "i < 256" for i
  proof -
    have "bit (le_int a) (8 * (i div 8) + i mod 8) = bit (a ! (i div 8)) (i mod 8)"
      using assms that by (intro le_int_bit) auto
    then have "bit (le_int a) i = bit (a ! (i div 8)) (i mod 8)" by simp
    then show ?thesis using that by (simp add: slide_bits_def digit_def one_bit bit_simps take_bit_Suc_from_most)
  qed
  then have "sints (slide_bits a) = map (digit 1 (le_int a)) [0..<256]"
    by (intro nth_equalityI) (simp_all add: slide_bits_def)
  then show "places (slide_bits a) = le_int a"
    using horner_digits [of 1 "le_int a" 256] le_int_bound [of a] assms by (simp add: take_bit_int_eq_self places_def)
  show "length (slide_bits a) = 256" by (simp add: slide_bits_def)
  show "i < 256 \<Longrightarrow> slide_bits a ! i = 0 \<or> slide_bits a ! i = 1"
    by (auto simp: slide_bits_def one_and_eq mod2_eq_if)
qed

definition binary_from :: "nat \<Rightarrow> 8 word list \<Rightarrow> bool" where
  "binary_from k r = (\<forall>j\<in>{k..<256}. r ! j = 0 \<or> r ! j = 1)"

definition ones_from :: "nat \<Rightarrow> 8 word list \<Rightarrow> bool" where
  "ones_from k r = (\<forall>j\<in>{k..<256}. r ! j = 1)"

lemma slide_carry_ok:
  assumes "length r = 256" and "k \<le> 256" and "binary_from k r"
  shows "length (slide_carry k r) = 256 \<and> (\<forall>j<k. slide_carry k r ! j = r ! j) \<and> binary_from k (slide_carry k r)
    \<and> (k < 256 \<and> r ! k = 1 \<longrightarrow> slide_carry k r ! k = 0)
    \<and> places (slide_carry k r) = places r + 2 ^ k - (if ones_from k r then 2 ^ 256 else 0)"
  using assms
proof (induction k r rule: slide_carry.induct)
  case (1 k r)
  consider "k = 256" | "k < 256" "r ! k = 0" | "k < 256" "r ! k = 1"
    using "1.prems"(2,3) by (fastforce simp: binary_from_def)
  then show ?case
  proof cases
    case 1
    then have "slide_carry k r = r" "ones_from k r" by (subst slide_carry.simps, simp) (simp add: ones_from_def 1)
    then show ?thesis using 1 "1.prems" by simp
  next
    case 2
    then have "slide_carry k r = r[k := 1]" "\<not> ones_from k r" by (auto simp: slide_carry.simps [of k] ones_from_def intro!: bexI [of _ k])
    then show ?thesis using 2 "1.prems" by (auto simp: places_upd nth_list_update binary_from_def)
  next
    case 3
    let ?r = "r[k := 0]"
    have e: "slide_carry k r = slide_carry (k + 1) ?r" using 3 by (simp add: slide_carry.simps [of k])
    have ones: "ones_from (k + 1) ?r = ones_from k r"
      unfolding ones_from_def using 3 by (auto simp: nth_list_update) (metis atLeastLessThan_iff le_neq_implies_less Suc_leI)
    have v: "places ?r + 2 ^ (k + 1) = places r + 2 ^ k" using 3 "1.prems" by (simp add: places_upd)
    have "binary_from (k + 1) ?r" using "1.prems"(3) by (auto simp: binary_from_def nth_list_update)
    then have IH: "length (slide_carry k r) = 256" "\<forall>j<k + 1. slide_carry k r ! j = ?r ! j" "binary_from (k + 1) (slide_carry k r)"
      "places (slide_carry k r) = places ?r + 2 ^ (k + 1) - (if ones_from (k + 1) ?r then 2 ^ 256 else 0)"
      unfolding e using 3 "1.prems"(1) "1.IH" by simp_all
    then have z: "slide_carry k r ! k = 0" using 3 "1.prems"(1) by simp
    have "binary_from k (slide_carry k r)"
      using IH(3) z unfolding binary_from_def by (metis atLeastLessThan_iff le_neq_implies_less Suc_eq_plus1 Suc_leI)
    moreover have "\<forall>j<k. slide_carry k r ! j = r ! j" using IH(2) by simp
    ultimately show ?thesis using IH(1,4) z unfolding ones v by simp
  qed
qed

lemma horner_last: "xs \<noteq> [] \<Longrightarrow> \<forall>x \<in> set xs. 0 \<le> x \<Longrightarrow> last xs = 1 \<Longrightarrow> 2 ^ (length xs - 1) \<le> horner 1 xs"
proof (induction xs)
  case (Cons x xs)
  show ?case
  proof (cases xs)
    case (Cons y ys)
    then have "2 ^ (length xs - 1) \<le> horner 1 xs" using Cons.IH Cons.prems by simp
    then show ?thesis using Cons Cons.prems by simp
  qed (use Cons.prems in simp)
qed simp

lemma places_split:
  assumes "length r = 256" and "i < 256"
  shows "places r = places (take i r) + 2 ^ i * (sint (r ! i) + 2 * places (drop (Suc i) r))"
proof -
  have "r = take i r @ r ! i # drop (Suc i) r" using assms by (simp add: id_take_nth_drop)
  then have "places r = horner 1 (sints (take i r) @ sint (r ! i) # sints (drop (Suc i) r))"
    by (metis list.map(2) map_append places_def)
  then show ?thesis using assms by (simp add: horner_append places_def)
qed

lemma binary_tail:
  assumes "length r = 256" and "binary_from (Suc i) r" and "i < 255" and "r ! 255 = 1"
  shows "2 ^ (254 - i) \<le> places (drop (Suc i) r)"
proof -
  have "0 \<le> sint (drop (Suc i) r ! j)" if "j < 255 - i" for j
    using assms(1,2) that bspec [OF assms(2)[unfolded binary_from_def], of "Suc i + j"] by fastforce
  then have "\<forall>x \<in> set (sints (drop (Suc i) r)). 0 \<le> x"
    using assms(1) by (auto simp: in_set_conv_nth)
  moreover have "last (sints (drop (Suc i) r)) = 1" using assms by (simp add: last_map last_drop last_conv_nth)
  ultimately have "2 ^ (length (sints (drop (Suc i) r)) - 1) \<le> places (drop (Suc i) r)"
    unfolding places_def using assms(1,3) by (intro horner_last) auto
  then show ?thesis using assms(1) by simp
qed

text \<open>A lost carry shows that the number is large: the digit at the window is positive when a carry leaves it.\<close>

lemma lost_carry:
  assumes "length r = 256" and "binary_from (Suc i) r" and "i < 255" and "r ! 255 = 1"
    and "\<bar>places (take i r)\<bar> < 2 ^ i" and "1 \<le> sint (r ! i)"
  shows "2 ^ 255 \<le> places r"
proof -
  let ?t = "places (drop (Suc i) r)"
  have "2 ^ (254 - i) \<le> ?t" by (rule binary_tail [OF assms(1-4)])
  then have "1 + 2 * 2 ^ (254 - i) \<le> sint (r ! i) + 2 * ?t" using assms(6) by simp
  then have "2 ^ i * (1 + 2 * 2 ^ (254 - i)) \<le> 2 ^ i * (sint (r ! i) + 2 * ?t)" by (rule mult_left_mono) simp
  moreover have "(2 :: int) ^ i * (2 * 2 ^ (254 - i)) = 2 ^ 255"
    unfolding power_Suc [symmetric] power_add [symmetric] using assms(3) by (simp add: Suc_diff_le del: power_Suc)
  ultimately show ?thesis using places_split [OF assms(1), of i] assms(3,5) by (simp add: algebra_simps)
qed

lemma int8_step:
  assumes "\<bar>sint (w :: 8 word)\<bar> \<le> 15" and "b \<le> 6"
  shows "sint (w + push_bit b 1) = sint w + 2 ^ b" and "sint (w - push_bit b 1) = sint w - 2 ^ b"
proof -
  have "(2 :: int) ^ b \<le> 2 ^ 6" using assms(2) by (intro power_increasing) auto
  then have "sint (word_of_int (sint w + 2 ^ b) :: 8 word) = sint w + 2 ^ b" "sint (word_of_int (sint w - 2 ^ b) :: 8 word) = sint w - 2 ^ b"
    using assms(1) zero_less_power [of "2 :: int" b] by (intro sint_in [where n = 7]; simp; linarith)+
  then show "sint (w + push_bit b 1) = sint w + 2 ^ b" "sint (w - push_bit b 1) = sint w - 2 ^ b"
    by (simp_all add: push_bit_eq_mult)
qed

text \<open>The state of the loop over \<^verbatim>\<open>b\<close> at index \<open>i\<close>: the places after \<open>i\<close> are binary, those that were looked at are zero.\<close>

definition window :: "nat \<Rightarrow> nat \<Rightarrow> 8 word list \<Rightarrow> bool" where
  "window i e r = (length r = 256 \<and> i < 256 \<and> binary_from (Suc i) r \<and> (\<forall>j\<in>{Suc i..<min e 256}. r ! j = 0)
    \<and> i < e \<and> \<bar>sint (r ! i)\<bar> < 2 ^ (e - i) \<and> \<bar>sint (r ! i)\<bar> \<le> 15 \<and> odd (sint (r ! i)))"

definition same_number :: "nat \<Rightarrow> 8 word list \<Rightarrow> 8 word list \<Rightarrow> bool" where
  "same_number i r r' = ((\<forall>j<i. r' ! j = r ! j) \<and> 2 ^ 256 dvd places r' - places r
    \<and> (\<bar>places (take i r)\<bar> < 2 ^ i \<and> places r < 2 ^ 255 \<longrightarrow> places r' = places r))"

lemma same_number_trans:
  assumes "same_number i r s" and "same_number i s t" and "length r = 256" and "length s = 256" and "i < 256"
  shows "same_number i r t"
proof -
  have "take i s = take i r" using assms by (intro nth_equalityI) (auto simp: same_number_def)
  moreover have "places t - places r = (places t - places s) + (places s - places r)" by simp
  ultimately show ?thesis using assms(1,2) unfolding same_number_def by (metis dvd_add)
qed

lemma window_next: "window i e r \<Longrightarrow> (e < 256 \<Longrightarrow> r ! e = 0) \<Longrightarrow> window i (Suc e) r"
proof -
  assume w: "window i e r" and z: "e < 256 \<Longrightarrow> r ! e = 0"
  have "(2 :: int) ^ (e - i) \<le> 2 ^ (Suc e - i)" by (intro power_increasing) auto
  then have "\<bar>sint (r ! i)\<bar> < 2 ^ (Suc e - i)" using w unfolding window_def by linarith
  moreover have "r ! j = 0" if "j \<in> {Suc i..<min (Suc e) 256}" for j
    using w z that by (cases "j = e") (auto simp: window_def less_Suc_eq)
  ultimately show ?thesis using w unfolding window_def by (intro conjI ballI) simp_all
qed

lemma window_add:
  assumes "window i (i + b) r" and "b \<le> 6" and "i + b < 256" and "r ! (i + b) = 1" and "sint (r ! i + push_bit b 1) \<le> 15"
  defines "r' \<equiv> r[i := r ! i + push_bit b 1, i + b := 0]"
  shows "window i (Suc (i + b)) r'" and "same_number i r r'"
proof -
  note w = assms(1)[unfolded window_def]
  have b: "b \<noteq> 0" "i \<noteq> i + b" using w by auto
  have n: "sint (r' ! i) = sint (r ! i) + 2 ^ b" using int8_step(1)[of "r ! i" b] w assms(2) b by (simp add: r'_def)
  have "places r' = places r" using w b assms(3,4) int8_step(1)[of "r ! i" b] assms(2) by (simp add: r'_def places_upd power_add)
  then show "same_number i r r'" by (simp add: same_number_def r'_def)
  have "even ((2 :: int) ^ b)" using b by simp
  then have "odd (sint (r' ! i))" using w n by simp
  moreover have "\<bar>sint (r' ! i)\<bar> < 2 ^ (Suc (i + b) - i)" "\<bar>sint (r' ! i)\<bar> \<le> 15"
    using w assms(5) n zero_less_power [of "2 :: int" b] b by (auto simp: r'_def Suc_diff_le)
  moreover have o: "r' ! j = (if j = i + b then 0 else r ! j)" if "j \<noteq> i" for j
    using w that assms(3) by (simp add: r'_def)
  then have "binary_from (Suc i) r'" using w by (auto simp: binary_from_def)
  moreover have "r' ! j = 0" if "j \<in> {Suc i..<min (Suc (i + b)) 256}" for j
    using w that assms(3) by (auto simp: o)
  ultimately show "window i (Suc (i + b)) r'" using w by (simp add: window_def r'_def)
qed

lemma window_sub:
  assumes "window i (i + b) r" and "b \<le> 6" and "i + b < 256" and "r ! (i + b) = 1"
    and "\<not> sint (r ! i + push_bit b 1) \<le> 15" and "- 15 \<le> sint (r ! i - push_bit b 1)"
  defines "r1 \<equiv> r[i := r ! i - push_bit b 1]"
  shows "window i (Suc (i + b)) (slide_carry (i + b) r1)" and "same_number i r (slide_carry (i + b) r1)"
proof -
  let ?r' = "slide_carry (i + b) r1"
  note w = assms(1)[unfolded window_def]
  have b: "b \<noteq> 0" "i \<noteq> i + b" "i < 255" using w assms(3) by auto
  have s: "sint (r ! i + push_bit b 1) = sint (r ! i) + 2 ^ b" "sint (r ! i - push_bit b 1) = sint (r ! i) - 2 ^ b"
    using int8_step [of "r ! i" b] w assms(2) by simp_all
  have pos: "1 \<le> sint (r ! i)"
  proof (cases "b \<le> 3")
    case True
    then have "(2 :: int) ^ b \<le> 2 ^ 3" by (intro power_increasing) auto
    then show ?thesis using assms(5) s(1) by simp
  next
    case False
    then have "(2 :: int) ^ 4 \<le> 2 ^ b" by (intro power_increasing) auto
    then show ?thesis using assms(6) s(2) by simp
  qed
  have len: "length r1 = 256" and tail: "j \<noteq> i \<Longrightarrow> r1 ! j = r ! j" for j using w by (simp_all add: r1_def)
  have bin: "binary_from (i + b) r1" using w b tail by (simp add: binary_from_def)
  have ones: "ones_from (i + b) r1 = ones_from (i + b) r" using b tail by (simp add: ones_from_def)
  note c = slide_carry_ok [OF len less_imp_le [OF assms(3)] bin, unfolded ones]
  have "places r1 = places r - 2 ^ (i + b)" using w s(2) by (simp add: r1_def places_upd power_add)
  then have v: "places ?r' = places r - (if ones_from (i + b) r then 2 ^ 256 else 0)" using c by simp
  have "\<not> ones_from (i + b) r" if "\<bar>places (take i r)\<bar> < 2 ^ i" "places r < 2 ^ 255"
  proof
    assume "ones_from (i + b) r"
    then have "r ! 255 = 1" using assms(3) by (simp add: ones_from_def)
    then have "2 ^ 255 \<le> places r" using w b that pos by (intro lost_carry [of r i]) auto
    with that show False by simp
  qed
  then show "same_number i r ?r'" using v c tail by (auto simp: same_number_def)
  have n: "sint (?r' ! i) = sint (r ! i) - 2 ^ b" using c s(2) w b by (simp add: r1_def)
  have "even ((2 :: int) ^ b)" using b by simp
  then have "odd (sint (?r' ! i))" using w n by simp
  moreover have "\<bar>sint (?r' ! i)\<bar> < 2 ^ (Suc (i + b) - i)" "\<bar>sint (?r' ! i)\<bar> \<le> 15"
    using w assms(6) n s(2) pos zero_less_power [of "2 :: int" b] b by (auto simp: Suc_diff_le)
  moreover have z: "?r' ! j = 0" if "j \<in> {Suc i..<min (Suc (i + b)) 256}" for j
    using w c tail that assms(3,4) b by (cases "j = i + b") (auto simp: tail)
  have "?r' ! j = 0 \<or> ?r' ! j = 1" if "j \<in> {Suc i..<256}" for j
  proof (cases "j < i + b")
    case True
    then have "j \<in> {Suc i..<min (Suc (i + b)) 256}" using that by auto
    then show ?thesis using z by blast
  qed (use c that in \<open>simp add: binary_from_def\<close>)
  then have "binary_from (Suc i) ?r'" by (simp add: binary_from_def)
  moreover have "\<forall>j\<in>{Suc i..<min (Suc (i + b)) 256}. ?r' ! j = 0" using z by blast
  moreover have "i < Suc (i + b)" by simp
  ultimately show "window i (Suc (i + b)) ?r'" using w c unfolding window_def by blast
qed

lemma slide_window_ok:
  assumes "window i (i + b) r" and "b \<le> 7"
  shows "(\<exists>e. window i e (slide_window i b r)) \<and> same_number i r (slide_window i b r)"
  using assms
proof (induction i b r rule: slide_window.induct)
  case (1 i b r)
  let ?d = "r ! (i + b)" and ?g = "slide_window i b r"
  have refl: "same_number i r r" by (simp add: same_number_def)
  consider (stop) "6 < b \<or> 256 \<le> i + b" | (go) "b \<le> 6" "i + b < 256" by linarith
  then show ?case
  proof cases
    case stop
    then show ?thesis using "1.prems" refl by (auto simp: slide_window.simps [of i b])
  next
    case go
    note w = "1.prems"(1)[unfolded window_def]
    have d: "?d = 0 \<or> ?d = 1" using w go by (auto simp: binary_from_def)
    consider (zero) "?d = 0" | (add) "?d = 1" "sint (r ! i + push_bit b 1) \<le> 15"
      | (sub) "?d = 1" "\<not> sint (r ! i + push_bit b 1) \<le> 15" "- 15 \<le> sint (r ! i - push_bit b 1)"
      | (out) "?d = 1" "\<not> sint (r ! i + push_bit b 1) \<le> 15" "\<not> - 15 \<le> sint (r ! i - push_bit b 1)"
      using d by blast
    then show ?thesis
    proof cases
      case zero
      then have "?g = slide_window i (b + 1) r" using go by (simp add: slide_window.simps [of i b])
      moreover have "window i (i + (b + 1)) r" using window_next [OF "1.prems"(1)] zero by simp
      ultimately show ?thesis using "1.IH"(1) zero go by auto
    next
      case add
      let ?r = "r[i := r ! i + push_bit b 1, i + b := 0]"
      have "?g = slide_window i (b + 1) ?r" using add go by (simp add: slide_window.simps [of i b])
      moreover note s = window_add [OF "1.prems"(1) go add]
      ultimately show ?thesis using "1.IH"(2) add go same_number_trans [OF s(2)] s(1) w by (simp add: window_def)
    next
      case sub
      let ?r = "slide_carry (i + b) (r[i := r ! i - push_bit b 1])"
      have "?g = slide_window i (b + 1) ?r" using sub go by (simp add: slide_window.simps [of i b])
      moreover note s = window_sub [OF "1.prems"(1) go sub]
      ultimately show ?thesis using "1.IH"(3) sub go same_number_trans [OF s(2)] s(1) w by (simp add: window_def)
    next
      case out
      then have "?g = r" using go by (simp add: slide_window.simps [of i b])
      then show ?thesis using "1.prems" refl by auto
    qed
  qed
qed

text \<open>The loop over the indices.\<close>

definition slid :: "int \<Rightarrow> nat \<Rightarrow> 8 word list \<Rightarrow> bool" where
  "slid n i r = (length r = 256 \<and> binary_from i r \<and> (\<exists>e\<ge>i. \<bar>places (take i r)\<bar> < 2 ^ e \<and> (\<forall>j\<in>{i..<min e 256}. r ! j = 0))
    \<and> (\<forall>j<i. r ! j = 0 \<or> odd (sint (r ! j)) \<and> \<bar>sint (r ! j)\<bar> \<le> 15)
    \<and> 2 ^ 256 dvd places r - n \<and> (n < 2 ^ 255 \<longrightarrow> places r = n))"

lemma places_take: "i < length r \<Longrightarrow> places (take (Suc i) r) = places (take i r) + sint (r ! i) * 2 ^ i"
  by (simp add: places_def take_Suc_conv_app_nth horner_append)

lemma slid_zero:
  assumes "slid n i r" and "i < 256" and "r ! i = 0"
  shows "slid n (Suc i) r"
proof -
  obtain e where e: "i \<le> e" "\<bar>places (take i r)\<bar> < 2 ^ e" "\<forall>j\<in>{i..<min e 256}. r ! j = 0"
    using assms(1) by (auto simp: slid_def)
  have "(2 :: int) ^ e \<le> 2 ^ max e (Suc i)" by (intro power_increasing) auto
  moreover have "places (take (Suc i) r) = places (take i r)" using assms by (simp add: slid_def places_take)
  ultimately have "\<bar>places (take (Suc i) r)\<bar> < 2 ^ max e (Suc i)" using e(2) by linarith
  moreover have "\<forall>j\<in>{Suc i..<min (max e (Suc i)) 256}. r ! j = 0" using e(3) by auto
  ultimately have "\<exists>e\<ge>Suc i. \<bar>places (take (Suc i) r)\<bar> < 2 ^ e \<and> (\<forall>j\<in>{Suc i..<min e 256}. r ! j = 0)"
    by (intro exI [of _ "max e (Suc i)"]) simp
  then show ?thesis using assms unfolding slid_def by (auto simp: binary_from_def less_Suc_eq)
qed

lemma slid_step:
  assumes "slid n i r" and "i < 256" and "r ! i \<noteq> 0"
  shows "slid n (Suc i) (slide_window i 1 r)"
proof -
  let ?r = "slide_window i 1 r"
  obtain e0 where "i \<le> e0" "\<bar>places (take i r)\<bar> < 2 ^ e0" "\<forall>j\<in>{i..<min e0 256}. r ! j = 0"
    using assms(1) by (auto simp: slid_def)
  moreover have "e0 = i" using calculation assms(2,3) by (metis atLeastLessThan_iff le_neq_implies_less min_less_iff_conj order_refl)
  ultimately have low: "\<bar>places (take i r)\<bar> < 2 ^ i" by simp
  have "r ! i = 1" using assms by (auto simp: slid_def binary_from_def)
  then have "window i (i + 1) r" using assms by (auto simp: window_def slid_def binary_from_def)
  from slide_window_ok [OF this] obtain e where w: "window i e ?r" and s: "same_number i r ?r" by auto
  have len: "length ?r = 256" and lr: "length r = 256" using w assms(1) by (simp_all add: window_def slid_def)
  have same: "j < i \<Longrightarrow> ?r ! j = r ! j" for j using s by (simp add: same_number_def)
  then have "take i ?r = take i r" using len lr assms(2) by (intro nth_equalityI) auto
  then have p: "places (take (Suc i) ?r) = places (take i r) + sint (?r ! i) * 2 ^ i" using len assms(2) by (simp add: places_take)
  have "\<bar>sint (?r ! i) * 2 ^ i\<bar> \<le> (2 ^ (e - i) - 1) * 2 ^ i" unfolding abs_mult using w by (simp add: window_def)
  also have "\<dots> = 2 ^ e - 2 ^ i" using w by (simp add: window_def left_diff_distrib flip: power_add)
  finally have "\<bar>places (take (Suc i) ?r)\<bar> < 2 ^ e" using p low by linarith
  then have "\<exists>e\<ge>Suc i. \<bar>places (take (Suc i) ?r)\<bar> < 2 ^ e \<and> (\<forall>j\<in>{Suc i..<min e 256}. ?r ! j = 0)"
    using w by (intro exI [of _ e]) (simp add: window_def)
  moreover have "2 ^ 256 dvd places ?r - n"
    using dvd_add [of "2 ^ 256" "places ?r - places r" "places r - n"] s assms(1) by (simp add: same_number_def slid_def)
  moreover have "n < 2 ^ 255 \<longrightarrow> places ?r = n" using s low assms(1) by (auto simp: same_number_def slid_def)
  moreover have "\<forall>j<Suc i. ?r ! j = 0 \<or> odd (sint (?r ! j)) \<and> \<bar>sint (?r ! j)\<bar> \<le> 15"
    using w same assms(1) by (auto simp: less_Suc_eq window_def slid_def)
  ultimately show ?thesis using w len unfolding slid_def by (simp add: window_def)
qed

lemma slide_ok:
  assumes "length a = 32"
  shows "slid (le_int a) 256 (slide a)"
proof -
  let ?f = "\<lambda>i r. if r ! i \<noteq> 0 then slide_window i 1 r else r"
  have "i \<le> 256 \<Longrightarrow> slid (le_int a) i (fold ?f [0..<i] (slide_bits a))" for i
  proof (induction i)
    case 0
    have "places [] = 0" by (simp add: places_def)
    then show ?case using slide_bits_places [OF assms] by (auto simp: slid_def binary_from_def intro!: exI [of _ 0])
  next
    case (Suc i)
    then show ?case using slid_zero [of "le_int a" i] slid_step [of "le_int a" i] by simp
  qed
  from this [of 256] show ?thesis by (simp add: slide_def)
qed

section \<open>The value of digits to base 16\<close>

lemma sint_nibble: "sint (w AND 15 :: byte) = uint w mod 16"
proof -
  have "w AND 15 = take_bit 4 w" by (simp add: take_bit_eq_mask mask_eq_exp_minus_1)
  moreover have "sint (take_bit 4 w) = take_bit 4 (uint w)" by (rule bit_eqI) (auto simp: bit_simps)
  ultimately show ?thesis by (simp add: take_bit_eq_mod)
qed

lemma nibbles_horner: "horner 4 (sints (base_nibbles a)) = le_int a" "length (base_nibbles a) = 2 * length a"
proof (induction a)
  case (Cons v a)
  have "uint (drop_bit 4 v) = uint v div 16"
    using byte_range [of v] by (simp add: drop_bit_eq_div uint_div)
  moreover have "uint v div 16 mod 16 = uint v div 16" using byte_range [of v] by (intro mod_pos_pos_trivial; linarith)
  ultimately have "sints (base_nibbles (v # a)) = uint v mod 16 # uint v div 16 # sints (base_nibbles a)"
    by (simp add: base_nibbles_def sint_nibble)
  then have "horner 4 (sints (base_nibbles (v # a))) = uint v mod 16 + 16 * (uint v div 16 + 16 * le_int a)" using Cons(1) by simp
  also have "\<dots> = le_int (v # a)" by (simp add: le_int_def)
  finally show "horner 4 (sints (base_nibbles (v # a))) = le_int (v # a)" .
  show "length (base_nibbles (v # a)) = 2 * length (v # a)" using Cons(2) by (simp add: base_nibbles_def)
qed (simp_all add: base_nibbles_def le_int_def)

lemma nibbles_range: "i < 2 * length a \<Longrightarrow> 0 \<le> sint (base_nibbles a ! i) \<and> sint (base_nibbles a ! i) \<le> 15"
proof -
  assume "i < 2 * length a"
  moreover have "\<forall>x \<in> set (base_nibbles a). 0 \<le> sint x \<and> sint x \<le> 15" by (auto simp: base_nibbles_def sint_nibble)
  ultimately show ?thesis using nibbles_horner(2)[of a] by (metis nth_mem)
qed

lemma digit_carry:
  assumes "0 \<le> sint x" and "sint x \<le> 15" and "0 \<le> sint c" and "sint c \<le> 1"
  defines "y \<equiv> x + c :: 8 word"
  defines "c' \<equiv> signed_drop_bit 4 (y + 8)"
  shows "sint y = sint x + sint c" and "sint (y - push_bit 4 c') = sint x + sint c - 16 * sint c'" and "0 \<le> sint c'" and "sint c' \<le> 1"
    and "- 8 \<le> sint (y - push_bit 4 c')" and "sint (y - push_bit 4 c') \<le> 7"
proof -
  have w: "- 128 \<le> k \<Longrightarrow> k < 128 \<Longrightarrow> sint (word_of_int k :: 8 word) = k" for k by (intro sint_in [where n = 7]) simp_all
  show y: "sint y = sint x + sint c" using w [of "sint x + sint c"] assms(1-4) by (simp add: y_def)
  have "y + 8 = word_of_int (sint y + 8)" by simp
  moreover have "sint (word_of_int (sint y + 8) :: 8 word) = sint y + 8" using y assms(1-4) by (intro w) linarith+
  ultimately have "sint (y + 8) = sint y + 8" by (simp only:)
  then have c': "sint c' = (sint y + 8) div 16" by (simp add: c'_def sint_drop)
  then show b: "0 \<le> sint c'" "sint c' \<le> 1" using y assms(1-4) by linarith+
  have r: "- 8 \<le> sint y - 16 * sint c'" "sint y - 16 * sint c' \<le> 7" using c' by linarith+
  then have "sint (y - push_bit 4 c') = sint y - 16 * sint c'"
    using w [of "sint y - 16 * sint c'"] by (simp add: push_bit_eq_mult mult.commute)
  then show "sint (y - push_bit 4 c') = sint x + sint c - 16 * sint c'" "- 8 \<le> sint (y - push_bit 4 c')" "sint (y - push_bit 4 c') \<le> 7"
    using r y by simp_all
qed

definition hexes :: "8 word list \<Rightarrow> int" where
  "hexes e = horner 4 (sints e)"

lemma hexes_upd: "i < length e \<Longrightarrow> hexes (e[i := v]) = hexes e + (sint v - sint (e ! i)) * 16 ^ i"
  using limbs_val_upd [of i "sints e" "(*) 4" "sint v"] by (simp add: limbs_val_horner map_update hexes_def power_mult)

lemma base_carries:
  assumes "length a = 32" and "i \<le> 63" and "fold base_carry [0..<i] (base_nibbles a, 0) = (e, c)"
  shows "length e = 64 \<and> (\<forall>j<i. - 8 \<le> sint (e ! j) \<and> sint (e ! j) \<le> 7) \<and> (\<forall>j\<in>{i..<64}. e ! j = base_nibbles a ! j)
    \<and> 0 \<le> sint c \<and> sint c \<le> 1 \<and> hexes e + sint c * 16 ^ i = le_int a"
  using assms(2,3)
proof (induction i arbitrary: e c)
  case 0
  then show ?case using assms(1) by (auto simp: nibbles_horner hexes_def)
next
  case (Suc i)
  obtain e0 c0 where s: "fold base_carry [0..<i] (base_nibbles a, 0) = (e0, c0)" by fastforce
  have IH: "length e0 = 64" "\<forall>j<i. - 8 \<le> sint (e0 ! j) \<and> sint (e0 ! j) \<le> 7" "\<forall>j\<in>{i..<64}. e0 ! j = base_nibbles a ! j"
    "0 \<le> sint c0" "sint c0 \<le> 1" "hexes e0 + sint c0 * 16 ^ i = le_int a" using Suc.IH [OF _ s] Suc.prems(1) by auto
  have "0 \<le> sint (e0 ! i)" "sint (e0 ! i) \<le> 15" using IH(3) nibbles_range [of i a] assms(1) Suc.prems(1) by auto
  note d = digit_carry [OF this IH(4,5)]
  have step: "base_carry i (e0, c0) = (e, c)" using Suc.prems(2) s by simp
  then have e: "e = e0[i := e0 ! i + c0 - push_bit 4 c]" and c: "c = signed_drop_bit 4 (e0 ! i + c0 + 8)"
    using step IH(1) Suc.prems(1) by (auto simp: base_carry_def Let_def)
  have "hexes e = hexes e0 + (sint c0 - 16 * sint c) * 16 ^ i"
    using IH(1) Suc.prems(1) d(2) by (simp add: e hexes_upd c)
  then have "hexes e + sint c * 16 ^ Suc i = le_int a" using IH(6) by (simp add: algebra_simps)
  moreover have "\<forall>j<Suc i. - 8 \<le> sint (e ! j) \<and> sint (e ! j) \<le> 7"
    using IH(1,2) d(5,6) Suc.prems(1) unfolding e c [symmetric] by (auto simp: less_Suc_eq c)
  ultimately show ?case using IH(1,3) d(3,4) by (auto simp: e c)
qed

lemma base_digits_ok:
  assumes "length a = 32" and "le_int a < 2 ^ 255"
  shows "length (base_digits a) = 64 \<and> (\<forall>w \<in> set (base_digits a). \<bar>sint w\<bar> \<le> 8) \<and> hexes (base_digits a) = le_int a"
proof -
  obtain e c where s: "fold base_carry [0..<63] (base_nibbles a, 0) = (e, c)" by fastforce
  note b = base_carries [OF assms(1) order_refl s]
  let ?n = "base_nibbles a"
  have lim: "i < 64 \<Longrightarrow> 0 \<le> sint (?n ! i) \<and> sint (?n ! i) < 16" for i using nibbles_range [of i a] assms(1) by simp
  have ln: "length ?n = 64" using assms(1) by (simp add: nibbles_horner)
  have rng: "0 \<le> sint (?n ! 63)" "sint (?n ! 63) \<le> 15" using nibbles_range [of 63 a] assms(1) by auto
  have "?n = take 63 ?n @ [?n ! 63]" using ln take_Suc_conv_app_nth [of 63 ?n] by simp
  then have "le_int a = horner 4 (sints (take 63 ?n) @ [sint (?n ! 63)])"
    using nibbles_horner(1)[of a] by (metis list.map(1,2) map_append)
  then have "le_int a = horner 4 (sints (take 63 ?n)) + 2 ^ 252 * sint (?n ! 63)" using ln by (simp add: horner_append)
  moreover have "\<forall>x \<in> set (sints (take 63 ?n)). 0 \<le> x \<and> x < 2 ^ 4"
    using lim ln by (auto simp: in_set_conv_nth)
  then have "0 \<le> horner 4 (sints (take 63 ?n))" using horner_bound by blast
  ultimately have n63: "sint (?n ! 63) \<le> 7" using assms(2) by simp
  have "sint (word_of_int (sint (?n ! 63) + sint c) :: 8 word) = sint (?n ! 63) + sint c"
    using b rng n63 by (intro sint_in [where n = 7]) auto
  then have v: "sint (?n ! 63 + c) = sint (?n ! 63) + sint c" by simp
  have d: "base_digits a = e[63 := ?n ! 63 + c]" using s b by (simp add: base_digits_def)
  have "\<bar>sint (base_digits a ! j)\<bar> \<le> 8" if "j < 64" for j
  proof (cases "j = 63")
    case False
    then have "- 8 \<le> sint (e ! j) \<and> sint (e ! j) \<le> 7" using b that by auto
    then show ?thesis using False by (simp add: d abs_le_iff)
  qed (use b v rng n63 in \<open>simp add: d\<close>)
  moreover have "hexes (base_digits a) = le_int a" using b v by (simp add: d hexes_upd)
  ultimately show ?thesis using b by (auto simp: d in_set_conv_nth)
qed

lemma top_bit_clear:
  assumes "length a = 32" and "a ! 31 \<le> 127"
  shows "le_int a < 2 ^ 255"
proof -
  have "a = take 31 a @ [a ! 31]" using assms(1) take_Suc_conv_app_nth [of 31 a] by simp
  then have "le_int a = horner 8 (map uint (take 31 a) @ [uint (a ! 31)])" by (metis le_int_def list.map(1,2) map_append)
  then have "le_int a = le_int (take 31 a) + 2 ^ 248 * uint (a ! 31)" using assms(1) by (simp add: horner_append le_int_def)
  moreover have "le_int (take 31 a) < 2 ^ 248" using le_int_bound [of "take 31 a"] assms(1) by simp
  moreover have "uint (a ! 31) \<le> 127" using assms(2) by (simp add: word_le_def)
  ultimately show ?thesis by simp
qed

section \<open>Properties of the recodings\<close>

text \<open>Digits to base 16: for scalars below \<open>2 ^ 255\<close>, which is the precondition of \<^verbatim>\<open>GeScalarMultBase\<close>, the 64 digits are at
  most 8 either side of zero, as the table of multiples needs, and stand for the scalar.\<close>

theorem base_digits_value:
  assumes "length a = 32" and "a ! 31 \<le> 127"
  shows "length (base_digits a) = 64 \<and> (\<forall>w \<in> set (base_digits a). \<bar>sint w\<bar> \<le> 8) \<and> hexes (base_digits a) = le_int a"
  using base_digits_ok [OF assms(1) top_bit_clear [OF assms]] .

theorem base_digits_value_witness: "hexes (base_digits (replicate 31 255 @ [127])) = 2 ^ 255 - 1"
proof -
  have "length (replicate 31 255 @ [127 :: byte]) = 32" "(replicate 31 255 @ [127 :: byte]) ! 31 \<le> 127"
    by (simp_all add: nth_append)
  moreover have "le_int (replicate 31 255 @ [127]) = 2 ^ 255 - 1" by code_simp
  ultimately show ?thesis using base_digits_value [of "replicate 31 255 @ [127]"] by simp
qed

text \<open>C35. Windows: for every 32 bytes the places that \<^verbatim>\<open>slide\<close> leaves are zero or odd and at most 15, and stand for the scalar
  modulo \<open>2 ^ 256\<close>; they stand for the scalar itself when it is below \<open>2 ^ 255\<close>.\<close>

theorem slide_value:
  assumes "length a = 32"
  shows "length (slide a) = 256 \<and> (\<forall>w \<in> set (slide a). w = 0 \<or> odd (sint w) \<and> \<bar>sint w\<bar> \<le> 15)
    \<and> places (slide a) mod 2 ^ 256 = le_int a \<and> (le_int a < 2 ^ 255 \<longrightarrow> places (slide a) = le_int a)"
proof -
  note s = slide_ok [OF assms, unfolded slid_def]
  have "places (slide a) mod 2 ^ 256 = le_int a mod 2 ^ 256" using s by (simp add: mod_eq_dvd_iff)
  also have "\<dots> = le_int a" using le_int_bound [of a] assms by simp
  finally show ?thesis using s by (auto simp: in_set_conv_nth)
qed

theorem slide_value_witness: "places (slide (255 # replicate 31 0)) = 255"
proof -
  have "length (255 # replicate 31 (0 :: byte)) = 32" "le_int (255 # replicate 31 0) = 255" by (simp_all add: le_int_def)
  then show ?thesis using slide_value [of "255 # replicate 31 0"] by simp
qed

end
