(* ===== verification/Multiply.thy ===== *)
theory Multiply
  imports Group25519 Recode
begin

unbundle bit_operations_syntax

text \<open>
  The scalar multiplications of \<^verbatim>\<open>src/vrf/ed25519/edwards25519/edwards25519.go\<close>. The specification is a family of points indexed by
  two integers that the addition law composes, such as the sums of multiples of two points of the curve.
  Shown: each algorithm returns a representation of the member of the family that the scalars name,
  whatever way it goes there (double and add, signed windows for two scalars at once, or a table of
  multiples with digits to base 16), for the recodings of \<open>Recode\<close>.
\<close>

section \<open>Double and add\<close>

text \<open>One round of the loop of \<^verbatim>\<open>GeScalarMult\<close> on \<^verbatim>\<open>q\<close> and \<^verbatim>\<open>p\<close>.\<close>

definition ge_mult_step :: "bytes \<Rightarrow> nat \<Rightarrow> ExtendedGroupElement \<times> ExtendedGroupElement \<Rightarrow> ExtendedGroupElement \<times> ExtendedGroupElement" where
  "ge_mult_step a i = (\<lambda>(q, p).
    let bit = ucast (drop_bit (i mod 8) (a ! (i div 8))) AND (1 :: 32 word);
        t = GeAdd q p
    in (ExtendedGroupElementCMove q t bit, GeDouble p))"

definition GeScalarMult :: "bytes \<Rightarrow> ExtendedGroupElement \<Rightarrow> ExtendedGroupElement" where
  "GeScalarMult a A = fst (fold (ge_mult_step a) [0..<256] (Extended_Zero, A))"

section \<open>Two scalars with windows\<close>

text \<open>The cached odd multiples \<^verbatim>\<open>A, 3A, ..., 15A\<close>, the index at which the main loop starts plus one, and a round of
  the main loop. The table \<^verbatim>\<open>bi\<close> of odd multiples of the base point is an argument.\<close>

definition ge_odd_multiples :: "ExtendedGroupElement \<Rightarrow> CachedGroupElement list" where
  "ge_odd_multiples A =
    (let A2 = Completed_ToExtended (Extended_Double A)
     in fold (\<lambda>i Ai. Ai @ [ToCached (Completed_ToExtended (geAdd A2 (Ai ! i)))]) [0..<7] [ToCached A])"

fun ge_start :: "8 word list \<Rightarrow> 8 word list \<Rightarrow> nat \<Rightarrow> nat" where
  "ge_start aSlide bSlide 0 = 0" |
  "ge_start aSlide bSlide (Suc i) = (if aSlide ! i \<noteq> 0 \<or> bSlide ! i \<noteq> 0 then Suc i else ge_start aSlide bSlide i)"

definition ge_vartime_step ::
    "CachedGroupElement list \<Rightarrow> PreComputedGroupElement list \<Rightarrow> 8 word list \<Rightarrow> 8 word list \<Rightarrow> nat \<Rightarrow> ProjectiveGroupElement \<Rightarrow> ProjectiveGroupElement" where
  "ge_vartime_step Ai bi aSlide bSlide i r =
    (let t = Projective_Double r;
         t = (if 0 < sint (aSlide ! i) then geAdd (Completed_ToExtended t) (Ai ! (nat (sint (aSlide ! i)) div 2))
              else if sint (aSlide ! i) < 0 then geSub (Completed_ToExtended t) (Ai ! (nat (sint (- aSlide ! i)) div 2))
              else t);
         t = (if 0 < sint (bSlide ! i) then geMixedAdd (Completed_ToExtended t) (bi ! (nat (sint (bSlide ! i)) div 2))
              else if sint (bSlide ! i) < 0 then geMixedSub (Completed_ToExtended t) (bi ! (nat (sint (- bSlide ! i)) div 2))
              else t)
     in Completed_ToProjective t)"

definition ge_double_vartime :: "PreComputedGroupElement list \<Rightarrow> bytes \<Rightarrow> ExtendedGroupElement \<Rightarrow> bytes \<Rightarrow> ProjectiveGroupElement" where
  "ge_double_vartime bi a A b =
    (let aSlide = slide a; bSlide = slide b
     in fold (ge_vartime_step (ge_odd_multiples A) bi aSlide bSlide) (rev [0..<ge_start aSlide bSlide 256]) Projective_Zero)"

section \<open>A table of multiples\<close>

definition ge_equal :: "32 word \<Rightarrow> 32 word \<Rightarrow> 32 word" where
  "ge_equal b c = (let x = b XOR c; x = x - 1 in drop_bit 31 x)"

definition ge_negative :: "32 word \<Rightarrow> 32 word" where
  "ge_negative b = signed_drop_bit 31 b AND 1"

definition selectPoint :: "PreComputedGroupElement list list \<Rightarrow> nat \<Rightarrow> 32 word \<Rightarrow> PreComputedGroupElement" where
  "selectPoint base pos b =
    (let bNegative = ge_negative b;
         bAbs = b - push_bit 1 ((- bNegative) AND b);
         t = fold (\<lambda>i t. PreComputedGroupElementCMove t (base ! pos ! i) (ge_equal bAbs (of_nat i + 1))) [0..<8] PreComputed_Zero;
         minusT = \<lparr>pcYPlusX = pcYMinusX t, pcYMinusX = pcYPlusX t, pcXy2d = FeNeg (pcXy2d t)\<rparr>
     in PreComputedGroupElementCMove t minusT bNegative)"

definition ge_base_step :: "PreComputedGroupElement list list \<Rightarrow> 8 word list \<Rightarrow> nat \<Rightarrow> ExtendedGroupElement \<Rightarrow> ExtendedGroupElement" where
  "ge_base_step base e i h = Completed_ToExtended (geMixedAdd h (selectPoint base (i div 2) (scast (e ! i))))"

definition ge_base_mult :: "PreComputedGroupElement list list \<Rightarrow> bytes \<Rightarrow> ExtendedGroupElement" where
  "ge_base_mult base a =
    (let e = base_digits a;
         h = fold (ge_base_step base e) (map (\<lambda>k. 2 * k + 1) [0..<32]) Extended_Zero;
         s = Completed_ToProjective (Extended_Double h);
         s = Completed_ToProjective (Projective_Double s);
         s = Completed_ToProjective (Projective_Double s);
         h = Completed_ToExtended (Projective_Double s)
     in fold (ge_base_step base e) (map (\<lambda>k. 2 * k) [0..<32]) h)"

section \<open>Families of points\<close>

definition point_family :: "(int \<Rightarrow> int \<Rightarrow> point) \<Rightarrow> bool" where
  "point_family g = (g 0 0 = (0, 1) \<and> (\<forall>u v. on_curve (g u v)) \<and> (\<forall>u v. g (- u) (- v) = ed_neg (g u v))
    \<and> (\<forall>u v u' v'. ed_add (g u v) (g u' v') (g (u + u') (v + v'))))"

lemma family_add: "point_family g \<Longrightarrow> u + u' = s \<Longrightarrow> v + v' = t \<Longrightarrow> ed_add (g u v) (g u' v') (g s t)"
  by (auto simp: point_family_def)

lemma family_sub: "point_family g \<Longrightarrow> u - u' = s \<Longrightarrow> v - v' = t \<Longrightarrow> ed_add (g u v) (ed_neg (g u' v')) (g s t)"
  using family_add [of g u "- u'" s v "- v'" t] by (simp add: point_family_def)

lemma family_zero: "point_family g \<Longrightarrow> g 0 0 = (0, 1)"
  by (simp add: point_family_def)

lemma family_curve: "point_family g \<Longrightarrow> on_curve (g u v)"
  by (simp add: point_family_def)

lemma family_double: "point_family g \<Longrightarrow> ex_rep p (g u v) \<Longrightarrow> ex_rep (GeDouble p) (g (2 * u) (2 * v))"
  by (rule GeDouble_rep) (auto intro: family_curve family_add)

lemma family_pr_double: "point_family g \<Longrightarrow> pr_rep p (g u v) \<Longrightarrow> co_rep (Projective_Double p) (g (2 * u) (2 * v))"
  by (rule Double_rep) (auto intro: family_curve family_add)

section \<open>Double and add is correct\<close>

lemma ext_length: "ex_rep p a \<Longrightarrow> length (exX p) = 10 \<and> length (exY p) = 10 \<and> length (exZ p) = 10 \<and> length (exT p) = 10"
  by (auto simp: ex_rep_def intro: loose_length)

lemma ext_cmove: "ex_rep p a \<Longrightarrow> ex_rep q c \<Longrightarrow> b = 0 \<or> b = 1 \<Longrightarrow> ExtendedGroupElementCMove p q b = (if b = 1 then q else p)"
  using ext_length [of p a] ext_length [of q c] by (simp add: ExtendedGroupElementCMove_def CMove_select)

lemma scalar_bit:
  assumes "length a = 32" and "i < 256"
  shows "(ucast (drop_bit (i mod 8) (a ! (i div 8))) AND (1 :: 32 word)) = of_bool (bit (le_int a) i)"
proof -
  have "bit (le_int a) (8 * (i div 8) + i mod 8) = bit (a ! (i div 8)) (i mod 8)" using assms by (intro le_int_bit) auto
  then have "bit (le_int a) i = bit (a ! (i div 8)) (i mod 8)" by simp
  then show ?thesis by (intro bit_word_eqI) (auto simp: bit_simps)
qed

lemma mult_steps:
  assumes "point_family g" and "ex_rep A (g u v)" and "length a = 32" and "i \<le> 256"
  shows "ex_rep (fst (fold (ge_mult_step a) [0..<i] (Extended_Zero, A))) (g (take_bit i (le_int a) * u) (take_bit i (le_int a) * v))
    \<and> ex_rep (snd (fold (ge_mult_step a) [0..<i] (Extended_Zero, A))) (g (2 ^ i * u) (2 ^ i * v))"
  using assms(4)
proof (induction i)
  case 0
  show ?case using Zero_rep(1) assms(2) family_zero [OF assms(1)] by simp
next
  case (Suc i)
  obtain q p where s: "fold (ge_mult_step a) [0..<i] (Extended_Zero, A) = (q, p)" by fastforce
  let ?n = "take_bit i (le_int a)" and ?b = "bit (le_int a) i"
  have q: "ex_rep q (g (?n * u) (?n * v))" and p: "ex_rep p (g (2 ^ i * u) (2 ^ i * v))" using Suc s by auto
  have t: "ex_rep (GeAdd q p) (g ((?n + 2 ^ i) * u) ((?n + 2 ^ i) * v))"
    by (rule GeAdd_rep [OF q p], rule family_add [OF assms(1)]) (simp_all add: distrib_right)
  have "take_bit (Suc i) (le_int a) = (if ?b then ?n + 2 ^ i else ?n)"
    by (simp add: take_bit_Suc_from_most)
  moreover have "fold (ge_mult_step a) [0..<Suc i] (Extended_Zero, A) = (if ?b then GeAdd q p else q, GeDouble p)"
    using s ext_cmove [OF q t] scalar_bit [OF assms(3), of i] Suc.prems by (simp add: ge_mult_step_def Let_def)
  ultimately show ?case using q t family_double [OF assms(1) p] by (simp add: mult.assoc)
qed

lemma GeScalarMult_rep:
  assumes "point_family g" and "ex_rep A (g u v)" and "length a = 32"
  shows "ex_rep (GeScalarMult a A) (g (le_int a * u) (le_int a * v))"
proof -
  have "take_bit 256 (le_int a) = le_int a" using le_int_bound [of a] assms(3) by (simp add: take_bit_int_eq_self)
  then show ?thesis using mult_steps [OF assms order_refl] by (simp add: GeScalarMult_def)
qed

section \<open>Windows are correct\<close>

lemma odd_multiples_rep:
  assumes "point_family g" and "ex_rep A (g u v)"
  shows "length (ge_odd_multiples A) = 8 \<and> (\<forall>j<8. ca_rep (ge_odd_multiples A ! j) (g ((2 * int j + 1) * u) ((2 * int j + 1) * v)))"
proof -
  let ?A2 = "Completed_ToExtended (Extended_Double A)"
  let ?f = "\<lambda>i Ai. Ai @ [ToCached (Completed_ToExtended (geAdd ?A2 (Ai ! i)))]"
  let ?l = "\<lambda>n. fold ?f [0..<n] [ToCached A]"
  have A2: "ex_rep ?A2 (g (2 * u) (2 * v))"
    unfolding Extended_Double_def by (intro ToExtended_rep family_pr_double ToProjective_rep assms)
  have "length (?l n) = Suc n \<and> (\<forall>j\<le>n. ca_rep (?l n ! j) (g ((2 * int j + 1) * u) ((2 * int j + 1) * v)))" for n
  proof (induction n)
    case 0
    show ?case using ToCached_rep [OF assms(2)] by simp
  next
    case (Suc n)
    then have q: "ca_rep (?l n ! n) (g ((2 * int n + 1) * u) ((2 * int n + 1) * v))" by simp
    have "ca_rep (ToCached (Completed_ToExtended (geAdd ?A2 (?l n ! n)))) (g ((2 * int (Suc n) + 1) * u) ((2 * int (Suc n) + 1) * v))"
      by (intro ToCached_rep ToExtended_rep geAdd_rep [OF A2 q] family_add [OF assms(1)]) (simp_all add: algebra_simps)
    then show ?case using Suc by (auto simp: nth_append le_Suc_eq)
  qed
  from this [of 7] show ?thesis by (auto simp: ge_odd_multiples_def Let_def)
qed

lemma half_index:
  assumes "odd (sint (w :: 8 word))" and "\<bar>sint w\<bar> \<le> 15"
  shows "0 < sint w \<Longrightarrow> nat (sint w) div 2 < 8 \<and> 2 * int (nat (sint w) div 2) + 1 = sint w"
    and "sint w < 0 \<Longrightarrow> nat (sint (- w)) div 2 < 8 \<and> 2 * int (nat (sint (- w)) div 2) + 1 = - sint w"
proof -
  have h: "nat k div 2 < 8 \<and> 2 * int (nat k div 2) + 1 = k" if "odd k" "0 < k" "k \<le> 15" for k :: int
    using that by (auto elim!: oddE simp: nat_add_distrib nat_mult_distrib)
  have "sint (word_of_int (- sint w) :: 8 word) = - sint w" using assms(2) by (intro sint_in [where n = 7]) auto
  then have "sint (- w) = - sint w" by simp
  then show "0 < sint w \<Longrightarrow> nat (sint w) div 2 < 8 \<and> 2 * int (nat (sint w) div 2) + 1 = sint w"
    and "sint w < 0 \<Longrightarrow> nat (sint (- w)) div 2 < 8 \<and> 2 * int (nat (sint (- w)) div 2) + 1 = - sint w"
    using h [of "sint w"] h [of "- sint w"] assms by auto
qed

definition adds_to :: "('q \<Rightarrow> point \<Rightarrow> bool) \<Rightarrow> (ExtendedGroupElement \<Rightarrow> 'q \<Rightarrow> CompletedGroupElement) \<Rightarrow> (point \<Rightarrow> point) \<Rightarrow> bool" where
  "adds_to R add f = (\<forall>p q a b c. ex_rep p a \<longrightarrow> R q b \<longrightarrow> ed_add a (f b) c \<longrightarrow> co_rep (add p q) c)"

lemma adds_to_all:
  "adds_to ca_rep geAdd (\<lambda>b. b)" "adds_to ca_rep geSub ed_neg" "adds_to pc_rep geMixedAdd (\<lambda>b. b)" "adds_to pc_rep geMixedSub ed_neg"
  unfolding adds_to_def by (blast intro: geAdd_rep geSub_rep geMixedAdd_rep geMixedSub_rep)+

lemma window_digit:
  fixes w :: "8 word"
  assumes "point_family g" and "co_rep t (g x y)" and "w = 0 \<or> odd (sint w) \<and> \<bar>sint w\<bar> \<le> 15"
    and "w \<noteq> 0 \<Longrightarrow> \<forall>j<8. R (tab ! j) (g ((2 * int j + 1) * u) ((2 * int j + 1) * v))"
    and "adds_to R add (\<lambda>b. b)" and "adds_to R sub ed_neg"
  shows "co_rep (if 0 < sint w then add (Completed_ToExtended t) (tab ! (nat (sint w) div 2))
      else if sint w < 0 then sub (Completed_ToExtended t) (tab ! (nat (sint (- w)) div 2)) else t) (g (x + sint w * u) (y + sint w * v))"
proof -
  note t = ToExtended_rep [OF assms(2)]
  consider "sint w = 0" | (pos) "0 < sint w" | (neg) "sint w < 0" by linarith
  then show ?thesis
  proof cases
    case pos
    then have "nat (sint w) div 2 < 8 \<and> 2 * int (nat (sint w) div 2) + 1 = sint w" using half_index(1)[of w] assms(3) by force
    moreover have "w \<noteq> 0" using pos by auto
    ultimately have "R (tab ! (nat (sint w) div 2)) (g (sint w * u) (sint w * v))" using assms(4) by (metis (no_types))
    then have "co_rep (add (Completed_ToExtended t) (tab ! (nat (sint w) div 2))) (g (x + sint w * u) (y + sint w * v))"
      using assms(5) t family_add [OF assms(1), of x "sint w * u" _ y "sint w * v"] unfolding adds_to_def by blast
    then show ?thesis using pos by simp
  next
    case neg
    then have "nat (sint (- w)) div 2 < 8 \<and> 2 * int (nat (sint (- w)) div 2) + 1 = - sint w" using half_index(2)[of w] assms(3) by force
    moreover have "w \<noteq> 0" using neg by auto
    ultimately have "R (tab ! (nat (sint (- w)) div 2)) (g (- sint w * u) (- sint w * v))" using assms(4) by (metis (no_types))
    moreover have "ed_add (g x y) (ed_neg (g (- sint w * u) (- sint w * v))) (g (x + sint w * u) (y + sint w * v))"
      by (rule family_sub [OF assms(1)]) simp_all
    ultimately have "co_rep (sub (Completed_ToExtended t) (tab ! (nat (sint (- w)) div 2))) (g (x + sint w * u) (y + sint w * v))"
      using assms(6) t unfolding adds_to_def by blast
    then show ?thesis using neg by simp
  qed (use assms(2) in simp)
qed

text \<open>A table of the odd multiples of a point, as \<^verbatim>\<open>bi\<close> is for the base point.\<close>

definition odd_table :: "PreComputedGroupElement list \<Rightarrow> (int \<Rightarrow> int \<Rightarrow> point) \<Rightarrow> int \<Rightarrow> int \<Rightarrow> bool" where
  "odd_table bi g u v = (\<forall>j<8. pc_rep (bi ! j) (g ((2 * int j + 1) * u) ((2 * int j + 1) * v)))"

abbreviation tail_places :: "nat \<Rightarrow> 8 word list \<Rightarrow> int" where
  "tail_places i r \<equiv> places (drop i r)"

lemma tail_step: "i < length r \<Longrightarrow> tail_places i r = sint (r ! i) + 2 * tail_places (Suc i) r"
  by (simp add: places_def flip: Cons_nth_drop_Suc)

lemma vartime_step_rep:
  assumes "point_family g" and "ex_rep A (g u v)" and "t ! i \<noteq> 0 \<Longrightarrow> odd_table bi g u' v'" and "i < length s" and "i < length t"
    and "s ! i = 0 \<or> odd (sint (s ! i)) \<and> \<bar>sint (s ! i)\<bar> \<le> 15" and "t ! i = 0 \<or> odd (sint (t ! i)) \<and> \<bar>sint (t ! i)\<bar> \<le> 15"
    and "pr_rep r (g (tail_places (Suc i) s * u + tail_places (Suc i) t * u') (tail_places (Suc i) s * v + tail_places (Suc i) t * v'))"
  shows "pr_rep (ge_vartime_step (ge_odd_multiples A) bi s t i r)
    (g (tail_places i s * u + tail_places i t * u') (tail_places i s * v + tail_places i t * v'))"
proof -
  note d = family_pr_double [OF assms(1,8)]
  have o: "\<forall>j<8. ca_rep (ge_odd_multiples A ! j) (g ((2 * int j + 1) * u) ((2 * int j + 1) * v))"
    using odd_multiples_rep [OF assms(1,2)] by blast
  note a = window_digit [OF assms(1) d assms(6) o adds_to_all(1,2)]
  note b = window_digit [OF assms(1) a assms(7) assms(3)[unfolded odd_table_def] adds_to_all(3,4)]
  show ?thesis unfolding ge_vartime_step_def Let_def
    using ToProjective_rep(2)[OF b] unfolding tail_step [OF assms(4)] tail_step [OF assms(5)] by (simp add: algebra_simps)
qed

lemma start_zero: "n \<le> length s \<Longrightarrow> n \<le> length t \<Longrightarrow> ge_start s t n \<le> n \<and> (\<forall>j. ge_start s t n \<le> j \<and> j < n \<longrightarrow> s ! j = 0 \<and> t ! j = 0)"
  by (induction n) (auto simp: le_Suc_eq less_Suc_eq)

lemma zero_tail: "(\<forall>j. n \<le> j \<and> j < length s \<longrightarrow> s ! j = 0) \<Longrightarrow> tail_places n s = 0"
proof -
  assume "\<forall>j. n \<le> j \<and> j < length s \<longrightarrow> s ! j = 0"
  then have "sints (drop n s) = replicate (length s - n) 0" by (intro nth_equalityI) simp_all
  then show ?thesis by (simp add: places_def)
qed

lemma vartime_steps:
  assumes "\<And>i r. i < n \<Longrightarrow> P (Suc i) r \<Longrightarrow> P i (f i r)" and "P n r"
  shows "P 0 (fold f (rev [0..<n]) r)"
  using assms by (induction n arbitrary: r) auto

lemma double_vartime_rep:
  assumes "point_family g" and "ex_rep A (g u v)" and "slide b = replicate 256 0 \<or> odd_table bi g u' v'" and "length a = 32" and "length b = 32"
  shows "pr_rep (ge_double_vartime bi a A b)
    (g (places (slide a) * u + places (slide b) * u') (places (slide a) * v + places (slide b) * v'))"
proof -
  let ?s = "slide a" and ?t = "slide b"
  let ?n = "ge_start ?s ?t 256"
  let ?P = "\<lambda>i r. pr_rep r (g (tail_places i ?s * u + tail_places i ?t * u') (tail_places i ?s * v + tail_places i ?t * v'))"
  note s = slide_ok [OF assms(4), unfolded slid_def] and t = slide_ok [OF assms(5), unfolded slid_def]
  have l: "length ?s = 256" "length ?t = 256" using s t by blast+
  have "?n \<le> 256 \<and> (\<forall>j. ?n \<le> j \<and> j < 256 \<longrightarrow> ?s ! j = 0 \<and> ?t ! j = 0)" by (rule start_zero) (simp_all add: l)
  then have n: "?n \<le> 256" "\<forall>j. ?n \<le> j \<and> j < 256 \<longrightarrow> ?s ! j = 0 \<and> ?t ! j = 0" by blast+
  have "tail_places ?n ?s = 0" "tail_places ?n ?t = 0" using n(2) unfolding l [symmetric] by (intro zero_tail; force simp: l)+
  then have "?P ?n Projective_Zero" using Zero_rep(2) family_zero [OF assms(1)] by simp
  moreover have "?P i (ge_vartime_step (ge_odd_multiples A) bi ?s ?t i r)" if "i < ?n" "?P (Suc i) r" for i r
  proof (rule vartime_step_rep [OF assms(1,2) _ _ _ _ _ that(2)])
    have i: "i < 256" using that(1) n(1) by simp
    then show "?t ! i \<noteq> 0 \<Longrightarrow> odd_table bi g u' v'" using assms(3) by auto
    from i show "i < length ?s" "i < length ?t" "?s ! i = 0 \<or> odd (sint (?s ! i)) \<and> \<bar>sint (?s ! i)\<bar> \<le> 15"
      "?t ! i = 0 \<or> odd (sint (?t ! i)) \<and> \<bar>sint (?t ! i)\<bar> \<le> 15" using s t l by auto
  qed
  ultimately have "?P 0 (fold (ge_vartime_step (ge_odd_multiples A) bi ?s ?t) (rev [0..<?n]) Projective_Zero)"
    by (intro vartime_steps [where P = ?P]) blast+
  then show ?thesis by (simp add: ge_double_vartime_def Let_def)
qed

lemma slide_zeros: "slide (replicate 32 0) = replicate 256 0"
proof -
  have b: "slide_bits (replicate 32 0) = replicate 256 0" by (rule nth_equalityI) (auto simp: slide_bits_def)
  have "n \<le> 256 \<Longrightarrow> fold (\<lambda>i r. if r ! i \<noteq> 0 then slide_window i 1 r else r) [0..<n] (replicate 256 0) = replicate 256 0" for n
    by (induction n) auto
  then show ?thesis unfolding slide_def b by blast
qed

lemma places_below: "length a = 32 \<Longrightarrow> a ! 31 \<le> 127 \<Longrightarrow> places (slide a) = le_int a"
  using slide_ok [of a] top_bit_clear [of a] by (simp add: slid_def)

section \<open>The table of multiples is used correctly\<close>

lemma equal_small: "i < 9 \<Longrightarrow> j < 9 \<Longrightarrow> ge_equal (of_nat i) (of_nat j) = (if i = j then 1 else 0)"
proof -
  have "list_all (\<lambda>i. list_all (\<lambda>j. ge_equal (word_of_int i) (word_of_int j) = (if i = j then 1 else 0)) [0..8]) [0..8]" by code_simp
  then have "ge_equal (word_of_int i) (word_of_int j) = (if i = j then 1 else 0)" if "i \<in> {0..8}" "j \<in> {0..8}" for i j
    using that unfolding list_all_iff set_upto by blast
  from this [of "int i" "int j"] show "i < 9 \<Longrightarrow> j < 9 \<Longrightarrow> ge_equal (of_nat i) (of_nat j) = (if i = j then 1 else 0)"
    by simp
qed

lemma pc_length: "pc_rep p a \<Longrightarrow> length (pcYPlusX p) = 10 \<and> length (pcYMinusX p) = 10 \<and> length (pcXy2d p) = 10"
  by (auto simp: pc_rep_def intro: loose_length)

lemma pc_cmove: "pc_rep p a \<Longrightarrow> pc_rep q c \<Longrightarrow> b = 0 \<or> b = 1 \<Longrightarrow> PreComputedGroupElementCMove p q b = (if b = 1 then q else p)"
  using pc_length [of p a] pc_length [of q c] by (simp add: PreComputedGroupElementCMove_def CMove_select)

text \<open>A table with rows of the first eight multiples of the powers of 256, as \<^verbatim>\<open>base\<close> is for the base point.\<close>

definition base_table :: "PreComputedGroupElement list list \<Rightarrow> (int \<Rightarrow> int \<Rightarrow> point) \<Rightarrow> int \<Rightarrow> int \<Rightarrow> bool" where
  "base_table base g u v = (\<forall>pos<32. \<forall>i<8. pc_rep (base ! pos ! i) (g (256 ^ pos * (int i + 1) * u) (256 ^ pos * (int i + 1) * v)))"

lemma base_entry:
  assumes "base_table base g u v" and "pos < 32" and "0 < n" and "n \<le> 8"
  shows "pc_rep (base ! pos ! (n - 1)) (g (256 ^ pos * int n * u) (256 ^ pos * int n * v))"
proof -
  obtain i where i: "n = Suc i" "i < 8" using assms(3,4) by (cases n) auto
  then have "pc_rep (base ! pos ! i) (g (256 ^ pos * (int i + 1) * u) (256 ^ pos * (int i + 1) * v))"
    using assms(1,2) unfolding base_table_def by blast
  then show ?thesis by (simp add: i add.commute)
qed

lemma pick_row:
  assumes "point_family g" and "base_table base g u v" and "pos < 32" and "n \<le> 8" and "k \<le> 8"
  defines "f \<equiv> \<lambda>i t. PreComputedGroupElementCMove t (base ! pos ! i) (ge_equal (of_nat n) (of_nat i + 1))"
  shows "fold f [0..<k] PreComputed_Zero = (if 0 < n \<and> n \<le> k then base ! pos ! (n - 1) else PreComputed_Zero)"
  using assms(5)
proof (induction k)
  case (Suc k)
  let ?t = "if 0 < n \<and> n \<le> k then base ! pos ! (n - 1) else PreComputed_Zero"
  have "\<exists>a. pc_rep ?t a"
  proof (cases "0 < n \<and> n \<le> k")
    case True
    then have t: "?t = base ! pos ! (n - 1)" by simp
    show ?thesis unfolding t using base_entry [OF assms(2,3) _ assms(4)] True by blast
  qed (use Zero_rep(3) in auto)
  moreover have "\<exists>a. pc_rep (base ! pos ! k) a"
    using base_entry [OF assms(2,3) zero_less_Suc Suc.prems] unfolding diff_Suc_1 by blast
  moreover have "ge_equal (of_nat n) (of_nat k + 1) = (if n = Suc k then 1 else 0)"
    using equal_small [of n "Suc k"] assms(4) Suc.prems by (simp add: add.commute)
  ultimately have "f k ?t = (if n = Suc k then base ! pos ! k else ?t)" unfolding f_def by (auto simp: pc_cmove)
  moreover have "fold f [0..<Suc k] PreComputed_Zero = f k ?t" using Suc by simp
  ultimately show ?case by auto
qed auto

lemma fe_el_neg [simp]: "fe_tight f \<Longrightarrow> fe_el (FeNeg f) = - fe_el f"
  using FeNeg_ok(2)[of 36909875 18454937 f] by (simp add: fe_el_def fe_tight_def)

lemma pc_neg: "pc_rep t a \<Longrightarrow> pc_rep \<lparr>pcYPlusX = pcYMinusX t, pcYMinusX = pcYPlusX t, pcXy2d = FeNeg (pcXy2d t)\<rparr> (ed_neg a)"
  by (cases a) (simp add: pc_rep_def ed_neg_def FeNeg_tight)

lemma sign_abs:
  assumes "\<bar>sint b\<bar> \<le> 8"
  shows "ge_negative b = (if sint b < 0 then 1 else 0)" and "b - push_bit 1 ((- ge_negative b) AND b) = of_nat (nat \<bar>sint b\<bar>)"
proof -
  have "list_all (\<lambda>k. ge_negative (word_of_int k) = (if k < 0 then 1 else 0)
    \<and> word_of_int k - push_bit 1 ((- ge_negative (word_of_int k)) AND word_of_int k) = word_of_int \<bar>k\<bar>) [-8..8]" by code_simp
  moreover have "sint b \<in> set [-8..8]" using assms by auto
  ultimately have s: "ge_negative (word_of_int (sint b)) = (if sint b < 0 then 1 else 0)"
    "word_of_int (sint b) - push_bit 1 ((- ge_negative (word_of_int (sint b))) AND word_of_int (sint b)) = word_of_int \<bar>sint b\<bar>"
    unfolding list_all_iff by blast+
  have "(word_of_int \<bar>sint b\<bar> :: 32 word) = of_nat (nat \<bar>sint b\<bar>)" by (simp only: of_nat_nat abs_ge_zero)
  then show "b - push_bit 1 ((- ge_negative b) AND b) = of_nat (nat \<bar>sint b\<bar>)"
    using s(2) by (simp only: word_sint [symmetric])
  show "ge_negative b = (if sint b < 0 then 1 else 0)" using s(1) by (simp only: word_sint [symmetric])
qed

lemma selectPoint_rep:
  assumes "point_family g" and "base_table base g u v" and "pos < 32" and "\<bar>sint b\<bar> \<le> 8"
  shows "pc_rep (selectPoint base pos b) (g (256 ^ pos * sint b * u) (256 ^ pos * sint b * v))"
proof -
  define n where "n = nat \<bar>sint b\<bar>"
  define t where "t = (if 0 < n \<and> n \<le> 8 then base ! pos ! (n - 1) else PreComputed_Zero)"
  let ?m = "\<lparr>pcYPlusX = pcYMinusX t, pcYMinusX = pcYPlusX t, pcXy2d = FeNeg (pcXy2d t)\<rparr>"
  have n: "n \<le> 8" "int n = \<bar>sint b\<bar>" using assms(4) by (simp_all add: n_def)
  have t: "pc_rep t (g (256 ^ pos * \<bar>sint b\<bar> * u) (256 ^ pos * \<bar>sint b\<bar> * v))"
  proof (cases "n = 0")
    case True
    then show ?thesis using n Zero_rep(3) family_zero [OF assms(1)] by (simp add: t_def)
  next
    case False
    then show ?thesis using base_entry [OF assms(2,3), of n] n unfolding t_def n(2)[symmetric] by simp
  qed
  have "selectPoint base pos b = PreComputedGroupElementCMove t ?m (if sint b < 0 then 1 else 0)"
    unfolding selectPoint_def Let_def sign_abs(2)[OF assms(4)] unfolding sign_abs(1)[OF assms(4)] n_def [symmetric]
    using pick_row [OF assms(1-3) n(1) order_refl] by (simp add: t_def)
  then have s: "selectPoint base pos b = (if sint b < 0 then ?m else t)" using pc_cmove [OF t pc_neg [OF t]] by simp
  show ?thesis
  proof (cases "sint b < 0")
    case True
    have "g (- (256 ^ pos * \<bar>sint b\<bar> * u)) (- (256 ^ pos * \<bar>sint b\<bar> * v)) = ed_neg (g (256 ^ pos * \<bar>sint b\<bar> * u) (256 ^ pos * \<bar>sint b\<bar> * v))"
      using assms(1) unfolding point_family_def by blast
    then show ?thesis using pc_neg [OF t] True s by simp
  qed (use t s in simp)
qed

lemma base_steps:
  assumes "point_family g" and "base_table base g u v" and "\<forall>i \<in> set is. i < 64 \<and> \<bar>sint (e ! i)\<bar> \<le> 8" and "ex_rep h (g (n * u) (n * v))"
  shows "ex_rep (fold (ge_base_step base e) is h)
    (g ((n + (\<Sum>i\<leftarrow>is. 256 ^ (i div 2) * sint (e ! i))) * u) ((n + (\<Sum>i\<leftarrow>is. 256 ^ (i div 2) * sint (e ! i))) * v))"
  using assms(3,4)
proof (induction "is" arbitrary: h n)
  case (Cons i "is")
  let ?d = "256 ^ (i div 2) * sint (e ! i)"
  have b: "\<bar>sint (e ! i)\<bar> \<le> 8" "i div 2 < 32" using Cons.prems(1) by auto
  have w: "sint (scast (e ! i) :: 32 word) = sint (e ! i)" by (simp add: sint_up_scast is_up)
  have "pc_rep (selectPoint base (i div 2) (scast (e ! i))) (g (?d * u) (?d * v))"
    using selectPoint_rep [OF assms(1,2) b(2), of "scast (e ! i)"] b(1) unfolding w by simp
  then have "ex_rep (ge_base_step base e i h) (g ((n + ?d) * u) ((n + ?d) * v))"
    unfolding ge_base_step_def distrib_right using family_add [OF assms(1) refl refl]
    by (intro ToExtended_rep geMixedAdd_rep [OF Cons.prems(2)])
  from Cons.IH [OF _ this] show ?case using Cons.prems(1) by (simp add: add.assoc)
qed simp

lemma pair_sum: "(\<Sum>i<2 * n. f i) = (\<Sum>k\<leftarrow>[0..<n]. f (2 * k)) + (\<Sum>k\<leftarrow>[0..<n]. f (2 * k + 1) :: int)"
  by (induction n) simp_all

lemma hexes_pairs:
  assumes "length e = 64"
  shows "hexes e = 16 * (\<Sum>k\<leftarrow>[0..<32]. 256 ^ k * sint (e ! (2 * k + 1))) + (\<Sum>k\<leftarrow>[0..<32]. 256 ^ k * sint (e ! (2 * k)))"
proof -
  have "hexes e = limbs_val ((*) 4) (sints e)" by (simp only: hexes_def limbs_val_horner)
  also have "\<dots> = (\<Sum>i<2 * 32. 16 ^ i * sint (e ! i))"
    using assms power_mult [of "2 :: int" 4] by (simp add: limbs_val_def mult.commute [of "sint _"])
  also have "\<dots> = (\<Sum>k\<leftarrow>[0..<32]. 16 ^ (2 * k) * sint (e ! (2 * k))) + (\<Sum>k\<leftarrow>[0..<32]. 16 ^ (2 * k + 1) * sint (e ! (2 * k + 1)))"
    by (rule pair_sum)
  also have "(\<lambda>k. 16 ^ (2 * k) * sint (e ! (2 * k))) = (\<lambda>k. 256 ^ k * sint (e ! (2 * k)))"
    by (simp add: power_mult)
  also have "(\<lambda>k. 16 ^ (2 * k + 1) * sint (e ! (2 * k + 1))) = (\<lambda>k. 16 * (256 ^ k * sint (e ! (2 * k + 1))))"
    by (simp add: power_mult mult.assoc)
  finally show ?thesis by (simp only: sum_list_const_mult add.commute)
qed

lemma base_mult_rep:
  assumes "point_family g" and "base_table base g u v" and "length a = 32" and "a ! 31 \<le> 127"
  shows "ex_rep (ge_base_mult base a) (g (le_int a * u) (le_int a * v))"
proof -
  let ?e = "base_digits a" and ?odd = "map (\<lambda>k. 2 * k + 1) [0..<32]" and ?even = "map (\<lambda>k. 2 * k) [0..<32 :: nat]"
  have e: "length ?e = 64" "\<forall>w \<in> set ?e. \<bar>sint w\<bar> \<le> 8" "hexes ?e = le_int a"
    using base_digits_ok [OF assms(3) top_bit_clear [OF assms(3,4)]] by blast+
  have ok: "\<forall>i \<in> set ?odd. i < 64 \<and> \<bar>sint (?e ! i)\<bar> \<le> 8" "\<forall>i \<in> set ?even. i < 64 \<and> \<bar>sint (?e ! i)\<bar> \<le> 8"
    using e(1,2) by auto
  define o1 where "o1 = (\<Sum>k\<leftarrow>[0..<32]. 256 ^ k * sint (?e ! (2 * k + 1)))"
  define o2 where "o2 = (\<Sum>k\<leftarrow>[0..<32]. 256 ^ k * sint (?e ! (2 * k)))"
  have z: "ex_rep Extended_Zero (g (0 * u) (0 * v))" using Zero_rep(1) family_zero [OF assms(1)] by simp
  have "(\<Sum>i\<leftarrow>?odd. 256 ^ (i div 2) * sint (?e ! i)) = o1" "(\<Sum>i\<leftarrow>?even. 256 ^ (i div 2) * sint (?e ! i)) = o2"
    by (simp_all add: o1_def o2_def comp_def)
  note sums = this
  define h where "h = fold (ge_base_step base ?e) ?odd Extended_Zero"
  have h: "ex_rep h (g (o1 * u) (o1 * v))" using base_steps [OF assms(1,2) ok(1) z] unfolding sums by (simp add: h_def)
  note d1 = ToProjective_rep(2)[OF family_pr_double [OF assms(1) ToProjective_rep(1)[OF h]]]
  note d2 = ToProjective_rep(2)[OF family_pr_double [OF assms(1) d1]]
  note d3 = ToProjective_rep(2)[OF family_pr_double [OF assms(1) d2]]
  note d4 = ToExtended_rep [OF family_pr_double [OF assms(1) d3]]
  define h' where "h' = Completed_ToExtended (Projective_Double (Completed_ToProjective (Projective_Double
      (Completed_ToProjective (Projective_Double (Completed_ToProjective (Extended_Double h)))))))"
  have "ex_rep h' (g (16 * o1 * u) (16 * o1 * v))" using d4 by (simp add: h'_def Extended_Double_def mult.assoc)
  then have "ex_rep (fold (ge_base_step base ?e) ?even h') (g ((16 * o1 + o2) * u) ((16 * o1 + o2) * v))"
    using base_steps [OF assms(1,2) ok(2), of _ "16 * o1"] unfolding sums by blast
  moreover have "16 * o1 + o2 = le_int a" using hexes_pairs [OF e(1)] e(3) by (simp add: o1_def o2_def)
  ultimately show ?thesis by (simp add: ge_base_mult_def Let_def h_def h'_def)
qed

section \<open>Properties of the multiplications\<close>

text \<open>The multiples of a point of order four, as a family for the witnesses.\<close>

definition ex_point :: "int \<Rightarrow> point" where
  "ex_point n = (if n = 0 then (0, 1) else if n = 1 then (fe_el SqrtM1, 0) else if n = 2 then (0, - 1) else (- fe_el SqrtM1, 0))"

definition ex_family :: "int \<Rightarrow> int \<Rightarrow> point" where
  "ex_family u v = ex_point ((u + v) mod 4)"

lemma residue4: "(n :: int) mod 4 = 0 \<or> n mod 4 = 1 \<or> n mod 4 = 2 \<or> n mod 4 = 3"
  by presburger

lemma ex_point_add:
  "m \<in> {0, 1, 2, 3} \<Longrightarrow> n \<in> {0, 1, 2, 3} \<Longrightarrow> ed_add (ex_point m) (ex_point n) (ex_point ((m + n) mod 4))"
  by (elim insertE emptyE; hypsubst) (simp_all add: ex_point_def ed_add_def)

lemma ex_family_ok: "point_family ex_family"
proof -
  have m: "n mod 4 \<in> {0, 1, 2, 3}" for n :: int using residue4 [of n] by auto
  have "ed_add (ex_family u v) (ex_family u' v') (ex_family (u + u') (v + v'))" for u v u' v'
  proof -
    have "(u + u' + (v + v')) mod 4 = ((u + v) mod 4 + (u' + v') mod 4) mod 4"
      unfolding mod_add_eq by (simp only: ac_simps)
    then show ?thesis using ex_point_add [OF m m] by (simp only: ex_family_def)
  qed
  moreover have "on_curve (ex_family u v)" for u v
    using residue4 [of "u + v"] by (auto simp: ex_family_def ex_point_def on_curve_def)
  moreover have "ex_family (- u) (- v) = ed_neg (ex_family u v)" for u v
  proof -
    have "(- u + - v) mod 4 = (4 - (u + v) mod 4) mod 4" by (simp add: mod_simps)
    then show ?thesis using residue4 [of "u + v"] by (auto simp: ex_family_def ex_point_def ed_neg_def)
  qed
  moreover have "ex_family 0 0 = (0, 1)" by (simp add: ex_family_def ex_point_def)
  ultimately show ?thesis unfolding point_family_def by blast
qed

definition ex_precomputed :: "int \<Rightarrow> PreComputedGroupElement" where
  "ex_precomputed n =
    (if n = 0 then PreComputed_Zero
     else if n = 1 then \<lparr>pcYPlusX = SqrtM1, pcYMinusX = FeNeg SqrtM1, pcXy2d = FeZero\<rparr>
     else if n = 2 then \<lparr>pcYPlusX = FeNeg FeOne, pcYMinusX = FeNeg FeOne, pcXy2d = FeZero\<rparr>
     else \<lparr>pcYPlusX = FeNeg SqrtM1, pcYMinusX = SqrtM1, pcXy2d = FeZero\<rparr>)"

lemma ex_precomputed_rep: "pc_rep (ex_precomputed (n mod 4)) (ex_point (n mod 4))"
  using residue4 [of n] by (auto simp: ex_precomputed_def ex_point_def pc_rep_def FeNeg_tight PreComputed_Zero_def)

text \<open>C32. Double and add: for every scalar of 32 bytes, \<^verbatim>\<open>GeScalarMult\<close> returns a representation of that multiple of the point.\<close>

theorem ge_scalar_mult:
  assumes "point_family g" and "ex_rep A (g u v)" and "length a = 32"
  shows "ex_rep (GeScalarMult a A) (g (le_int a * u) (le_int a * v))"
  by (rule GeScalarMult_rep [OF assms])

theorem ge_scalar_mult_witness: "ex_rep (GeScalarMult (7 # replicate 31 0) ex_order4) (- fe_el SqrtM1, 0)"
proof -
  have "ex_rep ex_order4 (ex_family 1 0)" using order4_rep(1) by (simp add: ex_family_def ex_point_def)
  moreover have "le_int (7 # replicate 31 0) = 7" by (simp add: le_int_def)
  ultimately show ?thesis using ge_scalar_mult [OF ex_family_ok, of ex_order4 1 0 "7 # replicate 31 0"]
    by (simp add: ex_family_def ex_point_def)
qed



text \<open>C34. A table of multiples: with rows of the first eight multiples of the powers of 256 of a point, the loops of
  \<^verbatim>\<open>GeScalarMultBase\<close> return a representation of the multiple of that point, for all scalars below \<open>2 ^ 255\<close>.\<close>

theorem ge_base_mult_table:
  assumes "point_family g" and "base_table base g u v" and "length a = 32" and "a ! 31 \<le> 127"
  shows "ex_rep (ge_base_mult base a) (g (le_int a * u) (le_int a * v))"
  by (rule base_mult_rep [OF assms])

theorem ge_base_mult_table_witness:
  "ex_rep (ge_base_mult (map (\<lambda>pos. map (\<lambda>i. ex_precomputed ((256 ^ pos * (int i + 1)) mod 4)) [0..<8]) [0..<32]) (9 # replicate 31 0)) (fe_el SqrtM1, 0)"
proof -
  let ?base = "map (\<lambda>pos. map (\<lambda>i. ex_precomputed ((256 ^ pos * (int i + 1)) mod 4)) [0..<8]) [0..<32]"
  have "base_table ?base ex_family 1 0"
    unfolding base_table_def using ex_precomputed_rep by (simp add: ex_family_def)
  moreover have "le_int (9 # replicate 31 0) = 9" by (simp add: le_int_def)
  ultimately show ?thesis using ge_base_mult_table [OF ex_family_ok, of ?base 1 0 "9 # replicate 31 0"]
    by (simp add: ex_family_def ex_point_def)
qed

text \<open>\<^verbatim>\<open>equal\<close> is documented to return 1 only on equal arguments. It also does so on arguments of different signs,
  which its only caller does not pass.\<close>

lemma ge_equal_signs: "ge_equal (- 2) 1 = 1 \<and> (- 2 :: 32 word) \<noteq> 1"
  by (simp add: ge_equal_def Let_def)

end
