(* ===== verification/Decode.thy ===== *)
theory Decode
  imports Multiply
begin

unbundle bit_operations_syntax

text \<open>
  The encodings of points in \<^verbatim>\<open>src/vrf/ed25519/edwards25519/edwards25519.go\<close>: 32 bytes that hold the second coordinate and the parity of the
  first. A method that writes through its receiver takes it as an argument and returns it as it leaves it,
  also when it fails. Shown: a decoded point is on the curve and has the coordinates its bytes name, encoding
  it again gives the canonical form of the bytes, and \<^verbatim>\<open>FromBytesBaseGroup\<close> accepts one encoding of a point.
\<close>

section \<open>Operations\<close>

definition ge_encode :: "fe \<Rightarrow> fe \<Rightarrow> fe \<Rightarrow> bytes" where
  "ge_encode X Y Z =
    (let recip = FeInvert Z;
         x = FeMul X recip;
         y = FeMul Y recip;
         s = fst (FeToBytes y)
     in s[31 := s ! 31 XOR push_bit 7 (fst (FeIsNegative x))])"

definition Projective_ToBytes :: "ProjectiveGroupElement \<Rightarrow> bytes" where
  "Projective_ToBytes p = ge_encode (prX p) (prY p) (prZ p)"

definition Extended_ToBytes :: "ExtendedGroupElement \<Rightarrow> bytes" where
  "Extended_ToBytes p = ge_encode (exX p) (exY p) (exZ p)"

text \<open>The candidate \<^verbatim>\<open>x\<close> of \<^verbatim>\<open>FromParityAndY\<close> with \<^verbatim>\<open>u\<close> and \<^verbatim>\<open>v\<close>.\<close>

definition ge_root :: "fe \<Rightarrow> fe \<times> fe \<times> fe" where
  "ge_root y =
    (let z = FeOne;
         u = FeSquare y;
         v = FeMul u fe_d;
         u = FeSub u z;
         v = FeAdd v z;
         v3 = FeSquare v;
         v3 = FeMul v3 v;
         x = FeSquare v3;
         x = FeMul x v;
         x = FeMul x u;
         x = fePow22523 x;
         x = FeMul x v3;
         x = FeMul x u
     in (u, v, x))"

definition FromParityAndY :: "ExtendedGroupElement \<Rightarrow> byte \<Rightarrow> fe \<Rightarrow> bool \<times> ExtendedGroupElement" where
  "FromParityAndY p parity y =
    (let (u, v, x) = ge_root y;
         p = p\<lparr>exX := x, exY := y, exZ := FeOne\<rparr>;
         vxx = FeMul (FeSquare x) v
     in if fst (FeIsNonZero (FeSub vxx u)) = 1 \<and> fst (FeIsNonZero (FeAdd vxx u)) = 1 then (False, p)
        else
         (let x = (if fst (FeIsNonZero (FeSub vxx u)) = 1 then snd (FeToBytes (FeMul x SqrtM1)) else x);
              (neg, x) = FeIsNegative x;
              x = (if neg \<noteq> parity then FeNeg x else x)
          in (True, p\<lparr>exX := x, exT := FeMul x y\<rparr>)))"

definition Extended_FromBytes :: "ExtendedGroupElement \<Rightarrow> bytes \<Rightarrow> bool \<times> ExtendedGroupElement" where
  "Extended_FromBytes p s = FromParityAndY p (drop_bit 7 (s ! 31)) (FeFromBytes s)"

definition Projective_ToExtended :: "ExtendedGroupElement \<Rightarrow> ProjectiveGroupElement \<Rightarrow> ExtendedGroupElement" where
  "Projective_ToExtended s p = snd (Extended_FromBytes s (Projective_ToBytes p))"

definition BasePointOrder :: bytes where
  "BasePointOrder = [237, 211, 245, 92, 26, 99, 18, 88, 214, 156, 247, 162, 222, 249, 222, 20, 0, 0, 0, 0, 0, 0, 0, 0, 0, 0, 0, 0, 0, 0, 0, 16]"

definition FromBytesBaseGroup :: "ExtendedGroupElement \<Rightarrow> bytes \<Rightarrow> bool \<times> ExtendedGroupElement" where
  "FromBytesBaseGroup p s =
    (if s = 1 # replicate 31 0 then (False, p)
     else
      (let (ok, p) = Extended_FromBytes p s
       in if \<not> ok then (False, p)
          else if Extended_ToBytes p \<noteq> s then (False, p)
          else if Extended_ToBytes (GeScalarMult BasePointOrder p) \<noteq> 1 # replicate 31 0 then (False, p)
          else if s = replicate 32 0 then (False, p)
          else (True, p)))"

section \<open>Decoding\<close>

lemma fe_el_zero: "fe_el f = 0 \<longleftrightarrow> fe_val f mod fe_p = 0"
  using fp_of_int_eq [of "fe_val f" 0] by (simp add: fe_el_def)

lemma nonzero_test: "fe_loose f \<Longrightarrow> fst (FeIsNonZero f) = 1 \<longleftrightarrow> fe_el f \<noteq> 0"
  using fe_tests [of f FeZero] by (simp add: fe_el_zero FeZero_def)

lemma sum_difference [simp]:
  assumes "fe_tight f" and "fe_tight g" and "fe_tight h"
  shows "fe_loose (FeAdd h (FeSub f g))" and "fe_el (FeAdd h (FeSub f g)) = fe_el h + (fe_el f - fe_el g)"
proof -
  note w = assms [unfolded fe_tight_def]
  have s: "fe_within 73819750 36909874 (FeSub f g)" using w by (simp add: fe_sum_tight)
  show "fe_loose (FeAdd h (FeSub f g))" unfolding fe_loose_def by (rule fe_sum_within [OF w(3) s]; simp)
  show "fe_el (FeAdd h (FeSub f g)) = fe_el h + (fe_el f - fe_el g)"
    using FeAdd_ok(2)[OF w(3) s] fe_half_sums(5)[OF assms(1) tight_half [OF assms(2)]] by (simp add: fe_el_def)
qed

lemma ge_root_ok:
  assumes "fe_tight y" and "ge_root y = (u, v, x)"
  shows "u = FeSub (FeSquare y) FeOne" and "fe_tight x" and "fe_loose v" and "fe_loose u"
    and "fe_el u = fe_el y * fe_el y - 1" and "fe_el v = fe_el y * fe_el y * curve_d + 1"
proof -
  show u: "u = FeSub (FeSquare y) FeOne" using assms(2) by (auto simp: ge_root_def Let_def)
  have v: "v = FeAdd (FeMul (FeSquare y) fe_d) FeOne" using assms(2) by (auto simp: ge_root_def Let_def)
  show lu: "fe_loose u" and lv: "fe_loose v" using assms(1) by (simp_all add: u v)
  have "x = FeMul (FeMul (fePow22523 (FeMul (FeMul (FeSquare (FeMul (FeSquare v) v)) v) u)) (FeMul (FeSquare v) v)) u"
    using assms(2) unfolding u v by (simp add: ge_root_def Let_def)
  moreover have "fe_loose (fePow22523 f)" if "fe_loose f" for f using fePow22523_pow [OF that] by (simp add: fe_pow_def)
  ultimately show "fe_tight x" using lu lv by simp
  show "fe_el u = fe_el y * fe_el y - 1" "fe_el v = fe_el y * fe_el y * curve_d + 1" using assms(1) by (simp_all add: u v curve_d_def)
qed

lemma ge_root_last: "fe_tight y \<Longrightarrow> ge_root y = (u, v, x) \<Longrightarrow> \<exists>t. x = FeMul t u \<and> fe_loose t"
proof -
  assume y: "fe_tight y" and r: "ge_root y = (u, v, x)"
  note k = ge_root_ok [OF y r]
  have "x = FeMul (FeMul (fePow22523 (FeMul (FeMul (FeSquare (FeMul (FeSquare v) v)) v) u)) (FeMul (FeSquare v) v)) u"
    using r by (auto simp: ge_root_def Let_def)
  moreover have "fe_loose (FeMul (fePow22523 (FeMul (FeMul (FeSquare (FeMul (FeSquare v) v)) v) u)) (FeMul (FeSquare v) v))"
    using k(3,4) fePow22523_pow by (simp add: fe_pow_def)
  ultimately show ?thesis by blast
qed

lemma to_bytes_el: "fe_loose f \<Longrightarrow> fe_half (snd (FeToBytes f)) \<and> fe_el (snd (FeToBytes f)) = fe_el f"
  using FeToBytes_ok(3,4)[of f] by (simp add: fe_half_def fe_el_def fp_mod)

lemma FeNeg_half: "fe_half f \<Longrightarrow> fe_half (FeNeg f) \<and> fe_el (FeNeg f) = - fe_el f"
  using FeNeg_ok [of 67108863 33554431 f] by (simp add: fe_half_def fe_el_def)

definition fp_parity :: "fp \<Rightarrow> int" where
  "fp_parity x = Rep_fp x mod 2"

lemma negative_test: "fe_loose f \<Longrightarrow> uint (fst (FeIsNegative f)) = fp_parity (fe_el f) \<and> snd (FeIsNegative f) = snd (FeToBytes f)"
  using fe_tests [of f FeZero] by (simp add: fp_parity_def fe_el_def fp_rep FeZero_def FeIsNegative_def split: prod.splits)

lemma parity_neg: "x \<noteq> 0 \<Longrightarrow> fp_parity (- x) = 1 - fp_parity x"
proof -
  assume "x \<noteq> 0"
  then have "Rep_fp x \<noteq> 0" by (metis Rep_fp_inject zero_fp.rep_eq)
  then have r: "0 < Rep_fp x" "Rep_fp x < fe_p" using Rep_fp [of x] by auto
  have "Rep_fp (- x) = fe_p - Rep_fp x"
    using r by (simp add: uminus_fp.rep_eq zmod_zminus1_eq_if mod_pos_pos_trivial)
  moreover have "fe_p mod 2 = 1" by (simp add: fe_p_def)
  ultimately show ?thesis unfolding fp_parity_def by presburger
qed

lemma from_parity_sound:
  assumes "fe_tight y" and "parity = 0 \<or> parity = 1" and "FromParityAndY p parity y = (True, q)"
  shows "\<exists>x. ex_rep q (x, fe_el y) \<and> on_curve (x, fe_el y) \<and> (x \<noteq> 0 \<longrightarrow> fp_parity x = uint parity) \<and> exZ q = FeOne"
proof -
  obtain u v x0 where r: "ge_root y = (u, v, x0)" by (cases "ge_root y")
  note k = ge_root_ok [OF assms(1) r]
  let ?vxx = "FeMul (FeSquare x0) v"
  define w where "w = fst (FeIsNonZero (FeSub ?vxx u))"
  define x1 where "x1 = (if w = 1 then snd (FeToBytes (FeMul x0 SqrtM1)) else x0)"
  define x2 where "x2 = snd (FeToBytes x1)"
  define x3 where "x3 = (if fst (FeIsNegative x1) \<noteq> parity then FeNeg x2 else x2)"
  have vt: "fe_tight ?vxx" "fe_el ?vxx = fe_el x0 * fe_el x0 * fe_el v" using k by simp_all
  have sub: "fe_loose (FeSub ?vxx u)" "fe_el (FeSub ?vxx u) = fe_el ?vxx - fe_el u"
    and add: "fe_loose (FeAdd ?vxx u)" "fe_el (FeAdd ?vxx u) = fe_el ?vxx + fe_el u"
    using assms(1) vt(1) by (simp_all add: k(1))
  have x1: "fe_half x1" "fe_el x1 = (if w = 1 then fe_el x0 * fe_el SqrtM1 else fe_el x0)"
    using to_bytes_el [of "FeMul x0 SqrtM1"] k(2) by (simp_all add: x1_def)
  have x2: "fe_half x2" "fe_el x2 = fe_el x1" using to_bytes_el [of x1] x1(1) by (simp_all add: x2_def)
  have x3: "fe_half x3" "fe_el x3 = fe_el x1 \<or> fe_el x3 = - fe_el x1" using FeNeg_half [OF x2(1)] x2 by (auto simp: x3_def)
  have neg: "uint (fst (FeIsNegative x1)) = fp_parity (fe_el x1)" "snd (FeIsNegative x1) = x2"
    using negative_test [of x1] x1(1) by (simp_all add: x2_def)
  have "\<not> (w = 1 \<and> fst (FeIsNonZero (FeAdd ?vxx u)) = 1)"
    using assms(3) by (auto simp: FromParityAndY_def r w_def Let_def)
  then have z: "if w = 1 then fe_el ?vxx + fe_el u = 0 else fe_el ?vxx - fe_el u = 0"
    using nonzero_test [OF sub(1)] nonzero_test [OF add(1)] sub(2) add(2) by (auto simp: w_def)
  have q: "q = p\<lparr>exX := x3, exY := y, exZ := FeOne, exT := FeMul x3 y\<rparr>"
    using assms(3) neg(2) unfolding x3_def x1_def w_def
    by (auto simp: FromParityAndY_def r Let_def split: prod.splits if_splits)
  have rep: "ex_rep q (fe_el x3, fe_el y)" using x3(1) assms(1) by (simp add: q ex_rep_def)
  have sq: "fe_el x3 * fe_el x3 * fe_el v = fe_el u"
  proof -
    have "fe_el x3 * fe_el x3 = fe_el x1 * fe_el x1" using x3(2) by auto
    moreover have "fe_el x0 * fe_el SqrtM1 * (fe_el x0 * fe_el SqrtM1) = (fe_el SqrtM1 * fe_el SqrtM1) * (fe_el x0 * fe_el x0)"
      by (simp only: ac_simps)
    then have "fe_el x0 * fe_el SqrtM1 * (fe_el x0 * fe_el SqrtM1) = - (fe_el x0 * fe_el x0)" by simp
    ultimately show ?thesis using z vt(2) x1(2) by (auto simp: add_eq_0_iff2 split: if_splits)
  qed
  have "fe_el y * fe_el y - 1 = fe_el x3 * fe_el x3 * (fe_el y * fe_el y * curve_d + 1)" using sq k(5,6) by simp
  then have "on_curve (fe_el x3, fe_el y)" by (simp add: on_curve_def algebra_simps)
  moreover have "fp_parity (fe_el x3) = uint parity" if nz: "fe_el x3 \<noteq> 0"
  proof (cases "fst (FeIsNegative x1) = parity")
    case False
    have "fe_el x1 \<noteq> 0" "fe_el x3 = - fe_el x1" using nz False x3(2) FeNeg_half [OF x2(1)] x2 by (auto simp: x3_def)
    then have "fp_parity (fe_el x3) = 1 - uint (fst (FeIsNegative x1))" using parity_neg neg(1) by simp
    moreover have "uint (fst (FeIsNegative x1)) = 0 \<or> uint (fst (FeIsNegative x1)) = 1" using neg(1) by (auto simp: fp_parity_def)
    ultimately show ?thesis using False assms(2) by (auto simp: word_uint_eq_iff)
  qed (use neg x2 in \<open>simp add: x3_def\<close>)
  ultimately show ?thesis using rep by (auto simp: q)
qed

section \<open>Encoding\<close>

lemma fe_el_invert: "fe_loose z \<Longrightarrow> fe_loose (FeInvert z) \<and> fe_el (FeInvert z) = fe_el z ^ (2 ^ 255 - 21)"
proof -
  assume "fe_loose z"
  then have "fe_loose (FeInvert z)" "fe_val (FeInvert z) mod fe_p = fe_val z ^ (2 ^ 255 - 21) mod fe_p"
    using FeInvert_pow [of z] unfolding fe_pow_def by blast+
  then show ?thesis unfolding fe_el_def of_int_power [symmetric] fp_of_int_eq by blast
qed

text \<open>The inverse that the code computes is one where Fermat's theorem holds for the denominator.\<close>

definition fermat :: "fp \<Rightarrow> bool" where
  "fermat z = (z * z ^ (2 ^ 255 - 21) = 1)"

lemma le_int_upd: "i < length s \<Longrightarrow> le_int (s[i := w]) = le_int s + (uint w - uint (s ! i)) * 2 ^ (8 * i)"
  using limbs_val_upd [of i "map uint s" "(*) 8" "uint w"] by (simp add: limbs_val_horner map_update le_int_def)

lemma le_int_top: "length s = 32 \<Longrightarrow> uint (s ! 31) = le_int s div 2 ^ 248"
proof -
  assume l: "length s = 32"
  then have "drop 31 s = [s ! 31]" using Cons_nth_drop_Suc [of 31 s] by simp
  then have "le_int (drop 31 s) = uint (s ! 31)" by (simp add: le_int_def)
  then show ?thesis by (simp add: le_int_drop drop_bit_eq_div)
qed

lemma set_top_bit:
  assumes "uint (b :: byte) < 128" and "n = 0 \<or> n = 1"
  shows "uint (b XOR push_bit 7 n) = uint b + 128 * uint n"
proof -
  have "b = take_bit 7 b" using assms(1) by (simp add: word_uint_eq_iff unsigned_take_bit_eq take_bit_int_eq_self)
  then have "\<not> bit b 7" by (metis bit_take_bit_iff less_irrefl)
  then have "\<not> (bit b m \<and> bit (push_bit 7 n) m)" if "m < 8" for m
    using that by (cases "m = 7") (auto simp: bit_simps)
  then have "b AND push_bit 7 n = 0" by (intro bit_word_eqI) (simp add: bit_and_iff)
  then have "b XOR push_bit 7 n = b + push_bit 7 n" by (simp add: disjunctive_add_eq_xor)
  moreover have "push_bit 7 n = (if n = 0 then 0 else 128)" using assms(2) by auto
  ultimately show ?thesis using assms by (auto simp: uint_word_arith_bintrs take_bit_eq_mod)
qed

lemma ge_encode_val:
  assumes "fe_loose X" and "fe_loose Y" and "fe_loose Z" and "fermat (fe_el Z)" and "fe_el X = x * fe_el Z" and "fe_el Y = y * fe_el Z"
  shows "length (ge_encode X Y Z) = 32 \<and> le_int (ge_encode X Y Z) = Rep_fp y + 2 ^ 255 * fp_parity x"
proof -
  let ?r = "FeInvert Z"
  define xx where "xx = FeMul X ?r"
  define yy where "yy = FeMul Y ?r"
  define s where "s = fst (FeToBytes yy)"
  have r: "fe_loose ?r" "fe_el Z * fe_el ?r = 1" using fe_el_invert [OF assms(3)] assms(4) by (simp_all add: fermat_def)
  have "fe_el xx = x" "fe_el yy = y" using r assms(1,2,5,6) by (simp_all add: xx_def yy_def mult.assoc)
  moreover have l: "fe_loose xx" "fe_loose yy" using r(1) assms(1,2) by (simp_all add: xx_def yy_def)
  ultimately have neg: "uint (fst (FeIsNegative xx)) = fp_parity x" and sv: "le_int s = Rep_fp y" and sl: "length s = 32"
    using negative_test [of xx] FeToBytes_ok(1,2)[of yy] fp_rep [of "fe_val yy"] by (simp_all add: s_def fe_el_def)
  have "Rep_fp y < fe_p" "0 \<le> Rep_fp y" using Rep_fp [of y] by auto
  then have "le_int s div 2 ^ 248 \<le> (2 ^ 255 - 1) div 2 ^ 248" unfolding sv by (intro zdiv_mono1) (simp_all add: fe_p_def)
  then have top: "uint (s ! 31) < 128" using le_int_top [OF sl] by simp
  have "fst (FeIsNegative xx) = 0 \<or> fst (FeIsNegative xx) = 1" using neg by (auto simp: fp_parity_def word_uint_eq_iff)
  from set_top_bit [OF top this] have "le_int (s[31 := s ! 31 XOR push_bit 7 (fst (FeIsNegative xx))]) = Rep_fp y + 2 ^ 255 * fp_parity x"
    using sl by (simp add: le_int_upd sv neg)
  then show ?thesis using sl by (simp add: ge_encode_def Let_def xx_def yy_def s_def)
qed

lemma fermat_one [simp]: "fermat 1" by (simp add: fermat_def)

lemma Extended_ToBytes_val:
  assumes "ex_rep p (x, y)" and "fermat (fe_el (exZ p))"
  shows "length (Extended_ToBytes p) = 32 \<and> le_int (Extended_ToBytes p) = Rep_fp y + 2 ^ 255 * fp_parity x"
  unfolding Extended_ToBytes_def using assms by (intro ge_encode_val) (simp_all add: ex_rep_def)

section \<open>Properties of the encodings of points\<close>

lemma top_parity: "length s = 32 \<Longrightarrow> uint (drop_bit 7 (s ! 31)) = le_int s div 2 ^ 255 \<and> (drop_bit 7 (s ! 31) = 0 \<or> drop_bit 7 (s ! 31) = 1)"
proof -
  assume l: "length s = 32"
  have d: "uint (drop_bit 7 (s ! 31)) = uint (s ! 31) div 128" by (simp add: drop_bit_eq_div uint_div)
  have "uint (s ! 31) div 128 = le_int s div 2 ^ 255" unfolding le_int_top [OF l] by (simp flip: zdiv_zmult2_eq)
  moreover have "uint (drop_bit 7 (s ! 31)) = 0 \<or> uint (drop_bit 7 (s ! 31)) = 1"
    unfolding d using byte_range [of "s ! 31"] by linarith
  ultimately show ?thesis unfolding d [symmetric] by (auto simp: word_uint_eq_iff)
qed

lemma from_bytes_sound:
  assumes "length s = 32" and "Extended_FromBytes p s = (True, q)"
  shows "\<exists>x. ex_rep q (x, of_int (le_int s mod 2 ^ 255)) \<and> on_curve (x, of_int (le_int s mod 2 ^ 255))
    \<and> (x \<noteq> 0 \<longrightarrow> fp_parity x = le_int s div 2 ^ 255) \<and> exZ q = FeOne"
proof -
  note f = FeFromBytes_ok [OF assms(1)] and t = top_parity [OF assms(1)]
  have "fe_el (FeFromBytes s) = of_int (le_int s mod 2 ^ 255)" using f(2) by (simp add: fe_el_def fp_of_int_eq)
  then show ?thesis
    using from_parity_sound [OF f(1) conjunct2 [OF t] assms(2)[unfolded Extended_FromBytes_def]] t by simp
qed

text \<open>C36. Decoding is sound: when \<^verbatim>\<open>FromBytes\<close> accepts 32 bytes, the element it leaves represents a point of the curve whose
  second coordinate is the number in the lower 255 bits and whose first has the parity of the top bit unless it
  is zero; encoding the element again gives the number reduced modulo the prime with the parity on top.\<close>

theorem from_bytes_point:
  assumes "length s = 32" and "Extended_FromBytes p s = (True, q)"
  shows "\<exists>x. let y = of_int (le_int s mod 2 ^ 255) in ex_rep q (x, y) \<and> on_curve (x, y)
    \<and> (x \<noteq> 0 \<longrightarrow> fp_parity x = le_int s div 2 ^ 255)
    \<and> le_int (Extended_ToBytes q) = le_int s mod 2 ^ 255 mod fe_p + 2 ^ 255 * fp_parity x"
proof -
  let ?y = "of_int (le_int s mod 2 ^ 255) :: fp"
  obtain x where x: "ex_rep q (x, ?y)" "on_curve (x, ?y)" "x \<noteq> 0 \<longrightarrow> fp_parity x = le_int s div 2 ^ 255" "exZ q = FeOne"
    using from_bytes_sound [OF assms] by blast
  have "le_int (Extended_ToBytes q) = Rep_fp ?y + 2 ^ 255 * fp_parity x"
    using Extended_ToBytes_val [OF x(1)] by (simp add: x(4))
  then show ?thesis using x unfolding Let_def fp_rep by blast
qed

lemma reencode_iff:
  assumes "length s = 32" and "Extended_FromBytes p s = (True, q)"
  shows "Extended_ToBytes q = s \<longleftrightarrow> le_int s mod 2 ^ 255 < fe_p \<and> (le_int s div 2 ^ 255 = 0 \<or> fe_el (exX q) \<noteq> 0)"
proof -
  let ?n = "le_int s" and ?y = "of_int (le_int s mod 2 ^ 255) :: fp"
  obtain x where x: "ex_rep q (x, ?y)" "x \<noteq> 0 \<longrightarrow> fp_parity x = ?n div 2 ^ 255" "exZ q = FeOne"
    using from_bytes_sound [OF assms] by blast
  have el: "fe_el (exX q) = x" using x by (simp add: ex_rep_def)
  have t: "length (Extended_ToBytes q) = 32" "le_int (Extended_ToBytes q) = ?n mod 2 ^ 255 mod fe_p + 2 ^ 255 * fp_parity x"
    using Extended_ToBytes_val [OF x(1)] unfolding x(3) fp_rep by simp_all
  have p: "fe_p < 2 ^ 255" "0 \<le> ?n mod 2 ^ 255 mod fe_p" "?n mod 2 ^ 255 mod fe_p < fe_p" "0 \<le> ?n mod 2 ^ 255" "?n mod 2 ^ 255 < 2 ^ 255"
    by (simp_all add: fe_p_def)
  have x0: "x = 0 \<Longrightarrow> fp_parity x = 0" by (simp add: fp_parity_def zero_fp.rep_eq)
  have split: "?n = ?n mod 2 ^ 255 + 2 ^ 255 * (?n div 2 ^ 255)" by simp
  have "Extended_ToBytes q = s \<longleftrightarrow> ?n mod 2 ^ 255 mod fe_p + 2 ^ 255 * fp_parity x = ?n"
    using le_int_inj [of "Extended_ToBytes q" s] t assms(1) by auto
  also have "\<dots> \<longleftrightarrow> ?n mod 2 ^ 255 mod fe_p = ?n mod 2 ^ 255 \<and> fp_parity x = ?n div 2 ^ 255"
  proof
    assume e: "?n mod 2 ^ 255 mod fe_p + 2 ^ 255 * fp_parity x = ?n"
    have r: "?n mod 2 ^ 255 mod fe_p < 2 ^ 255" using p by linarith
    have "(?n mod 2 ^ 255 mod fe_p + 2 ^ 255 * fp_parity x) mod 2 ^ 255 = ?n mod 2 ^ 255 mod fe_p"
      "(?n mod 2 ^ 255 mod fe_p + 2 ^ 255 * fp_parity x) div 2 ^ 255 = fp_parity x"
      using p(2) r by simp_all
    then show "?n mod 2 ^ 255 mod fe_p = ?n mod 2 ^ 255 \<and> fp_parity x = ?n div 2 ^ 255" unfolding e by simp
  next
    assume "?n mod 2 ^ 255 mod fe_p = ?n mod 2 ^ 255 \<and> fp_parity x = ?n div 2 ^ 255"
    then show "?n mod 2 ^ 255 mod fe_p + 2 ^ 255 * fp_parity x = ?n" using split by simp
  qed
  also have "?n mod 2 ^ 255 mod fe_p = ?n mod 2 ^ 255 \<longleftrightarrow> ?n mod 2 ^ 255 < fe_p" using p(3,4) by (metis mod_pos_pos_trivial)
  also have "fp_parity x = ?n div 2 ^ 255 \<longleftrightarrow> ?n div 2 ^ 255 = 0 \<or> x \<noteq> 0" using x(2) x0 by auto
  finally show ?thesis unfolding el .
qed

lemma base_group_iff:
  assumes "length s = 32"
  shows "FromBytesBaseGroup p s = (True, q) \<longleftrightarrow>
    Extended_FromBytes p s = (True, q) \<and> le_int s mod 2 ^ 255 < fe_p \<and> (le_int s div 2 ^ 255 = 0 \<or> fe_el (exX q) \<noteq> 0)
    \<and> Extended_ToBytes (GeScalarMult BasePointOrder q) = 1 # replicate 31 0 \<and> le_int s \<noteq> 0 \<and> le_int s \<noteq> 1"
proof -
  have z: "s = replicate 32 0 \<longleftrightarrow> le_int s = 0" "s = 1 # replicate 31 0 \<longleftrightarrow> le_int s = 1"
    using le_int_inj [of s "replicate 32 0"] le_int_inj [of s "1 # replicate 31 0"] assms by (auto simp: le_int_def)
  obtain ok p1 where f: "Extended_FromBytes p s = (ok, p1)" by (cases "Extended_FromBytes p s")
  show ?thesis
  proof (cases ok)
    case True
    then show ?thesis using f reencode_iff [OF assms, of p p1] z unfolding FromBytesBaseGroup_def f Let_def case_prod_conv by auto
  qed (auto simp: FromBytesBaseGroup_def f)
qed

text \<open>What \<^verbatim>\<open>FromBytesBaseGroup\<close> accepts: the strings that decode, are the canonical encoding of their point (the number is
  below the prime and there is no sign on a zero coordinate), are neither the neutral point nor zero, and whose
  multiple by the order of the base point encodes as the neutral point.\<close>

theorem base_group_accepts:
  assumes "length s = 32"
  shows "FromBytesBaseGroup p s = (True, q) \<longleftrightarrow>
    Extended_FromBytes p s = (True, q) \<and> le_int s mod 2 ^ 255 < fe_p \<and> (le_int s div 2 ^ 255 = 0 \<or> fe_el (exX q) \<noteq> 0)
    \<and> Extended_ToBytes (GeScalarMult BasePointOrder q) = 1 # replicate 31 0 \<and> le_int s \<noteq> 0 \<and> le_int s \<noteq> 1"
  by (rule base_group_iff [OF assms])

theorem base_group_accepts_witness: "fst (FromBytesBaseGroup Extended_Zero (1 # replicate 31 0)) = False"
proof -
  have "length (1 # replicate 31 (0 :: byte)) = 32" "le_int (1 # replicate 31 0) = 1" by (simp_all add: le_int_def)
  then show ?thesis using base_group_accepts [of "1 # replicate 31 0" Extended_Zero "snd (FromBytesBaseGroup Extended_Zero (1 # replicate 31 0))"]
    by (metis prod.collapse)
qed

text \<open>A point whose second coordinate is one decodes.\<close>

lemma from_bytes_one:
  assumes "length s = 32" and "le_int s = 1"
  shows "\<exists>q. Extended_FromBytes p s = (True, q)"
proof -
  let ?y = "FeFromBytes s"
  obtain u v x where r: "ge_root ?y = (u, v, x)" by (cases "ge_root ?y")
  note f = FeFromBytes_ok [OF assms(1)]
  note k = ge_root_ok [OF f(1) r]
  have y: "fe_el ?y = 1"
  proof -
    have "fe_val ?y mod fe_p = 1 mod fe_p" using f(2) assms(2) by simp
    then have "(of_int (fe_val ?y) :: fp) = of_int 1" by (simp only: fp_of_int_eq)
    then show ?thesis by (simp add: fe_el_def)
  qed
  have u: "fe_el u = 0" using k(5) y by simp
  obtain t where t: "x = FeMul t u" "fe_loose t" using ge_root_last [OF f(1) r] by blast
  then have "fe_el x = 0" using u k(4) by simp
  moreover have "fe_loose (FeSub (FeMul (FeSquare x) v) u)" "fe_el (FeSub (FeMul (FeSquare x) v) u) = fe_el (FeMul (FeSquare x) v) - fe_el u"
    using k f(1) by (simp_all add: k(1))
  ultimately have "fst (FeIsNonZero (FeSub (FeMul (FeSquare x) v) u)) \<noteq> 1" using nonzero_test u k by simp
  then show ?thesis by (auto simp: Extended_FromBytes_def FromParityAndY_def r Let_def split: prod.splits)
qed

theorem from_bytes_point_witness: "le_int (Extended_ToBytes (snd (Extended_FromBytes Extended_Zero (1 # replicate 31 0)))) mod 2 ^ 255 = 1"
proof -
  have s: "length (1 # replicate 31 (0 :: byte)) = 32" "le_int (1 # replicate 31 0) = 1" by (simp_all add: le_int_def)
  then obtain q where q: "Extended_FromBytes Extended_Zero (1 # replicate 31 0) = (True, q)" using from_bytes_one by blast
  from from_bytes_point [OF s(1) q] obtain x where "le_int (Extended_ToBytes q) = 1 mod 2 ^ 255 mod fe_p + 2 ^ 255 * fp_parity x"
    unfolding Let_def s(2) by blast
  then show ?thesis unfolding q by (simp add: fe_p_def)
qed

end
