(* ===== verification/Elligator.thy ===== *)
theory Elligator
  imports Base_Table
begin

unbundle bit_operations_syntax

text \<open>
  \<^verbatim>\<open>src/vrf/ed25519/extra25519/extra25519.go\<close>: conversions between the Edwards and the Montgomery form of the curve and the Elligator map.
  SHA-512 is an argument. A function that reports failure or panics returns \<open>None\<close> then. Shown: the exponents of
  the two chains of squarings, what the comparison of byte strings decides, that clamped keys
  meet the precondition of the multiplication, and that hashing to the curve returns points of the curve.
\<close>

section \<open>Keys\<close>

definition clamp :: "bytes \<Rightarrow> bytes" where
  "clamp x = (let x = x[0 := x ! 0 AND 248]; x = x[31 := x ! 31 AND 127] in x[31 := x ! 31 OR 64])"

definition PrivateKeyToCurve25519 :: "(bytes \<Rightarrow> bytes) \<Rightarrow> bytes \<Rightarrow> bytes" where
  "PrivateKeyToCurve25519 sha512 privateKey = take 32 (clamp (sha512 (take 32 privateKey)))"

definition edwardsToMontgomeryX :: "fe \<Rightarrow> fe" where
  "edwardsToMontgomeryX y = (let oneMinusY = FeInvert (FeSub FeOne y) in FeMul (FeAdd FeOne y) oneMinusY)"

definition ge_var :: ExtendedGroupElement where
  "ge_var = \<lparr>exX = FeZero, exY = FeZero, exZ = FeZero, exT = FeZero\<rparr>"

definition PublicKeyToCurve25519 :: "bytes \<Rightarrow> bytes option" where
  "PublicKeyToCurve25519 publicKey =
    (let (ok, A) = Extended_FromBytes ge_var publicKey
     in if \<not> ok then None else Some (fst (FeToBytes (edwardsToMontgomeryX (exY A)))))"

section \<open>Constants and powers\<close>

definition fe_A :: fe where
  "fe_A = [486662, 0, 0, 0, 0, 0, 0, 0, 0, 0]"

definition sqrtMinusA :: fe where
  "sqrtMinusA = [12222970, 8312128, 11511410, -9067497, 15300785, 241793, -25456130, -14121551, 12187136, -3972024]"

definition sqrtMinusHalf :: fe where
  "sqrtMinusHalf = [-17256545, 3971863, 28865457, -1750208, 27359696, -16640980, 12573105, 1002827, -163343, 11073975]"

definition halfQMinus1Bytes :: bytes where
  "halfQMinus1Bytes = 246 # replicate 30 255 @ [63]"

text \<open>The comparison runs from the last byte to the first, with masks of all ones or zeros in \<^verbatim>\<open>int32\<close>.\<close>

definition fe_bytes_step :: "bytes \<Rightarrow> bytes \<Rightarrow> nat \<Rightarrow> 32 word \<times> 32 word \<Rightarrow> 32 word \<times> 32 word" where
  "fe_bytes_step a b i = (\<lambda>(equalSoFar, greater).
    let x = ucast (a ! i) :: 32 word; y = ucast (b ! i) :: 32 word;
        greater = (NOT equalSoFar AND greater) OR (equalSoFar AND signed_drop_bit 31 (x - y));
        equalSoFar = equalSoFar AND signed_drop_bit 31 ((x XOR y) - 1)
    in (equalSoFar, greater))"

definition feBytesLE :: "bytes \<Rightarrow> bytes \<Rightarrow> 32 word" where
  "feBytesLE a b = (let (equalSoFar, greater) = fold (fe_bytes_step a b) (rev [0..<32]) (- 1, 0) in NOT equalSoFar AND 1 AND greater)"

definition q58 :: "fe \<Rightarrow> fe" where
  "q58 z =
    (let t1 = FeSquare z;
         t1 = FeMul t1 z;
         t1 = FeSquare t1;
         t2 = FeSquare t1;
         t2 = FeSquare t2;
         t2 = FeMul t2 t1;
         t1 = FeMul t2 z;
         t2 = FeSquare t1;
         t2 = fe_squares 5 t2;
         t1 = FeMul t2 t1;
         t2 = FeSquare t1;
         t2 = fe_squares 10 t2;
         t2 = FeMul t2 t1;
         t3 = FeSquare t2;
         t3 = fe_squares 20 t3;
         t2 = FeMul t3 t2;
         t2 = FeSquare t2;
         t2 = fe_squares 10 t2;
         t1 = FeMul t2 t1;
         t2 = FeSquare t1;
         t2 = fe_squares 50 t2;
         t2 = FeMul t2 t1;
         t3 = FeSquare t2;
         t3 = fe_squares 100 t3;
         t2 = FeMul t3 t2;
         t2 = FeSquare t2;
         t2 = fe_squares 50 t2;
         t1 = FeMul t2 t1;
         t1 = FeSquare t1;
         t1 = FeSquare t1
     in FeMul t1 z)"

definition chi :: "fe \<Rightarrow> fe" where
  "chi z =
    (let t0 = FeSquare z;
         t1 = FeMul t0 z;
         t0 = FeSquare t1;
         t2 = FeSquare t0;
         t2 = FeSquare t2;
         t2 = FeMul t2 t0;
         t1 = FeMul t2 z;
         t2 = FeSquare t1;
         t2 = fe_squares 5 t2;
         t1 = FeMul t2 t1;
         t2 = FeSquare t1;
         t2 = fe_squares 10 t2;
         t2 = FeMul t2 t1;
         t3 = FeSquare t2;
         t3 = fe_squares 20 t3;
         t2 = FeMul t3 t2;
         t2 = FeSquare t2;
         t2 = fe_squares 10 t2;
         t1 = FeMul t2 t1;
         t2 = FeSquare t1;
         t2 = fe_squares 50 t2;
         t2 = FeMul t2 t1;
         t3 = FeSquare t2;
         t3 = fe_squares 100 t3;
         t2 = FeMul t3 t2;
         t2 = FeSquare t2;
         t2 = fe_squares 50 t2;
         t1 = FeMul t2 t1;
         t1 = FeSquare t1;
         t1 = fe_squares 4 t1
     in FeMul t1 t0)"

section \<open>The Elligator map\<close>

definition ScalarBaseMult :: "bytes \<Rightarrow> (bytes \<times> bytes) option" where
  "ScalarBaseMult privateKey =
    (let A = GeScalarMultBase (clamp privateKey);
         inv1 = FeSub (exZ A) (exY A);
         inv1 = FeMul inv1 (exX A);
         inv1 = FeInvert inv1;
         u = FeMul inv1 (exX A);
         t0 = FeAdd (exY A) (exZ A);
         u = FeMul u t0;
         v = FeMul t0 inv1;
         v = FeMul v (exZ A);
         v = FeMul v sqrtMinusA;
         b = FeAdd u fe_A;
         b3 = FeSquare b;
         b3 = FeMul b3 b;
         c = FeSquare b3;
         c = FeMul c b;
         b8 = FeMul c b;
         c = FeMul c u;
         c = q58 c;
         chi = FeSquare c;
         chi = FeSquare chi;
         t0 = FeSquare u;
         chi = FeMul chi t0;
         t0 = FeSquare b;
         t0 = FeMul t0 b;
         t0 = FeSquare t0;
         t0 = FeMul t0 b;
         t0 = FeSquare t0;
         chi = FeMul chi t0;
         chi = FeNeg chi
     in if fst (FeToBytes chi) ! 1 = 255 then None
        else
         (let r1 = FeMul c u;
              r1 = FeMul r1 b3;
              r1 = FeMul r1 sqrtMinusHalf;
              t0 = FeSquare r1;
              t0 = FeMul t0 b;
              t0 = FeAdd t0 t0;
              t0 = FeAdd t0 u;
              maybeSqrtM1 = FeCMove FeOne SqrtM1 (fst (FeIsNonZero t0));
              r1 = FeMul r1 maybeSqrtM1;
              t0 = FeSquare c;
              t0 = FeMul t0 c;
              t0 = FeSquare t0;
              r = FeMul t0 c;
              t0 = FeSquare u;
              t0 = FeMul t0 u;
              r = FeMul r t0;
              t0 = FeSquare b8;
              t0 = FeMul t0 b8;
              t0 = FeMul t0 b;
              r = FeMul r t0;
              r = FeMul r sqrtMinusHalf;
              t0 = FeSquare r;
              t0 = FeMul t0 u;
              t0 = FeAdd t0 t0;
              t0 = FeAdd t0 b;
              maybeSqrtM1 = FeCMove FeOne SqrtM1 (fst (FeIsNonZero t0));
              r = FeMul r maybeSqrtM1;
              vInSquareRootImage = feBytesLE (fst (FeToBytes v)) halfQMinus1Bytes;
              r = FeCMove r r1 vInSquareRootImage
          in Some (fst (FeToBytes u), fst (FeToBytes r))))"

definition representativeToMontgomeryX :: "fe \<Rightarrow> fe" where
  "representativeToMontgomeryX rr2 =
    (let rr2 = FeSquare2 rr2;
         rr2 = rr2[0 := rr2 ! 0 + 1];
         rr2 = FeInvert rr2;
         v = FeMul fe_A rr2;
         v = FeNeg v;
         v2 = FeSquare v;
         v3 = FeMul v v2;
         e = FeAdd v3 v;
         v2 = FeMul v2 fe_A;
         e = FeAdd v2 e;
         e = chi e;
         eIsMinus1 = ucast (fst (FeToBytes e) ! 1) AND 1;
         negV = FeNeg v;
         v = FeCMove v negV eIsMinus1;
         v2 = FeCMove FeZero fe_A eIsMinus1
     in FeSub v v2)"

definition RepresentativeToPublicKey :: "bytes \<Rightarrow> bytes" where
  "RepresentativeToPublicKey representative = fst (FeToBytes (representativeToMontgomeryX (FeFromBytes representative)))"

definition montgomeryXToEdwardsY :: "fe \<Rightarrow> fe" where
  "montgomeryXToEdwardsY x = (let t = FeOne; tt = FeAdd x t; tt = FeInvert tt; t = FeSub x t in FeMul tt t)"

definition HashToEdwards :: "bytes \<Rightarrow> ExtendedGroupElement option" where
  "HashToEdwards h =
    (let parity = drop_bit 7 (h ! 31);
         hh = h[31 := h ! 31 AND 127];
         x = representativeToMontgomeryX (FeFromBytes hh);
         y = montgomeryXToEdwardsY x;
         (ok, out) = FromParityAndY (ge_var\<lparr>exX := x, exY := y\<rparr>) parity y
     in if ok then Some out else None)"

section \<open>Powers\<close>

lemma q58_pow: "fe_loose z \<Longrightarrow> fe_pow z (2 ^ 252 - 3) (q58 z)"
  unfolding q58_def
  apply (drule fe_pow_self, rule fe_pow_eq)
   apply (rule fe_pow_let, (rule fe_pow_square | rule fe_pow_squares | rule fe_pow_mul), assumption+)+
   apply (rule fe_pow_mul, assumption+)
  apply simp
  done

lemma chi_pow: "fe_loose z \<Longrightarrow> fe_pow z (2 ^ 254 - 10) (chi z)"
  unfolding chi_def
  apply (drule fe_pow_self, rule fe_pow_eq)
   apply (rule fe_pow_let, (rule fe_pow_square | rule fe_pow_squares | rule fe_pow_mul), assumption+)+
   apply (rule fe_pow_mul, assumption+)
  apply simp
  done

section \<open>Comparison\<close>

lemma mask_cases:
  fixes x y :: byte
  defines "u \<equiv> ucast x :: 32 word" and "v \<equiv> ucast y :: 32 word"
  shows "signed_drop_bit 31 (u - v) = (if uint x < uint y then - 1 else 0)"
    and "signed_drop_bit 31 ((u XOR v) - 1) = (if x = y then - 1 else 0)"
proof -
  have s: "sint (word_of_int k :: 32 word) = k" if "\<bar>k\<bar> < 2 ^ 31" for k using that by (intro sint_in [where n = 31]) auto
  have d: "signed_drop_bit 31 (word_of_int k :: 32 word) = (if k < 0 then - 1 else 0)" if "\<bar>k\<bar> < 2 ^ 31" for k
  proof -
    have "sint (signed_drop_bit 31 (word_of_int k :: 32 word)) = k div 2 ^ 31" using s [OF that] by (simp add: sint_drop)
    also have "\<dots> = (if k < 0 then - 1 else 0)" using that by (auto simp: div_minus_one div_pos_pos_trivial)
    finally show ?thesis by (metis (mono_tags) signed_0 signed_minus_1 signed_word_eqI)
  qed
  have e: "u - v = word_of_int (uint x - uint y)" by (simp add: u_def v_def)
  have "\<bar>uint x - uint y\<bar> < 256" using byte_range [of x] byte_range [of y] by linarith
  then have b: "\<bar>uint x - uint y\<bar> < 2 ^ 31" by simp
  show "signed_drop_bit 31 (u - v) = (if uint x < uint y then - 1 else 0)" unfolding e d [OF b] by simp
  have "u XOR v = ucast (x XOR y)" unfolding u_def v_def by (rule bit_word_eqI) (auto simp: bit_simps)
  then have e': "(u XOR v) - 1 = word_of_int (uint (x XOR y) - 1)" by simp
  have "\<bar>uint (x XOR y) - 1\<bar> < 256" using byte_range [of "x XOR y"] by linarith
  then have b': "\<bar>uint (x XOR y) - 1\<bar> < 2 ^ 31" by simp
  have "x XOR y = 0 \<longleftrightarrow> x = y" by (auto simp: bit_eq_iff bit_simps)
  moreover have "uint (x XOR y) = 0 \<longleftrightarrow> x XOR y = 0" by (rule unsigned_eq_0_iff)
  moreover have "uint (x XOR y) - 1 < 0 \<longleftrightarrow> uint (x XOR y) = 0" using byte_range [of "x XOR y"] by (intro iffI; linarith)
  ultimately have "uint (x XOR y) - 1 < 0 \<longleftrightarrow> x = y" by blast
  then show "signed_drop_bit 31 ((u XOR v) - 1) = (if x = y then - 1 else 0)" unfolding e' d [OF b'] by simp
qed

lemma bytes_step_masks:
  "fe_bytes_step a b n (if e then - 1 else 0, if g then - 1 else 0)
    = (if e \<and> a ! n = b ! n then - 1 else 0, if (if e then uint (a ! n) < uint (b ! n) else g) then - 1 else 0)"
  by (simp add: fe_bytes_step_def Let_def mask_cases)

lemma le_int_step: "i < length a \<Longrightarrow> le_int (drop i a) = uint (a ! i) + 256 * le_int (drop (Suc i) a)"
  by (simp add: le_int_def flip: Cons_nth_drop_Suc)

lemma bytes_steps:
  assumes "length a = 32" and "length b = 32" and "n \<le> 32"
  shows "fold (fe_bytes_step a b) (rev [n..<32]) (- 1, 0)
    = (if drop n a = drop n b then - 1 else 0, if le_int (drop n a) < le_int (drop n b) then - 1 else 0)"
  using assms(3)
proof (induction n rule: inc_induct)
  case base
  then show ?case using assms(1,2) by simp
next
  case (step n)
  let ?e = "drop (Suc n) a = drop (Suc n) b" and ?l = "le_int (drop (Suc n) a)" and ?m = "le_int (drop (Suc n) b)"
  have "rev [n..<32] = rev [Suc n..<32] @ [n]" using step.hyps by (simp add: upt_conv_Cons)
  then have f: "fold (fe_bytes_step a b) (rev [n..<32]) (- 1, 0) = fe_bytes_step a b n (if ?e then - 1 else 0, if ?l < ?m then - 1 else 0)"
    using step.IH by simp
  have la: "le_int (drop n a) = uint (a ! n) + 256 * ?l" "le_int (drop n b) = uint (b ! n) + 256 * ?m"
    using le_int_step step.hyps assms(1,2) by simp_all
  have eq: "drop n a = drop n b \<longleftrightarrow> ?e \<and> a ! n = b ! n"
    using step.hyps assms(1,2) by (auto simp flip: Cons_nth_drop_Suc)
  have ne: "?l \<noteq> ?m" if "\<not> ?e" using that le_int_inj [of "drop (Suc n) a" "drop (Suc n) b"] assms(1,2) by auto
  have lt: "le_int (drop n a) < le_int (drop n b) \<longleftrightarrow> (if ?e then uint (a ! n) < uint (b ! n) else ?l < ?m)"
  proof (cases ?e)
    case False
    then have "?l < ?m \<or> ?m < ?l" using ne by linarith
    then have "uint (a ! n) + 256 * ?l < uint (b ! n) + 256 * ?m \<longleftrightarrow> ?l < ?m"
      using byte_range [of "a ! n"] byte_range [of "b ! n"] by (intro iffI; linarith)
    then show ?thesis unfolding la using False by simp
  qed (simp add: la)
  show ?case unfolding f bytes_step_masks eq lt ..
qed

lemma fe_bytes_less: "length a = 32 \<Longrightarrow> length b = 32 \<Longrightarrow> feBytesLE a b = (if le_int a < le_int b then 1 else 0)"
  using bytes_steps [of a b 0] by (auto simp: feBytesLE_def)

section \<open>Keys are clamped\<close>

lemma clamp_byte0: "uint (w AND 248 :: byte) mod 8 = 0"
proof -
  have "(248 :: byte) = NOT (mask 3)" by (simp add: mask_eq_exp_minus_1 not_eq_complement)
  then have "take_bit 3 (w AND 248) = 0" by (simp only:) (rule bit_word_eqI, auto simp: bit_simps)
  then have "take_bit 3 (uint (w AND 248)) = 0" by (metis unsigned_0 unsigned_take_bit_eq)
  then show ?thesis by (simp add: take_bit_eq_mod)
qed

lemma clamp_byte31: "64 \<le> uint ((w AND 127) OR 64 :: byte) \<and> uint ((w AND 127) OR 64 :: byte) < 128"
proof -
  let ?v = "(w AND 127) OR 64 :: byte"
  have m: "(127 :: byte) = mask 7" "(64 :: byte) = push_bit 6 1" by (simp_all add: mask_eq_exp_minus_1)
  have "take_bit 7 ?v = ?v" unfolding m by (rule bit_word_eqI) (auto simp: bit_simps)
  then have "uint ?v = take_bit 7 (uint ?v)" by (metis unsigned_take_bit_eq)
  then have "uint ?v < 128" using take_bit_int_less_exp [of 7 "uint ?v"] by simp
  moreover have "(64 :: byte) \<le> ?v" by (metis or.commute le_word_or2)
  then have "64 \<le> uint ?v" by (simp add: word_le_def)
  ultimately show ?thesis by blast
qed

lemma clamp_range:
  assumes "length x = 32"
  shows "length (clamp x) = 32 \<and> le_int (clamp x) mod 8 = 0 \<and> 2 ^ 254 \<le> le_int (clamp x) \<and> le_int (clamp x) < 2 ^ 255 \<and> clamp x ! 31 \<le> 127"
proof -
  let ?c = "clamp x"
  have l: "length ?c = 32" by (simp add: clamp_def Let_def assms)
  have b: "?c ! 0 = x ! 0 AND 248" "?c ! 31 = (x ! 31 AND 127) OR 64" using assms by (simp_all add: clamp_def Let_def)
  have top: "64 \<le> le_int ?c div 2 ^ 248" "le_int ?c div 2 ^ 248 < 128"
    using clamp_byte31 [of "x ! 31"] le_int_top [OF l] b(2) by simp_all
  then have "2 ^ 254 \<le> le_int ?c" "le_int ?c < 2 ^ 255" by simp_all
  moreover have "le_int ?c = uint (?c ! 0) + 256 * le_int (drop 1 ?c)" using le_int_step [of 0 ?c] l by simp
  then have "le_int ?c mod 8 = uint (?c ! 0) mod 8" by (simp add: mod_add_eq [symmetric] mod_mult_eq [symmetric])
  then have "le_int ?c mod 8 = 0" using clamp_byte0 [of "x ! 0"] b(1) by simp
  moreover have "?c ! 31 \<le> 127" using clamp_byte31 [of "x ! 31"] b(2) by (simp add: word_le_def)
  ultimately show ?thesis using l by blast
qed

section \<open>Hashing to the curve\<close>

lemma fe_A_tight: "fe_tight fe_A"
  by (simp add: fe_A_def fe_tight_def fe_within_def fe_bound_def all_ten)

lemma cmove_fe_tight: "fe_tight f \<Longrightarrow> fe_tight g \<Longrightarrow> b = 0 \<or> b = 1 \<Longrightarrow> fe_tight (FeCMove f g b)"
  using CMove_select [of f g b] by (simp add: loose_length)

lemma inc_loose:
  assumes "fe_tight f"
  shows "fe_loose (f[0 := f ! 0 + 1])"
proof -
  have l: "length f = 10" and b: "i < 10 \<Longrightarrow> \<bar>sint (f ! i)\<bar> \<le> fe_bound 36909875 18454937 i" for i
    using assms by (auto simp: fe_tight_def fe_within_def)
  have "\<bar>sint (f ! 0)\<bar> \<le> 36909875" using b [of 0] by (simp add: fe_bound_def)
  moreover from this have "sint (word_of_int (sint (f ! 0) + 1) :: 32 word) = sint (f ! 0) + 1" by (intro sint_in [where n = 31]) auto
  ultimately have "\<bar>sint (f ! 0 + 1)\<bar> \<le> 110729625" by simp
  moreover have "fe_bound 36909875 18454937 i \<le> fe_bound 110729625 55364812 i" for i by (simp add: fe_bound_def)
  ultimately show ?thesis using l b
    unfolding fe_loose_def fe_within_def by (auto simp: nth_list_update fe_bound_def [of _ _ 0] intro: order_trans)
qed

lemma sum_sum [simp]: "fe_tight f \<Longrightarrow> fe_tight g \<Longrightarrow> fe_tight h \<Longrightarrow> fe_loose (FeAdd h (FeAdd f g))"
proof -
  assume "fe_tight f" "fe_tight g" "fe_tight h"
  note w = this [unfolded fe_tight_def]
  have s: "fe_within 73819750 36909874 (FeAdd f g)" using w by (simp add: fe_sum_tight)
  show ?thesis unfolding fe_loose_def by (rule fe_sum_within [OF w(3) s]; simp)
qed

lemma difference_one [simp]:
  assumes "fe_tight f" and "fe_tight g"
  shows "fe_loose (FeAdd (FeSub f g) FeOne)" and "fe_loose (FeSub (FeSub f g) FeOne)"
proof -
  have w: "fe_within 73819750 36909874 (FeSub f g)" "fe_within 36909875 18454937 FeOne"
    using assms fe_el_consts(4) unfolding fe_tight_def by (simp_all add: fe_sum_tight)
  show "fe_loose (FeAdd (FeSub f g) FeOne)" "fe_loose (FeSub (FeSub f g) FeOne)"
    unfolding fe_loose_def by (rule fe_sum_within [OF w]; simp)+
qed

lemma power_loose: "fe_loose z \<Longrightarrow> fe_loose (FeInvert z)" "fe_loose z \<Longrightarrow> fe_loose (chi z)"
  using FeInvert_pow [of z] chi_pow [of z] by (simp_all add: fe_pow_def)

lemma representative_difference:
  assumes "fe_tight r"
  shows "\<exists>f g. representativeToMontgomeryX r = FeSub f g \<and> fe_tight f \<and> fe_tight g"
proof -
  define v where "v = FeNeg (FeMul fe_A (FeInvert ((FeSquare2 r)[0 := FeSquare2 r ! 0 + 1])))"
  define n where "n = (ucast (fst (FeToBytes (chi (FeAdd (FeMul (FeSquare v) fe_A) (FeAdd (FeMul v (FeSquare v)) v)))) ! 1) AND 1 :: 32 word)"
  have "fe_tight v" unfolding v_def using assms fe_A_tight by (intro FeNeg_tight fe_bounds power_loose inc_loose) simp_all
  moreover have "n = 0 \<or> n = 1" unfolding n_def by (rule word_one_bit)
  moreover have "representativeToMontgomeryX r = FeSub (FeCMove v (FeNeg v) n) (FeCMove FeZero fe_A n)"
    by (simp add: representativeToMontgomeryX_def Let_def v_def n_def)
  moreover have "fe_tight (FeCMove v (FeNeg v) n)" "fe_tight (FeCMove FeZero fe_A n)"
    using calculation(1,2) fe_A_tight by (simp_all add: cmove_fe_tight FeNeg_tight)
  ultimately show ?thesis by blast
qed

lemma hash_to_edwards_curve:
  assumes "length h = 32" and "HashToEdwards h = Some q"
  shows "\<exists>x y. ex_rep q (x, y) \<and> on_curve (x, y) \<and> (x \<noteq> 0 \<longrightarrow> fp_parity x = le_int h div 2 ^ 255)"
proof -
  let ?hh = "h[31 := h ! 31 AND 127]"
  define x where "x = representativeToMontgomeryX (FeFromBytes ?hh)"
  define y where "y = montgomeryXToEdwardsY x"
  have "fe_tight (FeFromBytes ?hh)" using FeFromBytes_ok(1)[of ?hh] assms(1) by simp
  then obtain f g where "x = FeSub f g" "fe_tight f" "fe_tight g" using representative_difference x_def by blast
  then have y: "fe_tight y" by (simp add: y_def montgomeryXToEdwardsY_def Let_def power_loose)
  have "FromParityAndY (ge_var\<lparr>exX := x, exY := y\<rparr>) (drop_bit 7 (h ! 31)) y = (True, q)"
    using assms(2) by (simp add: HashToEdwards_def Let_def x_def y_def split: prod.splits if_splits)
  from from_parity_sound [OF y _ this] show ?thesis using top_parity [OF assms(1)] by auto
qed

section \<open>Properties of the conversions\<close>

text \<open>The chains of squarings: \<^verbatim>\<open>q58\<close> raises to \<open>(p - 5) / 8\<close> and \<^verbatim>\<open>chi\<close> to \<open>(p - 1) / 2\<close> modulo the prime \<open>p\<close>, as their
  comments say, without overflow.\<close>

theorem elligator_powers:
  assumes "fe_loose z"
  shows "fe_loose (q58 z) \<and> fe_val (q58 z) mod fe_p = fe_val z ^ nat ((fe_p - 5) div 8) mod fe_p
    \<and> fe_loose (chi z) \<and> fe_val (chi z) mod fe_p = fe_val z ^ nat ((fe_p - 1) div 2) mod fe_p"
proof -
  have "nat ((fe_p - 5) div 8) = 2 ^ 252 - 3" "nat ((fe_p - 1) div 2) = 2 ^ 254 - 10" by (simp_all add: fe_p_def)
  then show ?thesis using q58_pow [OF assms] chi_pow [OF assms] unfolding fe_pow_def by metis
qed

theorem elligator_powers_witness: "fe_val (chi FeOne) mod fe_p = 1"
proof -
  have "fe_val (chi FeOne) mod fe_p = fe_val FeOne ^ nat ((fe_p - 1) div 2) mod fe_p"
    using elligator_powers [of FeOne] by simp
  then show ?thesis unfolding FeOne_val by (simp add: fe_p_def)
qed

text \<open>\<^verbatim>\<open>feBytesLE\<close> returns one exactly if the first number is below the second. On equal numbers it returns zero, where its
  comment says one.\<close>

theorem fe_bytes_le_strict:
  assumes "length a = 32" and "length b = 32"
  shows "feBytesLE a b = (if le_int a < le_int b then 1 else 0)"
  by (rule fe_bytes_less [OF assms])

theorem fe_bytes_le_strict_witness: "feBytesLE (replicate 32 7) (replicate 32 7) = 0"
  using fe_bytes_le_strict [of "replicate 32 7" "replicate 32 7"] by simp

end
