(* ===== verification/Vrf25519.thy ===== *)
theory Vrf25519
  imports Elligator Scalar
begin

unbundle bit_operations_syntax

text \<open>
  The verifiable random function of \<^verbatim>\<open>src/vrf/vrf.go\<close> and the signatures of \<^verbatim>\<open>src/vrf/ed25519/ed25519.go\<close>, over the points and scalars of
  the other theories. SHAKE256 is an argument \<^verbatim>\<open>shake\<close> that gives the first bytes of the output for a message, so
  that a hash that is read twice is split; SHA-512 is an argument \<^verbatim>\<open>sha512\<close>. A panic of \<^verbatim>\<open>HashToEdwards\<close> is \<open>None\<close>. Shown:
  \<^verbatim>\<open>Prove\<close> returns the value of \<^verbatim>\<open>Compute\<close> and a response that solves the equation of the proof, \<^verbatim>\<open>Verify\<close> rejects values that
  are not the hash of the proof's point and keys that are not canonical, and signatures have reduced
  responses that \<^verbatim>\<open>Verify\<close> does not turn away for their size.
\<close>

type_synonym shake = "bytes \<Rightarrow> nat \<Rightarrow> bytes"

definition shake_ok :: "shake \<Rightarrow> bool" where
  "shake_ok shake = (\<forall>m n. length (shake m n) = n)"

section \<open>The verifiable random function\<close>

definition expandSecret :: "shake \<Rightarrow> bytes \<Rightarrow> bytes \<times> bytes" where
  "expandSecret shake sk =
    (let out = shake (take 32 sk) 64;
         x = take 32 out;
         skhr = drop 32 out;
         x = x[0 := x ! 0 AND 248];
         x = x[31 := x ! 31 AND 127];
         x = x[31 := x ! 31 OR 64]
     in (x, skhr))"

text \<open>The argument is what can be read from \<^verbatim>\<open>rnd\<close>.\<close>

definition vrf_GenerateKey :: "shake \<Rightarrow> bytes \<Rightarrow> (bytes \<times> bytes) option" where
  "vrf_GenerateKey shake rnd =
    (if length rnd < 32 then None
     else
      (let sk = take 32 rnd @ replicate 32 0;
           (x, _) = expandSecret shake sk;
           pkP = GeScalarMultBase x;
           pkBytes = Extended_ToBytes pkP
       in Some (pkBytes, take 32 sk @ pkBytes)))"

definition hashToCurve :: "shake \<Rightarrow> bytes \<Rightarrow> ExtendedGroupElement option" where
  "hashToCurve shake m =
    (case HashToEdwards (shake m 32) of
       None \<Rightarrow> None
     | Some hm \<Rightarrow> Some (GeDouble (GeDouble (GeDouble hm))))"

definition vrf_Compute :: "shake \<Rightarrow> bytes \<Rightarrow> bytes \<Rightarrow> bytes option" where
  "vrf_Compute shake m sk =
    (let (x, _) = expandSecret shake sk
     in case hashToCurve shake m of
          None \<Rightarrow> None
        | Some hm \<Rightarrow>
           (let ii = GeScalarMult x hm;
                iiB = Extended_ToBytes ii
            in Some (shake (iiB @ m) 32)))"

definition vrf_Prove :: "shake \<Rightarrow> bytes \<Rightarrow> bytes \<Rightarrow> (bytes \<times> bytes) option" where
  "vrf_Prove shake m sk =
    (let (x, skhr) = expandSecret shake sk
     in case hashToCurve shake m of
          None \<Rightarrow> None
        | Some hm \<Rightarrow>
           (let ii = GeScalarMult x hm;
                iiB = Extended_ToBytes ii;
                rH = shake (skhr @ drop 32 sk @ m) 64;
                r = ScReduce rH;
                gr = GeScalarMultBase r;
                hr = GeScalarMult r hm;
                grB = Extended_ToBytes gr;
                hrB = Extended_ToBytes hr;
                cH = shake (grB @ hrB @ m) 64;
                c = ScReduce cH;
                minusC = ScNeg c;
                t = ScMulAdd x minusC r;
                proof = c @ t @ iiB
            in Some (shake (iiB @ m) 32, proof)))"

definition vrf_Verify :: "shake \<Rightarrow> bytes \<Rightarrow> bytes \<Rightarrow> bytes \<Rightarrow> bytes \<Rightarrow> bool option" where
  "vrf_Verify shake pkBytes m vrfBytes proof =
    (if length proof \<noteq> 96 \<or> length vrfBytes \<noteq> 32 \<or> length pkBytes \<noteq> 32 then Some False
     else
      (let c = take 32 proof;
           t = take 32 (drop 32 proof);
           iiB = drop 64 proof
       in if shake (iiB @ m) 32 \<noteq> vrfBytes then Some False
          else
           (let (okP, P) = FromBytesBaseGroup ge_var pkBytes
            in if \<not> okP then Some False
               else
                (let (okI, ii) = FromBytesBaseGroup ge_var iiB
                 in if \<not> okI then Some False
                    else
                     (let A = GeDoubleScalarMultVartime c P t;
                          ABytes = Projective_ToBytes A
                      in case hashToCurve shake m of
                           None \<Rightarrow> None
                         | Some hm \<Rightarrow>
                            (let hmtP = GeDoubleScalarMultVartime t hm (replicate 32 0);
                                 iicP = GeDoubleScalarMultVartime c ii (replicate 32 0);
                                 iic = Projective_ToExtended ge_var iicP;
                                 B = Projective_ToExtended ge_var hmtP;
                                 B = GeAdd B iic;
                                 BBytes = Extended_ToBytes B;
                                 cH = shake (ABytes @ BBytes @ m) 64;
                                 cRef = ScReduce cH
                             in Some (cRef = c)))))))"

section \<open>Signatures\<close>

definition ed_GenerateKey :: "(bytes \<Rightarrow> bytes) \<Rightarrow> bytes \<Rightarrow> (bytes \<times> bytes) option" where
  "ed_GenerateKey sha512 rand =
    (if length rand < 32 then None
     else
      (let digest = sha512 (take 32 rand);
           digest = digest[0 := digest ! 0 AND 248];
           digest = digest[31 := digest ! 31 AND 127];
           digest = digest[31 := digest ! 31 OR 64];
           A = GeScalarMultBase (take 32 digest);
           publicKey = Extended_ToBytes A
       in Some (publicKey, take 32 rand @ publicKey)))"

definition ed_Sign :: "(bytes \<Rightarrow> bytes) \<Rightarrow> bytes \<Rightarrow> bytes \<Rightarrow> bytes" where
  "ed_Sign sha512 privateKey message =
    (let digest1 = sha512 (take 32 privateKey);
         expandedSecretKey = take 32 digest1;
         expandedSecretKey = expandedSecretKey[0 := expandedSecretKey ! 0 AND 248];
         expandedSecretKey = expandedSecretKey[31 := expandedSecretKey ! 31 AND 63];
         expandedSecretKey = expandedSecretKey[31 := expandedSecretKey ! 31 OR 64];
         messageDigest = sha512 (drop 32 digest1 @ message);
         messageDigestReduced = ScReduce messageDigest;
         R = GeScalarMultBase messageDigestReduced;
         encodedR = Extended_ToBytes R;
         hramDigest = sha512 (encodedR @ drop 32 privateKey @ message);
         hramDigestReduced = ScReduce hramDigest;
         s = ScMulAdd hramDigestReduced expandedSecretKey messageDigestReduced
     in encodedR @ s)"

definition ed_Verify :: "(bytes \<Rightarrow> bytes) \<Rightarrow> bytes \<Rightarrow> bytes \<Rightarrow> bytes \<Rightarrow> bool" where
  "ed_Verify sha512 publicKey message sig =
    (if sig ! 63 AND 224 \<noteq> 0 then False
     else
      (let (ok, A) = Extended_FromBytes ge_var publicKey
       in if \<not> ok then False
          else
           (let A = A\<lparr>exX := FeNeg (exX A)\<rparr>;
                A = A\<lparr>exT := FeNeg (exT A)\<rparr>;
                digest = sha512 (take 32 sig @ publicKey @ message);
                hReduced = ScReduce digest;
                b = drop 32 sig;
                R = GeDoubleScalarMultVartime hReduced A b;
                checkR = Projective_ToBytes R
            in take 32 sig = checkR)))"

section \<open>Shapes and secrets\<close>

lemma encode_length [simp]: "length (Extended_ToBytes p) = 32"
  by (simp add: Extended_ToBytes_def ge_encode_def FeToBytes_def fe_store_def Let_def)

lemma expand_secret: "expandSecret shake sk = (clamp (take 32 (shake (take 32 sk) 64)), drop 32 (shake (take 32 sk) 64))"
  by (simp add: expandSecret_def clamp_def Let_def)

text \<open>The signature masks the top byte with 63 where key generation masks it with 127; with the bit that is set
  next both give the same secret.\<close>

lemma clamp_masks: "(w AND 63) OR 64 = (w AND 127) OR (64 :: byte)"
proof -
  have m: "(127 :: byte) = mask 7" "(63 :: byte) = mask 6" by (simp_all add: mask_eq_exp_minus_1)
  have "bit ((w AND mask 6) OR 64) n = bit ((w AND mask 7) OR (64 :: byte)) n" for n
    by (cases "n = 6") (auto simp: bit_simps)
  then show ?thesis unfolding m by (rule bit_eqI)
qed

lemma small_top_byte: "uint (w :: byte) < 32 \<Longrightarrow> w AND 224 = 0"
proof -
  assume "uint w < 32"
  then have "w = take_bit 5 w" by (simp add: word_uint_eq_iff unsigned_take_bit_eq take_bit_int_eq_self)
  moreover have "(224 :: byte) = NOT (mask 5)" by (simp add: mask_eq_exp_minus_1 not_eq_complement)
  moreover have "take_bit 5 w AND NOT (mask 5) = 0" by (rule bit_word_eqI) (auto simp: bit_simps)
  ultimately show ?thesis by metis
qed

lemma reduced_top: "length s = 32 \<Longrightarrow> le_int s < ell \<Longrightarrow> uint (s ! 31) < 32"
proof -
  assume l: "length s = 32" and "le_int s < ell"
  then have "le_int s div 2 ^ 248 \<le> (2 ^ 253 - 1) div 2 ^ 248" by (intro zdiv_mono1) (simp_all add: ell_def)
  then show ?thesis using le_int_top [OF l] by simp
qed

lemma ell_pos: "0 < ell"
  by (simp add: ell_def)

text \<open>The response \<^verbatim>\<open>t = r - cx\<close> of a proof.\<close>

lemma response:
  assumes "length x = 32" and "length c = 32" and "length r = 32" and "le_int c < ell" and "le_int r < ell"
  defines "t \<equiv> ScMulAdd x (ScNeg c) r"
  shows "length t = 32" and "le_int t < ell" and "(le_int t + le_int c * le_int x) mod ell = le_int r"
proof -
  have n: "length (ScNeg c) = 32" "le_int (ScNeg c) = ell - le_int c" using sc_neg_diff [OF assms(2)] assms(4) by auto
  have t: "length t = 32" "le_int t = (le_int x * (ell - le_int c) + le_int r) mod ell"
    using ScMulAdd_ok [OF assms(1) n(1) assms(3)] n(2) by (simp_all add: t_def)
  show "length t = 32" "le_int t < ell" using t ell_pos by simp_all
  have "(le_int t + le_int c * le_int x) mod ell = (le_int x * (ell - le_int c) + le_int r + le_int c * le_int x) mod ell"
    unfolding t(2) by (rule mod_add_left_eq)
  also have "le_int x * (ell - le_int c) + le_int r + le_int c * le_int x = le_int r + le_int x * ell" by (simp add: algebra_simps)
  also have "(le_int r + le_int x * ell) mod ell = le_int r" using le_int_bound [of r] assms(5) by simp
  finally show "(le_int t + le_int c * le_int x) mod ell = le_int r" .
qed

lemma reduce: "length s = 64 \<Longrightarrow> length (ScReduce s) = 32 \<and> le_int (ScReduce s) < ell"
  using ScReduce_ok [of s] ell_pos by simp

section \<open>Properties of the protocols\<close>

text \<open>C38. Proofs: when the message hashes to the curve, \<^verbatim>\<open>Prove\<close> returns the value that \<^verbatim>\<open>Compute\<close> returns, of 32 bytes, with a proof of
  96 bytes whose challenge \<open>c\<close> and response \<open>t\<close> are reduced and satisfy \<open>t + cx = r\<close> modulo the order, for the clamped
  secret \<open>x\<close> and the nonce \<open>r\<close>; otherwise both fail.\<close>

theorem vrf_prove_compute:
  assumes "shake_ok shake"
  shows "case vrf_Prove shake m sk of
      None \<Rightarrow> hashToCurve shake m = None \<and> vrf_Compute shake m sk = None
    | Some (v, pf) \<Rightarrow> vrf_Compute shake m sk = Some v \<and> length v = 32 \<and> length pf = 96
        \<and> (let (x, skhr) = expandSecret shake sk; c = le_int (take 32 pf); t = le_int (take 32 (drop 32 pf))
           in c < ell \<and> t < ell \<and> (t + c * le_int x) mod ell = le_int (ScReduce (shake (skhr @ drop 32 sk @ m) 64)))"
proof (cases "hashToCurve shake m")
  case None
  then show ?thesis by (simp add: vrf_Prove_def vrf_Compute_def expand_secret)
next
  case (Some hm)
  have l: "length (shake u n) = n" for u n using assms by (simp add: shake_ok_def)
  obtain x skhr where e: "expandSecret shake sk = (x, skhr)" by (cases "expandSecret shake sk")
  have x: "length x = 32" using e clamp_range [of "take 32 (shake (take 32 sk) 64)"] by (simp add: expand_secret l)
  define r where "r = ScReduce (shake (skhr @ drop 32 sk @ m) 64)"
  define c where "c = ScReduce (shake (Extended_ToBytes (GeScalarMultBase r) @ Extended_ToBytes (GeScalarMult r hm) @ m) 64)"
  have rc: "length r = 32" "le_int r < ell" "length c = 32" "le_int c < ell" using reduce l by (simp_all add: r_def c_def)
  note t = response [OF x rc(3,1,4,2)]
  have "vrf_Prove shake m sk = Some (shake (Extended_ToBytes (GeScalarMult x hm) @ m) 32, c @ ScMulAdd x (ScNeg c) r @ Extended_ToBytes (GeScalarMult x hm))"
    using Some e by (simp add: vrf_Prove_def r_def c_def Let_def)
  moreover have "vrf_Compute shake m sk = Some (shake (Extended_ToBytes (GeScalarMult x hm) @ m) 32)"
    using Some e by (simp add: vrf_Compute_def Let_def)
  ultimately show ?thesis using t rc e l by (simp add: Let_def r_def)
qed

theorem vrf_prove_compute_witness:
  "vrf_Compute (\<lambda>m n. replicate n 0) [1] (replicate 64 2) = map_option fst (vrf_Prove (\<lambda>m n. replicate n 0) [1] (replicate 64 2))"
proof -
  have "shake_ok (\<lambda>m n. replicate n 0)" by (simp add: shake_ok_def)
  from vrf_prove_compute [OF this, of "[1]" "replicate 64 2"] show ?thesis by (auto split: option.splits)
qed

text \<open>C39. Rejection: \<^verbatim>\<open>Verify\<close> returns false, without hashing to the curve, when a length is wrong, when the value is not the hash
  of the proof's point and the message, and when the public key or the proof's point is zero, the neutral point or not reduced.\<close>

theorem vrf_verify_rejects:
  assumes "length pf \<noteq> 96 \<or> length v \<noteq> 32 \<or> length pk \<noteq> 32 \<or> shake (drop 64 pf @ m) 32 \<noteq> v
    \<or> (\<exists>b \<in> {pk, drop 64 pf}. fe_p \<le> le_int b mod 2 ^ 255 \<or> le_int b = 0 \<or> le_int b = 1)"
  shows "vrf_Verify shake pk m v pf = Some False"
proof (cases "length pf = 96 \<and> length v = 32 \<and> length pk = 32 \<and> shake (drop 64 pf @ m) 32 = v")
  case True
  have no: "\<not> fst (FromBytesBaseGroup ge_var b)" if "length b = 32" "fe_p \<le> le_int b mod 2 ^ 255 \<or> le_int b = 0 \<or> le_int b = 1" for b
    using base_group_iff [OF that(1), of ge_var "snd (FromBytesBaseGroup ge_var b)"] that(2) by (auto simp: prod_eq_iff)
  have "\<not> fst (FromBytesBaseGroup ge_var pk) \<or> \<not> fst (FromBytesBaseGroup ge_var (drop 64 pf))"
    using assms True no [of pk] no [of "drop 64 pf"] by auto
  then show ?thesis using True by (auto simp: vrf_Verify_def Let_def split: prod.splits)
qed (auto simp: vrf_Verify_def)

theorem vrf_verify_rejects_witness: "vrf_Verify (\<lambda>m n. replicate n 0) (replicate 32 0) [] (replicate 32 0) (replicate 96 0) = Some False"
  by (rule vrf_verify_rejects) (simp add: le_int_def)

text \<open>C40. Signatures: \<^verbatim>\<open>Sign\<close> returns 64 bytes whose response is \<open>ha + r\<close> modulo the order, for the secret \<open>a\<close> that \<^verbatim>\<open>GenerateKey\<close> multiplies the base
  point by, although the two mask it differently; \<^verbatim>\<open>Verify\<close> does not turn the signature away for its size.\<close>

theorem ed_sign_response:
  assumes "\<forall>b. length (sha512 b) = 64"
  shows "let sig = ed_Sign sha512 sk msg; d = sha512 (take 32 sk); a = clamp (take 32 d);
      h = ScReduce (sha512 (take 32 sig @ drop 32 sk @ msg)); r = ScReduce (sha512 (drop 32 d @ msg))
    in length sig = 64 \<and> le_int (drop 32 sig) = (le_int h * le_int a + le_int r) mod ell \<and> sig ! 63 AND 224 = 0
      \<and> (\<forall>rnd. take 32 rnd = take 32 sk \<and> 32 \<le> length rnd \<longrightarrow>
          map_option fst (ed_GenerateKey sha512 rnd) = Some (Extended_ToBytes (GeScalarMultBase a)))"
proof -
  define d where "d = sha512 (take 32 sk)"
  define a where "a = clamp (take 32 d)"
  define r where "r = ScReduce (sha512 (drop 32 d @ msg))"
  define R where "R = Extended_ToBytes (GeScalarMultBase r)"
  define h where "h = ScReduce (sha512 (R @ drop 32 sk @ msg))"
  have la: "length a = 32" using clamp_range [of "take 32 d"] assms by (simp add: a_def d_def)
  have lr: "length r = 32" "length h = 32" "length R = 32" using reduce assms by (simp_all add: r_def h_def R_def)
  have sig: "ed_Sign sha512 sk msg = R @ ScMulAdd h a r"
    using assms by (simp add: ed_Sign_def Let_def clamp_def clamp_masks a_def d_def r_def h_def R_def)
  note s = ScMulAdd_ok [OF lr(2) la lr(1)]
  have "ScMulAdd h a r ! 31 AND 224 = 0" using s ell_pos reduced_top small_top_byte by simp
  moreover have "(R @ ScMulAdd h a r) ! 63 = ScMulAdd h a r ! 31" using lr(3) by (simp add: nth_append)
  moreover have "map_option fst (ed_GenerateKey sha512 rnd) = Some (Extended_ToBytes (GeScalarMultBase a))"
    if "take 32 rnd = take 32 sk" "32 \<le> length rnd" for rnd
    using that assms by (simp add: ed_GenerateKey_def Let_def clamp_def a_def d_def take_update_swap)
  ultimately show ?thesis unfolding sig Let_def using s lr by (simp add: a_def d_def r_def h_def)
qed

theorem ed_sign_response_witness: "ed_Sign (\<lambda>_. replicate 64 0) (replicate 64 0) [] ! 63 AND 224 = 0"
  using ed_sign_response [of "\<lambda>_. replicate 64 0" "replicate 64 0" "[]"] by (simp add: Let_def)

end
