(* ===== verification/Spec2Isabelle.thy ===== *)
theory Spec2Isabelle
  imports Prelude Ssi Kv Onl_State Onl_Block Onl_Chain Onl_Engine Wall Wall_Chain Tlog Tlog_Tile Slot Slot_Round Rev Topn Limbs Scalar Field25519 Field_Bytes
    Group25519 Recode Multiply Decode Base_Table Elligator Vrf25519
begin

text \<open>
  \<^bold>\<open>A decentralised transactional key-value store.\<close> The repository grows a proof-of-stake block
  chain whose blocks carry transactions on a key-value store. The live code is package \<open>onl\<close>
  (\<^verbatim>\<open>src/exp/onl\<close>) with its serializable database (\<^verbatim>\<open>ssi\<close>), its member process (\<^verbatim>\<open>engine\<close>), a
  currency-only variant of the chain (\<^verbatim>\<open>wall\<close>) and a tamper-evident log for archived data
  (\<^verbatim>\<open>tlog\<close>). Beside it the repository holds earlier prototypes of the consensus.

  \<^bold>\<open>How the parts interact.\<close> A client runs a transaction against a snapshot of the database; the rows
  it read and the changes it made travel in a signed write. A member collects writes in a pool, picks
  those that still commit, signs a block with its VRF token and broadcasts it. A member that receives
  a block delays it until its predecessor is known, checks it, re-executes its writes on the state
  rebuilt from the chain, stores it, re-weighs the blocks of its round and moves the tip.

  \<^bold>\<open>Theories and sources.\<close>
  \<^item> \<open>Prelude\<close>: bytes, 64-bit words, results (\<open>Ok\<close>, \<open>Err\<close>, \<open>Panic\<close>), big-endian encodings, maps.
  \<^item> \<open>Ssi\<close>: \<^verbatim>\<open>ssi/keys.go\<close>, \<^verbatim>\<open>oracle.go\<close>, \<^verbatim>\<open>tx.go\<close>, \<^verbatim>\<open>db.go\<close>. Transactions are records of a snapshot, read rows
    and changes; \<open>DB_Commit\<close> is the commit branch of the database goroutine with its oracle. Shown:
    commits that succeed are serializable, what a commit changes, and two ways in which the guarantee
    fails (a dry run, forged read rows).
  \<^item> \<open>Kv\<close>: \<^verbatim>\<open>kv.go\<close>. Balances and deposits as rows. The interface to the store is the locale \<open>kv_store\<close>,
    interpreted on the transactions of \<open>Ssi\<close>. Shown: transfers conserve the total, deposits lock.
  \<^item> \<open>Onl_State\<close>: \<^verbatim>\<open>write.go\<close>, \<^verbatim>\<open>state.go\<close>. Shown: no write is applied twice, an update applies on the
    state it was made on, the hash of a write does not depend on map order.
  \<^item> \<open>Onl_Block\<close>: \<^verbatim>\<open>block.go\<close>, \<^verbatim>\<open>stakes.go\<close>, \<^verbatim>\<open>identity.go\<close>, \<^verbatim>\<open>store.go\<close>. The \<^verbatim>\<open>Tx\<close> interface of the block store
    is the locale \<open>block_store\<close>, interpreted on \<^verbatim>\<open>BadgerTx\<close>. Shown: stored blocks read back.
  \<^item> \<open>Onl_Chain\<close>: \<^verbatim>\<open>chain.go\<close>. \<open>Chain_Append\<close> with all its checks over a \<open>block_store\<close>. Shown: what an
    accepted block satisfies, that appending returns on stores linked to the genesis, how a round is
    weighed, and that the largest round number never succeeds.
  \<^item> \<open>Onl_Engine\<close>: \<^verbatim>\<open>engine/engine.go\<close>, \<^verbatim>\<open>ooo.go\<close>, \<^verbatim>\<open>mempool.go\<close>, \<^verbatim>\<open>broadcast.go\<close>. A step relation of the member
    over the messages it receives, the out-of-order buffer and the pool of writes. Shown: an invariant
    of all reachable members, that the buffer delivers once and in order of dependency, that the
    writes picked for a block apply.
  \<^item> \<open>Wall\<close>, \<open>Wall_Chain\<close>: \<^verbatim>\<open>wall/*.go\<close>, \<^verbatim>\<open>wall/chain/chain.go\<close>. Transfers over unspent outputs, blocks with
    votes and witnesses, the in-memory chain. Shown: transfers conserve the total, the index of unspent
    outputs refines spending the transfers of the chain in order, appending is total and keeps the
    invariant of the chain, a voter has at most one block per round.
  \<^item> \<open>Tlog\<close>: \<^verbatim>\<open>tlog/tlog.go\<close>, the hash file of \<^verbatim>\<open>storage.go\<close>. The reference is the Merkle tree of RFC 6962
    (\<open>mth\<close>, \<open>audit_path\<close>, \<open>subproof\<close>). A reader of stored hashes is the locale \<open>hash_reader\<close>, interpreted
    on the file. Shown: the stored hashes refine the tree, proofs are those of the RFC and are accepted,
    an accepted proof is right or yields a collision, the storage order is inverted by
    \<^verbatim>\<open>SplitStoredHashIndex\<close>.
  \<^item> \<open>Tlog_Tile\<close>: \<^verbatim>\<open>tlog/tile.go\<close>, the tile directory of \<^verbatim>\<open>storage.go\<close>. Shown: hashes read back from tiles,
    tile paths parse back, and the gap in the authentication of tiles.
  \<^item> \<open>Slot\<close>: \<^verbatim>\<open>slot/msg.go\<close>, \<^verbatim>\<open>seed.go\<close>, \<^verbatim>\<open>chain.go\<close>, \<^verbatim>\<open>voter.go\<close>, \<^verbatim>\<open>ooo.go\<close>, \<^verbatim>\<open>engine.go\<close>. An earlier design in which
    members vote for proposals before they are appended. The engine's mutex is part of its state, so a
    handler that locks it twice has the value \<open>None\<close>. Shown: appending keeps ranks and links of the chain,
    every block of a run has more than the required number of verified vote tickets, a voter keeps the
    highest proposals, blocks decode back, and \<^verbatim>\<open>HandleVote\<close> blocks itself when messages wait for its block.
  \<^item> \<open>Slot_Round\<close>: \<^verbatim>\<open>slot/round.go\<close>, \<^verbatim>\<open>broadcast2.go\<close>. The second design: members draw tickets, and the ballot of a
    round counts votes on proposals. Shown: an accepted proposal has a majority of different voters behind it,
    a round with enough votes completes in whatever order they arrive, messages decode back, and the
    orders of messages on which a round panics.
  \<^item> \<open>Rev\<close>: \<^verbatim>\<open>rev/*.go\<close>. A design in which a proposal names proposals of the round before as witnesses. Shown: an
    engine handles every sequence of proposals to its end, its blocks are witnessed, and the buffer
    delivers a proposal after its witnesses.
  \<^item> \<open>Topn\<close>: \<^verbatim>\<open>topn/*.go\<close>. A design in which the rank of a block in its round gives its weight. Shown: the weights
    of reachable chains, what appending keeps, and that the tip need not stay the heaviest block.
  \<^item> \<open>Limbs\<close>, \<open>Scalar\<close>, \<open>Field25519\<close>, \<open>Field_Bytes\<close>: the arithmetic of
    \<^verbatim>\<open>vrf/ed25519/edwards25519/edwards25519.go\<close>. Numbers are arrays of signed machine words. \<open>Limbs\<close> holds the carry steps
    both moduli share, their meaning on integers and an interval analysis that the kernel evaluates to
    exclude overflow. Shown: \<^verbatim>\<open>ScMulAdd\<close> and \<^verbatim>\<open>ScReduce\<close> return the canonical residue modulo the order of the base
    point for all inputs; \<^verbatim>\<open>FeMul\<close>, \<^verbatim>\<open>FeSquare\<close>, \<^verbatim>\<open>FeInvert\<close> compute modulo \<open>2 ^ 255 - 19\<close> within the bounds that
    their callers rely on; encodings are canonical and decode back.
  \<^item> \<open>Group25519\<close>, \<open>Recode\<close>, \<open>Multiply\<close>, \<open>Decode\<close>, \<open>Base_Table\<close>: the points of that file and the tables of \<^verbatim>\<open>const.go\<close>. The specification
    is the addition law of the curve on affine coordinates in the ring \<open>fp\<close> of residues, and a family of points that
    the law composes (\<open>point_family\<close>). Shown: each operation represents the sum, the double or the multiple that it
    should, from all representations within its bounds; the digits into which scalars are recoded stand
    for them; decoded points are on the curve and encode back canonically; the table of the source is within
    the bounds.
  \<^item> \<open>Elligator\<close>, \<open>Vrf25519\<close>: \<^verbatim>\<open>vrf/ed25519/extra25519/extra25519.go\<close>, \<^verbatim>\<open>vrf/vrf.go\<close>, \<^verbatim>\<open>vrf/ed25519/ed25519.go\<close>. Shown: the powers that the
    chains of squarings compute, what the comparison of bytes decides, that proofs carry the value of \<^verbatim>\<open>Compute\<close> and
    a response that solves their equation, what \<^verbatim>\<open>Verify\<close> rejects, and the response of signatures.

  \<^bold>\<open>Conventions.\<close> Definitions keep the Go names, prefixed by the receiver's type where two methods
  share a name. State is passed explicitly: a method returns its receiver as it leaves it, also when it
  fails. \<^verbatim>\<open>uint64\<close> is \<open>64 word\<close> and wraps; the \<^verbatim>\<open>int64\<close> of \<^verbatim>\<open>tlog\<close> is an \<open>int\<close> that is reduced by \<open>i64\<close> where
  it can overflow. A Go map that is iterated is an association list in the order of iteration, and the
  properties hold for every such order. A loop that may not end is a \<open>partial_function (option)\<close> and a
  call that does not return has the value \<open>None\<close>; properties about results prove that there is one.

  \<^bold>\<open>Parameters.\<close> Code that is not in the repository is a parameter with the contract the code relies on:
  the immutable radix tree (\<open>iradix_ok\<close>), Badger transactions (\<open>badger_ok\<close>), gob (\<open>gob_ok\<close>), the order of
  sorting (\<open>rank_sort_ok\<close>, \<open>perm_sort\<close>, \<open>sort_ok\<close>), ed25519 and the VRF (\<open>vrf_ok\<close>), SHA-256; for the
  prototypes \<open>gob2_ok\<close>, \<open>lottery_ok\<close>, \<open>topn_sort_ok\<close> and hashes that are apart on the blocks at hand (\<open>apart\<close>);
  for the VRF, SHAKE256 (\<open>shake_ok\<close>) and SHA-512. The other components take the VRF and ed25519 as parameters. Every property that uses a
  contract has a witness that satisfies it. Where a property speaks of hashes it does not assume that
  SHA-256 is injective: it shows the collision.

  \<^bold>\<open>Bounds.\<close> The properties of \<open>Tlog\<close> hold for logs below \<open>2 ^ 62\<close> records (\<open>2 ^ 61\<close> where an index is
  split), beyond which \<^verbatim>\<open>maxpow2\<close> does not return; termination of \<open>Chain_Append\<close> needs rounds below
  \<open>2 ^ 64 - 1\<close>, since the round counter of \<^verbatim>\<open>weigh\<close> wraps, and so does that of \<open>Topn\<close>. Field elements are \<open>fe_tight\<close> (limbs
  of 1.1 times \<open>2 ^ 25\<close> and \<open>2 ^ 24\<close>) as results and \<open>fe_loose\<close> (three times that) as factors. That the modulus is prime is not
  proved: the addition law is stated with denominators that are units, encoding a point assumes that Fermat's theorem
  holds for its denominator (\<open>fermat\<close>), which is one after decoding, and no property says that a hash has a square root.

  \<^bold>\<open>Not modelled.\<close> Goroutines and timers, and locks other than that of \<open>Slot\<close> (each handler runs to its end); network, TLS, files and
  database opening; printing and base64; float64 and decimal arithmetic (\<^verbatim>\<open>Stakes.Finalization\<close>,
  package \<^verbatim>\<open>thr\<close>); the agent, the examples and simulators; the prototypes \<^verbatim>\<open>tt\<close>, \<^verbatim>\<open>ttl\<close>, \<^verbatim>\<open>ripple\<close>, \<^verbatim>\<open>btree\<close>, \<^verbatim>\<open>tlog_old\<close> and
  the in-memory broadcasts of \<^verbatim>\<open>rev\<close> and \<^verbatim>\<open>topn\<close>; sortition. The entries of the two tables of multiples of the base
  point are modelled; that they are its multiples is a hypothesis (\<open>odd_table\<close>, \<open>base_table\<close>) of the properties of the multiplications.

  \<^bold>\<open>Plan.\<close> Next are the completeness of the tile reader on honest tiles, the record and tree notes of \<^verbatim>\<open>tlog\<close>,
  and the in-memory clock and broadcast of \<^verbatim>\<open>engine\<close>.
\<close>

end
